(* ===== verification/AVB_Prelude.thy ===== *)
theory AVB_Prelude
  imports Main "HOL-Library.Word"
begin

text \<open>
  Shared vocabulary of the development: the result type of operations that the C++ code
  leaves undefined on some inputs, cyclic distances for ring buffers and open addressing,
  lemmas on lists that are updated by index, and the theorem collections the component
  theories add to.
\<close>

unbundle bit_operations_syntax

section \<open>Collections of rewrite rules\<close>

named_theorems flag_simps \<open>bit flags of edges and versions\<close>
named_theorems store_simps \<open>reads of a store after a write\<close>
named_theorems step_defs \<open>definitions of the steps of a state machine\<close>

section \<open>Results of operations that can go wrong\<close>

text \<open>
  \<open>Inl\<close> carries what the machine would do instead of returning: read or write outside an
  allocation, follow a null or an uninitialised pointer, wait for a lock that its own thread
  holds, or divide by zero.
\<close>

datatype fault = OutOfBounds | NullDeref | WildPointer | Deadlock | AssertFail | LoopsForever | DivByZero

type_synonym 'a res = "fault + 'a"

definition bind_res :: "'a res \<Rightarrow> ('a \<Rightarrow> 'b res) \<Rightarrow> 'b res" where
  "bind_res m f = (case m of Inl x \<Rightarrow> Inl x | Inr y \<Rightarrow> f y)"

lemma bind_res_simps [simp]:
  "bind_res (Inr x) f = f x"
  "bind_res (Inl y) f = Inl y"
  by (simp_all add: bind_res_def)

lemma bind_res_Inr_iff:
  "bind_res m f = Inr y \<longleftrightarrow> (\<exists>x. m = Inr x \<and> f x = Inr y)"
  by (cases m) auto

section \<open>Cyclic distance in a ring of slots\<close>

definition cdist :: "nat \<Rightarrow> nat \<Rightarrow> nat \<Rightarrow> nat" where
  "cdist n a b = (if a \<le> b then b - a else n + b - a)"

definition cnext :: "nat \<Rightarrow> nat \<Rightarrow> nat" where
  "cnext n i = (if i + 1 \<ge> n then 0 else i + 1)"

lemma cdist_less: "a < n \<Longrightarrow> b < n \<Longrightarrow> cdist n a b < n"
  by (auto simp: cdist_def)

lemma cdist_self [simp]: "cdist n a a = 0"
  by (simp add: cdist_def)

lemma cdist_eq_0_iff: "a < n \<Longrightarrow> b < n \<Longrightarrow> cdist n a b = 0 \<longleftrightarrow> a = b"
  by (auto simp: cdist_def split: if_splits)

lemma cnext_less: "0 < n \<Longrightarrow> cnext n i < n"
  by (auto simp: cnext_def)

lemma cnext_mod: "i < n \<Longrightarrow> cnext n i = (i + 1) mod n"
  by (auto simp: cnext_def mod_Suc)

lemma cdist_cnext_left:
  "a < n \<Longrightarrow> b < n \<Longrightarrow> a \<noteq> b \<Longrightarrow> cdist n (cnext n a) b = cdist n a b - 1"
  by (auto simp: cdist_def cnext_def)

lemma cdist_cnext_right:
  "a < n \<Longrightarrow> b < n \<Longrightarrow> cnext n b \<noteq> a \<Longrightarrow> cdist n a (cnext n b) = Suc (cdist n a b)"
  by (auto simp: cdist_def cnext_def split: if_splits)

lemma cdist_inj: "a < n \<Longrightarrow> b < n \<Longrightarrow> c < n \<Longrightarrow> cdist n a b = cdist n a c \<longleftrightarrow> b = c"
  by (auto simp: cdist_def split: if_splits)

text \<open>\<open>q\<close> lies on the way from \<open>h\<close> to \<open>p\<close>, \<open>h\<close> included and \<open>p\<close> excluded.\<close>

definition on_way :: "nat \<Rightarrow> nat \<Rightarrow> nat \<Rightarrow> nat \<Rightarrow> bool" where
  "on_way n h p q \<longleftrightarrow> cdist n h q < cdist n h p"

lemma on_way_between:
  "h < n \<Longrightarrow> p < n \<Longrightarrow> i < n \<Longrightarrow> j < n \<Longrightarrow> on_way n h p i \<Longrightarrow>
   cdist n i j < cdist n i p \<Longrightarrow> on_way n h p j"
  by (auto simp: on_way_def cdist_def split: if_splits)

lemma on_way_cmp:
  "h < n \<Longrightarrow> p < n \<Longrightarrow> i < n \<Longrightarrow>
   on_way n h p i \<longleftrightarrow> (if h \<le> p then h \<le> i \<and> i < p else h \<le> i \<or> i < p)"
  by (auto simp: on_way_def cdist_def)

lemma on_way_trans_prefix:
  "h < n \<Longrightarrow> p < n \<Longrightarrow> i < n \<Longrightarrow> q < n \<Longrightarrow> on_way n h p i \<Longrightarrow> on_way n h i q \<Longrightarrow> on_way n h p q"
  by (auto simp: on_way_def)

section \<open>Lists that are written by index\<close>

lemma set_list_update_distinct:
  "i < length xs \<Longrightarrow> distinct xs \<Longrightarrow> set (xs[i := x]) = insert x (set xs - {xs ! i})"
  by (rule set_update_distinct)

lemma list_update_nth_eq_iff:
  "i < length xs \<Longrightarrow> xs[i := x] ! j = (if j = i then x else xs ! j)"
  by (simp add: nth_list_update)

lemma takeWhile_sorted_filter:
  "sorted_wrt R xs \<Longrightarrow> (\<And>x y. R x y \<Longrightarrow> P y \<Longrightarrow> P x) \<Longrightarrow> takeWhile P xs = filter P xs"
proof (induction xs)
  case (Cons x xs)
  show ?case
  proof (cases "P x")
    case True
    with Cons show ?thesis by simp
  next
    case False
    with Cons.prems have "\<forall>y \<in> set xs. \<not> P y" by auto
    with False show ?thesis by (simp add: filter_empty_conv)
  qed
qed simp

lemma takeWhile_snoc_not: "\<not> P y \<Longrightarrow> takeWhile P (xs @ [y]) = takeWhile P xs"
  by (induction xs) auto

lemma sum_list_map_filter_split:
  "(\<Sum>x\<leftarrow>xs. f x) = (\<Sum>x\<leftarrow>filter P xs. f x) + (\<Sum>x\<leftarrow>filter (\<lambda>x. \<not> P x) xs. (f x :: int))"
  by (induction xs) auto

section \<open>Folds that can fail\<close>

fun foldM :: "('a \<Rightarrow> 's \<Rightarrow> 's option) \<Rightarrow> 'a list \<Rightarrow> 's \<Rightarrow> 's option" where
  "foldM f [] s = Some s"
| "foldM f (x # xs) s = (case f x s of None \<Rightarrow> None | Some s' \<Rightarrow> foldM f xs s')"

lemma foldM_append: "foldM f (xs @ ys) s = Option.bind (foldM f xs s) (foldM f ys)"
  by (induction xs arbitrary: s) (auto split: option.split)

fun foldR :: "('a \<Rightarrow> 's \<Rightarrow> 's res) \<Rightarrow> 'a list \<Rightarrow> 's \<Rightarrow> 's res" where
  "foldR f [] s = Inr s"
| "foldR f (x # xs) s = bind_res (f x s) (foldR f xs)"

lemma foldR_invariant:
  "foldR f xs s = Inr s' \<Longrightarrow> P s \<Longrightarrow>
   (\<And>x s s'. x \<in> set xs \<Longrightarrow> P s \<Longrightarrow> f x s = Inr s' \<Longrightarrow> P s') \<Longrightarrow> P s'"
  by (induction xs arbitrary: s) (auto simp: bind_res_Inr_iff)

lemma foldR_append: "foldR f (xs @ ys) s = bind_res (foldR f xs s) (foldR f ys)"
proof (induction xs arbitrary: s)
  case (Cons x xs)
  then show ?case by (cases "f x s") auto
qed simp

text \<open>A counting loop whose body keeps an invariant returns and ends in it.\<close>

lemma foldR_upt:
  assumes "P 0 s"
    and "\<And>i s. i < n \<Longrightarrow> P i s \<Longrightarrow> \<exists>s'. f i s = Inr s' \<and> P (Suc i) s'"
  shows "\<exists>s'. foldR f [0..<n] s = Inr s' \<and> P n s'"
  using assms(2)
proof (induction n)
  case 0
  with assms(1) show ?case by simp
next
  case (Suc n)
  then obtain s1 where "foldR f [0..<n] s = Inr s1" "P n s1" by (metis less_Suc_eq)
  moreover obtain s2 where "f n s1 = Inr s2" "P (Suc n) s2" using Suc.prems [of n s1] \<open>P n s1\<close> by auto
  ultimately show ?case by (auto simp: foldR_append)
qed

end
