(* ===== verification/AVB_Types.thy ===== *)
theory AVB_Types
  imports AVB_Prelude
begin

text \<open>
  The scalar types, flags and small structs of \<open>data-structure/data_types.h\<close> and
  \<open>data_types.cpp\<close>: identifiers and epochs at their machine width, the composite
  timestamp with its order, the flag bits of versions, and the edge structs with their
  comparison operators.
\<close>

type_synonym vertex_id_t = "64 word"
type_synonym dst_t = "64 word"
type_synonym weight_t = "64 word"
type_synonym version_t = "64 word"
type_synonym epoch_t = "32 word"
type_synonym intra_t = "32 word"

definition INTRA_MAX :: intra_t where
  "INTRA_MAX = 0xFFFFFFFF"

definition TMPVB_MASK :: "32 word" where
  "TMPVB_MASK = 0x80000000"

definition MORE_VERSION_MASK :: version_t where
  "MORE_VERSION_MASK = 0x4000000000000000"

definition DELETION_MASK :: "64 word" where
  "DELETION_MASK = 0x8000000000000000"

section \<open>Composite timestamps\<close>

datatype composite = Composite (comp_e: epoch_t) (comp_i: intra_t)

definition composite_zero :: composite where
  "composite_zero = Composite 0 0"

text \<open>\<open>operator<\<close> and \<open>operator<=\<close>.\<close>

fun composite_less :: "composite \<Rightarrow> composite \<Rightarrow> bool" where
  "composite_less (Composite e i) (Composite oe oi) = (e < oe \<or> (e = oe \<and> i < oi))"

definition composite_leq :: "composite \<Rightarrow> composite \<Rightarrow> bool" where
  "composite_leq a b = (composite_less a b \<or> (comp_e a = comp_e b \<and> comp_i a = comp_i b))"

instantiation composite :: linorder
begin

definition less_composite :: "composite \<Rightarrow> composite \<Rightarrow> bool" where
  "less_composite = composite_less"

definition less_eq_composite :: "composite \<Rightarrow> composite \<Rightarrow> bool" where
  "less_eq_composite = composite_leq"

instance
proof
  fix x y z :: composite
  show "(x < y) = (x \<le> y \<and> \<not> y \<le> x)"
    by (cases x; cases y) (auto simp: less_eq_composite_def less_composite_def composite_leq_def)
  show "x \<le> x"
    by (simp add: less_eq_composite_def composite_leq_def)
  show "x \<le> y \<Longrightarrow> y \<le> z \<Longrightarrow> x \<le> z"
    by (cases x; cases y; cases z) (auto simp: less_eq_composite_def composite_leq_def)
  show "x \<le> y \<Longrightarrow> y \<le> x \<Longrightarrow> x = y"
    by (cases x; cases y) (auto simp: less_eq_composite_def composite_leq_def)
  show "x \<le> y \<or> y \<le> x"
    by (cases x; cases y) (auto simp: less_eq_composite_def composite_leq_def)
qed

end

lemma composite_less_iff [simp]:
  "Composite a b < Composite c d \<longleftrightarrow> a < c \<or> (a = c \<and> b < d)"
  by (simp add: less_composite_def)

lemma composite_le_iff:
  "Composite a b \<le> Composite c d \<longleftrightarrow> a < c \<or> (a = c \<and> b \<le> d)"
  by (auto simp: less_eq_composite_def composite_leq_def)

text \<open>A snapshot taken at the end of an epoch sees exactly the epochs up to it.\<close>

lemma INTRA_MAX_top [simp]:
  "i < INTRA_MAX \<longleftrightarrow> i \<noteq> INTRA_MAX"
  "INTRA_MAX \<le> i \<longleftrightarrow> i = INTRA_MAX"
proof -
  have "INTRA_MAX = (- 1 :: intra_t)" by (simp add: INTRA_MAX_def)
  then show "i < INTRA_MAX \<longleftrightarrow> i \<noteq> INTRA_MAX" "INTRA_MAX \<le> i \<longleftrightarrow> i = INTRA_MAX"
    using word_order.not_eq_extremum [of i] by (auto simp: word_order.extremum_unique)
qed

lemma composite_less_INTRA_MAX:
  "Composite c i < Composite v INTRA_MAX \<longleftrightarrow> c < v \<or> (c = v \<and> i \<noteq> INTRA_MAX)"
  by simp

section \<open>Flag bits\<close>

definition is_delete :: "64 word \<Rightarrow> bool" where
  "is_delete e \<longleftrightarrow> e AND DELETION_MASK \<noteq> 0"

definition more_versions_existing :: "version_t \<Rightarrow> bool" where
  "more_versions_existing v \<longleftrightarrow> MORE_VERSION_MASK AND v \<noteq> 0"

definition is_deletion :: "version_t \<Rightarrow> bool" where
  "is_deletion v \<longleftrightarrow> DELETION_MASK AND v \<noteq> 0"

definition timestamp :: "version_t \<Rightarrow> version_t" where
  "timestamp v = (v AND NOT MORE_VERSION_MASK) AND NOT DELETION_MASK"

definition strip_del :: "64 word \<Rightarrow> 64 word" where
  "strip_del e = e AND NOT DELETION_MASK"

definition strip_tmp :: "32 word \<Rightarrow> 32 word" where
  "strip_tmp b = b AND NOT TMPVB_MASK"

definition has_tmp :: "32 word \<Rightarrow> bool" where
  "has_tmp b \<longleftrightarrow> b AND TMPVB_MASK \<noteq> 0"

lemma DELETION_MASK_bit: "DELETION_MASK = push_bit 63 1"
  by (simp add: DELETION_MASK_def)

lemma TMPVB_MASK_bit: "TMPVB_MASK = push_bit 31 1"
  by (simp add: TMPVB_MASK_def)

lemma MORE_VERSION_MASK_bit: "MORE_VERSION_MASK = push_bit 62 1"
  by (simp add: MORE_VERSION_MASK_def)

lemma and_single_bit:
  "(w :: 'a::len word) AND push_bit n 1 \<noteq> 0 \<longleftrightarrow> bit w n"
  by (simp add: and_exp_eq_0_iff_not_bit push_bit_eq_mult)

lemma is_delete_bit: "is_delete e \<longleftrightarrow> bit e 63"
  by (simp add: is_delete_def DELETION_MASK_bit and_single_bit del: push_bit_of_1)

lemma has_tmp_bit: "has_tmp b \<longleftrightarrow> bit b 31"
  by (simp add: has_tmp_def TMPVB_MASK_bit and_single_bit del: push_bit_of_1)


lemma bit_strip_del: "bit (strip_del e) n \<longleftrightarrow> bit e n \<and> n \<noteq> 63"
  by (auto simp: strip_del_def DELETION_MASK_bit bit_simps simp del: push_bit_of_1
      dest: bit_imp_le_length)

lemma bit_strip_tmp: "bit (strip_tmp b) n \<longleftrightarrow> bit b n \<and> n \<noteq> 31"
  by (auto simp: strip_tmp_def TMPVB_MASK_bit bit_simps simp del: push_bit_of_1
      dest: bit_imp_le_length)

lemma bit_or_del: "bit (e OR DELETION_MASK) n \<longleftrightarrow> bit e n \<or> n = 63"
  by (auto simp: DELETION_MASK_bit bit_simps simp del: push_bit_of_1)

lemma bit_or_tmp: "bit (b OR TMPVB_MASK) n \<longleftrightarrow> bit b n \<or> n = 31"
  by (auto simp: TMPVB_MASK_bit bit_simps simp del: push_bit_of_1)

lemma strip_del_flags [simp, flag_simps]:
  "strip_del (strip_del e) = strip_del e"
  "strip_del (e OR DELETION_MASK) = strip_del e"
  "\<not> is_delete (strip_del e)"
  "is_delete (e OR DELETION_MASK)"
  by (auto simp: bit_strip_del bit_or_del is_delete_bit intro!: bit_word_eqI)

lemma strip_del_id [flag_simps]: "\<not> is_delete e \<Longrightarrow> strip_del e = e"
  by (rule bit_word_eqI) (auto simp: bit_strip_del is_delete_bit)

lemma strip_del_or_id [flag_simps]: "is_delete e \<Longrightarrow> strip_del e OR DELETION_MASK = e"
  by (rule bit_word_eqI) (auto simp: bit_strip_del bit_or_del is_delete_bit)

lemma strip_tmp_flags [simp, flag_simps]:
  "strip_tmp (strip_tmp b) = strip_tmp b"
  "strip_tmp (b OR TMPVB_MASK) = strip_tmp b"
  "\<not> has_tmp (strip_tmp b)"
  "has_tmp (b OR TMPVB_MASK)"
  "strip_tmp 0 = 0" "\<not> has_tmp 0"
  by (auto simp: bit_strip_tmp bit_or_tmp has_tmp_bit intro!: bit_word_eqI)

lemma strip_tmp_id [flag_simps]: "\<not> has_tmp b \<Longrightarrow> strip_tmp b = b"
  by (rule bit_word_eqI) (auto simp: bit_strip_tmp has_tmp_bit)

lemma has_tmp_threshold: "has_tmp b \<longleftrightarrow> 2 ^ 31 \<le> unat b"
proof -
  have lt: "unat b < 2 ^ 32" using unsigned_less [of b, where ?'a = nat] by simp
  have "unat b div 2 ^ 31 < 2" using lt by (simp add: less_mult_imp_div_less)
  then have "odd (unat b div 2 ^ 31) \<longleftrightarrow> unat b div 2 ^ 31 = 1"
    by (metis even_zero less_2_cases odd_one One_nat_def)
  also have "\<dots> \<longleftrightarrow> 2 ^ 31 \<le> unat b"
  proof (cases "2 ^ 31 \<le> unat b")
    case True
    then have "unat b div 2 ^ 31 = 1" using lt by (intro div_nat_eqI) simp_all
    with True show ?thesis by simp
  qed (simp add: not_le)
  finally have "odd (unat b div 2 ^ 31) \<longleftrightarrow> 2 ^ 31 \<le> unat b" .
  moreover have "bit b 31 \<longleftrightarrow> bit (unat b) 31" by (simp add: bit_unsigned_iff)
  ultimately show ?thesis by (simp add: has_tmp_bit bit_iff_odd [of "unat b"])
qed

lemma has_tmp_above: "has_tmp b \<Longrightarrow> \<not> has_tmp a \<Longrightarrow> \<not> b < a"
  by (simp add: has_tmp_threshold word_less_nat_alt)

lemma has_tmp_antimono: "a \<le> b \<Longrightarrow> \<not> has_tmp b \<Longrightarrow> \<not> has_tmp a"
  by (simp add: has_tmp_threshold word_le_nat_alt)

lemma strip_tmp_or: "strip_tmp (a OR b) = strip_tmp a OR strip_tmp b"
  by (rule bit_word_eqI) (auto simp: bit_strip_tmp bit_or_iff)

lemma strip_tmp_xor: "strip_tmp (a XOR TMPVB_MASK) = strip_tmp a"
  by (rule bit_word_eqI)
    (auto simp: bit_strip_tmp bit_xor_iff TMPVB_MASK_bit bit_simps simp del: push_bit_of_1)

text \<open>
  \<open>timestamp\<close> clears exactly the two flag bits: it is the identity on the 62 timestamp
  bits, and a version is its timestamp with its flags put back.
\<close>

lemma bit_timestamp: "bit (timestamp v) n \<longleftrightarrow> bit v n \<and> n \<noteq> 62 \<and> n \<noteq> 63"
  by (auto simp: timestamp_def DELETION_MASK_bit MORE_VERSION_MASK_bit bit_simps
      simp del: push_bit_of_1 dest: bit_imp_le_length)

lemma more_versions_existing_bit: "more_versions_existing v \<longleftrightarrow> bit v 62"
  by (simp add: more_versions_existing_def MORE_VERSION_MASK_bit and.commute [of _ v]
      and_single_bit del: push_bit_of_1)

lemma is_deletion_bit: "is_deletion v \<longleftrightarrow> bit v 63"
  by (simp add: is_deletion_def DELETION_MASK_bit and.commute [of _ v] and_single_bit
      del: push_bit_of_1)

lemma bit_masks:
  "bit DELETION_MASK n \<longleftrightarrow> n = 63"
  "bit MORE_VERSION_MASK n \<longleftrightarrow> n = 62"
  by (auto simp: DELETION_MASK_bit MORE_VERSION_MASK_bit bit_simps simp del: push_bit_of_1)

lemma timestamp_reassemble:
  "timestamp v OR (if more_versions_existing v then MORE_VERSION_MASK else 0)
     OR (if is_deletion v then DELETION_MASK else 0) = v"
  by (rule bit_word_eqI)
    (auto simp: bit_timestamp more_versions_existing_bit is_deletion_bit bit_or_iff bit_masks)

section \<open>Edge structs\<close>

record edge_t =
  edge_src :: vertex_id_t
  edge_dst :: dst_t

record weighted_edge_t =
  wedge_src :: vertex_id_t
  wedge_dst :: dst_t
  wedge_weight :: weight_t

record temporal_edge_t =
  tedge_src :: vertex_id_t
  tedge_dst :: dst_t
  creation_timestamp :: "64 word"

definition edge_opposite :: "edge_t \<Rightarrow> edge_t" where
  "edge_opposite x = \<lparr>edge_src = edge_dst x, edge_dst = edge_src x\<rparr>"

definition edge_gt :: "edge_t \<Rightarrow> edge_t \<Rightarrow> bool" where
  "edge_gt x other = (if edge_src x = edge_src other then edge_dst x > edge_dst other
                      else edge_src x > edge_src other)"

definition wedge_opposite :: "weighted_edge_t \<Rightarrow> weighted_edge_t" where
  "wedge_opposite x =
     \<lparr>wedge_src = wedge_dst x, wedge_dst = wedge_src x, wedge_weight = wedge_weight x\<rparr>"

definition wedge_gt :: "weighted_edge_t \<Rightarrow> weighted_edge_t \<Rightarrow> bool" where
  "wedge_gt x other = (if wedge_src x = wedge_src other then wedge_dst x > wedge_dst other
                       else wedge_src x > wedge_src other)"

definition tedge_opposite :: "temporal_edge_t \<Rightarrow> temporal_edge_t" where
  "tedge_opposite x = \<lparr>tedge_src = tedge_dst x, tedge_dst = tedge_src x,
                       creation_timestamp = creation_timestamp x\<rparr>"

definition tedge_gt :: "temporal_edge_t \<Rightarrow> temporal_edge_t \<Rightarrow> bool" where
  "tedge_gt x other = (sint (creation_timestamp x) > sint (creation_timestamp other))"

text \<open>
  \<open>EdgeHash\<close>: the standard library's hash of a 64-bit integer is a parameter.
\<close>

definition edge_hash :: "(64 word \<Rightarrow> 64 word) \<Rightarrow> edge_t \<Rightarrow> 64 word" where
  "edge_hash std_hash x = std_hash (edge_src x) + 31 * std_hash (edge_dst x)"

definition edge_equal :: "edge_t \<Rightarrow> edge_t \<Rightarrow> bool" where
  "edge_equal a b = (edge_src a = edge_src b \<and> edge_dst a = edge_dst b)"

lemma edge_gt_trichotomy:
  "edge_gt a b \<or> edge_gt b a \<or> a = b"
  "\<not> (edge_gt a b \<and> edge_gt b a)"
  by (cases a; cases b; auto simp: edge_gt_def)+

lemma edge_opposite_involution [simp]: "edge_opposite (edge_opposite x) = x"
  by (simp add: edge_opposite_def)

end
