(* ===== verification/Hash_Table.thy ===== *)
theory Hash_Table
  imports AVB_Types
begin

text \<open>
  \<open>data-structure/EdgeBlock/HashTable.h\<close>: the two open-addressing tables with linear
  probing. \<open>HashTable2\<close> stores keys only and is the index \<open>M\<close> of every vertex; it is the
  one with backward-shift deletion. \<open>HashTable\<close> stores a value with each key. A slot array
  is a list of the array's length; \<open>FLAG_EMPTY_SLOT\<close> marks a free slot. A probe loop that
  never meets its stopping slot does not return, so the loops are partial functions and
  \<open>None\<close> is "does not return"; the theorems show that they do return on tables the
  operations build. Counters and sizes are naturals: the 32-bit wrap of \<open>hashBlockSize\<close>
  at \<open>2 ^ 31\<close> slots is not modelled.
\<close>

definition FLAG_EMPTY_SLOT :: "64 word" where
  "FLAG_EMPTY_SLOT = 0xFFFFFFFFFFFFFFFF"

definition ht_hash :: "nat \<Rightarrow> 64 word \<Rightarrow> nat" where
  "ht_hash hashBlockSize key = unat (key AND of_nat (hashBlockSize - 1))"

section \<open>The probe loop\<close>

text \<open>
  \<open>while (! stop (hashtable[index])) { index = index + 1; if (index >= size) index = 0; }\<close>
\<close>

partial_function (option) probe :: "('a \<Rightarrow> bool) \<Rightarrow> 'a list \<Rightarrow> nat \<Rightarrow> nat \<Rightarrow> nat option" where
  "probe stop tbl n index =
     (if stop (tbl ! index) then Some index else probe stop tbl n (cnext n index))"

declare probe.simps [code]

lemma probe_finds:
  assumes "i < n" "q < n" "stop (tbl ! q)"
    and "\<And>s. s < n \<Longrightarrow> on_way n i q s \<Longrightarrow> \<not> stop (tbl ! s)"
  shows "probe stop tbl n i = Some q"
  using assms
proof (induction "cdist n i q" arbitrary: i)
  case 0
  then have "i = q" by (simp add: cdist_eq_0_iff)
  with 0 show ?case by (simp add: probe.simps)
next
  case (Suc d)
  then have ne: "i \<noteq> q" by auto
  with Suc have here: "\<not> stop (tbl ! i)"
    by (simp add: on_way_def)
  have "probe stop tbl n (cnext n i) = Some q"
  proof (rule Suc.hyps(1))
    show "d = cdist n (cnext n i) q"
      using Suc.hyps(2) Suc.prems(1,2) ne by (simp add: cdist_cnext_left)
    show "cnext n i < n" using Suc.prems(1) by (auto simp: cnext_def)
    fix s assume s: "s < n" "on_way n (cnext n i) q s"
    then have "on_way n i q s"
      using Suc.prems(1,2) ne by (auto simp: on_way_def cdist_def cnext_def split: if_splits)
    with s show "\<not> stop (tbl ! s)" using Suc.prems(4) by blast
  qed (use Suc.prems in auto)
  with here show ?case by (subst probe.simps) simp
qed

lemma probe_first:
  assumes "i < n" "e < n" "stop (tbl ! e)"
  obtains q where "q < n" "stop (tbl ! q)" "probe stop tbl n i = Some q"
    "\<And>s. s < n \<Longrightarrow> on_way n i q s \<Longrightarrow> \<not> stop (tbl ! s)"
proof -
  let ?P = "\<lambda>q. q < n \<and> stop (tbl ! q)"
  have "\<exists>q. ?P q \<and> (\<forall>s. ?P s \<longrightarrow> cdist n i q \<le> cdist n i s)"
    using ex_has_least_nat [of ?P e "cdist n i"] assms by blast
  then obtain q where q: "?P q" and least: "\<And>s. ?P s \<Longrightarrow> cdist n i q \<le> cdist n i s"
    by blast
  have gap: "\<not> stop (tbl ! s)" if "s < n" "on_way n i q s" for s
    using least [of s] that by (auto simp: on_way_def)
  show ?thesis
    using that [of q] q gap probe_finds [of i n q stop tbl] assms(1) by blast
qed

section \<open>Slot arrays\<close>

abbreviation nonempty :: "64 word \<Rightarrow> bool" where
  "nonempty k \<equiv> k \<noteq> FLAG_EMPTY_SLOT"

definition slot_keys :: "64 word list \<Rightarrow> 64 word set" where
  "slot_keys tbl = set tbl - {FLAG_EMPTY_SLOT}"

text \<open>No free slot between a key's home slot and the slot that holds it.\<close>

definition chain_ok :: "nat \<Rightarrow> 64 word list \<Rightarrow> bool" where
  "chain_ok n tbl \<longleftrightarrow> (\<forall>p < n. nonempty (tbl ! p) \<longrightarrow>
     (\<forall>q < n. on_way n (ht_hash n (tbl ! p)) p q \<longrightarrow> nonempty (tbl ! q)))"

definition slots_ok :: "nat \<Rightarrow> 64 word list \<Rightarrow> bool" where
  "slots_ok n tbl \<longleftrightarrow> length tbl = n \<and> (\<exists>k. n = 2 ^ k) \<and> chain_ok n tbl \<and>
     distinct (filter nonempty tbl)"

lemma slots_okD:
  assumes "slots_ok n tbl"
  shows "length tbl = n" "chain_ok n tbl" "distinct (filter nonempty tbl)"
  using assms by (simp_all add: slots_ok_def)

lemma chain_okD:
  "chain_ok n tbl \<Longrightarrow> p < n \<Longrightarrow> nonempty (tbl ! p) \<Longrightarrow> q < n \<Longrightarrow>
   on_way n (ht_hash n (tbl ! p)) p q \<Longrightarrow> nonempty (tbl ! q)"
  unfolding chain_ok_def by blast

lemma ht_hash_mod: "ht_hash (2 ^ k) key = unat key mod 2 ^ k"
proof -
  have m: "(of_nat (2 ^ k - 1) :: 64 word) = mask k"
    by (simp add: mask_eq_exp_minus_1 of_nat_diff)
  have "unat (key AND mask k) = take_bit k (unat key)"
    by (simp only: take_bit_eq_mask [symmetric] unsigned_take_bit_eq)
  then show ?thesis
    by (simp only: ht_hash_def m) (simp add: take_bit_eq_mod)
qed

lemma ht_hash_less: "slots_ok n tbl \<Longrightarrow> ht_hash n key < n"
  by (auto simp: slots_ok_def ht_hash_mod)

lemma distinct_filter_nth:
  "distinct (filter P xs) \<Longrightarrow> p < length xs \<Longrightarrow> q < length xs \<Longrightarrow> xs ! p = xs ! q \<Longrightarrow>
   P (xs ! p) \<Longrightarrow> p = q"
proof (induction xs arbitrary: p q)
  case (Cons x xs)
  show ?case
  proof (cases p; cases q)
    fix p' q' assume "p = Suc p'" "q = Suc q'"
    with Cons show ?thesis by (cases "P x") auto
  qed (use Cons.prems in \<open>auto simp: nth_mem\<close>)
qed simp

lemma distinct_filter_set:
  "distinct (filter P xs) \<Longrightarrow> i < length xs \<Longrightarrow> \<not> P (xs ! i) \<Longrightarrow> k \<notin> set xs \<Longrightarrow>
   distinct (filter P (xs[i := k]))"
  by (subst (asm) id_take_nth_drop [of i xs], simp, subst upd_conv_take_nth_drop)
    (auto dest: in_set_takeD in_set_dropD)

lemma distinct_filter_unset:
  "distinct (filter P xs) \<Longrightarrow> i < length xs \<Longrightarrow> \<not> P k \<Longrightarrow>
   distinct (filter P (xs[i := k]))"
  by (subst (asm) id_take_nth_drop [of i xs], simp, subst upd_conv_take_nth_drop)
    (auto split: if_splits)

lemma slot_keys_set:
  "i < length tbl \<Longrightarrow> tbl ! i = FLAG_EMPTY_SLOT \<Longrightarrow> nonempty k \<Longrightarrow>
   slot_keys (tbl[i := k]) = insert k (slot_keys tbl)"
  by (auto simp: slot_keys_def in_set_conv_nth nth_list_update split: if_splits)

lemma slot_keys_unset:
  assumes "distinct (filter nonempty tbl)" "i < length tbl"
  shows "slot_keys (tbl[i := FLAG_EMPTY_SLOT]) = slot_keys tbl - {tbl ! i}"
proof (cases "nonempty (tbl ! i)")
  case True
  then show ?thesis
    using assms distinct_filter_nth [OF assms(1) assms(2)]
    by (auto simp: slot_keys_def in_set_conv_nth nth_list_update split: if_splits) metis+
next
  case False
  then show ?thesis
    using assms(2) list_update_id [of tbl i] by (auto simp: slot_keys_def)
qed

lemma slot_keys_replicate [simp]: "slot_keys (replicate n FLAG_EMPTY_SLOT) = {}"
  by (auto simp: slot_keys_def)

lemma slot_keys_iff:
  "length tbl = n \<Longrightarrow> nonempty k \<Longrightarrow> k \<in> slot_keys tbl \<longleftrightarrow> (\<exists>p < n. tbl ! p = k)"
  by (auto simp: slot_keys_def in_set_conv_nth)

lemma card_slot_keys:
  "distinct (filter nonempty tbl) \<Longrightarrow> card (slot_keys tbl) = length (filter nonempty tbl)"
proof -
  assume "distinct (filter nonempty tbl)"
  then have "card (set (filter nonempty tbl)) = length (filter nonempty tbl)"
    by (rule distinct_card)
  moreover have "set (filter nonempty tbl) = slot_keys tbl"
    by (auto simp: slot_keys_def)
  ultimately show ?thesis by simp
qed

lemma empty_slot_exists:
  assumes "distinct (filter nonempty tbl)" "card (slot_keys tbl) < length tbl"
  obtains e where "e < length tbl" "tbl ! e = FLAG_EMPTY_SLOT"
proof -
  have "length (filter nonempty tbl) < length tbl"
    using assms card_slot_keys by simp
  then have "FLAG_EMPTY_SLOT \<in> set tbl"
    using filter_True [of tbl nonempty] by (metis less_irrefl)
  then show ?thesis using that by (auto simp: in_set_conv_nth)
qed

text \<open>The probe of a stored key stops at its slot, the probe of an absent key at a free one.\<close>

lemma probe_present:
  assumes "slots_ok n tbl" "p < n" "tbl ! p = key" "nonempty key"
  shows "probe (\<lambda>x. x = FLAG_EMPTY_SLOT \<or> x = key) tbl n (ht_hash n key) = Some p"
proof (rule probe_finds)
  fix s assume s: "s < n" "on_way n (ht_hash n key) p s"
  have "nonempty (tbl ! s)"
    using assms s by (auto simp: slots_ok_def chain_ok_def)
  moreover have "tbl ! s \<noteq> key"
  proof
    assume eq: "tbl ! s = key"
    have "s = p"
      by (rule distinct_filter_nth [of nonempty tbl]) (use assms s(1) eq in \<open>auto simp: slots_ok_def\<close>)
    with s(2) show False by (simp add: on_way_def)
  qed
  ultimately show "\<not> (tbl ! s = FLAG_EMPTY_SLOT \<or> tbl ! s = key)" by simp
qed (use assms ht_hash_less in auto)

lemma probe_absent:
  assumes "slots_ok n tbl" "card (slot_keys tbl) < n" "key \<notin> slot_keys tbl" "nonempty key"
  obtains q where "q < n" "tbl ! q = FLAG_EMPTY_SLOT"
    "probe (\<lambda>x. x = FLAG_EMPTY_SLOT \<or> x = key) tbl n (ht_hash n key) = Some q"
proof -
  obtain e where e: "e < n" "tbl ! e = FLAG_EMPTY_SLOT"
    using assms(1,2) empty_slot_exists [of tbl] by (auto simp: slots_ok_def)
  from ht_hash_less [OF assms(1)] e(1) obtain q where
    q: "q < n" "tbl ! q = FLAG_EMPTY_SLOT \<or> tbl ! q = key"
       "probe (\<lambda>x. x = FLAG_EMPTY_SLOT \<or> x = key) tbl n (ht_hash n key) = Some q"
    by (rule probe_first [where stop = "\<lambda>x. x = FLAG_EMPTY_SLOT \<or> x = key"]) (use e in auto)
  moreover have "tbl ! q \<noteq> key"
    using assms q(1) by (metis slot_keys_iff slots_ok_def)
  ultimately show ?thesis using that by blast
qed

text \<open>Storing a key in the first free slot of its probe keeps the array well formed.\<close>

lemma store_first_free:
  assumes ok: "slots_ok n tbl" and room: "card (slot_keys tbl) < n"
    and new: "key \<notin> slot_keys tbl" "nonempty key"
  obtains q where "probe (\<lambda>x. x = FLAG_EMPTY_SLOT) tbl n (ht_hash n key) = Some q" "q < n"
    "tbl ! q = FLAG_EMPTY_SLOT" "slots_ok n (tbl[q := key])"
    "slot_keys (tbl[q := key]) = insert key (slot_keys tbl)"
proof -
  obtain e where "e < n" "tbl ! e = FLAG_EMPTY_SLOT"
    using ok room empty_slot_exists [of tbl] by (auto simp: slots_ok_def)
  with ht_hash_less [OF ok] obtain q where q: "q < n" "tbl ! q = FLAG_EMPTY_SLOT"
      "probe (\<lambda>x. x = FLAG_EMPTY_SLOT) tbl n (ht_hash n key) = Some q"
    and way: "\<And>s. s < n \<Longrightarrow> on_way n (ht_hash n key) q s \<Longrightarrow> nonempty (tbl ! s)"
    by (rule probe_first [where stop = "\<lambda>x. x = FLAG_EMPTY_SLOT"]) blast
  have len: "length tbl = n" using ok by (simp add: slots_ok_def)
  have "nonempty (tbl[q := key] ! s)"
    if p: "p < n" "nonempty (tbl[q := key] ! p)" and s: "s < n"
      and onw: "on_way n (ht_hash n (tbl[q := key] ! p)) p s" for p s
  proof (cases "p = q")
    case True
    with onw q(1) len have "on_way n (ht_hash n key) q s" by simp
    with way [OF s] have "nonempty (tbl ! s)" by simp
    then show ?thesis using new(2) len q(1) by (simp add: nth_list_update)
  next
    case False
    with p onw have "nonempty (tbl ! s)"
      using chain_okD [OF slots_okD(2) [OF ok] p(1) _ s] by simp
    then show ?thesis using new(2) len q(1) by (simp add: nth_list_update)
  qed
  then have "chain_ok n (tbl[q := key])" by (auto simp: chain_ok_def)
  moreover have "distinct (filter nonempty (tbl[q := key]))"
    using ok q len new by (auto simp: slots_ok_def slot_keys_def intro!: distinct_filter_set)
  ultimately have "slots_ok n (tbl[q := key])"
    using ok len by (simp add: slots_ok_def)
  moreover have "slot_keys (tbl[q := key]) = insert key (slot_keys tbl)"
    using q len new(2) by (simp add: slot_keys_set)
  ultimately show ?thesis using that q by blast
qed

section \<open>HashTable2: the edge index of a vertex\<close>

record hashtable2 =
  hashtable :: "64 word list"
  entryCounter :: nat
  hashBlockSize :: nat

definition HashTable2_init :: hashtable2 where
  "HashTable2_init = \<lparr>hashtable = replicate 2 FLAG_EMPTY_SLOT, entryCounter = 0, hashBlockSize = 2\<rparr>"

definition getDestHashTableVal2 :: "hashtable2 \<Rightarrow> 64 word \<Rightarrow> bool option" where
  "getDestHashTableVal2 t dest_node =
     map_option (\<lambda>i. hashtable t ! i \<noteq> FLAG_EMPTY_SLOT)
       (probe (\<lambda>x. x = FLAG_EMPTY_SLOT \<or> x = dest_node) (hashtable t) (hashBlockSize t)
         (ht_hash (hashBlockSize t) dest_node))"

text \<open>The loop over the old slots of \<open>resizeHashTable\<close>.\<close>

fun rehash2 :: "64 word list \<Rightarrow> nat \<Rightarrow> 64 word list \<Rightarrow> 64 word list option" where
  "rehash2 [] n new = Some new"
| "rehash2 (adj_p # old) n new =
     (if adj_p \<noteq> FLAG_EMPTY_SLOT then
        (case probe (\<lambda>x. x = FLAG_EMPTY_SLOT) new n (ht_hash n adj_p) of
           None \<Rightarrow> None
         | Some index \<Rightarrow> rehash2 old n (new[index := adj_p]))
      else rehash2 old n new)"

definition resizeHashTable2 :: "hashtable2 \<Rightarrow> nat \<Rightarrow> hashtable2 option" where
  "resizeHashTable2 t requested_block =
     map_option (\<lambda>new. t\<lparr>hashtable := new, hashBlockSize := requested_block\<rparr>)
       (rehash2 (hashtable t) requested_block (replicate requested_block FLAG_EMPTY_SLOT))"

definition setDestHashTableVal2 :: "hashtable2 \<Rightarrow> 64 word \<Rightarrow> hashtable2 option" where
  "setDestHashTableVal2 t0 dest_node =
     (case (if entryCounter t0 \<ge> hashBlockSize t0 div 2
            then resizeHashTable2 t0 (hashBlockSize t0 * 2) else Some t0) of
        None \<Rightarrow> None
      | Some t \<Rightarrow>
          map_option (\<lambda>index. t\<lparr>hashtable := (hashtable t)[index := dest_node],
                               entryCounter := entryCounter t + 1\<rparr>)
            (probe (\<lambda>x. x = FLAG_EMPTY_SLOT) (hashtable t) (hashBlockSize t)
              (ht_hash (hashBlockSize t) dest_node)))"

text \<open>
  \<open>removeDestHashTableVal\<close>: the search loop steps with \<open>(index + 1) & (hashBlockSize - 1)\<close>,
  then the backward shift moves every later key of the cluster whose probe path crosses the gap.
\<close>

definition mask_next :: "nat \<Rightarrow> nat \<Rightarrow> nat" where
  "mask_next n i = (i + 1) AND (n - 1)"

partial_function (option) probe_mask :: "('a \<Rightarrow> bool) \<Rightarrow> 'a list \<Rightarrow> nat \<Rightarrow> nat \<Rightarrow> nat option" where
  "probe_mask stop tbl n index =
     (if stop (tbl ! index) then Some index else probe_mask stop tbl n (mask_next n index))"

partial_function (option) backshift :: "64 word list \<Rightarrow> nat \<Rightarrow> nat \<Rightarrow> nat \<Rightarrow> 64 word list option" where
  "backshift tbl n i j0 =
     (let j = mask_next n j0 in
      if tbl ! j = FLAG_EMPTY_SLOT then Some tbl
      else
        let home = ht_hash n (tbl ! j);
            on_path = (if home \<le> j then home \<le> i \<and> i < j else i \<ge> home \<or> i < j)
        in if on_path then backshift ((tbl[i := tbl ! j])[j := FLAG_EMPTY_SLOT]) n j j
           else backshift tbl n i j)"

declare probe_mask.simps [code] backshift.simps [code]

definition removeDestHashTableVal2 :: "hashtable2 \<Rightarrow> 64 word \<Rightarrow> hashtable2 option" where
  "removeDestHashTableVal2 t dest_node =
     (case probe_mask (\<lambda>x. \<not> (x \<noteq> FLAG_EMPTY_SLOT \<and> x \<noteq> dest_node)) (hashtable t) (hashBlockSize t)
             (ht_hash (hashBlockSize t) dest_node) of
        None \<Rightarrow> None
      | Some index \<Rightarrow>
          (if hashtable t ! index \<noteq> dest_node then Some t
           else map_option (\<lambda>tbl. t\<lparr>hashtable := tbl, entryCounter := entryCounter t - 1\<rparr>)
                  (backshift ((hashtable t)[index := FLAG_EMPTY_SLOT]) (hashBlockSize t) index index)))"

subsection \<open>Well-formed tables\<close>

definition ht2_ok :: "hashtable2 \<Rightarrow> bool" where
  "ht2_ok t \<longleftrightarrow> slots_ok (hashBlockSize t) (hashtable t) \<and> 2 \<le> hashBlockSize t \<and>
     entryCounter t = card (slot_keys (hashtable t)) \<and> 2 * entryCounter t \<le> hashBlockSize t"

definition ht2_keys :: "hashtable2 \<Rightarrow> 64 word set" where
  "ht2_keys t = slot_keys (hashtable t)"

lemma mask_next_eq: "slots_ok n tbl \<Longrightarrow> i < n \<Longrightarrow> mask_next n i = cnext n i"
proof -
  assume "slots_ok n tbl" "i < n"
  then obtain k where "n = 2 ^ k" by (auto simp: slots_ok_def)
  moreover have "(i + 1) AND (2 ^ k - 1) = take_bit k (i + 1)"
    by (simp only: take_bit_eq_mask mask_eq_exp_minus_1)
  ultimately have "mask_next n i = (i + 1) mod n"
    by (simp only: mask_next_def take_bit_eq_mod)
  with \<open>i < n\<close> show ?thesis by (simp add: cnext_mod)
qed

lemma probe_mask_eq:
  assumes ok: "slots_ok n tbl" and i: "i < n"
    and found: "q < n" "stop (tbl ! q)"
    and way: "\<And>s. s < n \<Longrightarrow> on_way n i q s \<Longrightarrow> \<not> stop (tbl ! s)"
  shows "probe_mask stop tbl n i = Some q"
  using i way
proof (induction "cdist n i q" arbitrary: i)
  case 0
  then have "i = q" using found(1) by (simp add: cdist_eq_0_iff)
  with found show ?case by (simp add: probe_mask.simps)
next
  case (Suc d)
  then have ne: "i \<noteq> q" by auto
  with Suc have here: "\<not> stop (tbl ! i)" by (simp add: on_way_def)
  have "probe_mask stop tbl n (cnext n i) = Some q"
  proof (rule Suc.hyps(1))
    show "d = cdist n (cnext n i) q"
      using Suc.hyps(2) Suc.prems(1) found(1) ne by (simp add: cdist_cnext_left)
    show "cnext n i < n" using Suc.prems(1) by (auto simp: cnext_def)
    fix s assume s: "s < n" "on_way n (cnext n i) q s"
    then have "on_way n i q s"
      using Suc.prems(1) found(1) ne by (auto simp: on_way_def cdist_def cnext_def split: if_splits)
    with s show "\<not> stop (tbl ! s)" using Suc.prems(2) by blast
  qed
  with here show ?case
    using mask_next_eq [OF ok Suc.prems(1)] by (subst probe_mask.simps) simp
qed

lemma HashTable2_init_ok: "ht2_ok HashTable2_init" "ht2_keys HashTable2_init = {}"
proof -
  have "slots_ok 2 (replicate 2 FLAG_EMPTY_SLOT)"
    by (auto simp: slots_ok_def chain_ok_def intro: exI [of _ 1])
  then show "ht2_ok HashTable2_init" "ht2_keys HashTable2_init = {}"
    by (simp_all add: ht2_ok_def HashTable2_init_def ht2_keys_def slot_keys_def)
qed

lemma ht2_room: "ht2_ok t \<Longrightarrow> card (slot_keys (hashtable t)) < hashBlockSize t"
  by (auto simp: ht2_ok_def)

lemma getDest2_correct:
  assumes "ht2_ok t" "nonempty k"
  shows "getDestHashTableVal2 t k = Some (k \<in> ht2_keys t)"
proof (cases "k \<in> ht2_keys t")
  case True
  then obtain p where "p < hashBlockSize t" "hashtable t ! p = k"
    using assms by (auto simp: ht2_ok_def ht2_keys_def slots_ok_def slot_keys_iff)
  with assms probe_present [of "hashBlockSize t" "hashtable t" p k] True show ?thesis
    by (simp add: ht2_ok_def getDestHashTableVal2_def)
next
  case False
  then obtain q where "q < hashBlockSize t" "hashtable t ! q = FLAG_EMPTY_SLOT"
    "probe (\<lambda>x. x = FLAG_EMPTY_SLOT \<or> x = k) (hashtable t) (hashBlockSize t)
       (ht_hash (hashBlockSize t) k) = Some q"
    using assms probe_absent [of "hashBlockSize t" "hashtable t" k] ht2_room [of t]
    by (auto simp: ht2_ok_def ht2_keys_def)
  with False show ?thesis by (simp add: getDestHashTableVal2_def)
qed

lemma rehash2_correct:
  assumes "slots_ok n new" "distinct (filter nonempty old)" "slot_keys new \<inter> slot_keys old = {}"
    "card (slot_keys new) + length (filter nonempty old) < n"
  shows "\<exists>tbl. rehash2 old n new = Some tbl \<and> slots_ok n tbl \<and>
           slot_keys tbl = slot_keys new \<union> slot_keys old"
  using assms
proof (induction old arbitrary: new)
  case Nil
  then show ?case by (simp add: slot_keys_def)
next
  case (Cons k old)
  show ?case
  proof (cases "nonempty k")
    case True
    then have new: "k \<notin> slot_keys new" and k_old: "k \<notin> slot_keys old"
      using Cons.prems(2,3) by (auto simp: slot_keys_def)
    obtain q where q: "probe (\<lambda>x. x = FLAG_EMPTY_SLOT) new n (ht_hash n k) = Some q"
      "slots_ok n (new[q := k])" "slot_keys (new[q := k]) = insert k (slot_keys new)"
      using store_first_free [OF Cons.prems(1) _ new True] Cons.prems(4) by auto
    have fin: "finite (slot_keys new)" by (simp add: slot_keys_def)
    have keys: "slot_keys (k # old) = insert k (slot_keys old)"
      using True by (auto simp: slot_keys_def)
    have "\<exists>tbl. rehash2 old n (new[q := k]) = Some tbl \<and> slots_ok n tbl \<and>
            slot_keys tbl = slot_keys (new[q := k]) \<union> slot_keys old"
    proof (rule Cons.IH)
      show "slot_keys (new[q := k]) \<inter> slot_keys old = {}"
        using Cons.prems(3) k_old keys q(3) by auto
      show "card (slot_keys (new[q := k])) + length (filter nonempty old) < n"
        using Cons.prems(4) True new fin q(3) by simp
    qed (use q Cons.prems True in auto)
    with True q keys show ?thesis by auto
  next
    case False
    then have "slot_keys (k # old) = slot_keys old" by (auto simp: slot_keys_def)
    with False Cons show ?thesis by simp
  qed
qed

lemma replicate_slots_ok: "slots_ok (2 ^ k) (replicate (2 ^ k) FLAG_EMPTY_SLOT)"
  by (auto simp: slots_ok_def chain_ok_def)

lemma resize2_correct:
  assumes ok: "ht2_ok t"
  obtains t' where "resizeHashTable2 t (hashBlockSize t * 2) = Some t'"
    "slots_ok (hashBlockSize t') (hashtable t')" "hashBlockSize t' = 2 * hashBlockSize t"
    "slot_keys (hashtable t') = slot_keys (hashtable t)" "entryCounter t' = entryCounter t"
proof -
  let ?n = "hashBlockSize t * 2" and ?new = "replicate (hashBlockSize t * 2) FLAG_EMPTY_SLOT"
  obtain k where k: "hashBlockSize t = 2 ^ k"
    using ok by (auto simp: ht2_ok_def slots_ok_def)
  have new: "slots_ok ?n ?new"
    using replicate_slots_ok [of "Suc k"] by (simp add: k mult.commute)
  have dist: "distinct (filter nonempty (hashtable t))"
    using ok by (simp add: ht2_ok_def slots_ok_def)
  have "\<exists>tbl. rehash2 (hashtable t) ?n ?new = Some tbl \<and> slots_ok ?n tbl \<and>
          slot_keys tbl = slot_keys ?new \<union> slot_keys (hashtable t)"
  proof (rule rehash2_correct [OF new dist])
    have "length (filter nonempty (hashtable t)) \<le> hashBlockSize t"
      using ok slots_okD(1) by (auto simp: ht2_ok_def intro: order_trans [OF length_filter_le])
    moreover have "0 < hashBlockSize t" using ok by (simp add: ht2_ok_def)
    ultimately show "card (slot_keys ?new) + length (filter nonempty (hashtable t)) < ?n"
      by (simp add: slot_keys_def)
  qed (auto simp: slot_keys_def)
  then show ?thesis using that
    by (auto simp: resizeHashTable2_def mult.commute)
qed

lemma set2_correct:
  assumes ok: "ht2_ok t" and new: "k \<notin> ht2_keys t" "nonempty k"
  obtains t' where "setDestHashTableVal2 t k = Some t'" "ht2_ok t'"
    "ht2_keys t' = insert k (ht2_keys t)"
proof -
  obtain t1 where t1: "(if entryCounter t \<ge> hashBlockSize t div 2
      then resizeHashTable2 t (hashBlockSize t * 2) else Some t) = Some t1"
    "slots_ok (hashBlockSize t1) (hashtable t1)" "2 \<le> hashBlockSize t1"
    "slot_keys (hashtable t1) = slot_keys (hashtable t)" "entryCounter t1 = entryCounter t"
    "2 * (entryCounter t + 1) \<le> hashBlockSize t1"
  proof (cases "entryCounter t \<ge> hashBlockSize t div 2")
    case True
    from resize2_correct [OF ok] obtain t' where t': "resizeHashTable2 t (hashBlockSize t * 2) = Some t'"
      "slots_ok (hashBlockSize t') (hashtable t')" "hashBlockSize t' = 2 * hashBlockSize t"
      "slot_keys (hashtable t') = slot_keys (hashtable t)" "entryCounter t' = entryCounter t" .
    then show ?thesis using that [of t'] True ok by (auto simp: ht2_ok_def)
  next
    case False
    then show ?thesis using that [of t] ok by (auto simp: ht2_ok_def)
  qed
  have "k \<notin> slot_keys (hashtable t1)" using new t1(4) by (simp add: ht2_keys_def)
  moreover have "card (slot_keys (hashtable t1)) < hashBlockSize t1"
    using ok t1 by (simp add: ht2_ok_def)
  ultimately obtain q where q:
    "probe (\<lambda>x. x = FLAG_EMPTY_SLOT) (hashtable t1) (hashBlockSize t1)
       (ht_hash (hashBlockSize t1) k) = Some q"
    "slots_ok (hashBlockSize t1) ((hashtable t1)[q := k])"
    "slot_keys ((hashtable t1)[q := k]) = insert k (slot_keys (hashtable t1))"
    using store_first_free [OF t1(2) _ _ new(2)] by metis
  let ?t' = "t1\<lparr>hashtable := (hashtable t1)[q := k], entryCounter := entryCounter t1 + 1\<rparr>"
  have "finite (slot_keys (hashtable t))" by (simp add: slot_keys_def)
  then have "ht2_ok ?t'"
    using ok new q t1 by (simp add: ht2_ok_def ht2_keys_def)
  then show ?thesis
    using that [of ?t'] t1 q by (simp add: setDestHashTableVal2_def ht2_keys_def)
qed

subsection \<open>Backward-shift deletion\<close>

text \<open>
  The loop invariant: slot \<open>i\<close> is the gap, and a probe path crosses no other free slot; the
  paths that do cross the gap lead to keys beyond the scan position \<open>j\<close>.
\<close>

definition gap_ok :: "nat \<Rightarrow> 64 word list \<Rightarrow> nat \<Rightarrow> nat \<Rightarrow> bool" where
  "gap_ok n tbl i j \<longleftrightarrow> (\<forall>p < n. \<forall>q < n. nonempty (tbl ! p) \<longrightarrow>
     on_way n (ht_hash n (tbl ! p)) p q \<longrightarrow>
     nonempty (tbl ! q) \<or> (q = i \<and> cdist n i j < cdist n i p))"

lemma gap_okD:
  "gap_ok n tbl i j \<Longrightarrow> p < n \<Longrightarrow> q < n \<Longrightarrow> nonempty (tbl ! p) \<Longrightarrow>
   on_way n (ht_hash n (tbl ! p)) p q \<Longrightarrow>
   nonempty (tbl ! q) \<or> (q = i \<and> cdist n i j < cdist n i p)"
  unfolding gap_ok_def by blast

lemma gap_closed:
  assumes "gap_ok n tbl i j" "i < n" "j < n" "tbl ! cnext n j = FLAG_EMPTY_SLOT"
    and home: "\<And>k. ht_hash n k < n"
  shows "chain_ok n tbl"
proof -
  have "nonempty (tbl ! q)"
    if p: "p < n" "nonempty (tbl ! p)" and q: "q < n" "on_way n (ht_hash n (tbl ! p)) p q" for p q
  proof (rule ccontr)
    assume "\<not> nonempty (tbl ! q)"
    with gap_okD [OF assms(1) p(1) q(1) p(2) q(2)]
    have qi: "q = i" and far: "cdist n i j < cdist n i p" by auto
    let ?j = "cnext n j"
    have j': "?j < n" using assms(3) by (auto simp: cnext_def)
    have "?j \<noteq> i"
      using far assms(2,3) p(1) cdist_less [OF assms(2) p(1)]
      by (auto simp: cdist_def cnext_def split: if_splits)
    then have "cdist n i ?j = Suc (cdist n i j)"
      using assms(2,3) by (simp add: cdist_cnext_right)
    moreover have "?j \<noteq> p" using p(2) assms(4) by auto
    ultimately have "cdist n i ?j < cdist n i p"
      using far cdist_inj [OF assms(2) j' p(1)] by linarith
    then have "on_way n (ht_hash n (tbl ! p)) p ?j"
      using on_way_between [OF home p(1) assms(2) j'] q(2) qi by blast
    with gap_okD [OF assms(1) p(1) j' p(2)] assms(4) \<open>?j \<noteq> i\<close> show False by blast
  qed
  then show ?thesis unfolding chain_ok_def by blast
qed

lemma gap_moves:
  assumes gap: "gap_ok n tbl i j" and "i < n" "j' < n" "i \<noteq> j'" "length tbl = n"
    and full: "nonempty (tbl ! j')" and way: "on_way n (ht_hash n (tbl ! j')) j' i"
    and home: "\<And>k. ht_hash n k < n"
  shows "gap_ok n ((tbl[i := tbl ! j'])[j' := FLAG_EMPTY_SLOT]) j' j'"
proof -
  let ?t = "(tbl[i := tbl ! j'])[j' := FLAG_EMPTY_SLOT]"
  have nth: "?t ! s = (if s = j' then FLAG_EMPTY_SLOT else if s = i then tbl ! j' else tbl ! s)" if "s < n" for s
    using assms that by (simp add: nth_list_update)
  have "nonempty (?t ! q) \<or> (q = j' \<and> cdist n j' j' < cdist n j' p)"
    if p: "p < n" "nonempty (?t ! p)" and q: "q < n" "on_way n (ht_hash n (?t ! p)) p q" for p q
  proof -
    have pj: "p \<noteq> j'" using p nth by auto
    consider "q = j'" | "q = i" | "q \<noteq> i" "q \<noteq> j'" by blast
    then show ?thesis
    proof cases
      case 1
      then show ?thesis using pj p(1) assms(3) cdist_eq_0_iff [of j' n p] by auto
    next
      case 2
      then show ?thesis using nth [OF q(1)] full assms(4) by auto
    next
      case 3
      have "nonempty (tbl ! q)"
      proof (cases "p = i")
        case True
        with q nth [OF p(1)] assms(4) have "on_way n (ht_hash n (tbl ! j')) i q" by simp
        then have "on_way n (ht_hash n (tbl ! j')) j' q"
          using on_way_trans_prefix [OF home assms(3,2) q(1) way] by blast
        with gap_okD [OF gap assms(3) q(1) full] 3 show ?thesis by blast
      next
        case False
        with p q nth [OF p(1)] pj gap_okD [OF gap p(1) q(1)] 3 show ?thesis by auto
      qed
      with 3 nth [OF q(1)] show ?thesis by simp
    qed
  qed
  then show ?thesis unfolding gap_ok_def by blast
qed

lemma gap_stays:
  assumes gap: "gap_ok n tbl i j" and "i < n" "j < n" "cnext n j \<noteq> i"
    and off: "\<not> on_way n (ht_hash n (tbl ! cnext n j)) (cnext n j) i"
  shows "gap_ok n tbl i (cnext n j)"
proof -
  have j': "cnext n j < n" using assms(3) by (auto simp: cnext_def)
  have d: "cdist n i (cnext n j) = Suc (cdist n i j)"
    using assms by (simp add: cdist_cnext_right)
  have "nonempty (tbl ! q) \<or> (q = i \<and> cdist n i (cnext n j) < cdist n i p)"
    if p: "p < n" "nonempty (tbl ! p)" and q: "q < n" "on_way n (ht_hash n (tbl ! p)) p q" for p q
    using gap_okD [OF gap p(1) q(1) p(2) q(2)]
  proof
    assume "nonempty (tbl ! q)"
    then show ?thesis ..
  next
    assume far: "q = i \<and> cdist n i j < cdist n i p"
    with off q(2) have "p \<noteq> cnext n j" by auto
    with far d cdist_inj [OF assms(2) j' p(1)] show ?thesis by linarith
  qed
  then show ?thesis unfolding gap_ok_def by blast
qed

lemma slots_shift:
  assumes dist: "distinct (filter nonempty tbl)" and len: "i < length tbl" "j < length tbl" "i \<noteq> j"
    and slots: "tbl ! i = FLAG_EMPTY_SLOT" "nonempty (tbl ! j)"
  shows "distinct (filter nonempty ((tbl[i := tbl ! j])[j := FLAG_EMPTY_SLOT]))"
    and "slot_keys ((tbl[i := tbl ! j])[j := FLAG_EMPTY_SLOT]) = slot_keys tbl"
proof -
  let ?u = "tbl[j := FLAG_EMPTY_SLOT]"
  have swap: "(tbl[i := tbl ! j])[j := FLAG_EMPTY_SLOT] = ?u[i := tbl ! j]"
    using len(3) by (simp add: list_update_swap)
  have keys: "slot_keys ?u = slot_keys tbl - {tbl ! j}"
    using slot_keys_unset [OF dist len(2)] .
  then have fresh: "tbl ! j \<notin> set ?u"
    using slots(2) by (auto simp: slot_keys_def)
  have i: "?u ! i = FLAG_EMPTY_SLOT" using slots(1) len by (simp add: nth_list_update)
  show "distinct (filter nonempty ((tbl[i := tbl ! j])[j := FLAG_EMPTY_SLOT]))"
    unfolding swap
    using distinct_filter_set [OF distinct_filter_unset [OF dist len(2)], of FLAG_EMPTY_SLOT i "tbl ! j"]
      i fresh len(1) by simp
  have "tbl ! j \<in> slot_keys tbl" using len(2) slots(2) by (simp add: slot_keys_def)
  then show "slot_keys ((tbl[i := tbl ! j])[j := FLAG_EMPTY_SLOT]) = slot_keys tbl"
    unfolding swap using slot_keys_set [of i ?u "tbl ! j"] i len(1) slots(2) keys by auto
qed

lemma backshift_correct:
  assumes "\<exists>k. n = 2 ^ k" "length tbl = n" "distinct (filter nonempty tbl)" "i < n" "j < n"
    "tbl ! i = FLAG_EMPTY_SLOT" "gap_ok n tbl i j" "e < n" "e \<noteq> i" "j \<noteq> e"
    "tbl ! e = FLAG_EMPTY_SLOT"
  shows "\<exists>tbl'. backshift tbl n i j = Some tbl' \<and> slots_ok n tbl' \<and> slot_keys tbl' = slot_keys tbl"
  using assms
proof (induction "cdist n j e" arbitrary: tbl i j rule: less_induct)
  case less
  have home: "ht_hash n k < n" for k using less.prems(1) by (auto simp: ht_hash_mod)
  let ?j = "cnext n j"
  have j': "?j < n" using less.prems(5) by (auto simp: cnext_def)
  have next_eq: "mask_next n j = ?j"
  proof -
    obtain k where "n = 2 ^ k" using less.prems(1) by blast
    then have "slots_ok n (replicate n FLAG_EMPTY_SLOT)" using replicate_slots_ok by simp
    then show ?thesis using less.prems(5) by (rule mask_next_eq)
  qed
  have closer: "cdist n ?j e < cdist n j e"
    using less.prems(5,8,10) by (simp add: cdist_cnext_left cdist_eq_0_iff zero_less_iff_neq_zero)
  show ?case
  proof (cases "tbl ! ?j = FLAG_EMPTY_SLOT")
    case True
    then have "chain_ok n tbl"
      using gap_closed [OF less.prems(7,4,5) True home] by simp
    with True less.prems show ?thesis
      by (subst backshift.simps) (simp add: Let_def next_eq slots_ok_def)
  next
    case False
    then have ne: "?j \<noteq> i" "?j \<noteq> e" using less.prems(6,11) by auto
    let ?h = "ht_hash n (tbl ! ?j)"
    have path: "(if ?h \<le> ?j then ?h \<le> i \<and> i < ?j else i \<ge> ?h \<or> i < ?j) \<longleftrightarrow> on_way n ?h ?j i"
      using on_way_cmp [OF home j' less.prems(4)] by simp
    show ?thesis
    proof (cases "on_way n ?h ?j i")
      case True
      let ?t = "(tbl[i := tbl ! ?j])[?j := FLAG_EMPTY_SLOT]"
      have len: "i < length tbl" "?j < length tbl" using less.prems(2,4) j' by auto
      note sh = slots_shift [OF less.prems(3) len ne(1) [symmetric] less.prems(6) False]
      have "\<exists>tbl'. backshift ?t n ?j ?j = Some tbl' \<and> slots_ok n tbl' \<and> slot_keys tbl' = slot_keys ?t"
      proof (rule less.hyps [OF closer])
        show "gap_ok n ?t ?j ?j"
          using gap_moves [OF less.prems(7,4) j' ne(1) [symmetric] less.prems(2) False True home] .
        show "?t ! e = FLAG_EMPTY_SLOT" using less.prems ne j' by (simp add: nth_list_update)
        show "?t ! ?j = FLAG_EMPTY_SLOT" using len by simp
      qed (use less.prems ne j' sh in auto)
      then show ?thesis using False True path sh(2)
        by (subst backshift.simps) (simp add: Let_def next_eq)
    next
      case off: False
      have "\<exists>tbl'. backshift tbl n i ?j = Some tbl' \<and> slots_ok n tbl' \<and> slot_keys tbl' = slot_keys tbl"
        using gap_stays [OF less.prems(7,4,5) ne(1) off] less.prems ne j'
        by (intro less.hyps [OF closer]) auto
      then show ?thesis using False off path
        by (subst backshift.simps) (simp add: Let_def next_eq)
    qed
  qed
qed

lemma remove2_correct:
  assumes ok: "ht2_ok t" and k: "nonempty k"
  obtains t' where "removeDestHashTableVal2 t k = Some t'" "ht2_ok t'"
    "ht2_keys t' = ht2_keys t - {k}"
proof -
  let ?n = "hashBlockSize t" and ?T = "hashtable t"
  let ?stop = "\<lambda>x. \<not> (x \<noteq> FLAG_EMPTY_SLOT \<and> x \<noteq> k)"
  have sok: "slots_ok ?n ?T" using ok by (simp add: ht2_ok_def)
  have home: "ht_hash ?n x < ?n" for x by (rule ht_hash_less [OF sok])
  obtain e where e: "e < ?n" "?T ! e = FLAG_EMPTY_SLOT"
    using empty_slot_exists [OF slots_okD(3) [OF sok]] ht2_room [OF ok] slots_okD(1) [OF sok] by metis
  from home [of k] e(1) obtain q where q: "q < ?n" "?stop (?T ! q)"
    and way: "\<And>s. s < ?n \<Longrightarrow> on_way ?n (ht_hash ?n k) q s \<Longrightarrow> \<not> ?stop (?T ! s)"
    by (rule probe_first [where stop = ?stop]) (use e(2) in auto)
  have found: "probe_mask ?stop ?T ?n (ht_hash ?n k) = Some q"
    by (rule probe_mask_eq [OF sok home q(1)]) (use q(2) way in auto)
  show ?thesis
  proof (cases "?T ! q = k")
    case False
    have "k \<notin> slot_keys ?T"
    proof
      assume "k \<in> slot_keys ?T"
      then obtain p where p: "p < ?n" "?T ! p = k"
        using slot_keys_iff [OF slots_okD(1) [OF sok] k] by blast
      have "probe ?stop ?T ?n (ht_hash ?n k) = Some p"
        using probe_present [OF sok p k] by (simp add: disj_commute)
      moreover have "probe ?stop ?T ?n (ht_hash ?n k) = Some q"
        by (rule probe_finds [OF home q(1)]) (use q(2) way in auto)
      ultimately show False using False p by simp
    qed
    then show ?thesis using that [of t] found False ok
      by (simp add: removeDestHashTableVal2_def ht2_keys_def)
  next
    case True
    let ?U = "?T[q := FLAG_EMPTY_SLOT]"
    have len: "length ?T = ?n" by (rule slots_okD(1) [OF sok])
    have keys: "slot_keys ?U = slot_keys ?T - {k}"
      using slot_keys_unset [OF slots_okD(3) [OF sok]] q(1) len True by simp
    have gap: "gap_ok ?n ?U q q"
    proof -
      have "nonempty (?U ! s) \<or> (s = q \<and> cdist ?n q q < cdist ?n q p)"
        if "p < ?n" "s < ?n" "nonempty (?U ! p)" "on_way ?n (ht_hash ?n (?U ! p)) p s" for p s
      proof -
        have pq: "p \<noteq> q" using that(3) len q(1) by auto
        then have "nonempty (?T ! s)"
          using that chain_okD [OF slots_okD(2) [OF sok] that(1)] by simp
        moreover have "cdist ?n q p > 0" using pq that(1) q(1) cdist_eq_0_iff [of q ?n p] by auto
        ultimately show ?thesis by (cases "s = q") auto
      qed
      then show ?thesis unfolding gap_ok_def by blast
    qed
    have eq: "e \<noteq> q" using e(2) True k by auto
    have "\<exists>tbl'. backshift ?U ?n q q = Some tbl' \<and> slots_ok ?n tbl' \<and> slot_keys tbl' = slot_keys ?U"
    proof (rule backshift_correct)
      show "\<exists>k. ?n = 2 ^ k" using sok by (simp add: slots_ok_def)
      show "distinct (filter nonempty ?U)"
        using distinct_filter_unset [OF slots_okD(3) [OF sok]] len q(1) by simp
      show "gap_ok ?n ?U q q" by (rule gap)
      show "e < ?n" "e \<noteq> q" "q \<noteq> e" using e(1) eq by auto
      show "?U ! e = FLAG_EMPTY_SLOT" using e(2) eq by simp
    qed (use len q(1) in auto)
    then obtain tbl' where b: "backshift ?U ?n q q = Some tbl'" "slots_ok ?n tbl'"
      "slot_keys tbl' = slot_keys ?T - {k}" using keys by auto
    let ?t' = "t\<lparr>hashtable := tbl', entryCounter := entryCounter t - 1\<rparr>"
    have "k \<in> slot_keys ?T" using True q(1) k len by (auto simp: slot_keys_def)
    moreover have "finite (slot_keys ?T)" by (simp add: slot_keys_def)
    ultimately have "ht2_ok ?t'" using ok b by (simp add: ht2_ok_def, linarith)
    then show ?thesis using that [of ?t'] found True k b
      by (simp add: removeDestHashTableVal2_def ht2_keys_def)
  qed
qed

section \<open>The interface the vertices use\<close>

text \<open>
  A key index promises a set: membership, insertion of an absent key, removal. The vertex code
  relies on nothing else of its index \<open>M\<close>.
\<close>

locale key_index =
  fixes ok :: "'t \<Rightarrow> bool" and keys :: "'t \<Rightarrow> 'k set" and storable :: "'k \<Rightarrow> bool"
    and get :: "'t \<Rightarrow> 'k \<Rightarrow> bool option" and put :: "'t \<Rightarrow> 'k \<Rightarrow> 't option"
    and remove :: "'t \<Rightarrow> 'k \<Rightarrow> 't option"
  assumes get_law: "ok t \<Longrightarrow> storable k \<Longrightarrow> get t k = Some (k \<in> keys t)"
    and put_law: "ok t \<Longrightarrow> storable k \<Longrightarrow> k \<notin> keys t \<Longrightarrow>
      \<exists>t'. put t k = Some t' \<and> ok t' \<and> keys t' = insert k (keys t)"
    and remove_law: "ok t \<Longrightarrow> storable k \<Longrightarrow>
      \<exists>t'. remove t k = Some t' \<and> ok t' \<and> keys t' = keys t - {k}"
begin

lemma put_all:
  "ok t \<Longrightarrow> distinct ks \<Longrightarrow> set ks \<inter> keys t = {} \<Longrightarrow> (\<And>k. k \<in> set ks \<Longrightarrow> storable k) \<Longrightarrow>
   \<exists>t'. foldM (\<lambda>k t. put t k) ks t = Some t' \<and> ok t' \<and> keys t' = keys t \<union> set ks"
proof (induction ks arbitrary: t)
  case (Cons k ks)
  obtain t1 where t1: "put t k = Some t1" "ok t1" "keys t1 = insert k (keys t)"
    using put_law [of t k] Cons.prems by auto
  have "\<exists>t'. foldM (\<lambda>k t. put t k) ks t1 = Some t' \<and> ok t' \<and> keys t' = keys t1 \<union> set ks"
    by (rule Cons.IH) (use Cons.prems t1 in auto)
  with t1 show ?case by auto
qed simp

lemma remove_all:
  "ok t \<Longrightarrow> (\<And>k. k \<in> set ks \<Longrightarrow> storable k) \<Longrightarrow>
   \<exists>t'. foldM (\<lambda>k t. remove t k) ks t = Some t' \<and> ok t' \<and> keys t' = keys t - set ks"
proof (induction ks arbitrary: t)
  case (Cons k ks)
  obtain t1 where t1: "remove t k = Some t1" "ok t1" "keys t1 = keys t - {k}"
    using remove_law [of t k] Cons.prems by auto
  have "\<exists>t'. foldM (\<lambda>k t. remove t k) ks t1 = Some t' \<and> ok t' \<and> keys t' = keys t1 - set ks"
    by (rule Cons.IH) (use Cons.prems t1 in auto)
  with t1 show ?case by auto
qed simp

end

interpretation ht2: key_index ht2_ok ht2_keys nonempty
  getDestHashTableVal2 setDestHashTableVal2 removeDestHashTableVal2
proof unfold_locales
  fix t :: hashtable2 and k
  assume t: "ht2_ok t" and k: "nonempty k"
  show "getDestHashTableVal2 t k = Some (k \<in> ht2_keys t)"
    using t k by (rule getDest2_correct)
  show "\<exists>t'. removeDestHashTableVal2 t k = Some t' \<and> ht2_ok t' \<and> ht2_keys t' = ht2_keys t - {k}"
    using remove2_correct [OF t k] by metis
  assume "k \<notin> ht2_keys t"
  then show "\<exists>t'. setDestHashTableVal2 t k = Some t' \<and> ht2_ok t' \<and> ht2_keys t' = insert k (ht2_keys t)"
    using set2_correct [OF t _ k] by metis
qed

section \<open>Histories of table operations\<close>

datatype ht_op = HGet "64 word" | HPut "64 word" | HRemove "64 word"

text \<open>What the table answers over a history, and what a set answers.\<close>

fun ht2_run :: "ht_op list \<Rightarrow> hashtable2 \<Rightarrow> (bool list \<times> hashtable2) option" where
  "ht2_run [] t = Some ([], t)"
| "ht2_run (HGet k # ops) t =
     (case getDestHashTableVal2 t k of None \<Rightarrow> None
      | Some b \<Rightarrow> map_option (\<lambda>(bs, t'). (b # bs, t')) (ht2_run ops t))"
| "ht2_run (HPut k # ops) t = Option.bind (setDestHashTableVal2 t k) (ht2_run ops)"
| "ht2_run (HRemove k # ops) t = Option.bind (removeDestHashTableVal2 t k) (ht2_run ops)"

fun set_run :: "ht_op list \<Rightarrow> 64 word set \<Rightarrow> bool list \<times> 64 word set" where
  "set_run [] S = ([], S)"
| "set_run (HGet k # ops) S = (let (bs, S') = set_run ops S in ((k \<in> S) # bs, S'))"
| "set_run (HPut k # ops) S = set_run ops (insert k S)"
| "set_run (HRemove k # ops) S = set_run ops (S - {k})"

text \<open>The caller's obligations: no key is the free-slot mark, and a key is stored once.\<close>

fun legal_run :: "ht_op list \<Rightarrow> 64 word set \<Rightarrow> bool" where
  "legal_run [] S = True"
| "legal_run (HGet k # ops) S = (nonempty k \<and> legal_run ops S)"
| "legal_run (HPut k # ops) S = (nonempty k \<and> k \<notin> S \<and> legal_run ops (insert k S))"
| "legal_run (HRemove k # ops) S = (nonempty k \<and> legal_run ops (S - {k}))"

lemma ht2_run_refines:
  "ht2_ok t \<Longrightarrow> legal_run ops (ht2_keys t) \<Longrightarrow>
   \<exists>t'. ht2_run ops t = Some (fst (set_run ops (ht2_keys t)), t') \<and> ht2_ok t' \<and>
        ht2_keys t' = snd (set_run ops (ht2_keys t))"
proof (induction ops arbitrary: t)
  case (Cons op ops)
  show ?case
  proof (cases op)
    case (HGet k)
    with Cons obtain t' where "ht2_run ops t = Some (fst (set_run ops (ht2_keys t)), t')" "ht2_ok t'"
      "ht2_keys t' = snd (set_run ops (ht2_keys t))" by auto
    with HGet Cons.prems show ?thesis by (simp add: ht2.get_law split: prod.split)
  next
    case (HPut k)
    then obtain t1 where "setDestHashTableVal2 t k = Some t1" "ht2_ok t1"
      "ht2_keys t1 = insert k (ht2_keys t)" using ht2.put_law [of t k] Cons.prems by auto
    with HPut Cons.prems Cons.IH [of t1] show ?thesis by simp
  next
    case (HRemove k)
    then obtain t1 where "removeDestHashTableVal2 t k = Some t1" "ht2_ok t1"
      "ht2_keys t1 = ht2_keys t - {k}" using ht2.remove_law [of t k] Cons.prems by auto
    with HRemove Cons.prems Cons.IH [of t1] show ?thesis by simp
  qed
qed simp

text \<open>
  C5: Over every history of lookups, insertions of absent keys and removals that starts from the
  constructor, \<open>HashTable2\<close> returns from every probe loop and answers exactly as a set does,
  across resizes and backward-shift deletions.
\<close>

theorem HashTable2_refines_set:
  assumes "legal_run ops {}"
  shows "\<exists>t. ht2_run ops HashTable2_init = Some (fst (set_run ops {}), t) \<and> ht2_ok t \<and>
             ht2_keys t = snd (set_run ops {})"
  using ht2_run_refines [of HashTable2_init ops] assms by (simp add: HashTable2_init_ok)

theorem HashTable2_refines_set_witness:
  "\<exists>t. ht2_run [HPut 3, HPut 7, HPut 11, HRemove 3, HGet 11, HGet 3] HashTable2_init
         = Some ([True, False], t) \<and> ht2_ok t \<and> ht2_keys t = {7, 11}"
proof -
  have "legal_run [HPut 3, HPut 7, HPut 11, HRemove 3, HGet 11, HGet 3] {}"
    by (simp add: FLAG_EMPTY_SLOT_def)
  from HashTable2_refines_set [OF this] show ?thesis
    by (simp add: insert_commute insert_Diff_if)
qed

end
