(* ===== verification/Version_Block.thy ===== *)
theory Version_Block
  imports AVB_Types
begin

text \<open>
  \<open>data-structure/VersionBlock/VertexVersionBlock\<close>: the 16-byte edge records, the temporary
  version block (TVB) that collects the pending versions of one epoch, the published version
  block (VB), the per-vertex manager with its chain of VBs and its epoch index, and the
  iterator that walks the chain for a reader. The default build (\<open>FINEGRAIN\<close>) and the coarse
  build differ in a few comparisons; \<open>grain\<close> selects the build where both are modelled.

  A \<open>VersionBlock*\<close> is the list of the block it points to and the blocks behind it: the
  field \<open>last_vb_\<close> is the tail of that list and \<open>nullptr\<close> is the empty list. Published
  blocks are never written again, so sharing is not observable.
\<close>

datatype grain = Fine | Coarse

section \<open>EdgeWithIndex\<close>

text \<open>The first word is the union of \<open>e\<close> and \<open>properties\<close>.\<close>

record edge_with_index =
  ew_e :: "64 word"
  ew_block :: "32 word"
  ew_index :: "32 word"

definition ew_clear :: "edge_with_index \<Rightarrow> edge_with_index" where
  "ew_clear x = x\<lparr>ew_block := 0, ew_index := 0\<rparr>"

definition HasTmpVB :: "edge_with_index \<Rightarrow> bool" where
  "HasTmpVB x = has_tmp (ew_block x)"

definition GetLinkBlock :: "edge_with_index \<Rightarrow> epoch_t" where
  "GetLinkBlock x = strip_tmp (ew_block x)"

definition GetCoarseC :: "edge_with_index \<Rightarrow> epoch_t" where
  "GetCoarseC x = strip_tmp (ew_block x)"

definition GetIntraC :: "edge_with_index \<Rightarrow> intra_t" where
  "GetIntraC x = ew_index x"

definition GetPredIndex :: "edge_with_index \<Rightarrow> 32 word" where
  "GetPredIndex x = ew_block x"

definition GetIntraInv :: "edge_with_index \<Rightarrow> intra_t" where
  "GetIntraInv x = ew_index x"

definition IsVisibleAt :: "edge_with_index \<Rightarrow> epoch_t \<Rightarrow> bool" where
  "IsVisibleAt x snap \<longleftrightarrow> GetLinkBlock x \<le> snap"

definition IsVisibleAtComposite :: "edge_with_index \<Rightarrow> composite \<Rightarrow> bool" where
  "IsVisibleAtComposite x query \<longleftrightarrow> Composite (GetCoarseC x) (GetIntraC x) < query"

definition IsVisibleAtComposite_inv :: "edge_with_index \<Rightarrow> composite \<Rightarrow> composite \<Rightarrow> bool" where
  "IsVisibleAtComposite_inv x query inva \<longleftrightarrow>
     Composite (GetCoarseC x) (GetIntraC x) < query \<and> query \<le> inva"

definition SetEdgeFG :: "dst_t \<Rightarrow> epoch_t \<Rightarrow> intra_t \<Rightarrow> edge_with_index" where
  "SetEdgeFG d coarse ic = \<lparr>ew_e = d, ew_block = coarse, ew_index = ic\<rparr>"

definition SetPropFG :: "dst_t \<Rightarrow> 32 word \<Rightarrow> intra_t \<Rightarrow> edge_with_index" where
  "SetPropFG w pred_idx inva = \<lparr>ew_e = w, ew_block = pred_idx, ew_index = inva\<rparr>"

definition edge_visible_at :: "grain \<Rightarrow> edge_with_index \<Rightarrow> composite \<Rightarrow> bool" where
  "edge_visible_at g x read_ts =
     (case g of Fine \<Rightarrow> IsVisibleAtComposite x read_ts | Coarse \<Rightarrow> IsVisibleAt x (comp_e read_ts))"

section \<open>Temporary version blocks\<close>

record version_link =
  link_block :: epoch_t
  link_index :: "32 word"
  link_link :: "64 word"

definition HasNextVB :: "version_link \<Rightarrow> bool" where
  "HasNextVB l \<longleftrightarrow> strip_tmp (link_block l) \<noteq> 0"

record version_entry =
  ent_offset :: "32 word"
  ent_merge_times :: "32 word"
  ent_last_epoch :: epoch_t
  ent_old_intra_c :: intra_t
  ent_new_intra_c :: intra_t
  ent_txn :: "64 word"
  ent_edge :: dst_t
  ent_weight :: "64 word"
  ent_link :: version_link

definition READ_WRITE_TXN :: "64 word" where
  "READ_WRITE_TXN = 0x8000000000000000"

definition UN_READ_WRITE_MARK :: "64 word \<Rightarrow> 64 word" where
  "UN_READ_WRITE_MARK x = x AND NOT READ_WRITE_TXN"

definition HasReadWriteTxn :: "version_entry \<Rightarrow> bool" where
  "HasReadWriteTxn x \<longleftrightarrow> ent_txn x AND READ_WRITE_TXN \<noteq> 0"

definition fresh_entry :: version_entry where
  "fresh_entry = \<lparr>ent_offset = 0, ent_merge_times = 0, ent_last_epoch = 0, ent_old_intra_c = 0,
     ent_new_intra_c = 0, ent_txn = 0, ent_edge = 0, ent_weight = 0,
     ent_link = \<lparr>link_block = 0, link_index = 0, link_link = 0\<rparr>\<rparr>"

text \<open>\<open>tmp_entry_\<close> is \<open>nullptr\<close> exactly when \<open>tmp_num\<close> is 0: the empty list.\<close>

record tmp_version_block =
  tmp_num :: nat
  version_num :: nat
  tvb_timestamp :: epoch_t
  tmp_entry :: "version_entry list"

definition tvb_new :: tmp_version_block where
  "tvb_new = \<lparr>tmp_num = 0, version_num = 0, tvb_timestamp = 0, tmp_entry = []\<rparr>"

definition tvb_Clear :: "tmp_version_block \<Rightarrow> tmp_version_block" where
  "tvb_Clear t = t\<lparr>version_num := 0, tmp_num := 0, tmp_entry := []\<rparr>"

definition InsertVersion ::
  "tmp_version_block \<Rightarrow> dst_t \<times> 64 word \<Rightarrow> epoch_t \<Rightarrow> 32 word \<Rightarrow> 64 word \<Rightarrow> 64 word \<Rightarrow> bool \<Rightarrow>
   32 word \<Rightarrow> 32 word \<Rightarrow> epoch_t \<Rightarrow> intra_t \<Rightarrow> intra_t \<Rightarrow> tmp_version_block \<times> nat" where
  "InsertVersion t edge last_epoch last_index vb txn write_only offset mt le old_intra new_intra =
     (let n = version_num t + 1;
          (cap, arr) =
            (if n > tmp_num t then
               (if tmp_num t \<noteq> 0 then
                  (tmp_num t * 2, take (tmp_num t) (tmp_entry t) @ replicate (tmp_num t) fresh_entry)
                else (8, replicate 8 fresh_entry))
             else (tmp_num t, tmp_entry t));
          entry = \<lparr>ent_offset = offset, ent_merge_times = mt, ent_last_epoch = le,
                   ent_old_intra_c = old_intra, ent_new_intra_c = new_intra,
                   ent_txn = UN_READ_WRITE_MARK txn OR (if write_only then 0 else READ_WRITE_TXN),
                   ent_edge = fst edge, ent_weight = snd edge,
                   ent_link = \<lparr>link_block = last_epoch, link_index = last_index, link_link = vb\<rparr>\<rparr>
      in (t\<lparr>version_num := n, tmp_num := cap, tmp_entry := arr[n - 1 := entry]\<rparr>, n - 1))"

definition ChangeVersion ::
  "tmp_version_block \<Rightarrow> dst_t \<times> 64 word \<Rightarrow> nat \<Rightarrow> 64 word \<Rightarrow> bool \<Rightarrow> 32 word \<Rightarrow> 32 word \<Rightarrow>
   (tmp_version_block \<times> bool) res" where
  "ChangeVersion t edge index txn write_only mt offset =
     (if index \<ge> length (tmp_entry t) then Inl OutOfBounds
      else let entry = tmp_entry t ! index in
        if write_only then
          let entry1 = entry\<lparr>ent_offset := offset, ent_merge_times := mt\<rparr>;
              entry2 = (if HasReadWriteTxn entry1 \<or>
                           UN_READ_WRITE_MARK (ent_txn entry1) \<le> UN_READ_WRITE_MARK txn
                        then entry1\<lparr>ent_weight := snd edge,
                               ent_txn := UN_READ_WRITE_MARK txn OR (if write_only then 0 else READ_WRITE_TXN)\<rparr>
                        else entry1)
          in Inr (t\<lparr>tmp_entry := (tmp_entry t)[index := entry2]\<rparr>, True)
        else Inl AssertFail)"

definition ChangeNextIndex :: "tmp_version_block \<Rightarrow> nat \<Rightarrow> epoch_t \<Rightarrow> 32 word \<Rightarrow> tmp_version_block res" where
  "ChangeNextIndex t index next_epoch next_index =
     (if tmp_entry t = [] then Inl NullDeref
      else if index \<ge> length (tmp_entry t) then Inl OutOfBounds
      else let entry = tmp_entry t ! index; l = ent_link entry;
               l' = l\<lparr>link_block := link_block l OR next_epoch, link_index := next_index\<rparr>
           in Inr (t\<lparr>tmp_entry := (tmp_entry t)[index := entry\<lparr>ent_link := l'\<rparr>]\<rparr>))"

definition ChangeLastIndex :: "tmp_version_block \<Rightarrow> nat \<Rightarrow> 64 word \<Rightarrow> tmp_version_block res" where
  "ChangeLastIndex t index vb =
     (if tmp_entry t = [] then Inl NullDeref
      else if index \<ge> length (tmp_entry t) then Inl OutOfBounds
      else let entry = tmp_entry t ! index; l = ent_link entry;
               l' = l\<lparr>link_link := vb, link_block := link_block l XOR TMPVB_MASK\<rparr>
           in Inr (t\<lparr>tmp_entry := (tmp_entry t)[index := entry\<lparr>ent_link := l'\<rparr>]\<rparr>))"

definition ChangeOffset :: "tmp_version_block \<Rightarrow> nat \<Rightarrow> 32 word \<Rightarrow> tmp_version_block res" where
  "ChangeOffset t index offset =
     (if tmp_entry t = [] then Inl NullDeref
      else if index \<ge> length (tmp_entry t) then Inl OutOfBounds
      else Inr (t\<lparr>tmp_entry := (tmp_entry t)[index := (tmp_entry t ! index)\<lparr>ent_offset := offset\<rparr>]\<rparr>))"

text \<open>A TVB is a growing vector: its live entries are the first \<open>version_num\<close> ones.\<close>

definition tvb_live :: "tmp_version_block \<Rightarrow> version_entry list" where
  "tvb_live t = take (version_num t) (tmp_entry t)"

definition tvb_ok :: "tmp_version_block \<Rightarrow> bool" where
  "tvb_ok t \<longleftrightarrow> length (tmp_entry t) = tmp_num t \<and> version_num t \<le> tmp_num t"

lemma tvb_new_ok: "tvb_ok tvb_new" "tvb_live tvb_new = []"
  by (simp_all add: tvb_ok_def tvb_new_def tvb_live_def)

lemma tvb_Clear_ok: "tvb_ok (tvb_Clear t)" "tvb_live (tvb_Clear t) = []"
  by (simp_all add: tvb_ok_def tvb_Clear_def tvb_live_def)

lemma length_tvb_live: "tvb_ok t \<Longrightarrow> length (tvb_live t) = version_num t"
  by (simp add: tvb_ok_def tvb_live_def)

lemma take_snoc_update:
  "n < length xs \<Longrightarrow> take (Suc n) (xs[n := x]) = take n xs @ [x]"
  by (simp add: take_Suc_conv_app_nth)

lemma InsertVersion_spec:
  assumes ok: "tvb_ok t"
    and ins: "InsertVersion t edge last_epoch last_index vb txn wo offset mt le oi ni = (t', idx)"
  shows "tvb_ok t'" "idx = version_num t" "tvb_timestamp t' = tvb_timestamp t"
    "version_num t' = version_num t + 1"
    "tvb_live t' = tvb_live t @
       [\<lparr>ent_offset = offset, ent_merge_times = mt, ent_last_epoch = le, ent_old_intra_c = oi,
         ent_new_intra_c = ni,
         ent_txn = UN_READ_WRITE_MARK txn OR (if wo then 0 else READ_WRITE_TXN),
         ent_edge = fst edge, ent_weight = snd edge,
         ent_link = \<lparr>link_block = last_epoch, link_index = last_index, link_link = vb\<rparr>\<rparr>]"
  using assms
  by (auto simp: InsertVersion_def Let_def tvb_ok_def tvb_live_def take_snoc_update
      split: if_splits)

lemma ChangeNextIndex_spec:
  assumes "tvb_ok t" "ChangeNextIndex t i ep ni = Inr t'"
  shows "tvb_ok t'" "version_num t' = version_num t" "tvb_timestamp t' = tvb_timestamp t"
    "i < length (tmp_entry t)"
    "tvb_live t' = (tvb_live t)[i := (tmp_entry t ! i)\<lparr>ent_link :=
       (ent_link (tmp_entry t ! i))\<lparr>link_block := link_block (ent_link (tmp_entry t ! i)) OR ep,
                                     link_index := ni\<rparr>\<rparr>]"
  using assms
  by (auto simp: ChangeNextIndex_def tvb_ok_def tvb_live_def Let_def take_update_swap
      split: if_splits)

end
