(* ===== verification/Version_Chain.thy ===== *)
theory Version_Chain
  imports Version_Block
begin

text \<open>
  Published version blocks: \<open>VersionBlock\<close>, the chain and epoch index that
  \<open>VersionBlockManager\<close> keeps per vertex, and \<open>VBIterator\<close>. The main results: the degree at
  an epoch is the sum of the edge deltas published up to it, the binary-searched index agrees
  with the chain, and the iterator visits exactly the blocks a snapshot needs, none of them
  older than the snapshot.
\<close>

section \<open>VersionBlock and the manager's chain\<close>

record version_block =
  vb_edge_num :: int
  vb_version_num :: nat
  vb_timestamp :: epoch_t
  vb_last_epoch :: epoch_t
  vb_start :: "edge_with_index list option"

type_synonym vb_ptr = "version_block list"

definition VersionBlock_of_tvb :: "tmp_version_block \<Rightarrow> version_block" where
  "VersionBlock_of_tvb t = \<lparr>vb_edge_num = 0, vb_version_num = version_num t,
     vb_timestamp = tvb_timestamp t, vb_last_epoch = 0, vb_start = None\<rparr>"

definition SetNextVB :: "version_block \<Rightarrow> vb_ptr \<Rightarrow> epoch_t \<Rightarrow> vb_ptr" where
  "SetNextVB vb next_vb ts = vb\<lparr>vb_last_epoch := ts\<rparr> # next_vb"

record vb_manager =
  vbm_end_epoch :: epoch_t
  vbm_end :: vb_ptr
  vbm_active_mask :: "16 word"
  vbm_index :: "(epoch_t \<times> vb_ptr) list"
  vbm_tvb_array :: "tmp_version_block list"

definition MAXSIMULBATCH :: nat where
  "MAXSIMULBATCH = 16"

definition MODPM :: "32 word" where
  "MODPM = 15"

definition ring_slot :: "epoch_t \<Rightarrow> nat" where
  "ring_slot epoch = unat (epoch AND MODPM)"

definition VersionBlockManager_new :: vb_manager where
  "VersionBlockManager_new = \<lparr>vbm_end_epoch = 0, vbm_end = [], vbm_active_mask = 0, vbm_index = [],
     vbm_tvb_array = replicate MAXSIMULBATCH tvb_new\<rparr>"

definition PushVBIndex :: "vb_manager \<Rightarrow> epoch_t \<Rightarrow> vb_ptr \<Rightarrow> vb_manager" where
  "PushVBIndex m ts vb = m\<lparr>vbm_index := vbm_index m @ [(ts, vb)]\<rparr>"

definition PushVB :: "vb_manager \<Rightarrow> int \<Rightarrow> version_block \<Rightarrow> vb_manager \<times> int" where
  "PushVB m edge_num nw =
     (let chain = SetNextVB nw (vbm_end m) (vbm_end_epoch m);
          m' = m\<lparr>vbm_end := chain, vbm_end_epoch := vb_timestamp nw\<rparr>
      in (PushVBIndex m' (vb_timestamp nw) chain, edge_num + vb_edge_num nw))"

definition MarkTvbActive :: "vb_manager \<Rightarrow> epoch_t \<Rightarrow> vb_manager" where
  "MarkTvbActive m epoch =
     m\<lparr>vbm_active_mask := vbm_active_mask m OR push_bit (ring_slot epoch) 1\<rparr>"

definition MarkTvbInactive :: "vb_manager \<Rightarrow> epoch_t \<Rightarrow> vb_manager" where
  "MarkTvbInactive m epoch =
     m\<lparr>vbm_active_mask := vbm_active_mask m AND NOT (push_bit (ring_slot epoch) 1)\<rparr>"

text \<open>\<open>std::upper_bound\<close> on a vector sorted by its first component, then one step back.\<close>

definition find_vb :: "vb_manager \<Rightarrow> epoch_t \<Rightarrow> vb_ptr" where
  "find_vb m ts =
     (if vbm_index m = [] then []
      else let it = length (takeWhile (\<lambda>p. \<not> ts < fst p) (vbm_index m))
           in if it = 0 then [] else snd (vbm_index m ! (it - 1)))"

fun degree_loop :: "epoch_t \<Rightarrow> epoch_t \<Rightarrow> vb_ptr \<Rightarrow> int \<Rightarrow> int res" where
  "degree_loop epoch ts [] degree = (if epoch < ts then Inl NullDeref else Inr degree)"
| "degree_loop epoch ts (vb # last_vb) degree =
     (if epoch < ts then degree_loop epoch (vb_last_epoch vb) last_vb (degree - vb_edge_num vb)
      else Inr degree)"

definition getDegreeVersioned :: "vb_manager \<Rightarrow> epoch_t \<Rightarrow> int res" where
  "getDegreeVersioned m epoch = degree_loop epoch (vbm_end_epoch m) (vbm_end m) 0"

subsection \<open>Well-formed chains\<close>

fun chain_wf :: "epoch_t \<Rightarrow> vb_ptr \<Rightarrow> bool" where
  "chain_wf ts [] = (ts = 0)"
| "chain_wf ts (vb # last_vb) =
     (ts = vb_timestamp vb \<and> vb_last_epoch vb < vb_timestamp vb \<and> chain_wf (vb_last_epoch vb) last_vb)"

fun chain_suffixes :: "vb_ptr \<Rightarrow> vb_ptr list" where
  "chain_suffixes [] = []"
| "chain_suffixes (vb # last_vb) = chain_suffixes last_vb @ [vb # last_vb]"

definition vbm_ok :: "vb_manager \<Rightarrow> bool" where
  "vbm_ok m \<longleftrightarrow> chain_wf (vbm_end_epoch m) (vbm_end m) \<and>
     vbm_index m = map (\<lambda>c. (vb_timestamp (hd c), c)) (chain_suffixes (vbm_end m))"

lemma chain_wf_timestamps:
  "chain_wf ts c \<Longrightarrow> vb \<in> set c \<Longrightarrow> vb_timestamp vb \<le> ts"
  by (induction c arbitrary: ts) (auto intro: order_trans less_imp_le)

lemma chain_wf_sorted: "chain_wf ts c \<Longrightarrow> sorted_wrt (\<lambda>x y. vb_timestamp y < vb_timestamp x) c"
proof (induction c arbitrary: ts)
  case (Cons vb c)
  then have "\<forall>y \<in> set c. vb_timestamp y < vb_timestamp vb"
    using chain_wf_timestamps [of "vb_last_epoch vb" c] by (auto intro: le_less_trans)
  with Cons show ?case by auto
qed simp

lemma VersionBlockManager_new_ok: "vbm_ok VersionBlockManager_new"
  by (simp add: vbm_ok_def VersionBlockManager_new_def)

lemma PushVB_ok:
  "vbm_ok m \<Longrightarrow> vbm_end_epoch m < vb_timestamp nw \<Longrightarrow> vbm_ok (fst (PushVB m n nw))"
  by (simp add: vbm_ok_def PushVB_def PushVBIndex_def SetNextVB_def Let_def)

lemma Mark_ok [simp]:
  "vbm_ok (MarkTvbActive m ep) = vbm_ok m" "vbm_ok (MarkTvbInactive m ep) = vbm_ok m"
  by (simp_all add: vbm_ok_def MarkTvbActive_def MarkTvbInactive_def)

lemma degree_loop_sum:
  "chain_wf ts c \<Longrightarrow>
   degree_loop epoch ts c d = Inr (d - (\<Sum>vb\<leftarrow>filter (\<lambda>vb. epoch < vb_timestamp vb) c. vb_edge_num vb))"
proof (induction c arbitrary: ts d)
  case (Cons vb c)
  show ?case
  proof (cases "epoch < ts")
    case True
    with Cons show ?thesis by simp
  next
    case False
    then have "filter (\<lambda>x. epoch < vb_timestamp x) (vb # c) = []"
      using chain_wf_timestamps [OF Cons.prems] by (fastforce simp: filter_empty_conv)
    with False show ?thesis by simp
  qed
qed simp

lemma degree_telescopes:
  assumes "chain_wf (vbm_end_epoch m) (vbm_end m)"
  shows "getDegreeVersioned m epoch =
     Inr ((\<Sum>vb\<leftarrow>filter (\<lambda>vb. vb_timestamp vb \<le> epoch) (vbm_end m). vb_edge_num vb)
          - (\<Sum>vb\<leftarrow>vbm_end m. vb_edge_num vb))"
  using degree_loop_sum [OF assms, of epoch 0]
    sum_list_map_filter_split [of vb_edge_num "vbm_end m" "\<lambda>vb. epoch < vb_timestamp vb"]
  by (simp add: getDegreeVersioned_def not_less)

lemma chain_suffixes_last: "c \<noteq> [] \<Longrightarrow> last (chain_suffixes c) = c"
  by (cases c) auto

lemma chain_suffixes_Nil_iff [simp]: "chain_suffixes c = [] \<longleftrightarrow> c = []"
  by (cases c) auto

lemma upper_bound_suffix:
  assumes "chain_wf ts0 c"
  shows "(let tw = takeWhile (\<lambda>p. \<not> ts < fst p) (map (\<lambda>c. (vb_timestamp (hd c), c)) (chain_suffixes c))
          in if tw = [] then [] else snd (last tw)) = dropWhile (\<lambda>vb. ts < vb_timestamp vb) c"
  using assms
proof (induction c arbitrary: ts0)
  case (Cons vb c)
  let ?f = "\<lambda>c. (vb_timestamp (hd c), c)"
  show ?case
  proof (cases "ts < vb_timestamp vb")
    case True
    let ?P = "\<lambda>p. \<not> ts < fst p"
    have "takeWhile ?P (map ?f (chain_suffixes c) @ [?f (vb # c)]) = takeWhile ?P (map ?f (chain_suffixes c))"
      using True by (simp add: takeWhile_snoc_not)
    with Cons.IH [of "vb_last_epoch vb"] Cons.prems True show ?thesis by simp
  next
    case False
    have all: "\<not> ts < vb_timestamp (hd d)" if "d \<in> set (chain_suffixes c)" for d
    proof -
      have "d \<noteq> [] \<and> set d \<subseteq> set c" using that by (induction c) auto
      then have "hd d \<in> set c" by (cases d) auto
      then have "vb_timestamp (hd d) \<le> vb_timestamp vb"
        using Cons.prems chain_wf_timestamps [of "vb_last_epoch vb" c "hd d"] by auto
      with False show ?thesis by simp
    qed
    have tw: "takeWhile (\<lambda>p. \<not> ts < fst p) (map ?f (chain_suffixes c) @ [(vb_timestamp vb, vb # c)])
        = map ?f (chain_suffixes c) @ [(vb_timestamp vb, vb # c)]"
      unfolding takeWhile_eq_all_conv using all False by auto
    show ?thesis using False by (simp add: Let_def tw)
  qed
qed simp

text \<open>
  C18: The epoch index built by \<open>PushVB\<close> and searched by \<open>find_vb\<close> agrees with the chain: for
  every epoch it yields the newest published version block whose timestamp does not exceed it,
  with all blocks behind it, and the null pointer when there is none.
\<close>

theorem find_vb_agrees_with_chain:
  assumes "vbm_ok m"
  shows "find_vb m ts = dropWhile (\<lambda>vb. ts < vb_timestamp vb) (vbm_end m)"
proof -
  let ?tw = "takeWhile (\<lambda>p. \<not> ts < fst p) (vbm_index m)"
  have "snd (vbm_index m ! (length ?tw - 1)) = snd (last ?tw)" if "?tw \<noteq> []"
    using that by (simp add: last_conv_nth takeWhile_nth)
  then have "find_vb m ts = (if ?tw = [] then [] else snd (last ?tw))"
    by (auto simp: find_vb_def Let_def)
  also have "\<dots> = dropWhile (\<lambda>vb. ts < vb_timestamp vb) (vbm_end m)"
    using assms upper_bound_suffix [of "vbm_end_epoch m" "vbm_end m" ts]
    unfolding vbm_ok_def Let_def by (elim conjE) (simp only: if_False if_True)
  finally show ?thesis .
qed

definition sample_vb :: "epoch_t \<Rightarrow> int \<Rightarrow> version_block" where
  "sample_vb ts d = \<lparr>vb_edge_num = d, vb_version_num = 0, vb_timestamp = ts, vb_last_epoch = 0, vb_start = None\<rparr>"

definition sample_manager :: vb_manager where
  "sample_manager = fst (PushVB (fst (PushVB VersionBlockManager_new 0 (sample_vb 2 1))) 1 (sample_vb 5 3))"

lemma sample_manager_ok: "vbm_ok sample_manager"
  unfolding sample_manager_def
  by (intro PushVB_ok VersionBlockManager_new_ok)
    (simp_all add: PushVB_def PushVBIndex_def SetNextVB_def Let_def VersionBlockManager_new_def sample_vb_def)

theorem find_vb_agrees_with_chain_witness:
  "vbm_ok sample_manager \<and> find_vb sample_manager 4 = [sample_vb 2 1]"
  using sample_manager_ok find_vb_agrees_with_chain [OF sample_manager_ok, of 4]
  by (simp add: sample_manager_def PushVB_def PushVBIndex_def SetNextVB_def Let_def
      VersionBlockManager_new_def sample_vb_def)

section \<open>VBIterator\<close>

text \<open>
  \<open>it_vb\<close> is the current block (\<open>vb_\<close>) and \<open>it_end\<close> is \<open>is_end_\<close>. The cursor \<open>index_\<close> is the
  start of the current block's records and is not kept separately. \<open>it_records\<close> is the
  counter of the \<open>Satistical\<close> object that the counting variant bumps.
\<close>

record vb_iterator =
  it_vb :: vb_ptr
  it_end :: bool
  it_version :: epoch_t
  it_records :: nat

definition first_block :: "edge_with_index list \<Rightarrow> epoch_t" where
  "first_block xs = ew_block (xs ! 0)"

definition chain_done :: "grain \<Rightarrow> version_block \<Rightarrow> epoch_t \<Rightarrow> bool" where
  "chain_done g vb version =
     (case g of Fine \<Rightarrow> vb_last_epoch vb < version | Coarse \<Rightarrow> vb_last_epoch vb \<le> version)"

definition start_hidden :: "version_block \<Rightarrow> epoch_t \<Rightarrow> bool" where
  "start_hidden vb version = (case vb_start vb of None \<Rightarrow> True | Some xs \<Rightarrow> first_block xs > version)"

text \<open>
  \<open>FindIndex\<close> without a counter: the result is the returned flag and the new \<open>vb_\<close>. The empty
  list is reached only through \<open>vb_ = vb_->last_vb_\<close>; \<open>FindIndex\<close> below catches a null start.
\<close>

fun FindIndex_loop :: "grain \<Rightarrow> epoch_t \<Rightarrow> vb_ptr \<Rightarrow> bool \<times> vb_ptr" where
  "FindIndex_loop g version [] = (True, [])"
| "FindIndex_loop g version (vb # last_vb) =
     (if g = Fine \<and> vb_timestamp vb = version then (vb_start vb = None, vb # last_vb)
      else if start_hidden vb version then
        (if chain_done g vb version then (True, vb # last_vb) else FindIndex_loop g version last_vb)
      else (False, vb # last_vb))"

text \<open>The counting variant ignores the build: no same-epoch case, and the coarse end test.\<close>

fun FindIndex_count_loop :: "epoch_t \<Rightarrow> vb_ptr \<Rightarrow> nat \<Rightarrow> bool \<times> vb_ptr \<times> nat" where
  "FindIndex_count_loop version [] n = (True, [], n)"
| "FindIndex_count_loop version (vb # last_vb) n =
     (if start_hidden vb version then
        (if chain_done Coarse vb version then (True, vb # last_vb, n + 1)
         else FindIndex_count_loop version last_vb (n + 1))
      else (False, vb # last_vb, n + 1))"

definition FindIndex :: "grain \<Rightarrow> bool \<Rightarrow> vb_iterator \<Rightarrow> vb_iterator res" where
  "FindIndex g counting it =
     (if it_vb it = [] then Inl NullDeref
      else if counting then
        (let (e, c, n) = FindIndex_count_loop (it_version it) (it_vb it) (it_records it)
         in Inr (it\<lparr>it_end := e, it_vb := c, it_records := n\<rparr>))
      else
        (let (e, c) = FindIndex_loop g (it_version it) (it_vb it)
         in Inr (it\<lparr>it_end := e, it_vb := c\<rparr>)))"

definition VBIterator_new :: "grain \<Rightarrow> bool \<Rightarrow> vb_ptr \<Rightarrow> epoch_t \<Rightarrow> vb_iterator res" where
  "VBIterator_new g counting vb version =
     FindIndex g counting \<lparr>it_vb = vb, it_end = False, it_version = version, it_records = 0\<rparr>"

definition getNext :: "grain \<Rightarrow> bool \<Rightarrow> vb_iterator \<Rightarrow> vb_iterator res" where
  "getNext g counting it =
     (case it_vb it of
        [] \<Rightarrow> Inl NullDeref
      | vb # last_vb \<Rightarrow>
          if chain_done g vb (it_version it) then Inr (it\<lparr>it_end := True\<rparr>)
          else if last_vb = [] then Inr (it\<lparr>it_vb := [], it_end := True\<rparr>)
          else FindIndex g counting (it\<lparr>it_vb := last_vb\<rparr>))"

text \<open>
  The reading loop of \<open>GraphAlgorithms\<close>: \<open>while (!it->is_end_) { ...; it->getNext(); }\<close>. It
  returns the blocks at which the body runs. The call of \<open>getNext\<close> passes no counter.
\<close>

lemma FindIndex_loop_length:
  "length (snd (FindIndex_loop g v c)) \<le> length c"
  by (induction g v c rule: FindIndex_loop.induct) auto

lemma getNext_shorter:
  "getNext g False it = Inr it' \<Longrightarrow> \<not> it_end it' \<Longrightarrow> length (it_vb it') < length (it_vb it)"
  using FindIndex_loop_length
  by (auto simp: getNext_def FindIndex_def Let_def less_Suc_eq_le split: list.splits if_splits prod.splits)
    (metis snd_conv)+

function visit_blocks :: "grain \<Rightarrow> vb_iterator \<Rightarrow> version_block list res" where
  "visit_blocks g it =
     (if it_end it then Inr []
      else case it_vb it of
        [] \<Rightarrow> Inl NullDeref
      | vb # _ \<Rightarrow>
          (case getNext g False it of
             Inl f \<Rightarrow> Inl f
           | Inr it' \<Rightarrow> if it_end it' then Inr [vb]
                       else bind_res (visit_blocks g it') (\<lambda>vbs. Inr (vb # vbs))))"
  by pat_completeness auto
termination
  by (relation "measure (\<lambda>(g, it). length (it_vb it))") (auto dest: getNext_shorter)

declare visit_blocks.simps [simp del]

subsection \<open>What the iterator visits\<close>

definition wanted_block :: "grain \<Rightarrow> epoch_t \<Rightarrow> version_block \<Rightarrow> bool" where
  "wanted_block g v vb \<longleftrightarrow>
     (case g of
        Fine \<Rightarrow> v \<le> vb_timestamp vb \<and> vb_start vb \<noteq> None \<and>
                (vb_timestamp vb = v \<or> \<not> start_hidden vb v)
      | Coarse \<Rightarrow> v < vb_timestamp vb \<and> \<not> start_hidden vb v)"

definition in_reach :: "grain \<Rightarrow> epoch_t \<Rightarrow> epoch_t \<Rightarrow> bool" where
  "in_reach g v ts \<longleftrightarrow> (case g of Fine \<Rightarrow> v \<le> ts | Coarse \<Rightarrow> v < ts)"

lemma chain_done_reach: "chain_done g vb v \<longleftrightarrow> \<not> in_reach g v (vb_last_epoch vb)"
  by (cases g) (auto simp: chain_done_def in_reach_def)

lemma wanted_none:
  "chain_wf ts c \<Longrightarrow> \<not> in_reach g v ts \<Longrightarrow> filter (wanted_block g v) c = []"
  by (auto simp: filter_empty_conv wanted_block_def in_reach_def not_le not_less split: grain.splits
      dest!: chain_wf_timestamps)

lemma FindIndex_loop_spec:
  assumes "chain_wf ts c" "in_reach g v ts"
  shows "case FindIndex_loop g v c of (e, c') \<Rightarrow>
    if e then filter (wanted_block g v) c = []
    else \<exists>vb rest. c' = vb # rest \<and> chain_wf (vb_timestamp vb) c' \<and>
      filter (wanted_block g v) c = vb # filter (wanted_block g v) rest"
  using assms
proof (induction g v c arbitrary: ts rule: FindIndex_loop.induct)
  case (2 g v vb rest)
  have ts: "ts = vb_timestamp vb" "chain_wf (vb_last_epoch vb) rest" using "2.prems" by auto
  have older: "filter (wanted_block g v) rest = []" if "chain_done g vb v"
    using wanted_none [OF ts(2)] that by (simp add: chain_done_reach)
  consider (same) "g = Fine" "vb_timestamp vb = v"
    | (stop) "\<not> (g = Fine \<and> vb_timestamp vb = v)" "start_hidden vb v" "chain_done g vb v"
    | (skip) "\<not> (g = Fine \<and> vb_timestamp vb = v)" "start_hidden vb v" "\<not> chain_done g vb v"
    | (here) "\<not> (g = Fine \<and> vb_timestamp vb = v)" "\<not> start_hidden vb v" by blast
  then show ?case
  proof cases
    case same
    then have "chain_done g vb v" using "2.prems" by (auto simp: chain_done_def)
    with older same "2.prems"(1) show ?thesis by (auto simp: wanted_block_def)
  next
    case stop
    then have "\<not> wanted_block g v vb" by (auto simp: wanted_block_def split: grain.splits)
    with stop older show ?thesis by auto
  next
    case skip
    then have "\<not> wanted_block g v vb" by (auto simp: wanted_block_def split: grain.splits)
    with skip "2.IH" [of "vb_last_epoch vb"] ts(2) show ?thesis by (auto simp: chain_done_reach)
  next
    case here
    then have "wanted_block g v vb"
      using "2.prems" ts(1) by (auto simp: wanted_block_def in_reach_def start_hidden_def split: grain.splits option.splits)
    with here "2.prems"(1) ts show ?thesis by auto
  qed
qed auto

lemma visit_blocks_from:
  "it_vb it = vb # rest \<Longrightarrow> \<not> it_end it \<Longrightarrow> chain_wf (vb_timestamp vb) (vb # rest) \<Longrightarrow>
   visit_blocks g it = Inr (vb # filter (wanted_block g (it_version it)) rest)"
proof (induction "length (it_vb it)" arbitrary: it vb rest rule: less_induct)
  case less
  let ?v = "it_version it"
  have wf: "chain_wf (vb_last_epoch vb) rest" using less.prems(3) by simp
  show ?case
  proof (cases "chain_done g vb ?v")
    case True
    then have "filter (wanted_block g ?v) rest = []"
      using wanted_none [OF wf] by (simp add: chain_done_reach)
    with True less.prems show ?thesis by (simp add: visit_blocks.simps [of g it] getNext_def)
  next
    case False
    show ?thesis
    proof (cases rest)
      case Nil
      with False less.prems show ?thesis by (simp add: visit_blocks.simps [of g it] getNext_def)
    next
      case (Cons vb2 rest2)
      obtain e c' where f: "FindIndex_loop g ?v rest = (e, c')" by (cases "FindIndex_loop g ?v rest")
      let ?it = "it\<lparr>it_vb := c', it_end := e\<rparr>"
      have next_it: "getNext g False it = Inr ?it"
        using False less.prems(1) Cons f by (simp add: getNext_def FindIndex_def)
      have spec: "if e then filter (wanted_block g ?v) rest = []
        else \<exists>vb rest'. c' = vb # rest' \<and> chain_wf (vb_timestamp vb) c' \<and>
          filter (wanted_block g ?v) rest = vb # filter (wanted_block g ?v) rest'"
        using FindIndex_loop_spec [OF wf, of g ?v] False f by (simp add: chain_done_reach)
      show ?thesis
      proof (cases e)
        case True
        with spec next_it less.prems show ?thesis by (simp add: visit_blocks.simps [of g it])
      next
        case e: False
        with spec obtain vb' rest' where c': "c' = vb' # rest'" "chain_wf (vb_timestamp vb') c'"
          "filter (wanted_block g ?v) rest = vb' # filter (wanted_block g ?v) rest'" by auto
        have "visit_blocks g ?it = Inr (vb' # filter (wanted_block g (it_version ?it)) rest')"
        proof (rule less.hyps)
          show "length (it_vb ?it) < length (it_vb it)"
            using FindIndex_loop_length [of g ?v rest] f less.prems(1) by simp
        qed (use c' e in auto)
        with next_it e c'(3) less.prems show ?thesis by (simp add: visit_blocks.simps [of g it])
      qed
    qed
  qed
qed

lemma VBIterator_spec:
  assumes "chain_wf ts c" "c \<noteq> []" "in_reach g v ts"
  shows "bind_res (VBIterator_new g False c v) (visit_blocks g) = Inr (filter (wanted_block g v) c)"
proof -
  obtain e c' where f: "FindIndex_loop g v c = (e, c')" by (cases "FindIndex_loop g v c")
  let ?it = "\<lparr>it_vb = c', it_end = e, it_version = v, it_records = 0\<rparr>"
  have new: "VBIterator_new g False c v = Inr ?it"
    using assms(2) f by (simp add: VBIterator_new_def FindIndex_def)
  show ?thesis
  proof (cases e)
    case True
    then show ?thesis using FindIndex_loop_spec [OF assms(1,3)] f new
      by (simp add: visit_blocks.simps)
  next
    case False
    then obtain vb rest where "c' = vb # rest" "chain_wf (vb_timestamp vb) c'"
      "filter (wanted_block g v) c = vb # filter (wanted_block g v) rest"
      using FindIndex_loop_spec [OF assms(1,3)] f by auto
    then show ?thesis using new False visit_blocks_from [of ?it vb rest g] by simp
  qed
qed

text \<open>
  C17: On a well-formed chain whose newest block is within the snapshot's reach, the iterator stops
  and the reading loop runs at exactly the blocks that can hold a version the snapshot needs: in
  the default build those with records and a timestamp not older than the snapshot epoch whose
  first record is already visible (or whose timestamp is the snapshot epoch), in the coarse build
  those newer than the snapshot epoch whose first record is visible, newest first. None of them is
  older than the snapshot, so garbage collection has not freed it.
\<close>

theorem iterator_visits_wanted_blocks:
  assumes "chain_wf ts c" "c \<noteq> []" "in_reach g v ts"
  shows "bind_res (VBIterator_new g False c v) (visit_blocks g) = Inr (filter (wanted_block g v) c) \<and>
    (\<forall>vb \<in> set (filter (wanted_block g v) c). v \<le> vb_timestamp vb \<and> (g = Coarse \<longrightarrow> v < vb_timestamp vb))"
  using VBIterator_spec [OF assms] by (auto simp: wanted_block_def split: grain.splits)

definition one_record :: "epoch_t \<Rightarrow> edge_with_index list" where
  "one_record c = [SetEdgeFG 7 c 1, SetPropFG 9 0 1]"

definition sample_chain :: vb_ptr where
  "sample_chain =
     [\<lparr>vb_edge_num = 0, vb_version_num = 1, vb_timestamp = 6, vb_last_epoch = 4, vb_start = Some (one_record 4)\<rparr>,
      \<lparr>vb_edge_num = 0, vb_version_num = 1, vb_timestamp = 4, vb_last_epoch = 2, vb_start = Some (one_record 2)\<rparr>,
      \<lparr>vb_edge_num = 1, vb_version_num = 0, vb_timestamp = 2, vb_last_epoch = 0, vb_start = None\<rparr>]"

lemma sample_chain_wf: "chain_wf 6 sample_chain" "sample_chain \<noteq> []"
  by (simp_all add: sample_chain_def)

theorem iterator_visits_wanted_blocks_witness:
  "bind_res (VBIterator_new Fine False sample_chain 3) (visit_blocks Fine) = Inr [sample_chain ! 1]"
proof -
  have "in_reach Fine 3 6" by (simp add: in_reach_def)
  from iterator_visits_wanted_blocks [OF sample_chain_wf this] show ?thesis
    by (simp add: sample_chain_def wanted_block_def start_hidden_def first_block_def one_record_def SetEdgeFG_def)
qed

end
