(* ===== verification/Transactions.thy ===== *)
theory Transactions
  imports AVB_Types
begin

text \<open>
  \<open>data-structure/Transaction\<close> and the per-epoch bookkeeping class \<open>VBData\<close> of
  \<open>AllVBManager.h\<close>: a transaction draws its position inside its epoch lazily from the
  epoch's counter, records which vertices it holds locked and registers the temporary version
  blocks it was the first to touch. A vertex and a temporary version block are named by numbers:
  the vertex's index in the store, and that index with the ring slot of the block.
\<close>

section \<open>VBData\<close>

type_synonym tvb_ptr = "nat \<times> nat"

definition WRITE_THREADS_MAX :: nat where
  "WRITE_THREADS_MAX = 65"

record vb_data =
  vd_epoch :: epoch_t
  vd_txn_num :: "32 word"
  vd_intra_counter :: intra_t
  vd_vb_vector :: "tvb_ptr list list"
  vd_this_vb_vector :: "tvb_ptr list"

definition VBData_new :: "epoch_t \<Rightarrow> vb_data" where
  "VBData_new epoch = \<lparr>vd_epoch = epoch, vd_txn_num = 0, vd_intra_counter = 0,
     vd_vb_vector = replicate WRITE_THREADS_MAX [], vd_this_vb_vector = []\<rparr>"

definition add_txn :: "vb_data \<Rightarrow> 32 word \<times> vb_data" where
  "add_txn d = (vd_txn_num d, d\<lparr>vd_txn_num := vd_txn_num d + 1\<rparr>)"

definition fetch_add_intra :: "vb_data \<Rightarrow> intra_t \<times> vb_data" where
  "fetch_add_intra d = (vd_intra_counter d + 1, d\<lparr>vd_intra_counter := vd_intra_counter d + 1\<rparr>)"

definition VB_pushback :: "vb_data \<Rightarrow> tvb_ptr \<Rightarrow> nat \<Rightarrow> vb_data res" where
  "VB_pushback d vb threadid =
     (if threadid < length (vd_vb_vector d)
      then Inr (d\<lparr>vd_vb_vector := (vd_vb_vector d)[threadid := vd_vb_vector d ! threadid @ [vb]]\<rparr>)
      else Inl OutOfBounds)"

section \<open>Transaction\<close>

text \<open>
  An edge to insert is the triple \<open>(source, destination, weight)\<close> that \<open>dst_t* edge\<close> points
  to. \<open>tx_addr\<close> is the address of the object, which version entries keep. \<open>tx_one_edge\<close> is meaningless until something is inserted; \<open>tx_edges_to_insert\<close> is \<open>None\<close> while the
  pointer is null. The pointer \<open>vb_data_\<close> is resolved by the caller, who passes the
  \<open>vb_data\<close> of the transaction's epoch.
\<close>

type_synonym edge_triple = "nat \<times> dst_t \<times> weight_t"

record transaction =
  tx_addr :: "64 word"
  tx_version :: version_t
  tx_read_only :: bool
  tx_write_only :: bool
  tx_threadid :: nat
  tx_read_epoch :: epoch_t
  tx_epoch :: epoch_t
  tx_intra_c :: intra_t
  tx_read_ts :: composite
  tx_insert_cnt :: nat
  tx_one_edge :: edge_triple
  tx_edges_to_insert :: "edge_triple list option"
  tx_EB_vec :: "nat list"

definition Transaction_new :: "64 word \<Rightarrow> version_t \<Rightarrow> bool \<Rightarrow> bool \<Rightarrow> nat \<Rightarrow> transaction" where
  "Transaction_new addr version read_only write_only threadid =
     \<lparr>tx_addr = addr, tx_version = version, tx_read_only = read_only, tx_write_only = write_only,
      tx_threadid = threadid, tx_read_epoch = 0, tx_epoch = 0, tx_intra_c = 0,
      tx_read_ts = composite_zero, tx_insert_cnt = 0, tx_one_edge = (0, 0, 0),
      tx_edges_to_insert = None, tx_EB_vec = []\<rparr>"

definition get_intra_c :: "transaction \<Rightarrow> vb_data \<Rightarrow> intra_t \<times> transaction \<times> vb_data" where
  "get_intra_c txn d =
     (if tx_intra_c txn = 0
      then let (i, d') = fetch_add_intra d in (i, txn\<lparr>tx_intra_c := i\<rparr>, d')
      else (tx_intra_c txn, txn, d))"

definition write_lock_pushback :: "transaction \<Rightarrow> vb_data \<Rightarrow> tvb_ptr \<Rightarrow> vb_data res" where
  "write_lock_pushback txn d vb = VB_pushback d vb (tx_threadid txn)"

definition AddEB :: "transaction \<Rightarrow> nat \<Rightarrow> transaction" where
  "AddEB txn eb = txn\<lparr>tx_EB_vec := tx_EB_vec txn @ [eb]\<rparr>"

definition CheckETI :: "transaction \<Rightarrow> transaction" where
  "CheckETI txn = (if tx_edges_to_insert txn = None then txn\<lparr>tx_edges_to_insert := Some []\<rparr> else txn)"

definition append_ETI :: "transaction \<Rightarrow> edge_triple list \<Rightarrow> transaction" where
  "append_ETI txn es =
     txn\<lparr>tx_edges_to_insert := map_option (\<lambda>xs. xs @ es) (tx_edges_to_insert txn)\<rparr>"

definition INSERT :: "transaction \<Rightarrow> edge_triple \<Rightarrow> transaction" where
  "INSERT txn edge =
     (let txn1 = txn\<lparr>tx_insert_cnt := tx_insert_cnt txn + 1\<rparr>
      in if tx_insert_cnt txn1 = 1 then txn1\<lparr>tx_one_edge := edge\<rparr>
         else append_ETI (CheckETI txn1) [edge])"

definition INSERT_batch :: "transaction \<Rightarrow> edge_triple list \<Rightarrow> transaction res" where
  "INSERT_batch txn es =
     (if tx_insert_cnt txn = 0 \<and> es = [] then Inl OutOfBounds
      else let txn1 = (if tx_insert_cnt txn = 0 then txn\<lparr>tx_one_edge := hd es\<rparr> else txn);
               txn2 = txn1\<lparr>tx_insert_cnt := tx_insert_cnt txn1 + length es\<rparr>
           in if tx_insert_cnt txn2 > 1
              then (if es = [] then Inl OutOfBounds else Inr (append_ETI (CheckETI txn2) (tl es)))
              else Inr txn2)"

text \<open>\<open>Transaction::commit\<close> returns the vertices it unlocks, in order.\<close>

definition Transaction_commit :: "transaction \<Rightarrow> vb_data \<Rightarrow> transaction \<times> vb_data \<times> nat list" where
  "Transaction_commit txn d =
     (let (_, txn', d') = get_intra_c txn d in (txn', d', tx_EB_vec txn'))"

text \<open>What \<open>execute\<close> will insert, in order: the single edge first.\<close>

definition tx_pending :: "transaction \<Rightarrow> edge_triple list" where
  "tx_pending txn = tx_one_edge txn # (case tx_edges_to_insert txn of None \<Rightarrow> [] | Some es \<Rightarrow> es)"

section \<open>Properties\<close>

lemma get_intra_c_spec:
  assumes "get_intra_c txn d = (i, txn', d')"
  shows "tx_intra_c txn' = i" "tx_EB_vec txn' = tx_EB_vec txn" "tx_threadid txn' = tx_threadid txn"
    "tx_write_only txn' = tx_write_only txn" "tx_read_epoch txn' = tx_read_epoch txn"
    "tx_version txn' = tx_version txn" "tx_addr txn' = tx_addr txn" "tx_epoch txn' = tx_epoch txn"
    "vd_vb_vector d' = vd_vb_vector d" "vd_epoch d' = vd_epoch d"
  using assms by (auto simp: get_intra_c_def fetch_add_intra_def split: if_splits)

text \<open>
  Transactions that take their position one after the other from one epoch's counter get
  consecutive numbers; \<open>take_positions\<close> runs \<open>get_intra_c\<close> for a list of new transactions.
\<close>

fun take_positions :: "transaction list \<Rightarrow> vb_data \<Rightarrow> intra_t list \<times> vb_data" where
  "take_positions [] d = ([], d)"
| "take_positions (txn # txns) d =
     (let (i, _, d1) = get_intra_c txn d; (is, d2) = take_positions txns d1 in (i # is, d2))"

lemma take_positions_counts:
  "\<forall>txn \<in> set txns. tx_intra_c txn = 0 \<Longrightarrow> unat (vd_intra_counter d) + length txns < 2 ^ 32 \<Longrightarrow>
   map unat (fst (take_positions txns d)) = [unat (vd_intra_counter d) + 1 ..< unat (vd_intra_counter d) + 1 + length txns]"
proof (induction txns arbitrary: d)
  case (Cons txn txns)
  have u: "unat (vd_intra_counter d + 1) = unat (vd_intra_counter d) + 1"
    using Cons.prems(2) by (simp add: unat_word_ariths(1))
  let ?d = "d\<lparr>vd_intra_counter := vd_intra_counter d + 1\<rparr>"
  have "map unat (fst (take_positions txns ?d)) = [unat (vd_intra_counter d) + 2 ..< unat (vd_intra_counter d) + 2 + length txns]"
    using Cons.IH [of ?d] Cons.prems u by simp
  then show ?case
    using Cons.prems(1) u
    by (simp add: get_intra_c_def fetch_add_intra_def Let_def split_def upt_conv_Cons del: upt_Suc)
qed simp

text \<open>
  C19: While an epoch hands out fewer than \<open>2^32\<close> positions, the transactions that draw theirs from
  its counter get different, increasing positions, none of them 0, the mark of a transaction
  that has not drawn one yet.
\<close>

theorem intra_positions_increase:
  assumes "\<forall>txn \<in> set txns. tx_intra_c txn = 0" "unat (vd_intra_counter d) + length txns < 2 ^ 32"
  shows "sorted_wrt (<) (fst (take_positions txns d)) \<and> 0 \<notin> set (fst (take_positions txns d))"
proof -
  let ?ps = "fst (take_positions txns d)"
  have eq: "map unat ?ps = [unat (vd_intra_counter d) + 1 ..< unat (vd_intra_counter d) + 1 + length txns]"
    by (rule take_positions_counts [OF assms])
  have "sorted_wrt (<) (map unat ?ps)"
    unfolding eq by (rule sorted_wrt_upt)
  then have "sorted_wrt (\<lambda>x y. unat x < unat y) ?ps"
    by (simp add: sorted_wrt_map)
  moreover have "0 \<notin> unat ` set ?ps"
    using arg_cong [OF eq, of set] by (simp del: upt_Suc)
  ultimately show ?thesis
    by (auto simp: word_less_nat_alt image_iff elim: sorted_wrt_mono_rel [rotated])
qed

theorem intra_positions_increase_witness:
  "sorted_wrt (<) (fst (take_positions (replicate 2 (Transaction_new 8 1 False True 0)) (VBData_new 5)))"
  using intra_positions_increase [of "replicate 2 (Transaction_new 8 1 False True 0)" "VBData_new 5"]
  by (simp add: Transaction_new_def VBData_new_def)

text \<open>Edges queued one at a time are executed in the order they were queued.\<close>

lemma foldl_INSERT_started:
  "0 < tx_insert_cnt txn \<Longrightarrow> tx_pending (foldl INSERT txn es) = tx_pending txn @ es"
proof (induction es arbitrary: txn)
  case (Cons e es)
  have "tx_pending (INSERT txn e) = tx_pending txn @ [e]" "0 < tx_insert_cnt (INSERT txn e)"
    using Cons.prems by (auto simp: INSERT_def tx_pending_def CheckETI_def append_ETI_def Let_def split: option.splits)
  with Cons.IH [of "INSERT txn e"] show ?case by simp
qed simp

text \<open>
  A new transaction that is handed edges one at a time with \<open>INSERT(dst_t*)\<close> executes exactly
  these edges, in that order.
\<close>

theorem INSERT_keeps_order:
  "es \<noteq> [] \<Longrightarrow> tx_pending (foldl INSERT (Transaction_new a ver ro wo tid) es) = es"
proof (cases es)
  case (Cons e es')
  have "tx_pending (INSERT (Transaction_new a ver ro wo tid) e) = [e]"
    "0 < tx_insert_cnt (INSERT (Transaction_new a ver ro wo tid) e)"
    by (simp_all add: INSERT_def Transaction_new_def tx_pending_def)
  with Cons show ?thesis using foldl_INSERT_started by simp
qed simp

theorem INSERT_keeps_order_witness:
  "tx_pending (foldl INSERT (Transaction_new 8 1 False True 0) [(0, 5, 1), (0, 3, 2)]) = [(0, 5, 1), (0, 3, 2)]"
  using INSERT_keeps_order [of "[(0, 5, 1), (0, 3, 2)]" 8 1 False True 0] by simp

text \<open>
  C20: The batch variant \<open>INSERT(std::vector)\<close> keeps every edge only for the first batch: on a
  transaction that already holds edges it drops the first edge of each later batch.
\<close>

theorem INSERT_batch_drops_first:
  assumes "0 < tx_insert_cnt txn"
  shows "\<exists>txn'. INSERT_batch txn (e # es) = Inr txn' \<and> tx_pending txn' = tx_pending txn @ es \<and>
           tx_insert_cnt txn' = tx_insert_cnt txn + Suc (length es)"
  using assms
  by (auto simp: INSERT_batch_def tx_pending_def CheckETI_def append_ETI_def Let_def split: option.splits)

theorem INSERT_batch_drops_first_witness:
  "\<exists>txn'. INSERT_batch (INSERT (Transaction_new 8 1 False True 0) (0, 5, 1)) [(0, 3, 2), (0, 4, 2)] = Inr txn' \<and>
     tx_pending txn' = [(0, 5, 1), (0, 4, 2)] \<and> tx_insert_cnt txn' = 3"
  using INSERT_batch_drops_first [of "INSERT (Transaction_new 8 1 False True 0) (0, 5, 1)" "(0, 3, 2)" "[(0, 4, 2)]"]
  by (simp add: INSERT_def Transaction_new_def tx_pending_def eval_nat_numeral)

end
