(* ===== verification/Vertex_Edges.thy ===== *)
theory Vertex_Edges
  imports Hash_Table Version_Chain Transactions
begin

text \<open>
  \<open>data-structure/EdgeBlock/VertexEdges\<close> in the default (\<open>FINEGRAIN\<close>) build: the adjacency of one
  vertex. It is a sorted primary array of edge records, whose second half holds their property
  records, a buffer of 64 unsorted new edges laid out the same way, a hash set of the known
  destinations, and the version block manager. This theory holds the data model, the lookups and
  the merge of the buffer into the primary array.

  \<open>start\<close> is the list of the \<open>2 * capacity\<close> cells of the allocation (empty for \<open>nullptr\<close>), and
  \<open>tmp_item\<close> the list of its 128 cells. What \<open>malloc\<close> leaves in a new array is the parameter
  \<open>junk\<close>. Sizes are natural numbers: an adjacency never has \<open>2^31\<close> edges. The reader-writer lock is
  \<open>ve_locked\<close>, true while a writer holds it.
\<close>

section \<open>The state of a vertex\<close>

definition TMPNUM :: nat where
  "TMPNUM = 64"

record vertex_edges =
  ve_src :: dst_t
  edge_num :: int
  tmp_ev :: nat
  merge_times :: "32 word"
  edges_and_versions :: nat
  ve_num :: nat
  capacity :: nat
  ve_M :: hashtable2
  ve_locked :: bool
  VBM :: vb_manager
  ve_start :: "edge_with_index list"
  tmp_item :: "edge_with_index list"

definition VertexEdges_new :: vertex_edges where
  "VertexEdges_new = \<lparr>ve_src = 0, edge_num = 0, tmp_ev = 0, merge_times = 0, edges_and_versions = 0,
     ve_num = 0, capacity = 0, ve_M = HashTable2_init, ve_locked = False, VBM = VersionBlockManager_new,
     ve_start = [], tmp_item = []\<rparr>"

definition setSrc :: "vertex_edges \<Rightarrow> dst_t \<Rightarrow> vertex_edges" where
  "setSrc v src = v\<lparr>ve_src := src\<rparr>"

definition getReadLock :: "vertex_edges \<Rightarrow> vertex_edges res" where
  "getReadLock v = (if ve_locked v then Inl Deadlock else Inr v)"

definition unleashReadLock :: "vertex_edges \<Rightarrow> vertex_edges" where
  "unleashReadLock v = v\<lparr>ve_locked := False\<rparr>"

text \<open>A pair \<open>item_e\<close>, \<open>item_p\<close> of pointers is the slot they address.\<close>

datatype slot = Start nat | Tmp nat

fun item_e :: "vertex_edges \<Rightarrow> slot \<Rightarrow> edge_with_index" where
  "item_e v (Start i) = ve_start v ! i"
| "item_e v (Tmp i) = tmp_item v ! i"

fun item_p :: "vertex_edges \<Rightarrow> slot \<Rightarrow> edge_with_index" where
  "item_p v (Start i) = ve_start v ! (i + capacity v)"
| "item_p v (Tmp i) = tmp_item v ! (i + TMPNUM)"

fun set_item_e :: "slot \<Rightarrow> edge_with_index \<Rightarrow> vertex_edges \<Rightarrow> vertex_edges" where
  "set_item_e (Start i) x v = v\<lparr>ve_start := (ve_start v)[i := x]\<rparr>"
| "set_item_e (Tmp i) x v = v\<lparr>tmp_item := (tmp_item v)[i := x]\<rparr>"

fun set_item_p :: "slot \<Rightarrow> edge_with_index \<Rightarrow> vertex_edges \<Rightarrow> vertex_edges" where
  "set_item_p (Start i) x v = v\<lparr>ve_start := (ve_start v)[i + capacity v := x]\<rparr>"
| "set_item_p (Tmp i) x v = v\<lparr>tmp_item := (tmp_item v)[i + TMPNUM := x]\<rparr>"

fun slot_in_range :: "vertex_edges \<Rightarrow> slot \<Rightarrow> bool" where
  "slot_in_range v (Start i) = (i + capacity v < length (ve_start v))"
| "slot_in_range v (Tmp i) = (i + TMPNUM < length (tmp_item v))"

fun offset_of :: "slot \<Rightarrow> 32 word" where
  "offset_of (Start i) = word_of_nat i"
| "offset_of (Tmp i) = word_of_nat i OR TMPVB_MASK"

definition slot_of_offset :: "32 word \<Rightarrow> slot" where
  "slot_of_offset xid = (if has_tmp xid then Tmp (unat (strip_tmp xid)) else Start (unat xid))"

definition entry_key :: "edge_with_index \<Rightarrow> dst_t" where
  "entry_key x = strip_del (ew_e x)"

definition tvb_at :: "vertex_edges \<Rightarrow> nat \<Rightarrow> tmp_version_block" where
  "tvb_at v k = vbm_tvb_array (VBM v) ! k"

definition set_tvb :: "nat \<Rightarrow> tmp_version_block \<Rightarrow> vertex_edges \<Rightarrow> vertex_edges" where
  "set_tvb k t v = v\<lparr>VBM := (VBM v)\<lparr>vbm_tvb_array := (vbm_tvb_array (VBM v))[k := t]\<rparr>\<rparr>"

section \<open>Lookup\<close>

text \<open>
  The binary search of \<open>get_edge_index\<close> and \<open>get_edge_index2\<close>. Its right end is \<open>edges_and_versions\<close>
  itself, so it may read the cell behind the last edge.
\<close>

function bsearch :: "edge_with_index list \<Rightarrow> dst_t \<Rightarrow> int \<Rightarrow> int \<Rightarrow> nat option res" where
  "bsearch start e l r =
     (if l \<le> r then
        let m = (l + r) div 2 in
        if nat m \<ge> length start then Inl OutOfBounds
        else let key = entry_key (start ! nat m) in
          if key > e then bsearch start e l (m - 1)
          else if key < e then bsearch start e (m + 1) r
          else Inr (Some (nat m))
      else Inr None)"
  by pat_completeness auto
termination
  by (relation "measure (\<lambda>(_, _, l, r). nat (r - l + 1))") auto

declare bsearch.simps [simp del]

definition get_edge_index2 :: "vertex_edges \<Rightarrow> dst_t \<Rightarrow> slot option res" where
  "get_edge_index2 v e =
     bind_res (bsearch (ve_start v) e 0 (int (edges_and_versions v))) (\<lambda>r. Inr (map_option Start r))"

definition get_edge_index :: "vertex_edges \<Rightarrow> dst_t \<Rightarrow> (slot \<times> 32 word) option res" where
  "get_edge_index v e =
     bind_res (if edges_and_versions v \<noteq> 0 then bsearch (ve_start v) e 0 (int (edges_and_versions v))
               else Inr None)
       (\<lambda>r. case r of
          Some m \<Rightarrow> Inr (Some (Start m, word_of_nat m))
        | None \<Rightarrow>
            (case find (\<lambda>i. entry_key (tmp_item v ! i) = e) [0..<tmp_ev v] of
               Some i \<Rightarrow> Inr (Some (Tmp i, word_of_nat i OR TMPVB_MASK))
             | None \<Rightarrow> Inr None))"

section \<open>Merging the buffer\<close>

definition droppable :: "epoch_t \<Rightarrow> edge_with_index \<Rightarrow> bool" where
  "droppable oldest x \<longleftrightarrow> is_delete (ew_e x) \<and> ew_block x < oldest"

type_synonym compact_state = "edge_with_index list \<times> nat \<times> hashtable2 \<times> nat"

definition compact_step :: "epoch_t \<Rightarrow> nat \<Rightarrow> nat \<Rightarrow> compact_state \<Rightarrow> compact_state res" where
  "compact_step oldest cap i s =
     (case s of (start, y, M, num) \<Rightarrow>
        if i + cap \<ge> length start then Inl OutOfBounds
        else if \<not> droppable oldest (start ! i) then
          let start1 = start[y + cap := start ! (i + cap)];
              start2 = start1[y := start1 ! i]
          in Inr (start2, y + 1, M, num)
        else (case removeDestHashTableVal2 M (entry_key (start ! i)) of
                None \<Rightarrow> Inl LoopsForever
              | Some M' \<Rightarrow> Inr (start, y, M', num - 1)))"

text \<open>
  The two arrays of the backward merge, \<open>start\<close> and \<open>tmp_dst_ptr\<close>, are one array when no new one
  was allocated (\<open>alias\<close>). \<open>x\<close>, \<open>y\<close> and \<open>nw\<close> count the cells left; the code keeps the index of the
  last of them.
\<close>

definition put_dst :: "bool \<Rightarrow> nat \<Rightarrow> edge_with_index \<Rightarrow> edge_with_index list \<times> edge_with_index list \<Rightarrow>
    edge_with_index list \<times> edge_with_index list" where
  "put_dst alias k x ptrs = (if alias then ((fst ptrs)[k := x], (fst ptrs)[k := x])
                             else (fst ptrs, (snd ptrs)[k := x]))"

fun merge_loop :: "bool \<Rightarrow> nat \<Rightarrow> nat \<Rightarrow> edge_with_index list \<Rightarrow> nat list \<Rightarrow> nat \<Rightarrow> nat \<Rightarrow> nat \<Rightarrow>
    edge_with_index list \<times> edge_with_index list \<Rightarrow> nat \<times> edge_with_index list \<times> edge_with_index list" where
  "merge_loop alias cap oldcap tmp idx (Suc x) (Suc y) nw ptrs =
     (if entry_key (tmp ! (idx ! x)) > entry_key (fst ptrs ! y) then
        let ptrs1 = put_dst alias (nw - 1 + cap) (tmp ! (idx ! x + TMPNUM)) ptrs;
            ptrs2 = put_dst alias (nw - 1) (tmp ! (idx ! x)) ptrs1
        in merge_loop alias cap oldcap tmp idx x (Suc y) (nw - 1) ptrs2
      else
        let ptrs1 = put_dst alias (nw - 1 + cap) (fst ptrs ! (y + oldcap)) ptrs;
            ptrs2 = put_dst alias (nw - 1) (fst ptrs1 ! y) ptrs1
        in merge_loop alias cap oldcap tmp idx (Suc x) y (nw - 1) ptrs2)"
| "merge_loop alias cap oldcap tmp idx (Suc x) 0 nw ptrs =
     (let ptrs1 = put_dst alias (nw - 1 + cap) (tmp ! (idx ! x + TMPNUM)) ptrs;
          ptrs2 = put_dst alias (nw - 1) (tmp ! (idx ! x)) ptrs1
      in merge_loop alias cap oldcap tmp idx x 0 (nw - 1) ptrs2)"
| "merge_loop alias cap oldcap tmp idx 0 y nw ptrs = (y, ptrs)"

definition blit :: "'a list \<Rightarrow> nat \<Rightarrow> 'a list \<Rightarrow> 'a list" where
  "blit xs k ys = take k xs @ ys @ drop (k + length ys) xs"

function grow_capacity :: "nat \<Rightarrow> nat \<Rightarrow> nat" where
  "grow_capacity cap num = (if 0 < cap \<and> cap < num then grow_capacity (2 * cap) num else cap)"
  by pat_completeness auto
termination
  by (relation "measure (\<lambda>(cap, num). num - cap)") auto

declare grow_capacity.simps [simp del]

definition tmp_indices :: "edge_with_index list \<Rightarrow> nat list" where
  "tmp_indices tmp = sort_key (\<lambda>i. entry_key (tmp ! i)) [0..<TMPNUM]"

definition merge_tmpev_with_eb :: "edge_with_index \<Rightarrow> epoch_t \<Rightarrow> vertex_edges \<Rightarrow> vertex_edges res" where
  "merge_tmpev_with_eb junk g_oldest_epoch v =
     (let indices = tmp_indices (tmp_item v);
          old_capacity = capacity v;
          new_edge = (ve_num v > capacity v);
          cap = (if new_edge then (if capacity v = 0 then ve_num v else grow_capacity (capacity v) (ve_num v))
                 else capacity v);
          dst0 = (if new_edge then replicate (2 * cap) junk else ve_start v)
      in bind_res (foldR (compact_step g_oldest_epoch old_capacity) [0..<edges_and_versions v]
                     (ve_start v, 0, ve_M v, ve_num v))
           (\<lambda>(start, y, M, num).
              case merge_loop (\<not> new_edge) cap old_capacity (tmp_item v) indices TMPNUM y (y + TMPNUM)
                     (start, if new_edge then dst0 else start) of
                (y', start', dst) \<Rightarrow>
                  let final = (if new_edge
                               then blit (blit dst 0 (take y' start')) cap (take y' (drop old_capacity start'))
                               else dst)
                  in Inr (v\<lparr>merge_times := merge_times v + 1, capacity := cap, edges_and_versions := y + TMPNUM,
                            ve_num := num, ve_M := M, ve_start := final, tmp_ev := 0\<rparr>)))"

end
