(* ===== verification/Vertex_Merge.thy ===== *)
theory Vertex_Merge
  imports Vertex_Edges "HOL-Library.Multiset"
begin

text \<open>
  What the lookups and the merge of \<open>VertexEdges\<close> compute. A vertex is well formed (\<open>ve_wf\<close>) when
  its arrays have their sizes, the primary array is sorted by destination, no destination occurs
  twice and the hash set holds exactly the destinations present. The merge keeps this, and the
  content of the adjacency is the old content without the logically deleted edges that no reader
  can need.
\<close>

section \<open>The content of a vertex\<close>

definition cells :: "'a list \<Rightarrow> nat \<Rightarrow> nat \<Rightarrow> ('a \<times> 'a) list" where
  "cells st cap n = map (\<lambda>j. (st ! j, st ! (j + cap))) [0..<n]"

definition pa_cells :: "vertex_edges \<Rightarrow> (edge_with_index \<times> edge_with_index) list" where
  "pa_cells v = cells (ve_start v) (capacity v) (edges_and_versions v)"

definition tb_cells :: "vertex_edges \<Rightarrow> (edge_with_index \<times> edge_with_index) list" where
  "tb_cells v = cells (tmp_item v) TMPNUM (tmp_ev v)"

definition ckey :: "edge_with_index \<times> edge_with_index \<Rightarrow> dst_t" where
  "ckey c = entry_key (fst c)"

definition ve_keys :: "vertex_edges \<Rightarrow> dst_t set" where
  "ve_keys v = ckey ` (set (pa_cells v) \<union> set (tb_cells v))"

definition ve_wf :: "vertex_edges \<Rightarrow> bool" where
  "ve_wf v \<longleftrightarrow>
     length (ve_start v) = 2 * capacity v \<and> edges_and_versions v \<le> capacity v \<and>
     length (tmp_item v) = 2 * TMPNUM \<and> tmp_ev v \<le> TMPNUM \<and>
     sorted_wrt (<) (map ckey (pa_cells v)) \<and> distinct (map ckey (tb_cells v)) \<and>
     ckey ` set (pa_cells v) \<inter> ckey ` set (tb_cells v) = {} \<and>
     ht2_ok (ve_M v) \<and> ht2_keys (ve_M v) = ve_keys v \<and>
     ve_num v = edges_and_versions v + tmp_ev v"

lemma length_cells [simp]: "length (cells st cap n) = n"
  by (simp add: cells_def)

lemma cells_nth: "j < n \<Longrightarrow> cells st cap n ! j = (st ! j, st ! (j + cap))"
  by (simp add: cells_def)

lemma cells_Suc: "cells st cap (Suc n) = cells st cap n @ [(st ! n, st ! (n + cap))]"
  by (simp add: cells_def)

lemma cells_0 [simp]: "cells st cap 0 = []"
  by (simp add: cells_def)

lemma take_cells: "k \<le> n \<Longrightarrow> take k (cells st cap n) = cells st cap k"
  by (simp add: cells_def take_map)

lemma cells_cong:
  "(\<And>j. j < n \<Longrightarrow> st ! j = st' ! j \<and> st ! (j + cap) = st' ! (j + cap')) \<Longrightarrow>
   cells st cap n = cells st' cap' n"
  by (simp add: cells_def)

lemma cells_frame:
  "n \<le> k \<Longrightarrow> k < cap \<Longrightarrow> cells (st[k + cap := p, k := e]) cap n = cells st cap n"
  by (rule cells_cong) (simp add: nth_list_update)

lemma cells_put:
  "k < cap \<Longrightarrow> k + cap < length st \<Longrightarrow>
   cells (st[k + cap := p, k := e]) cap (Suc k) = cells st cap k @ [(e, p)]"
  by (simp add: cells_Suc cells_frame nth_list_update)

section \<open>Lookup\<close>

lemma bsearch_present:
  assumes "sorted_wrt (<) (map entry_key (take n st))" "p < n" "n < length st"
    and "entry_key (st ! p) = e" "0 \<le> l" "l \<le> int p" "int p \<le> r" "r \<le> int n"
  shows "bsearch st e l r = Inr (Some p)"
  using assms(5-8)
proof (induction "nat (r - l + 1)" arbitrary: l r rule: less_induct)
  case less
  let ?m = "(l + r) div 2"
  have m: "l \<le> ?m" "?m \<le> r" using less.prems by auto
  then have in_range: "nat ?m < length st" using less.prems assms(3) by linarith
  have mn: "nat ?m < n"
  proof (rule ccontr)
    assume "\<not> nat ?m < n"
    then have "l = int n" using less.prems by linarith
    with less.prems assms(2) show False by simp
  qed
  have key: "entry_key (st ! i) < entry_key (st ! j)" if "i < j" "j < n" for i j
    using assms(1,3) that by (simp add: sorted_wrt_iff_nth_less)
  consider "nat ?m < p" | "nat ?m = p" | "p < nat ?m" by linarith
  then show ?case
  proof cases
    case 1
    then have "bsearch st e (?m + 1) r = Inr (Some p)"
      using less.prems m by (intro less.hyps) auto
    moreover have "entry_key (st ! nat ?m) < e" using 1 key [of "nat ?m" p] assms(2,4) by simp
    ultimately show ?thesis using in_range less.prems
      by (auto simp: bsearch.simps [of st e l r] Let_def)
  next
    case 2
    with assms(4) in_range less.prems show ?thesis by (simp add: bsearch.simps [of st e l r] Let_def)
  next
    case 3
    then have "bsearch st e l (?m - 1) = Inr (Some p)"
      using less.prems m by (intro less.hyps) auto
    with 3 key [of p "nat ?m"] mn assms(4) in_range less.prems show ?thesis
      by (simp add: bsearch.simps [of st e l r] Let_def)
  qed
qed

lemma bsearch_absent:
  assumes "n < length st" "\<forall>i \<le> n. entry_key (st ! i) \<noteq> e" "0 \<le> l" "r \<le> int n"
  shows "bsearch st e l r = Inr None"
  using assms(3,4)
proof (induction "nat (r - l + 1)" arbitrary: l r rule: less_induct)
  case less
  show ?case
  proof (cases "l \<le> r")
    case True
    let ?m = "(l + r) div 2"
    have m: "l \<le> ?m" "?m \<le> r" using True by auto
    then have "nat ?m \<le> n" using less.prems by linarith
    then have "entry_key (st ! nat ?m) \<noteq> e" "nat ?m < length st" using assms by auto
    moreover have "bsearch st e l (?m - 1) = Inr None" "bsearch st e (?m + 1) r = Inr None"
      using less.prems True m by (auto intro!: less.hyps)
    ultimately show ?thesis by (auto simp: bsearch.simps [of st e l r] Let_def)
  qed (simp add: bsearch.simps)
qed

section \<open>Compaction\<close>

lemma compact_step_keeps:
  assumes "i + cap < length start" "\<not> droppable oldest (start ! i)" "y \<le> i" "i < cap"
    and "length start = 2 * cap"
  shows "\<exists>start'. compact_step oldest cap i (start, y, M, num) = Inr (start', y + 1, M, num) \<and>
     length start' = length start \<and>
     cells start' cap (Suc y) = cells start cap y @ [(start ! i, start ! (i + cap))] \<and>
     (\<forall>j. i < j \<and> j < cap \<longrightarrow> start' ! j = start ! j \<and> start' ! (j + cap) = start ! (j + cap))"
proof -
  let ?s1 = "start[y + cap := start ! (i + cap)]"
  have "?s1 ! i = start ! i" using assms by simp
  moreover have "cells (?s1[y := start ! i]) cap (Suc y) = cells start cap y @ [(start ! i, start ! (i + cap))]"
    using assms by (intro cells_put) auto
  moreover have "?s1[y := start ! i] ! j = start ! j \<and> ?s1[y := start ! i] ! (j + cap) = start ! (j + cap)"
    if "i < j" "j < cap" for j using that assms by (simp add: nth_list_update)
  ultimately show ?thesis using assms by (simp add: compact_step_def Let_def)
qed

definition kept :: "epoch_t \<Rightarrow> (edge_with_index \<times> edge_with_index) list \<Rightarrow>
    (edge_with_index \<times> edge_with_index) list" where
  "kept oldest = filter (\<lambda>c. \<not> droppable oldest (fst c))"

definition dropped_keys :: "epoch_t \<Rightarrow> (edge_with_index \<times> edge_with_index) list \<Rightarrow> dst_t set" where
  "dropped_keys oldest cs = ckey ` {c \<in> set cs. droppable oldest (fst c)}"

lemma dropped_keys_simps [simp]:
  "dropped_keys oldest [] = {}"
  "dropped_keys oldest (cs @ [c]) =
     (if droppable oldest (fst c) then insert (ckey c) (dropped_keys oldest cs) else dropped_keys oldest cs)"
  by (auto simp: dropped_keys_def)

definition compact_inv :: "epoch_t \<Rightarrow> edge_with_index list \<Rightarrow> nat \<Rightarrow> 64 word set \<Rightarrow> nat \<Rightarrow> nat \<Rightarrow>
    compact_state \<Rightarrow> bool" where
  "compact_inv oldest st0 cap K num0 i s \<longleftrightarrow>
     (case s of (start, y, M, num) \<Rightarrow>
        y \<le> i \<and> length start = 2 * cap \<and> cells start cap y = kept oldest (cells st0 cap i) \<and>
        (\<forall>j. i \<le> j \<and> j < cap \<longrightarrow> start ! j = st0 ! j \<and> start ! (j + cap) = st0 ! (j + cap)) \<and>
        ht2_ok M \<and> ht2_keys M = K - dropped_keys oldest (cells st0 cap i) \<and>
        num + (i - y) = num0)"

lemma nonempty_key: "nonempty (entry_key x)"
proof
  assume "entry_key x = FLAG_EMPTY_SLOT"
  then have "bit (entry_key x) 63" by (simp add: FLAG_EMPTY_SLOT_def)
  then show False by (simp add: entry_key_def bit_strip_del)
qed

lemma compact_all:
  assumes "n \<le> cap" "length st0 = 2 * cap" "ht2_ok M" "ht2_keys M = K" "n \<le> num0"
  shows "\<exists>s. foldR (compact_step oldest cap) [0..<n] (st0, 0, M, num0) = Inr s \<and>
             compact_inv oldest st0 cap K num0 n s"
proof (rule foldR_upt)
  show "compact_inv oldest st0 cap K num0 0 (st0, 0, M, num0)"
    using assms by (simp add: compact_inv_def kept_def)
next
  fix i s
  assume i: "i < n" and inva: "compact_inv oldest st0 cap K num0 i s"
  obtain start y M num where s: "s = (start, y, M, num)" by (cases s)
  let ?c = "(st0 ! i, st0 ! (i + cap))"
  have len: "length start = 2 * cap" and y: "y \<le> i" and kept: "cells start cap y = kept oldest (cells st0 cap i)"
    and same: "\<And>j. i \<le> j \<Longrightarrow> j < cap \<Longrightarrow> start ! j = st0 ! j \<and> start ! (j + cap) = st0 ! (j + cap)"
    and M: "ht2_ok M" "ht2_keys M = K - dropped_keys oldest (cells st0 cap i)"
    and num: "num + (i - y) = num0" using inva s by (auto simp: compact_inv_def)
  show "\<exists>s'. compact_step oldest cap i s = Inr s' \<and> compact_inv oldest st0 cap K num0 (Suc i) s'"
  proof (cases "droppable oldest (st0 ! i)")
    case False
    then obtain start' where
      "compact_step oldest cap i (start, y, M, num) = Inr (start', y + 1, M, num)"
      "length start' = length start" "cells start' cap (Suc y) = cells start cap y @ [?c]"
      "\<forall>j. i < j \<and> j < cap \<longrightarrow> start' ! j = start ! j \<and> start' ! (j + cap) = start ! (j + cap)"
      using compact_step_keeps [of i cap start oldest y M num] len y same [of i] i assms(1) by auto
    with False y len kept same M num s show ?thesis
      by (auto simp: compact_inv_def kept_def cells_Suc)
  next
    case True
    have "nonempty (ckey ?c)" by (simp add: ckey_def nonempty_key)
    then obtain M' where M': "removeDestHashTableVal2 M (ckey ?c) = Some M'" "ht2_ok M'"
      "ht2_keys M' = ht2_keys M - {ckey ?c}" using ht2.remove_law [OF M(1)] by blast
    have "dropped_keys oldest (cells st0 cap (Suc i)) = insert (ckey ?c) (dropped_keys oldest (cells st0 cap i))"
      using True by (simp add: cells_Suc)
    then have "ht2_keys M' = K - dropped_keys oldest (cells st0 cap (Suc i))"
      using M'(3) M(2) by blast
    moreover have "cells start cap y = kept oldest (cells st0 cap (Suc i))"
      using kept True by (simp add: kept_def cells_Suc)
    moreover have "num - 1 + (Suc i - y) = num0" using num i assms(5) y by simp
    ultimately have "compact_step oldest cap i s = Inr (start, y, M', num - 1)"
      "compact_inv oldest st0 cap K num0 (Suc i) (start, y, M', num - 1)"
      using True y len same [of i] same s i assms(1) M'(1,2)
      by (auto simp: compact_inv_def compact_step_def ckey_def)
    then show ?thesis by blast
  qed
qed

section \<open>The backward merge\<close>

text \<open>The merge of two descending lists of cells, into an ascending one.\<close>

fun bmerge :: "(edge_with_index \<times> edge_with_index) list \<Rightarrow> (edge_with_index \<times> edge_with_index) list \<Rightarrow>
    (edge_with_index \<times> edge_with_index) list" where
  "bmerge (a # as) (b # bs) = (if ckey a > ckey b then bmerge as (b # bs) @ [a] else bmerge (a # as) bs @ [b])"
| "bmerge (a # as) [] = bmerge as [] @ [a]"
| "bmerge [] bs = rev bs"

lemma set_bmerge [simp]: "set (bmerge as bs) = set as \<union> set bs"
  by (induction as bs rule: bmerge.induct) auto

lemma mset_bmerge [simp]: "mset (bmerge as bs) = mset as + mset bs"
  by (induction as bs rule: bmerge.induct) auto

lemma sorted_bmerge:
  "sorted_wrt (>) (map ckey as) \<Longrightarrow> sorted_wrt (>) (map ckey bs) \<Longrightarrow>
   ckey ` set as \<inter> ckey ` set bs = {} \<Longrightarrow> sorted_wrt (<) (map ckey (bmerge as bs))"
proof (induction as bs rule: bmerge.induct)
  case (1 a as b bs)
  have ab: "ckey a \<noteq> ckey b" using 1(5) by auto
  have below: "\<forall>x \<in> set as. ckey x < ckey a" "\<forall>x \<in> set bs. ckey x < ckey b" using 1(3,4) by auto
  show ?case
  proof (cases "ckey a > ckey b")
    case True
    then have "sorted_wrt (<) (map ckey (bmerge as (b # bs)))" using 1 by auto
    moreover have "\<forall>x \<in> set as \<union> set (b # bs). ckey x < ckey a" using below True by force
    ultimately show ?thesis using True by (simp add: sorted_wrt_append ball_Un)
  next
    case False
    then have "sorted_wrt (<) (map ckey (bmerge (a # as) bs))" using 1 by auto
    moreover have "\<forall>x \<in> set (a # as) \<union> set bs. ckey x < ckey b" using below False ab by force
    ultimately show ?thesis using False by (simp add: sorted_wrt_append ball_Un)
  qed
next
  case (2 a as)
  then show ?case by (simp add: sorted_wrt_append)
next
  case (3 bs)
  then show ?case by (simp add: rev_map [symmetric] sorted_wrt_rev)
qed

text \<open>What is in the destination array when the loops and the final \<open>memcpy\<close> are done.\<close>

definition merge_final :: "bool \<Rightarrow> nat \<Rightarrow> nat \<Rightarrow> nat \<times> edge_with_index list \<times> edge_with_index list \<Rightarrow>
    edge_with_index list" where
  "merge_final alias cap oldcap s =
     (case s of (y, start, dst) \<Rightarrow>
        if alias then dst else blit (blit dst 0 (take y start)) cap (take y (drop oldcap start)))"

lemma length_blit: "k + length ys \<le> length xs \<Longrightarrow> length (blit xs k ys) = length xs"
  by (simp add: blit_def)

lemma nth_blit:
  "k + length ys \<le> length xs \<Longrightarrow> j < length xs \<Longrightarrow>
   blit xs k ys ! j = (if k \<le> j \<and> j < k + length ys then ys ! (j - k) else xs ! j)"
  by (auto simp: blit_def nth_append)

definition tmp_cells :: "edge_with_index list \<Rightarrow> nat list \<Rightarrow> nat \<Rightarrow> (edge_with_index \<times> edge_with_index) list" where
  "tmp_cells tmp idx x = map (\<lambda>k. (tmp ! (idx ! k), tmp ! (idx ! k + TMPNUM))) [0..<x]"

lemma tmp_cells_Suc:
  "tmp_cells tmp idx (Suc x) = tmp_cells tmp idx x @ [(tmp ! (idx ! x), tmp ! (idx ! x + TMPNUM))]"
  by (simp add: tmp_cells_def)

definition merge_ok :: "bool \<Rightarrow> nat \<Rightarrow> nat \<Rightarrow> nat \<Rightarrow> nat \<Rightarrow> edge_with_index list \<Rightarrow> edge_with_index list \<Rightarrow> bool" where
  "merge_ok alias cap oldcap x y start dst \<longleftrightarrow>
     (alias \<longrightarrow> start = dst \<and> cap = oldcap) \<and> x + y \<le> cap \<and> y \<le> oldcap \<and>
     length start = 2 * oldcap \<and> length dst = 2 * cap"

lemma put_pair:
  fixes e p
  assumes "merge_ok alias cap oldcap x (y::nat) start dst" "k < cap" "y' \<le> k" "y' \<le> oldcap" "y' + x' \<le> cap"
  defines "ptrs \<equiv> put_dst alias k e (put_dst alias (k + cap) p (start, dst))"
  shows "merge_ok alias cap oldcap x' y' (fst ptrs) (snd ptrs)"
    and "cells (fst ptrs) oldcap y' = cells start oldcap y'"
    and "snd ptrs ! k = e" "snd ptrs ! (k + cap) = p"
    and "\<And>j. j \<noteq> k \<Longrightarrow> j < cap \<Longrightarrow> snd ptrs ! j = dst ! j \<and> snd ptrs ! (j + cap) = dst ! (j + cap)"
  using assms by (auto simp: put_dst_def merge_ok_def cells_frame nth_list_update)

definition merged :: "nat \<Rightarrow> edge_with_index list \<Rightarrow> edge_with_index list \<Rightarrow> nat \<Rightarrow>
    (edge_with_index \<times> edge_with_index) list \<Rightarrow> bool" where
  "merged cap dst res n cs \<longleftrightarrow> length res = 2 * cap \<and> cells res cap n = cs \<and>
     (\<forall>j. n \<le> j \<and> j < cap \<longrightarrow> res ! j = dst ! j \<and> res ! (j + cap) = dst ! (j + cap))"

lemma merged_step:
  assumes "merged cap dst1 res n cs" "n < cap" "dst1 ! n = e" "dst1 ! (n + cap) = p"
    "\<And>j. j \<noteq> n \<Longrightarrow> j < cap \<Longrightarrow> dst1 ! j = dst ! j \<and> dst1 ! (j + cap) = dst ! (j + cap)"
  shows "merged cap dst res (Suc n) (cs @ [(e, p)])"
  using assms unfolding merged_def by (auto simp: cells_Suc)

lemma merge_loop_correct:
  assumes "merge_ok alias cap oldcap x y start dst"
  shows "merged cap dst (merge_final alias cap oldcap (merge_loop alias cap oldcap tmp idx x y (x + y) (start, dst)))
           (x + y) (bmerge (rev (tmp_cells tmp idx x)) (rev (cells start oldcap y)))"
  using assms
proof (induction "x + y" arbitrary: x y start dst)
  case 0
  then show ?case
    by (auto simp: merged_def merge_final_def tmp_cells_def merge_ok_def blit_def)
next
  case (Suc n)
  show ?case
  proof (cases x)
    case 0
    have ok: "merge_ok alias cap oldcap 0 y start dst" using Suc.prems 0 by simp
    show ?thesis
    proof (cases "alias")
      case True
      with ok 0 show ?thesis by (auto simp: merged_def merge_final_def tmp_cells_def merge_ok_def)
    next
      case False
      let ?d1 = "blit dst 0 (take y start)" and ?ps = "take y (drop oldcap start)"
      have len: "length ?d1 = 2 * cap" "length ?ps = y" "length (take y start) = y"
        using ok by (auto simp: merge_ok_def length_blit)
      have "cells (blit ?d1 cap ?ps) cap y = cells start oldcap y"
        using ok len by (intro cells_cong) (auto simp: nth_blit merge_ok_def add.commute)
      moreover have "blit ?d1 cap ?ps ! j = dst ! j \<and> blit ?d1 cap ?ps ! (j + cap) = dst ! (j + cap)"
        if "y \<le> j" "j < cap" for j using that ok len by (auto simp: nth_blit merge_ok_def)
      moreover have "length (blit ?d1 cap ?ps) = 2 * cap" using ok len by (simp add: length_blit merge_ok_def)
      ultimately show ?thesis using False 0 by (simp add: merged_def merge_final_def tmp_cells_def)
    qed
  next
    case x: (Suc x')
    let ?t = "(tmp ! (idx ! x'), tmp ! (idx ! x' + TMPNUM))"
    let ?s = "(start ! (y - 1), start ! (y - 1 + oldcap))"
    consider (tmp) "y = 0 \<or> ckey ?t > ckey ?s" | (old) "y \<noteq> 0" "\<not> ckey ?t > ckey ?s" by blast
    then show ?thesis
    proof cases
      case tmp
      let ?k = "x' + y"
      let ?ptrs = "put_dst alias ?k (fst ?t) (put_dst alias (?k + cap) (snd ?t) (start, dst))"
      have k: "?k < cap" "y \<le> ?k" "y \<le> oldcap" "y + x' \<le> cap" using Suc.prems x by (auto simp: merge_ok_def)
      note put = put_pair [OF Suc.prems k, where e = "fst ?t" and p = "snd ?t"]
      have "merged cap (snd ?ptrs)
          (merge_final alias cap oldcap (merge_loop alias cap oldcap tmp idx x' y ?k (fst ?ptrs, snd ?ptrs)))
          ?k (bmerge (rev (tmp_cells tmp idx x')) (rev (cells start oldcap y)))"
        using Suc.hyps(1) [of x' y, OF _ put(1)] Suc.hyps(2) x put(2) by simp
      from merged_step [OF this k(1) put(3,4) put(5)] tmp x show ?thesis
        by (cases y) (auto simp: tmp_cells_Suc cells_Suc ckey_def Let_def)
    next
      case old
      then obtain y' where y: "y = Suc y'" by (cases y) auto
      let ?k = "x + y'"
      let ?ptrs = "put_dst alias ?k (fst ?s) (put_dst alias (?k + cap) (snd ?s) (start, dst))"
      have k: "?k < cap" "y' \<le> ?k" "y' \<le> oldcap" "y' + x \<le> cap" using Suc.prems y by (auto simp: merge_ok_def)
      note put = put_pair [OF Suc.prems k, where e = "fst ?s" and p = "snd ?s"]
      have "merged cap (snd ?ptrs)
          (merge_final alias cap oldcap (merge_loop alias cap oldcap tmp idx x y' ?k (fst ?ptrs, snd ?ptrs)))
          ?k (bmerge (rev (tmp_cells tmp idx x)) (rev (cells start oldcap y')))"
        using Suc.hyps(1) [of x y', OF _ put(1)] Suc.hyps(2) y put(2) by simp
      moreover have "fst (put_dst alias (?k + cap) (snd ?s) (start, dst)) ! y' = start ! y'"
        using k x y Suc.prems by (auto simp: put_dst_def merge_ok_def nth_list_update)
      ultimately show ?thesis
        using merged_step [OF _ k(1) put(3,4) put(5)] old(2) x y
        by (auto simp: tmp_cells_Suc cells_Suc ckey_def Let_def)
    qed
  qed
qed

section \<open>The whole merge\<close>

lemma grow_capacity_ge: "0 < cap \<Longrightarrow> num \<le> grow_capacity cap num \<and> cap \<le> grow_capacity cap num"
proof (induction cap num rule: grow_capacity.induct)
  case (1 cap num)
  then show ?case by (cases "cap < num") (force simp: grow_capacity.simps [of cap num])+
qed

lemma length_tmp_indices: "length (tmp_indices tmp) = TMPNUM"
  by (simp add: tmp_indices_def)

lemma tmp_cells_indices:
  "tmp_cells tmp (tmp_indices tmp) TMPNUM = map (\<lambda>i. (tmp ! i, tmp ! (i + TMPNUM))) (tmp_indices tmp)"
  using length_tmp_indices [of tmp] by (auto simp: tmp_cells_def intro: nth_equalityI)

lemma tmp_cells_mset: "mset (tmp_cells tmp (tmp_indices tmp) TMPNUM) = mset (cells tmp TMPNUM TMPNUM)"
  unfolding tmp_cells_indices by (simp add: tmp_indices_def cells_def)

lemma tmp_cells_sorted:
  assumes "distinct (map ckey (cells tmp TMPNUM TMPNUM))"
  shows "sorted_wrt (<) (map ckey (tmp_cells tmp (tmp_indices tmp) TMPNUM))"
proof -
  let ?ts = "tmp_cells tmp (tmp_indices tmp) TMPNUM"
  have "map ckey ?ts = map (\<lambda>i. entry_key (tmp ! i)) (tmp_indices tmp)"
    by (simp add: tmp_cells_indices ckey_def comp_def)
  then have "sorted (map ckey ?ts)" by (simp add: tmp_indices_def)
  moreover have "distinct (map ckey ?ts)"
    using assms tmp_cells_mset [of tmp] by (metis mset_map mset_eq_imp_distinct_iff)
  ultimately show ?thesis by (simp add: strict_sorted_iff)
qed

lemma kept_keys:
  assumes "distinct (map ckey cs)"
  shows "ckey ` set (kept oldest cs) = ckey ` set cs - dropped_keys oldest cs"
  using assms by (auto simp: kept_def dropped_keys_def distinct_map inj_on_def)

lemma merge_correct:
  assumes wf: "ve_wf v" and full: "tmp_ev v = TMPNUM"
  shows "\<exists>v'. merge_tmpev_with_eb junk oldest v = Inr v' \<and> ve_wf v' \<and> tmp_ev v' = 0 \<and>
     mset (pa_cells v') = mset (kept oldest (pa_cells v)) + mset (tb_cells v) \<and>
     VBM v' = VBM v \<and> edge_num v' = edge_num v \<and> ve_src v' = ve_src v \<and> ve_locked v' = ve_locked v \<and>
     merge_times v' = merge_times v + 1 \<and> tmp_item v' = tmp_item v"
proof -
  define oc ne cap where "oc = capacity v" and "ne = (ve_num v > capacity v)" and
    "cap = (if ve_num v > capacity v then (if capacity v = 0 then ve_num v else grow_capacity (capacity v) (ve_num v))
            else capacity v)"
  let ?n = "edges_and_versions v" and ?tmp = "tmp_item v"
  let ?idx = "tmp_indices ?tmp"
  have n: "?n \<le> oc" "length (ve_start v) = 2 * oc" and num: "ve_num v = ?n + TMPNUM"
    and M: "ht2_ok (ve_M v)" "ht2_keys (ve_M v) = ve_keys v"
    and pa: "sorted_wrt (<) (map ckey (pa_cells v))" and tb: "distinct (map ckey (tb_cells v))"
    and disj: "ckey ` set (pa_cells v) \<inter> ckey ` set (tb_cells v) = {}"
    using wf full by (auto simp: ve_wf_def oc_def)
  have cap: "ve_num v \<le> cap" "oc \<le> cap" "\<not> ne \<Longrightarrow> cap = oc"
    using grow_capacity_ge [of oc "ve_num v"] by (auto simp: cap_def oc_def ne_def)
  obtain start y M' num' where
    fold: "foldR (compact_step oldest oc) [0..<?n] (ve_start v, 0, ve_M v, ve_num v) = Inr (start, y, M', num')"
    and inva: "compact_inv oldest (ve_start v) oc (ve_keys v) (ve_num v) ?n (start, y, M', num')"
    using compact_all [OF n M(1) M(2), of "ve_num v" oldest] num by (metis le_add1 prod_cases4)
  have y: "y \<le> ?n" "length start = 2 * oc" "cells start oc y = kept oldest (pa_cells v)"
    "ht2_ok M'" "ht2_keys M' = ve_keys v - dropped_keys oldest (pa_cells v)" "num' + (?n - y) = ve_num v"
    using inva by (auto simp: compact_inv_def pa_cells_def oc_def)
  define dst where "dst = (if ne then replicate (2 * cap) junk else start)"
  obtain y' start' dst' where loop:
    "merge_loop (\<not> ne) cap oc ?tmp ?idx TMPNUM y (y + TMPNUM) (start, dst) = (y', start', dst')"
    by (metis prod_cases3)
  define final where "final = merge_final (\<not> ne) cap oc (y', start', dst')"
  have "merge_ok (\<not> ne) cap oc TMPNUM y start dst"
    using y cap num n by (auto simp: merge_ok_def dst_def)
  from merge_loop_correct [OF this, of ?tmp ?idx] loop
  have final: "merged cap dst final (y + TMPNUM)
      (bmerge (rev (tmp_cells ?tmp ?idx TMPNUM)) (rev (kept oldest (pa_cells v))))"
    by (simp add: final_def y add.commute)
  let ?v = "v\<lparr>merge_times := merge_times v + 1, capacity := cap, edges_and_versions := y + TMPNUM,
     ve_num := num', ve_M := M', ve_start := final, tmp_ev := 0\<rparr>"
  have result: "merge_tmpev_with_eb junk oldest v = Inr ?v"
  proof -
    have "merge_loop (\<not> capacity v < ve_num v) cap (capacity v) ?tmp ?idx TMPNUM y (y + TMPNUM)
        (start, if capacity v < ve_num v then replicate (2 * cap) junk else start) = (y', start', dst')"
      using loop by (simp add: ne_def oc_def dst_def)
    then show ?thesis
      using fold unfolding merge_tmpev_with_eb_def Let_def cap_def [symmetric]
      by (cases "capacity v < ve_num v") (simp_all add: ne_def oc_def final_def merge_final_def)
  qed
  let ?K = "kept oldest (pa_cells v)" and ?T = "tmp_cells ?tmp ?idx TMPNUM"
  have pa': "pa_cells ?v = bmerge (rev ?T) (rev ?K)"
    using final by (simp add: pa_cells_def merged_def)
  have T: "mset ?T = mset (tb_cells v)" "sorted_wrt (<) (map ckey ?T)"
    using tmp_cells_mset [of ?tmp] tmp_cells_sorted [of ?tmp] tb full by (simp_all add: tb_cells_def)
  then have setT: "set ?T = set (tb_cells v)" by (metis mset_eq_setD)
  have K: "sorted_wrt (<) (map ckey ?K)"
    using pa by (simp add: kept_def sorted_wrt_map sorted_wrt_filter)
  have "distinct (map ckey (pa_cells v))" using pa by (simp add: strict_sorted_iff)
  note kk = kept_keys [OF this, of oldest]
  have dd: "ckey ` set ?T \<inter> ckey ` set ?K = {}" using disj kk setT by auto
  have "sorted_wrt (<) (map ckey (pa_cells ?v))"
    unfolding pa' by (rule sorted_bmerge) (use T K dd in \<open>simp_all add: rev_map [symmetric] sorted_wrt_rev\<close>)
  moreover have "ve_keys ?v = ve_keys v - dropped_keys oldest (pa_cells v)"
  proof -
    have "dropped_keys oldest (pa_cells v) \<subseteq> ckey ` set (pa_cells v)" by (auto simp: dropped_keys_def)
    then show ?thesis using disj kk setT by (auto simp: ve_keys_def pa' tb_cells_def)
  qed
  ultimately have "ve_wf ?v"
    using wf y cap num n final by (auto simp: ve_wf_def merged_def tb_cells_def)
  moreover have "mset (pa_cells ?v) = mset ?K + mset (tb_cells v)"
    unfolding pa' using T(1) by simp
  ultimately show ?thesis using result by auto
qed

definition full_buffer :: "edge_with_index list" where
  "full_buffer = map (\<lambda>i. \<lparr>ew_e = of_nat (63 - i), ew_block = 1, ew_index = 0\<rparr>) [0..<128]"

definition full_vertex :: "hashtable2 \<Rightarrow> vertex_edges" where
  "full_vertex M = VertexEdges_new\<lparr>tmp_item := full_buffer, tmp_ev := 64, ve_num := 64, ve_M := M\<rparr>"

lemma full_vertex_wf: "\<exists>M. ve_wf (full_vertex M)"
proof -
  let ?ks = "map (\<lambda>i. of_nat (63 - i)) [0..<64] :: dst_t list"
  have ks: "map ckey (tb_cells (full_vertex M)) = ?ks" for M
    by (simp add: tb_cells_def full_vertex_def full_buffer_def cells_def TMPNUM_def ckey_def entry_key_def comp_def)
      (code_simp)
  have pa: "pa_cells (full_vertex M) = []" for M by (simp add: pa_cells_def full_vertex_def VertexEdges_new_def cells_def)
  have d: "distinct ?ks" and ne: "\<forall>k \<in> set ?ks. nonempty k" by code_simp+
  obtain M where M: "ht2_ok M" "ht2_keys M = set ?ks"
    using ht2.put_all [OF HashTable2_init_ok(1) d] ne HashTable2_init_ok(2) by auto
  have "ckey ` set (tb_cells (full_vertex M)) = set ?ks" using arg_cong [OF ks [of M], of set] by simp
  then have "ve_keys (full_vertex M) = set ?ks" using pa by (simp add: ve_keys_def)
  then have "ve_wf (full_vertex M)"
    using M ks [of M] d pa [of M] unfolding ve_wf_def
    by (simp add: full_vertex_def VertexEdges_new_def full_buffer_def TMPNUM_def)
  then show ?thesis by blast
qed

text \<open>
  C6: Merging a full buffer always returns, without reading or writing outside an array, and the
  primary array then holds, sorted by destination, the old edges and the buffered ones, less
  exactly the edges whose deletion is older than the garbage-collection watermark; the vertex
  stays well formed and its version blocks are untouched.
\<close>

theorem merge_is_sorted_union:
  assumes "ve_wf v" "tmp_ev v = TMPNUM"
  shows "\<exists>v'. merge_tmpev_with_eb junk oldest v = Inr v' \<and> ve_wf v' \<and> tmp_ev v' = 0 \<and> VBM v' = VBM v \<and>
     mset (pa_cells v') = filter_mset (\<lambda>c. \<not> droppable oldest (fst c)) (mset (pa_cells v)) + mset (tb_cells v)"
  using merge_correct [OF assms, of junk oldest] by (auto simp: kept_def)

theorem merge_is_sorted_union_witness:
  "\<exists>M v'. merge_tmpev_with_eb \<lparr>ew_e = 0, ew_block = 0, ew_index = 0\<rparr> 5 (full_vertex M) = Inr v' \<and> ve_wf v' \<and>
     length (pa_cells v') = 64 \<and> tmp_ev v' = 0"
proof -
  obtain M where M: "ve_wf (full_vertex M)" using full_vertex_wf by blast
  have full: "tmp_ev (full_vertex M) = TMPNUM" by (simp add: full_vertex_def TMPNUM_def)
  from merge_is_sorted_union [OF M full, of "\<lparr>ew_e = 0, ew_block = 0, ew_index = 0\<rparr>" 5] obtain v' where v':
    "merge_tmpev_with_eb \<lparr>ew_e = 0, ew_block = 0, ew_index = 0\<rparr> 5 (full_vertex M) = Inr v'" "ve_wf v'" "tmp_ev v' = 0"
    "mset (pa_cells v') = filter_mset (\<lambda>c. \<not> droppable 5 (fst c)) (mset (pa_cells (full_vertex M))) + mset (tb_cells (full_vertex M))"
    by blast
  have "pa_cells (full_vertex M) = []" by (simp add: pa_cells_def full_vertex_def VertexEdges_new_def cells_def)
  then have "mset (pa_cells v') = mset (tb_cells (full_vertex M))" using v'(4) by simp
  then have "length (pa_cells v') = 64"
    by (metis size_mset full length_cells tb_cells_def TMPNUM_def)
  with v' show ?thesis by blast
qed

end
