(* ===== verification/Vertex_Writes.thy ===== *)
theory Vertex_Writes
  imports Vertex_Merge
begin

text \<open>
  The writing operations of \<open>VertexEdges\<close>: \<open>build\<close>, \<open>insert_edge_block\<close>, \<open>delete_edge_block\<close> and
  \<open>Transform\<close>, in the default build. A write leaves its old version in the epoch's temporary
  version block and keeps the vertex locked until its transaction commits; \<open>Transform\<close> turns the
  temporary block into a published one. The vertex's own index is the argument \<open>self\<close>; \<open>junk\<close> is
  what freshly allocated memory holds and \<open>oldest\<close> the garbage-collection watermark.
\<close>

section \<open>build\<close>

definition build :: "edge_with_index list \<Rightarrow> (dst_t \<times> weight_t) list \<Rightarrow> vertex_edges \<Rightarrow> vertex_edges res" where
  "build pool es v =
     (case foldM (\<lambda>k t. setDestHashTableVal2 t k) (map fst es) (ve_M v) of
        None \<Rightarrow> Inl LoopsForever
      | Some M' \<Rightarrow>
          Inr (v\<lparr>edges_and_versions := length es, capacity := length es, ve_num := length es,
                 ve_start := map (\<lambda>x. \<lparr>ew_e = fst x, ew_block = 0, ew_index = 0\<rparr>) es @
                             map (\<lambda>x. \<lparr>ew_e = snd x, ew_block = 0, ew_index = 0\<rparr>) es,
                 ve_M := M', tmp_item := pool\<rparr>))"

section \<open>insert_edge_block and delete_edge_block\<close>

text \<open>Find the destination, or append it to the buffer; the flag says that it was deleted.\<close>

definition locate_or_add :: "dst_t \<Rightarrow> weight_t \<Rightarrow> vertex_edges \<Rightarrow> (vertex_edges \<times> slot \<times> bool) res" where
  "locate_or_add edge weight v =
     (case getDestHashTableVal2 (ve_M v) edge of
        None \<Rightarrow> Inl LoopsForever
      | Some False \<Rightarrow>
          (case setDestHashTableVal2 (ve_M v) edge of
             None \<Rightarrow> Inl LoopsForever
           | Some M' \<Rightarrow>
               let t = tmp_ev v in
               if t + TMPNUM \<ge> length (tmp_item v) then Inl OutOfBounds
               else Inr (v\<lparr>tmp_item := (tmp_item v)[t + TMPNUM := (tmp_item v ! (t + TMPNUM))\<lparr>ew_e := weight\<rparr>,
                                                    t := ew_clear ((tmp_item v ! t)\<lparr>ew_e := edge\<rparr>)],
                           tmp_ev := t + 1, ve_num := ve_num v + 1, ve_M := M'\<rparr>, Tmp t, False))
      | Some True \<Rightarrow>
          bind_res (get_edge_index v edge) (\<lambda>r. case r of
              None \<Rightarrow> Inl WildPointer
            | Some (s, _) \<Rightarrow>
                let x = item_e v s in
                Inr (set_item_e s (x\<lparr>ew_e := strip_del (ew_e x)\<rparr>) v, s, is_delete (ew_e x))))"

text \<open>The first write of an epoch to a vertex registers the temporary block and marks it active.\<close>

definition touch_tvb :: "nat \<Rightarrow> epoch_t \<Rightarrow> transaction \<Rightarrow> vertex_edges \<Rightarrow> vb_data \<Rightarrow> (vertex_edges \<times> vb_data) res" where
  "touch_tvb self epoch txn v d =
     (let k = ring_slot epoch; t = tvb_at v k in
      if tvb_timestamp t \<noteq> epoch then
        bind_res (write_lock_pushback txn d (self, k)) (\<lambda>d'.
          let v1 = set_tvb k (t\<lparr>tvb_timestamp := epoch, version_num := 0\<rparr>) v
          in Inr (v1\<lparr>VBM := MarkTvbActive (VBM v1) epoch\<rparr>, d'))
      else Inr (v, d))"

definition FIRST_VERSION :: "32 word" where
  "FIRST_VERSION = 0"

definition read_old :: "vertex_edges \<Rightarrow> slot \<Rightarrow> epoch_t \<times> 32 word \<times> intra_t" where
  "read_old v s = (GetCoarseC (item_e v s),
     (if ew_block (item_p v s) = - 1 then FIRST_VERSION else ew_block (item_p v s)),
     ew_index (item_e v s))"

definition write_conflict :: "transaction \<Rightarrow> epoch_t \<Rightarrow> epoch_t \<Rightarrow> bool" where
  "write_conflict txn epoch last_epoch \<longleftrightarrow>
     (\<not> tx_write_only txn \<and> tx_read_epoch txn < last_epoch) \<or> last_epoch > epoch"

text \<open>
  Record the old version in the temporary block, and link the predecessor to it when that one is
  pending too. The results are the new entry's index and the transaction's position.
\<close>

definition record_version :: "dst_t \<times> weight_t \<Rightarrow> epoch_t \<Rightarrow> slot \<Rightarrow> bool \<Rightarrow> epoch_t \<times> 32 word \<times> intra_t \<Rightarrow>
    transaction \<Rightarrow> vertex_edges \<Rightarrow> vb_data \<Rightarrow> (vertex_edges \<times> nat \<times> intra_t \<times> transaction \<times> vb_data) res" where
  "record_version edge epoch s is_tmp old txn v d =
     (case old of (last_epoch, last_index, old_intra_c) \<Rightarrow>
      case get_intra_c txn d of (intra_c, txn', d') \<Rightarrow>
      case InsertVersion (tvb_at v (ring_slot epoch)) edge last_epoch last_index
             (push_bit 32 (ucast last_epoch) OR ucast last_index) (tx_addr txn) (tx_write_only txn)
             (offset_of s) (merge_times v) last_epoch old_intra_c intra_c of (t, tvb_idx) \<Rightarrow>
      let v1 = set_tvb (ring_slot epoch) t v in
      if is_tmp \<and> last_epoch \<noteq> 0 then
        bind_res (ChangeNextIndex (tvb_at v1 (ring_slot last_epoch)) (unat last_index) epoch (word_of_nat tvb_idx))
          (\<lambda>t'. Inr (set_tvb (ring_slot last_epoch) t' v1, tvb_idx, intra_c, txn', d'))
      else Inr (v1, tvb_idx, intra_c, txn', d'))"

definition mark_pending :: "slot \<Rightarrow> epoch_t \<Rightarrow> intra_t \<Rightarrow> 64 word \<Rightarrow> 32 word \<Rightarrow> vertex_edges \<Rightarrow> vertex_edges" where
  "mark_pending s epoch intra_c e pblock v =
     (let v1 = set_item_e s \<lparr>ew_e = e, ew_block = epoch OR TMPVB_MASK, ew_index = intra_c\<rparr> v
      in set_item_p s ((item_p v1 s)\<lparr>ew_block := pblock, ew_index := 0\<rparr>) v1)"

type_synonym write_result = "(vertex_edges \<times> transaction \<times> vb_data \<times> bool) res"

definition insert_edge_block :: "edge_with_index \<Rightarrow> epoch_t \<Rightarrow> nat \<Rightarrow> dst_t \<times> weight_t \<Rightarrow> epoch_t \<Rightarrow>
    transaction \<Rightarrow> vertex_edges \<Rightarrow> vb_data \<Rightarrow> write_result" where
  "insert_edge_block junk oldest self e epoch txn v d =
     (if ve_locked v then Inl Deadlock
      else
        bind_res (if tmp_ev v = TMPNUM then merge_tmpev_with_eb junk oldest v else Inr v) (\<lambda>v1.
        bind_res (locate_or_add (fst e) (snd e) v1) (\<lambda>(v2, s, was_deleted).
        bind_res (touch_tvb self epoch txn v2 d) (\<lambda>(v3, d3).
          let is_tmp = has_tmp (ew_block (item_e v3 s));
              old = (if was_deleted then (0, 0, 0) else read_old v3 s)
          in if write_conflict txn epoch (fst old) then Inr (v3\<lparr>ve_locked := False\<rparr>, txn, d3, False)
             else
               bind_res (record_version e epoch s is_tmp old txn v3 d3) (\<lambda>(v4, tvb_idx, intra_c, txn4, d4).
                 let v5 = mark_pending s epoch intra_c (ew_e (item_e v4 s)) (word_of_nat tvb_idx) v4
                 in Inr (v5\<lparr>ve_locked := True\<rparr>, AddEB txn4 self, d4, True))))))"

definition delete_edge_block :: "edge_with_index \<Rightarrow> epoch_t \<Rightarrow> nat \<Rightarrow> dst_t \<times> weight_t \<Rightarrow> epoch_t \<Rightarrow>
    transaction \<Rightarrow> vertex_edges \<Rightarrow> vb_data \<Rightarrow> write_result" where
  "delete_edge_block junk oldest self e epoch txn v d =
     (if ve_locked v then Inl Deadlock
      else
        bind_res (if tmp_ev v = TMPNUM then merge_tmpev_with_eb junk oldest v else Inr v) (\<lambda>v1.
        case getDestHashTableVal2 (ve_M v1) (fst e) of
          None \<Rightarrow> Inl LoopsForever
        | Some False \<Rightarrow> Inr (v1\<lparr>ve_locked := False\<rparr>, txn, d, False)
        | Some True \<Rightarrow>
            bind_res (get_edge_index v1 (fst e)) (\<lambda>r. case r of
                None \<Rightarrow> Inl WildPointer
              | Some (s, _) \<Rightarrow>
                  bind_res (touch_tvb self epoch txn v1 d) (\<lambda>(v3, d3).
                    let is_tmp = has_tmp (ew_block (item_e v3 s)); old = read_old v3 s
                    in if write_conflict txn epoch (fst old) then Inr (v3\<lparr>ve_locked := False\<rparr>, txn, d3, False)
                       else
                         bind_res (record_version (fst e OR DELETION_MASK, snd e) epoch s is_tmp old txn v3 d3)
                           (\<lambda>(v4, tvb_idx, intra_c, txn4, d4).
                             let v5 = mark_pending s epoch intra_c (ew_e (item_e v4 s) OR DELETION_MASK) 0 v4
                             in Inr (v5\<lparr>ve_locked := True\<rparr>, AddEB txn4 self, d4, True))))))"

section \<open>Transform\<close>

text \<open>
  \<open>std::sort\<close> does not fix the order of entries that compare equal; \<open>Transform\<close> takes the sorted index
  vector as an argument, and \<open>transform_order\<close> says what \<open>std::sort\<close> guarantees of it.
\<close>

definition version_before :: "version_entry \<Rightarrow> version_entry \<Rightarrow> bool" where
  "version_before a b \<longleftrightarrow>
     (if ent_last_epoch a \<noteq> ent_last_epoch b then ent_last_epoch a < ent_last_epoch b
      else ent_old_intra_c a < ent_old_intra_c b)"

definition transform_order :: "tmp_version_block \<Rightarrow> nat list \<Rightarrow> bool" where
  "transform_order t indices \<longleftrightarrow>
     distinct indices \<and> set indices = {0..<version_num t} \<and>
     sorted_wrt (\<lambda>i j. \<not> version_before (tmp_entry t ! j) (tmp_entry t ! i)) indices"

definition locate_item :: "version_entry \<Rightarrow> vertex_edges \<Rightarrow> slot res" where
  "locate_item x v =
     (if ent_merge_times x \<noteq> merge_times v
      then bind_res (get_edge_index2 v (strip_del (ent_edge x)))
             (\<lambda>r. case r of None \<Rightarrow> Inl WildPointer | Some s \<Rightarrow> Inr s)
      else let s = slot_of_offset (ent_offset x) in if slot_in_range v s then Inr s else Inl OutOfBounds)"

type_synonym publish_state = "vertex_edges \<times> nat list \<times> nat \<times> int"

text \<open>
  The first loop, over the entries without an old version: \<open>m\<close> entries are left and \<open>i\<close> is the
  next one. The state is the vertex, the index vector, \<open>vb_alloc\<close> and \<open>vb->edge_num_\<close>; the result
  adds the final \<open>i\<close>.
\<close>

fun publish_new :: "nat \<Rightarrow> epoch_t \<Rightarrow> nat \<Rightarrow> nat \<Rightarrow> publish_state \<Rightarrow> (publish_state \<times> nat) res" where
  "publish_new k epoch 0 i s = Inr (s, i)"
| "publish_new k epoch (Suc m) i (v, indices, vb_alloc, edge_delta) =
     (let x = tmp_entry (tvb_at v k) ! (indices ! i) in
      if ent_last_epoch x \<noteq> 0 then Inr ((v, indices, vb_alloc, edge_delta), i)
      else if is_delete (ent_edge x) then
        publish_new k epoch m (i + 1)
          (v, indices[i := indices ! vb_alloc, vb_alloc := indices ! i], vb_alloc + 1, edge_delta)
      else
        bind_res (locate_item x v) (\<lambda>s.
        bind_res
          (if \<not> HasNextVB (ent_link x) then
             let v1 = set_item_e s ((item_e v s)\<lparr>ew_block := epoch, ew_index := ent_new_intra_c x\<rparr>) v
             in Inr (set_item_p s (ew_clear (item_p v1 s)) v1)
           else
             let k2 = ring_slot (link_block (ent_link x)) in
             bind_res (ChangeLastIndex (tvb_at v k2) (unat (link_index (ent_link x))) 0)
               (\<lambda>t. Inr (set_tvb k2 t v)))
          (\<lambda>v2. publish_new k epoch m (i + 1)
             (set_item_p s ((item_p v2 s)\<lparr>ew_e := ent_weight x\<rparr>) v2, indices, vb_alloc, edge_delta + 1))))"

type_synonym record_state = "vertex_edges \<times> int \<times> edge_with_index list \<times> edge_with_index list"

text \<open>
  The bodies of the second loop and of the loop over the partitioned deletes, for one entry. The
  two lists are the records written so far to the first and the second half of \<open>vb->start_\<close>; their
  length is \<open>j\<close>.
\<close>

definition publish_old :: "nat \<Rightarrow> epoch_t \<Rightarrow> nat \<Rightarrow> record_state \<Rightarrow> record_state res" where
  "publish_old k epoch idx s =
     (case s of (v, edge_delta, es, ps) \<Rightarrow>
        let x = tmp_entry (tvb_at v k) ! idx; j = word_of_nat (length es) in
        bind_res (locate_item x v) (\<lambda>sl.
          let delta = (if \<not> is_delete (ent_edge x) then 1 else - 1);
              e_rec = SetEdgeFG (strip_del (ent_edge x)) (ent_last_epoch x) (ent_old_intra_c x);
              p_rec = SetPropFG (ew_e (item_p v sl)) (link_index (ent_link x)) (ent_new_intra_c x);
              v1 = set_item_e sl ((item_e v sl)\<lparr>ew_block := epoch, ew_index := ent_new_intra_c x\<rparr>) v;
              v2 = (if is_delete (ent_edge x) then set_item_p sl (SetPropFG 0 j 0) v1
                    else set_item_p sl (SetPropFG (ent_weight x) j 0) v1)
          in Inr (v2, edge_delta + delta, es @ [e_rec], ps @ [p_rec])))"

definition publish_delete :: "nat \<Rightarrow> epoch_t \<Rightarrow> nat \<Rightarrow> record_state \<Rightarrow> record_state res" where
  "publish_delete k epoch idx s =
     (case s of (v, edge_delta, es, ps) \<Rightarrow>
        let x = tmp_entry (tvb_at v k) ! idx; j = word_of_nat (length es) in
        bind_res (locate_item x v) (\<lambda>sl.
          let e_rec = SetEdgeFG (strip_del (ent_edge x)) (ent_last_epoch x) (ent_old_intra_c x);
              p_rec = SetPropFG (ew_e (item_p v sl)) (link_index (ent_link x)) (ent_new_intra_c x);
              v1 = set_item_e sl ((item_e v sl)\<lparr>ew_block := epoch, ew_index := ent_new_intra_c x\<rparr>) v;
              v2 = set_item_p sl (SetPropFG 0 j 0) v1
          in Inr (v2, edge_delta - 1, es @ [e_rec], ps @ [p_rec])))"

text \<open>Push the block, clear the temporary one and take its active mark away.\<close>

definition finish_transform :: "nat \<Rightarrow> version_block \<Rightarrow> vertex_edges \<Rightarrow> vertex_edges" where
  "finish_transform k vb v =
     (let (m, n) = PushVB (VBM v) (edge_num v) vb;
          v1 = v\<lparr>VBM := m, edge_num := n\<rparr>;
          v2 = set_tvb k (tvb_Clear (tvb_at v1 k)) v1
      in v2\<lparr>VBM := MarkTvbInactive (VBM v2) (vb_timestamp vb)\<rparr>)"

definition Transform :: "nat list \<Rightarrow> nat \<Rightarrow> version_block \<Rightarrow> vertex_edges \<Rightarrow> (vertex_edges \<times> nat) res" where
  "Transform indices k vb v =
     (let n = version_num (tvb_at v k); epoch = vb_timestamp vb in
      if n = 0 then Inr (v, 0)
      else if ve_locked v then Inl Deadlock
      else
        bind_res (publish_new k epoch n 0 (v, indices, 0, vb_edge_num vb)) (\<lambda>((v1, idx1, vb_alloc, delta1), i).
          let item_num = n - i + vb_alloc in
          if item_num = 0 then
            Inr (finish_transform k (vb\<lparr>vb_edge_num := delta1, vb_version_num := 0\<rparr>) v1, 0)
          else
            bind_res (foldR (publish_old k epoch) (drop i idx1) (v1, delta1, [], [])) (\<lambda>s2.
            bind_res (foldR (publish_delete k epoch) (take vb_alloc idx1) s2) (\<lambda>(v3, delta3, es, ps).
              Inr (finish_transform k
                     (vb\<lparr>vb_edge_num := delta3, vb_version_num := item_num, vb_start := Some (es @ ps)\<rparr>) v3,
                   item_num)))))"

text \<open>The call of \<open>VBData::commitVersionBlock\<close>: a new \<open>VersionBlock\<close> is made from the temporary one.\<close>

definition transform_pending :: "nat list \<Rightarrow> nat \<Rightarrow> vertex_edges \<Rightarrow> vertex_edges res" where
  "transform_pending indices k v =
     bind_res (Transform indices k (VersionBlock_of_tvb (tvb_at v k)) v) (\<lambda>(v', _). Inr v')"

definition get_degree :: "vertex_edges \<Rightarrow> epoch_t \<Rightarrow> 32 word res" where
  "get_degree v epoch = bind_res (getDegreeVersioned (VBM v) epoch) (\<lambda>n. Inr (word_of_int (edge_num v + n)))"

end
