(* ===== verification/Vertex_Reads.thy ===== *)
theory Vertex_Reads
  imports Vertex_Writes
begin

text \<open>
  The reading side of \<open>VertexEdges.h\<close>: the scans of the buffer, the primary array and the pending
  temporary blocks, and the loops of \<open>GraphAlgorithms\<close> that go on through the published version
  blocks. A callback that cannot stop the scan is modelled by the list of what it is called with,
  in order; a callback that can stop it by a predicate.
\<close>

type_synonym ew_pair = "edge_with_index \<times> edge_with_index"

section \<open>Scanning one vertex\<close>

definition live_at :: "grain \<Rightarrow> composite \<Rightarrow> ew_pair \<Rightarrow> bool" where
  "live_at g read_ts c \<longleftrightarrow> \<not> is_delete (ew_e (fst c)) \<and> edge_visible_at g (fst c) read_ts"

text \<open>One temporary block, from its newest entry back; the loop leaves at the first entry that
  was written before the snapshot.\<close>

fun scan_entries :: "epoch_t \<Rightarrow> composite \<Rightarrow> version_entry list \<Rightarrow> ew_pair list" where
  "scan_entries ts reader_ts [] = []"
| "scan_entries ts reader_ts (x # xs) =
     (if is_delete (ent_edge x) then scan_entries ts reader_ts xs
      else if \<not> reader_ts \<le> Composite ts (ent_new_intra_c x) then []
      else if Composite (ent_last_epoch x) (ent_old_intra_c x) < reader_ts
        then (SetEdgeFG (ent_edge x) (ent_last_epoch x) (ent_old_intra_c x),
              SetPropFG (ent_weight x) 0 (ent_new_intra_c x)) # scan_entries ts reader_ts xs
      else scan_entries ts reader_ts xs)"

definition scan_tvb :: "composite \<Rightarrow> tmp_version_block \<Rightarrow> ew_pair list" where
  "scan_tvb reader_ts t =
     (if tmp_entry t = [] then [] else scan_entries (tvb_timestamp t) reader_ts (rev (tvb_live t)))"

text \<open>The loop over the set bits of \<open>active_tvb_mask_\<close>, lowest first.\<close>

definition active_tvbs :: "vertex_edges \<Rightarrow> nat list" where
  "active_tvbs v = filter (\<lambda>i. bit (vbm_active_mask (VBM v)) i) [0..<MAXSIMULBATCH]"

definition scan_pending :: "grain \<Rightarrow> composite \<Rightarrow> vertex_edges \<Rightarrow> ew_pair list" where
  "scan_pending g read_ts v =
     (case g of Fine \<Rightarrow> concat (map (\<lambda>k. scan_tvb read_ts (tvb_at v k)) (active_tvbs v)) | Coarse \<Rightarrow> [])"

definition needs_iterator :: "grain \<Rightarrow> composite \<Rightarrow> vertex_edges \<Rightarrow> bool" where
  "needs_iterator g read_ts v \<longleftrightarrow>
     (case g of Fine \<Rightarrow> comp_e read_ts \<le> vbm_end_epoch (VBM v)
              | Coarse \<Rightarrow> comp_e read_ts < vbm_end_epoch (VBM v)) \<and> vbm_end (VBM v) \<noteq> []"

definition iterate_edges_with_property :: "grain \<Rightarrow> composite \<Rightarrow> vertex_edges \<Rightarrow> ew_pair list \<times> vb_ptr option" where
  "iterate_edges_with_property g read_ts v =
     (filter (live_at g read_ts) (tb_cells v) @ filter (live_at g read_ts) (pa_cells v) @ scan_pending g read_ts v,
      if needs_iterator g read_ts v then Some (vbm_end (VBM v)) else None)"

definition iterate_edges :: "grain \<Rightarrow> composite \<Rightarrow> vertex_edges \<Rightarrow> edge_with_index list \<times> vb_ptr option" where
  "iterate_edges g read_ts v =
     (map fst (filter (live_at g read_ts) (tb_cells v)) @ map fst (filter (live_at g read_ts) (pa_cells v)) @
      map fst (scan_pending g read_ts v),
      if needs_iterator g read_ts v then Some (vbm_end (VBM v)) else None)"

fun call_until :: "('a \<Rightarrow> bool) \<Rightarrow> 'a list \<Rightarrow> 'a list \<times> bool" where
  "call_until stop [] = ([], False)"
| "call_until stop (x # xs) =
     (if stop x then ([x], True) else let (ys, b) = call_until stop xs in (x # ys, b))"

definition iterate_edges_condition :: "grain \<Rightarrow> composite \<Rightarrow> (edge_with_index \<Rightarrow> bool) \<Rightarrow> vertex_edges \<Rightarrow>
    edge_with_index list \<times> vb_ptr option" where
  "iterate_edges_condition g read_ts stop v =
     (let xs = map fst (filter (live_at g read_ts) (tb_cells v)) @ map fst (filter (live_at g read_ts) (pa_cells v)) @
               map fst (scan_pending g read_ts v);
          (called, stopped) = call_until stop xs
      in (called, if \<not> stopped \<and> needs_iterator g read_ts v then Some (vbm_end (VBM v)) else None))"

section \<open>GraphAlgorithms\<close>

text \<open>
  The loop over one block's records. \<open>FindIndex\<close> never stops at a block without records, so
  \<open>None\<close> stands for nothing that is read.
\<close>

definition block_reads :: "grain \<Rightarrow> composite \<Rightarrow> version_block \<Rightarrow> ew_pair list" where
  "block_reads g read_ts vb =
     (case vb_start vb of
        None \<Rightarrow> []
      | Some start \<Rightarrow>
          let recs = cells start (vb_version_num vb) (vb_version_num vb) in
          if g = Fine \<and> vb_timestamp vb = comp_e read_ts
          then takeWhile (\<lambda>c. IsVisibleAtComposite_inv (fst c) read_ts
                                (Composite (comp_e read_ts) (GetIntraInv (snd c)))) recs
          else takeWhile (\<lambda>c. IsVisibleAt (fst c) (comp_e read_ts)) recs)"

definition chain_reads :: "grain \<Rightarrow> composite \<Rightarrow> vb_ptr option \<Rightarrow> ew_pair list res" where
  "chain_reads g read_ts vb =
     (case vb of
        None \<Rightarrow> Inr []
      | Some c \<Rightarrow> bind_res (VBIterator_new g False c (comp_e read_ts)) (\<lambda>it.
                   bind_res (visit_blocks g it) (\<lambda>vbs. Inr (concat (map (block_reads g read_ts) vbs)))))"

definition for_each_edge_with_property :: "grain \<Rightarrow> composite \<Rightarrow> vertex_edges \<Rightarrow> ew_pair list res" where
  "for_each_edge_with_property g read_ts v =
     (case iterate_edges_with_property g read_ts v of (xs, vb) \<Rightarrow>
        bind_res (chain_reads g read_ts vb) (\<lambda>ys. Inr (xs @ ys)))"

definition for_each_edge :: "grain \<Rightarrow> composite \<Rightarrow> vertex_edges \<Rightarrow> edge_with_index list res" where
  "for_each_edge g read_ts v =
     (case iterate_edges g read_ts v of (xs, vb) \<Rightarrow>
        bind_res (chain_reads g read_ts vb) (\<lambda>ys. Inr (xs @ map fst ys)))"

text \<open>The stop request of the callback inside \<open>iterate_edges_condition\<close> also skips the blocks.\<close>

definition for_each_edge_condition :: "grain \<Rightarrow> composite \<Rightarrow> (edge_with_index \<Rightarrow> bool) \<Rightarrow> vertex_edges \<Rightarrow>
    edge_with_index list res" where
  "for_each_edge_condition g read_ts stop v =
     (case iterate_edges_condition g read_ts stop v of (xs, vb) \<Rightarrow>
        bind_res (chain_reads g read_ts vb) (\<lambda>ys. Inr (xs @ fst (call_until stop (map fst ys)))))"

text \<open>The scan of a vertex that never saw a versioned write, and its guard.\<close>

definition has_primary_only_state :: "grain \<Rightarrow> vertex_edges \<Rightarrow> bool" where
  "has_primary_only_state g v \<longleftrightarrow>
     tmp_ev v = 0 \<and> vbm_end_epoch (VBM v) = 0 \<and> (g = Fine \<longrightarrow> vbm_active_mask (VBM v) = 0)"

definition for_each_primary_edge :: "vertex_edges \<Rightarrow> edge_with_index list" where
  "for_each_primary_edge v = filter (\<lambda>x. \<not> is_delete (ew_e x)) (map fst (pa_cells v))"

text \<open>The merge of the sorted array with the sorted visible part of the buffer.\<close>

function sorted_scan :: "epoch_t \<Rightarrow> edge_with_index list \<Rightarrow> edge_with_index list \<Rightarrow> dst_t \<Rightarrow> edge_with_index list" where
  "sorted_scan epoch start buf prev =
     (let emit = (\<lambda>x. if ew_e x \<noteq> prev then [x] else []);
          next_last = (\<lambda>x. if ew_e x \<noteq> prev then ew_e x else prev)
      in case (start, buf) of
        ([], []) \<Rightarrow> []
      | ([], b # bs) \<Rightarrow> emit b @ sorted_scan epoch [] bs (next_last b)
      | (a # as, []) \<Rightarrow> emit a @ sorted_scan epoch as [] (next_last a)
      | (a # as, b # bs) \<Rightarrow>
          if is_delete (ew_e a) \<or> \<not> IsVisibleAt a epoch then sorted_scan epoch as (b # bs) prev
          else if ew_e a < ew_e b then emit a @ sorted_scan epoch as (b # bs) (next_last a)
          else emit b @ sorted_scan epoch (a # as) bs (next_last b))"
  by pat_completeness auto
termination
  by (relation "measure (\<lambda>(_, start, buf, _). length start + length buf)") auto

declare sorted_scan.simps [simp del]

definition for_each_edge_sorted :: "epoch_t \<Rightarrow> vertex_edges \<Rightarrow> edge_with_index list" where
  "for_each_edge_sorted epoch v =
     sorted_scan epoch (map fst (pa_cells v))
       (sort_key ew_e (filter (\<lambda>x. \<not> is_delete (ew_e x) \<and> IsVisibleAt x epoch) (map fst (tb_cells v))))
       (- 1)"

end
