(* ===== verification/Vertex_Snapshot.thy ===== *)
theory Vertex_Snapshot
  imports Vertex_Reads
begin

text \<open>
  What a reader sees. The abstraction of a vertex is a multiset of version intervals
  \<open>(destination, from, to)\<close>: the edge exists for the snapshots from epoch \<open>from\<close> on and before
  epoch \<open>to\<close>. They are spread over the cells (still open), the published version blocks and the
  pending temporary blocks. When nothing is pending, the reading loop calls back exactly the
  intervals that contain the snapshot's epoch.
\<close>

section \<open>Version intervals\<close>

type_synonym interval = "dst_t \<times> epoch_t \<times> epoch_t option"

definition alive_at :: "epoch_t \<Rightarrow> interval \<Rightarrow> bool" where
  "alive_at q iv = (case iv of (_, c, t) \<Rightarrow> c \<le> q \<and> (case t of None \<Rightarrow> True | Some t \<Rightarrow> q < t))"

definition cell_iv :: "ew_pair \<Rightarrow> interval" where
  "cell_iv c = (ckey c, GetCoarseC (fst c), None)"

definition live_ivs :: "vertex_edges \<Rightarrow> interval list" where
  "live_ivs v = map cell_iv (filter (\<lambda>c. \<not> is_delete (ew_e (fst c))) (tb_cells v @ pa_cells v))"

definition vb_records :: "version_block \<Rightarrow> ew_pair list" where
  "vb_records vb = (case vb_start vb of None \<Rightarrow> [] | Some st \<Rightarrow> cells st (vb_version_num vb) (vb_version_num vb))"

definition vb_ivs :: "version_block \<Rightarrow> interval list" where
  "vb_ivs vb = map (\<lambda>c. (ew_e (fst c), GetLinkBlock (fst c), Some (vb_timestamp vb))) (vb_records vb)"

definition entry_iv :: "epoch_t \<Rightarrow> version_entry \<Rightarrow> interval" where
  "entry_iv ts x = (strip_del (ent_edge x), ent_last_epoch x, Some ts)"

definition tvb_ivs :: "tmp_version_block \<Rightarrow> interval list" where
  "tvb_ivs t = map (entry_iv (tvb_timestamp t)) (filter (\<lambda>x. ent_last_epoch x \<noteq> 0) (tvb_live t))"

definition chain_ivs :: "vb_ptr \<Rightarrow> interval list" where
  "chain_ivs c = concat (map vb_ivs c)"

text \<open>A published block: records in order of their epoch, all of them invalidated in its epoch.\<close>

definition vb_ok :: "version_block \<Rightarrow> bool" where
  "vb_ok vb \<longleftrightarrow>
     (case vb_start vb of
        None \<Rightarrow> vb_version_num vb = 0
      | Some st \<Rightarrow> 0 < vb_version_num vb \<and> length st = 2 * vb_version_num vb) \<and>
     sorted_wrt (\<lambda>x y. ew_block (fst x) \<le> ew_block (fst y)) (vb_records vb) \<and>
     (\<forall>c \<in> set (vb_records vb). \<not> has_tmp (ew_block (fst c)) \<and> ew_index (snd c) \<noteq> INTRA_MAX)"

definition cells_settled :: "vertex_edges \<Rightarrow> bool" where
  "cells_settled v \<longleftrightarrow> (\<forall>c \<in> set (tb_cells v @ pa_cells v). ew_index (fst c) \<noteq> INTRA_MAX)"

definition nothing_pending :: "vertex_edges \<Rightarrow> bool" where
  "nothing_pending v \<longleftrightarrow> length (vbm_tvb_array (VBM v)) = MAXSIMULBATCH \<and>
     (\<forall>k < MAXSIMULBATCH. tmp_entry (tvb_at v k) = [])"

section \<open>Reading a quiescent vertex\<close>

lemma block_reads_alive:
  assumes "vb_ok vb" "wanted_block Fine q vb"
  shows "map (ew_e \<circ> fst) (block_reads Fine (Composite q INTRA_MAX) vb) = map fst (filter (alive_at q) (vb_ivs vb))"
proof -
  obtain st where st: "vb_start vb = Some st" using assms(2) by (auto simp: wanted_block_def)
  let ?recs = "cells st (vb_version_num vb) (vb_version_num vb)"
  have ts: "q \<le> vb_timestamp vb" using assms(2) by (simp add: wanted_block_def)
  have recs: "vb_records vb = ?recs" using st by (simp add: vb_records_def)
  have ok: "sorted_wrt (\<lambda>x y. ew_block (fst x) \<le> ew_block (fst y)) ?recs"
    "\<forall>c \<in> set ?recs. \<not> has_tmp (ew_block (fst c)) \<and> ew_index (snd c) \<noteq> INTRA_MAX"
    using assms(1) by (auto simp: vb_ok_def recs)
  show ?thesis
  proof (cases "vb_timestamp vb = q")
    case True
    have "takeWhile (\<lambda>c. IsVisibleAtComposite_inv (fst c) (Composite q INTRA_MAX)
            (Composite q (GetIntraInv (snd c)))) ?recs = []"
      using ok(2) by (cases ?recs)
        (auto simp: IsVisibleAtComposite_inv_def composite_le_iff GetIntraInv_def)
    moreover have "filter (alive_at q) (vb_ivs vb) = []"
      using True by (auto simp: filter_empty_conv vb_ivs_def alive_at_def)
    ultimately show ?thesis using st True by (simp add: block_reads_def)
  next
    case False
    have "takeWhile (\<lambda>c. IsVisibleAt (fst c) q) ?recs = filter (\<lambda>c. IsVisibleAt (fst c) q) ?recs"
    proof (rule takeWhile_sorted_filter)
      show "sorted_wrt (\<lambda>x y. GetLinkBlock (fst x) \<le> GetLinkBlock (fst y)) ?recs"
        by (rule sorted_wrt_mono_rel [OF _ ok(1)]) (use ok(2) in \<open>simp add: GetLinkBlock_def strip_tmp_id\<close>)
    qed (auto simp: IsVisibleAt_def)
    moreover have "q < vb_timestamp vb" using False ts by simp
    ultimately show ?thesis using st recs False
      by (simp add: Let_def block_reads_def vb_ivs_def filter_map comp_def alive_at_def IsVisibleAt_def)
  qed
qed

lemma unwanted_not_alive:
  assumes "vb_ok vb" "\<not> wanted_block Fine q vb"
  shows "filter (alive_at q) (vb_ivs vb) = []"
proof -
  have "\<not> alive_at q iv" if iv: "iv \<in> set (vb_ivs vb)" for iv
  proof
    assume alive: "alive_at q iv"
    obtain c where c: "c \<in> set (vb_records vb)" "iv = (ew_e (fst c), GetLinkBlock (fst c), Some (vb_timestamp vb))"
      using iv by (auto simp: vb_ivs_def)
    then obtain st where st: "vb_start vb = Some st" by (cases "vb_start vb") (auto simp: vb_records_def)
    have q: "q < vb_timestamp vb" "GetLinkBlock (fst c) \<le> q" using alive c by (auto simp: alive_at_def)
    have n: "0 < vb_version_num vb" using assms(1) st by (simp add: vb_ok_def)
    have first: "(st ! 0, st ! (0 + vb_version_num vb)) \<in> set (vb_records vb)"
      "vb_records vb ! 0 = (st ! 0, st ! (0 + vb_version_num vb))"
      using n st by (auto simp: vb_records_def cells_def)
    have "ew_block (st ! 0) \<le> ew_block (fst c)"
    proof -
      obtain i where i: "i < length (vb_records vb)" "vb_records vb ! i = c" using c(1) by (auto simp: in_set_conv_nth)
      have "sorted_wrt (\<lambda>x y. ew_block (fst x) \<le> ew_block (fst y)) (vb_records vb)"
        using assms(1) by (simp add: vb_ok_def)
      from sorted_wrt_nth_less [OF this, of 0 i] i first(2) show ?thesis by (cases "i = 0") auto
    qed
    moreover have "GetLinkBlock (fst c) = ew_block (fst c)"
      using assms(1) c(1) by (simp add: vb_ok_def GetLinkBlock_def strip_tmp_id)
    ultimately have "\<not> start_hidden vb q" using st q by (simp add: start_hidden_def first_block_def)
    then show False using assms(2) q st by (simp add: wanted_block_def)
  qed
  then show ?thesis by (simp add: filter_empty_conv)
qed

lemma chain_reads_alive:
  assumes "chain_wf ts c" "\<forall>vb \<in> set c. vb_ok vb" "c \<noteq> []" "q \<le> ts"
  shows "\<exists>ys. chain_reads Fine (Composite q INTRA_MAX) (Some c) = Inr ys \<and>
     map (ew_e \<circ> fst) ys = map fst (filter (alive_at q) (chain_ivs c))"
proof -
  let ?ys = "concat (map (block_reads Fine (Composite q INTRA_MAX)) (filter (wanted_block Fine q) c))"
  have "in_reach Fine q ts" using assms(4) by (simp add: in_reach_def)
  then have "chain_reads Fine (Composite q INTRA_MAX) (Some c) = Inr ?ys"
    using VBIterator_spec [OF assms(1,3), of Fine q]
    by (auto simp: chain_reads_def bind_res_Inr_iff)
  moreover have "map (ew_e \<circ> fst) ?ys = map fst (filter (alive_at q) (chain_ivs c))"
    using assms(2)
    by (induction c) (simp_all add: chain_ivs_def block_reads_alive unwanted_not_alive comp_def [symmetric])
  ultimately show ?thesis by blast
qed

lemma chain_after_end:
  assumes "chain_wf ts c" "\<not> q \<le> ts"
  shows "filter (alive_at q) (chain_ivs c) = []"
  using chain_wf_timestamps [OF assms(1)] assms(2)
  by (fastforce simp: filter_empty_conv chain_ivs_def vb_ivs_def alive_at_def)

lemma scan_pending_quiet: "nothing_pending v \<Longrightarrow> scan_pending Fine r v = []"
  by (simp add: scan_pending_def active_tvbs_def scan_tvb_def nothing_pending_def)

lemma live_cells_alive:
  assumes "\<forall>c \<in> set cs. ew_index (fst c) \<noteq> INTRA_MAX"
  shows "map (ew_e \<circ> fst) (filter (live_at Fine (Composite q INTRA_MAX)) cs) =
     map fst (filter (alive_at q) (map cell_iv (filter (\<lambda>c. \<not> is_delete (ew_e (fst c))) cs)))"
  using assms
  by (induction cs)
    (auto simp: live_at_def edge_visible_at_def IsVisibleAtComposite_def composite_less_INTRA_MAX alive_at_def
      cell_iv_def ckey_def entry_key_def strip_del_id GetIntraC_def)

lemma chain_part_alive:
  assumes "chain_wf (vbm_end_epoch (VBM v)) (vbm_end (VBM v))" "\<forall>vb \<in> set (vbm_end (VBM v)). vb_ok vb"
  shows "\<exists>ys. chain_reads Fine (Composite q INTRA_MAX)
      (if needs_iterator Fine (Composite q INTRA_MAX) v then Some (vbm_end (VBM v)) else None) = Inr ys \<and>
     map (ew_e \<circ> fst) ys = map fst (filter (alive_at q) (chain_ivs (vbm_end (VBM v))))"
proof (cases "needs_iterator Fine (Composite q INTRA_MAX) v")
  case True
  then show ?thesis using chain_reads_alive [OF assms, of q] by (simp add: needs_iterator_def)
next
  case False
  then have "filter (alive_at q) (chain_ivs (vbm_end (VBM v))) = []"
    using chain_after_end [OF assms(1)] by (auto simp: needs_iterator_def chain_ivs_def)
  with False show ?thesis by (simp add: chain_reads_def)
qed

lemma quiescent_reads:
  assumes "chain_wf (vbm_end_epoch (VBM v)) (vbm_end (VBM v))" "\<forall>vb \<in> set (vbm_end (VBM v)). vb_ok vb"
    and "nothing_pending v" "cells_settled v"
  shows "\<exists>xs. for_each_edge Fine (Composite q INTRA_MAX) v = Inr xs \<and>
     map ew_e xs = map fst (filter (alive_at q) (live_ivs v @ chain_ivs (vbm_end (VBM v))))"
proof -
  let ?r = "Composite q INTRA_MAX" and ?c = "vbm_end (VBM v)"
  let ?live = "filter (live_at Fine ?r) (tb_cells v) @ filter (live_at Fine ?r) (pa_cells v)"
  have live: "map (ew_e \<circ> fst) ?live = map fst (filter (alive_at q) (live_ivs v))"
    using live_cells_alive [of "tb_cells v @ pa_cells v" q] assms(4) by (simp add: live_ivs_def cells_settled_def)
  obtain ys where "chain_reads Fine ?r (if needs_iterator Fine ?r v then Some ?c else None) = Inr ys"
    "map (ew_e \<circ> fst) ys = map fst (filter (alive_at q) (chain_ivs ?c))"
    using chain_part_alive [OF assms(1,2)] by blast
  then show ?thesis using live assms(3)
    by (simp add: for_each_edge_def iterate_edges_def scan_pending_quiet del: map_map) (simp add: comp_def)
qed

end
