(* ===== verification/Vertex_Slots.thy ===== *)
theory Vertex_Slots
  imports Vertex_Snapshot
begin

text \<open>
  Cells addressed by slots: how the lookups find them and how writes to one cell act on the lists
  of cells and on well-formedness.
\<close>

fun slot_in :: "vertex_edges \<Rightarrow> slot \<Rightarrow> bool" where
  "slot_in v (Start i) = (i < edges_and_versions v)"
| "slot_in v (Tmp i) = (i < tmp_ev v)"

definition cell :: "vertex_edges \<Rightarrow> slot \<Rightarrow> ew_pair" where
  "cell v s = (item_e v s, item_p v s)"

definition all_cells :: "vertex_edges \<Rightarrow> ew_pair list" where
  "all_cells v = tb_cells v @ pa_cells v"

fun slot_pos :: "vertex_edges \<Rightarrow> slot \<Rightarrow> nat" where
  "slot_pos v (Tmp i) = i"
| "slot_pos v (Start i) = tmp_ev v + i"

definition set_cell :: "slot \<Rightarrow> ew_pair \<Rightarrow> vertex_edges \<Rightarrow> vertex_edges" where
  "set_cell s c v = set_item_p s (snd c) (set_item_e s (fst c) v)"

definition ve_shape :: "vertex_edges \<Rightarrow> bool" where
  "ve_shape v \<longleftrightarrow> length (ve_start v) = 2 * capacity v \<and> edges_and_versions v \<le> capacity v \<and>
     length (tmp_item v) = 2 * TMPNUM \<and> tmp_ev v \<le> TMPNUM"

lemma ve_wf_shape: "ve_wf v \<Longrightarrow> ve_shape v"
  by (simp add: ve_wf_def ve_shape_def)

lemma length_all_cells: "length (all_cells v) = tmp_ev v + edges_and_versions v"
  by (simp add: all_cells_def tb_cells_def pa_cells_def)

lemma slot_pos_less: "slot_in v s \<Longrightarrow> slot_pos v s < length (all_cells v)"
  by (cases s) (auto simp: length_all_cells)

lemma all_cells_slot: "slot_in v s \<Longrightarrow> all_cells v ! slot_pos v s = cell v s"
  by (cases s) (auto simp: all_cells_def tb_cells_def pa_cells_def nth_append cells_nth cell_def)

lemma cell_in_all: "slot_in v s \<Longrightarrow> cell v s \<in> set (all_cells v)"
  by (metis all_cells_slot slot_pos_less nth_mem)

lemma cell_from_all:
  assumes "c \<in> set (all_cells v)"
  shows "\<exists>s. slot_in v s \<and> cell v s = c"
proof -
  obtain i where i: "i < length (all_cells v)" "all_cells v ! i = c" using assms by (auto simp: in_set_conv_nth)
  define s where "s = (if i < tmp_ev v then Tmp i else Start (i - tmp_ev v))"
  have "slot_in v s" "slot_pos v s = i" using i by (auto simp: s_def length_all_cells)
  then show ?thesis using all_cells_slot [of v s] i by auto
qed

lemma ve_keys_all: "ve_keys v = ckey ` set (all_cells v)"
  by (auto simp: ve_keys_def all_cells_def)

lemma distinct_keys: "ve_wf v \<Longrightarrow> distinct (map ckey (all_cells v))"
  by (auto simp: ve_wf_def all_cells_def strict_sorted_iff)

lemma same_key_same_slot:
  assumes "ve_wf v" "slot_in v s" "slot_in v s'" "ckey (cell v s) = ckey (cell v s')"
  shows "slot_pos v s = slot_pos v s'"
proof -
  have "map ckey (all_cells v) ! slot_pos v s = map ckey (all_cells v) ! slot_pos v s'"
    using assms(2-4) by (simp add: slot_pos_less all_cells_slot)
  then show ?thesis
    using nth_eq_iff_index_eq [OF distinct_keys [OF assms(1)]] slot_pos_less assms(2,3) by simp
qed

section \<open>Writes to a cell\<close>

lemma cells_set_e: "i < n \<Longrightarrow> n \<le> cap \<Longrightarrow> length st = 2 * cap \<Longrightarrow>
   cells (st[i := e]) cap n = (cells st cap n)[i := (e, st ! (i + cap))]"
  by (rule nth_equalityI) (auto simp: cells_nth nth_list_update)

lemma cells_set_p: "i < n \<Longrightarrow> n \<le> cap \<Longrightarrow> length st = 2 * cap \<Longrightarrow>
   cells (st[i + cap := p]) cap n = (cells st cap n)[i := (st ! i, p)]"
  by (rule nth_equalityI) (auto simp: cells_nth nth_list_update)

lemma cells_set_both:
  "i < n \<Longrightarrow> n \<le> cap \<Longrightarrow> length st = 2 * cap \<Longrightarrow>
   cells (st[i := e, i + cap := p]) cap n = (cells st cap n)[i := (e, p)]"
  by (simp add: cells_set_e cells_set_p)

fun cells_with :: "slot \<Rightarrow> ew_pair \<Rightarrow> vertex_edges \<Rightarrow> ew_pair list \<times> ew_pair list" where
  "cells_with (Tmp i) c v = ((tb_cells v)[i := c], pa_cells v)"
| "cells_with (Start i) c v = (tb_cells v, (pa_cells v)[i := c])"

lemma set_cell_frame [simp]:
  "tmp_ev (set_cell s c v) = tmp_ev v" "edges_and_versions (set_cell s c v) = edges_and_versions v"
  "capacity (set_cell s c v) = capacity v" "ve_num (set_cell s c v) = ve_num v"
  "ve_M (set_cell s c v) = ve_M v" "VBM (set_cell s c v) = VBM v" "merge_times (set_cell s c v) = merge_times v"
  "edge_num (set_cell s c v) = edge_num v" "ve_locked (set_cell s c v) = ve_locked v"
  "ve_src (set_cell s c v) = ve_src v" "tvb_at (set_cell s c v) k = tvb_at v k"
  "slot_in (set_cell s c v) s' = slot_in v s'" "slot_pos (set_cell s c v) s' = slot_pos v s'"
  "ve_shape (set_cell s c v) = ve_shape v"
  by (cases s; cases s'; simp add: set_cell_def tvb_at_def ve_shape_def)+

lemma set_cell_cells:
  assumes "ve_shape v" "slot_in v s"
  shows "(tb_cells (set_cell s c v), pa_cells (set_cell s c v)) = cells_with s c v"
  using assms by (cases s) (auto simp: set_cell_def tb_cells_def pa_cells_def ve_shape_def cells_set_both)

lemma set_cell_all:
  assumes "ve_shape v" "slot_in v s"
  shows "all_cells (set_cell s c v) = (all_cells v)[slot_pos v s := c]"
  using set_cell_cells [OF assms, of c] assms(2)
  by (cases s) (auto simp: all_cells_def list_update_append tb_cells_def)

lemma cell_set_cell:
  assumes "ve_shape v" "slot_in v s"
  shows "cell (set_cell s c v) s = c"
  using set_cell_all [OF assms, of c] slot_pos_less [OF assms(2)] assms(2)
    all_cells_slot [of "set_cell s c v" s] by simp

lemma set_cell_set_cell: "ve_shape v \<Longrightarrow> slot_in v s \<Longrightarrow> set_cell s c' (set_cell s c v) = set_cell s c' v"
  by (cases s) (auto simp: set_cell_def ve_shape_def list_update_swap)

lemma list_update_other_id: "i \<noteq> j \<Longrightarrow> xs[i := x, j := xs ! j] = xs[i := x]"
  by (metis list_update_id nth_list_update_neq)

lemma set_item_e_cell: "ve_shape v \<Longrightarrow> slot_in v s \<Longrightarrow> set_item_e s x v = set_cell s (x, item_p v s) v"
  by (cases s) (auto simp: set_cell_def ve_shape_def TMPNUM_def list_update_other_id)

lemma set_item_p_cell: "ve_shape v \<Longrightarrow> slot_in v s \<Longrightarrow> set_item_p s x v = set_cell s (item_e v s, x) v"
  by (cases s) (auto simp: set_cell_def ve_shape_def)

lemma set_cell_wf:
  assumes "ve_wf v" "slot_in v s" "ckey c = ckey (cell v s)"
  shows "ve_wf (set_cell s c v)"
proof -
  have shape: "ve_shape v" using assms(1) by (rule ve_wf_shape)
  have keys: "map ckey (tb_cells (set_cell s c v)) = map ckey (tb_cells v)"
    "map ckey (pa_cells (set_cell s c v)) = map ckey (pa_cells v)"
    using set_cell_cells [OF shape assms(2), of c] assms(2,3)
    by (cases s; simp add: map_update cell_def tb_cells_def pa_cells_def cells_nth list_update_same_conv)+
  have sets: "ckey ` set (tb_cells (set_cell s c v)) = ckey ` set (tb_cells v)"
    "ckey ` set (pa_cells (set_cell s c v)) = ckey ` set (pa_cells v)"
    using keys by (metis list.set_map)+
  have "length (ve_start (set_cell s c v)) = length (ve_start v)"
    "length (tmp_item (set_cell s c v)) = length (tmp_item v)"
    by (cases s; simp add: set_cell_def)+
  then show ?thesis using assms(1) keys sets by (simp add: ve_wf_def ve_keys_def image_Un)
qed

lemma set_cell_mset:
  assumes "ve_shape v" "slot_in v s"
  shows "mset (all_cells (set_cell s c v)) = mset (all_cells v) - {#cell v s#} + {#c#}"
  using set_cell_all [OF assms, of c] slot_pos_less [OF assms(2)] all_cells_slot [OF assms(2)]
  by (simp add: mset_update)

section \<open>Lookups find what is there\<close>

definition search_safe :: "vertex_edges \<Rightarrow> dst_t \<Rightarrow> bool" where
  "search_safe v d \<longleftrightarrow> edges_and_versions v = 0 \<or> entry_key (ve_start v ! edges_and_versions v) \<noteq> d"

lemma pa_key_position:
  assumes "d \<in> ckey ` set (pa_cells v)"
  shows "\<exists>p < edges_and_versions v. entry_key (ve_start v ! p) = d"
  using assms by (auto simp: pa_cells_def cells_def ckey_def)

lemma pa_sorted_start:
  assumes "ve_wf v"
  shows "sorted_wrt (<) (map entry_key (take (edges_and_versions v) (ve_start v)))"
proof -
  have "edges_and_versions v \<le> length (ve_start v)" using assms by (simp add: ve_wf_def)
  then have "map entry_key (take (edges_and_versions v) (ve_start v)) = map ckey (pa_cells v)"
    by (intro nth_equalityI) (simp_all add: pa_cells_def ckey_def cells_nth)
  then show ?thesis using assms by (simp add: ve_wf_def)
qed

lemma bsearch_pa:
  assumes "ve_wf v" "d \<in> ckey ` set (pa_cells v)"
  shows "\<exists>p. bsearch (ve_start v) d 0 (int (edges_and_versions v)) = Inr (Some p) \<and> slot_in v (Start p) \<and>
     ckey (cell v (Start p)) = d"
proof -
  obtain p where p: "p < edges_and_versions v" "entry_key (ve_start v ! p) = d"
    using pa_key_position [OF assms(2)] by blast
  have "edges_and_versions v < length (ve_start v)" using p(1) assms(1) by (auto simp: ve_wf_def)
  from bsearch_present [OF pa_sorted_start [OF assms(1)] p(1) this p(2)] p show ?thesis
    by (auto simp: cell_def ckey_def)
qed

lemma get_edge_index2_finds:
  assumes "ve_wf v" "d \<in> ckey ` set (pa_cells v)"
  shows "\<exists>s. get_edge_index2 v d = Inr (Some s) \<and> slot_in v s \<and> ckey (cell v s) = d"
  using bsearch_pa [OF assms] by (auto simp: get_edge_index2_def)

lemma get_edge_index_finds:
  assumes wf: "ve_wf v" and d: "d \<in> ve_keys v" and safe: "d \<in> ckey ` set (pa_cells v) \<or> search_safe v d"
  shows "\<exists>s. get_edge_index v d = Inr (Some (s, offset_of s)) \<and> slot_in v s \<and> ckey (cell v s) = d"
proof (cases "d \<in> ckey ` set (pa_cells v)")
  case True
  then have "edges_and_versions v \<noteq> 0" by (cases "edges_and_versions v") (auto simp: pa_cells_def)
  then show ?thesis using bsearch_pa [OF wf True] by (auto simp: get_edge_index_def)
next
  case False
  let ?n = "edges_and_versions v"
  let ?P = "\<lambda>i. entry_key (tmp_item v ! i) = d"
  have search: "(if ?n \<noteq> 0 then bsearch (ve_start v) d 0 (int ?n) else Inr None) = Inr None"
  proof (cases "?n = 0")
    case n: False
    have "?n < length (ve_start v)" using n wf by (auto simp: ve_wf_def)
    moreover have "\<forall>i \<le> ?n. entry_key (ve_start v ! i) \<noteq> d"
    proof (intro allI impI)
      fix i assume "i \<le> ?n"
      show "entry_key (ve_start v ! i) \<noteq> d"
      proof (cases "i = ?n")
        case True with safe False n show ?thesis by (auto simp: search_safe_def)
      next
        case i: False
        then have "pa_cells v ! i \<in> set (pa_cells v)" "pa_cells v ! i = (ve_start v ! i, ve_start v ! (i + capacity v))"
          using \<open>i \<le> ?n\<close> nth_mem [of i "pa_cells v"] by (simp_all add: pa_cells_def cells_nth)
        then have "ckey (pa_cells v ! i) \<noteq> d" using False by blast
        then show ?thesis using \<open>pa_cells v ! i = _\<close> by (simp add: ckey_def)
      qed
    qed
    ultimately show ?thesis using n by (simp add: bsearch_absent)
  qed simp
  have "d \<in> ckey ` set (tb_cells v)" using d False by (auto simp: ve_keys_def)
  then have "\<exists>i \<in> set [0..<tmp_ev v]. ?P i" by (auto simp: tb_cells_def cells_def ckey_def)
  then obtain i where i: "find ?P [0..<tmp_ev v] = Some i"
    by (cases "find ?P [0..<tmp_ev v]") (auto simp: find_None_iff)
  then have "i < tmp_ev v" "?P i" by (auto simp: find_Some_iff)
  then show ?thesis using search i by (auto simp: get_edge_index_def cell_def ckey_def intro!: exI [of _ "Tmp i"])
qed

end
