(* ===== verification/Vertex_Pending.thy ===== *)
theory Vertex_Pending
  imports Vertex_Slots
begin

text \<open>
  The vertex while writers of one epoch are at work: the invariant \<open>pend_inv\<close> ties the pending marks of
  the cells to the entries of the epoch's temporary version block, and every insertion and
  deletion of an edge keeps it and changes the version intervals as the specification says.
\<close>

lemma slot_of_offset_of:
  "slot_of_offset (offset_of (Start i)) = Start i" if "i < 2 ^ 31"
  using that by (simp add: slot_of_offset_def has_tmp_threshold unat_of_nat take_bit_nat_eq_self)

lemma slot_of_offset_of_tmp:
  assumes "i < 2 ^ 31"
  shows "slot_of_offset (offset_of (Tmp i)) = Tmp i"
proof -
  have "unat (word_of_nat i :: 32 word) = i" using assms by (simp add: unat_of_nat take_bit_nat_eq_self)
  then have "strip_tmp (word_of_nat i) = word_of_nat i" using assms by (simp add: strip_tmp_id has_tmp_threshold)
  then show ?thesis using assms by (simp add: slot_of_offset_def unat_of_nat take_bit_nat_eq_self)
qed

lemma slot_offset_roundtrip:
  assumes "slot_in v s" "tmp_ev v + edges_and_versions v < 2 ^ 31"
  shows "slot_of_offset (offset_of s) = s"
  using assms slot_of_offset_of slot_of_offset_of_tmp by (cases s) auto

section \<open>The invariant\<close>

definition cell_ok :: "epoch_t \<Rightarrow> tmp_version_block \<Rightarrow> ew_pair \<Rightarrow> bool" where
  "cell_ok E t c \<longleftrightarrow>
     ew_index (fst c) \<noteq> INTRA_MAX \<and> GetCoarseC (fst c) \<noteq> 0 \<and> GetCoarseC (fst c) \<le> E \<and>
     (has_tmp (ew_block (fst c)) \<longrightarrow>
        GetCoarseC (fst c) = E \<and>
        (\<exists>x \<in> set (tvb_live t). strip_del (ent_edge x) = ckey c \<and> (ent_last_epoch x \<noteq> 0 \<or> \<not> HasNextVB (ent_link x))) \<and>
        (\<not> is_delete (ew_e (fst c)) \<longrightarrow>
           unat (ew_block (snd c)) < length (tvb_live t) \<and>
           strip_del (ent_edge (tvb_live t ! unat (ew_block (snd c)))) = ckey c))"

definition entry_placed :: "vertex_edges \<Rightarrow> version_entry \<Rightarrow> bool" where
  "entry_placed v x \<longleftrightarrow>
     unat (ent_merge_times x) \<le> unat (merge_times v) \<and>
     (if ent_merge_times x = merge_times v
      then slot_in v (slot_of_offset (ent_offset x)) \<and> ckey (cell v (slot_of_offset (ent_offset x))) = strip_del (ent_edge x)
      else strip_del (ent_edge x) \<in> ckey ` set (pa_cells v))"

definition entry_ok :: "epoch_t \<Rightarrow> nat \<Rightarrow> version_entry \<Rightarrow> bool" where
  "entry_ok E n x \<longleftrightarrow>
     ent_last_epoch x \<le> E \<and> ent_new_intra_c x \<noteq> INTRA_MAX \<and> ent_old_intra_c x \<noteq> INTRA_MAX \<and>
     (ent_last_epoch x = 0 \<longrightarrow> \<not> is_delete (ent_edge x) \<and>
        (HasNextVB (ent_link x) \<longrightarrow> strip_tmp (link_block (ent_link x)) = E \<and> unat (link_index (ent_link x)) < n))"

definition marked_keys :: "ew_pair multiset \<Rightarrow> dst_t set" where
  "marked_keys R = ckey ` {c. c \<in># R \<and> has_tmp (ew_block (fst c))}"

definition published_ok :: "epoch_t \<Rightarrow> vertex_edges \<Rightarrow> bool" where
  "published_ok E v \<longleftrightarrow> vbm_ok (VBM v) \<and> (\<forall>vb \<in> set (vbm_end (VBM v)). vb_ok vb) \<and>
     vbm_end_epoch (VBM v) < E \<and> \<not> has_tmp E"

definition tvbs_ok :: "epoch_t \<Rightarrow> nat \<Rightarrow> vertex_edges \<Rightarrow> bool" where
  "tvbs_ok E N v \<longleftrightarrow> length (vbm_tvb_array (VBM v)) = MAXSIMULBATCH \<and>
     (\<forall>j < MAXSIMULBATCH. j \<noteq> ring_slot E \<longrightarrow> tvb_ok (tvb_at v j) \<and> tmp_entry (tvb_at v j) = []) \<and>
     (let t = tvb_at v (ring_slot E) in
        tvb_ok t \<and> (version_num t = 0 \<longrightarrow> tmp_entry t = []) \<and> (tmp_entry t \<noteq> [] \<longrightarrow> tvb_timestamp t = E) \<and>
        version_num t \<le> N \<and> (\<forall>x \<in> set (tvb_live t). entry_ok E (version_num t) x))"

definition pend_inv :: "epoch_t \<Rightarrow> nat \<Rightarrow> vertex_edges \<Rightarrow> bool" where
  "pend_inv E N v \<longleftrightarrow>
     ve_wf v \<and> published_ok E v \<and> tvbs_ok E N v \<and>
     (\<forall>c \<in> set (all_cells v). cell_ok E (tvb_at v (ring_slot E)) c) \<and>
     (\<forall>x \<in> set (tvb_live (tvb_at v (ring_slot E))).
        entry_placed v x \<and> strip_del (ent_edge x) \<in> marked_keys (mset (all_cells v))) \<and>
     ve_num v \<le> N \<and> unat (merge_times v) \<le> N"

definition intervals :: "epoch_t \<Rightarrow> vertex_edges \<Rightarrow> interval multiset" where
  "intervals E v = mset (live_ivs v) + mset (chain_ivs (vbm_end (VBM v))) + mset (tvb_ivs (tvb_at v (ring_slot E)))"

definition cells_ivs :: "ew_pair multiset \<Rightarrow> interval multiset" where
  "cells_ivs R = image_mset cell_iv (filter_mset (\<lambda>c. \<not> is_delete (ew_e (fst c))) R)"

lemma live_ivs_cells: "mset (live_ivs v) = cells_ivs (mset (all_cells v))"
  by (simp add: live_ivs_def cells_ivs_def all_cells_def)

lemma ring_slot_less [simp]: "ring_slot E < MAXSIMULBATCH"
proof -
  have "E AND MODPM = take_bit 4 E" by (simp add: MODPM_def take_bit_eq_mask mask_eq_exp_minus_1)
  then have "ring_slot E = take_bit 4 (unat E)" by (simp add: ring_slot_def unsigned_take_bit_eq)
  then show ?thesis using take_bit_nat_less_exp [of 4 "unat E"] by (simp add: MAXSIMULBATCH_def)
qed

lemma ring_slot_strip [simp]: "ring_slot (strip_tmp b) = ring_slot b"
proof -
  have "strip_tmp b AND MODPM = b AND MODPM"
    by (rule bit_word_eqI) (auto simp: bit_strip_tmp bit_and_iff MODPM_def bit_numeral_rec split: nat.splits)
  then show ?thesis by (simp add: ring_slot_def)
qed

section \<open>Merging keeps it\<close>

lemma kept_marked:
  "\<not> has_tmp oldest \<Longrightarrow> c \<in> set cs \<Longrightarrow> has_tmp (ew_block (fst c)) \<Longrightarrow> c \<in> set (kept oldest cs)"
  by (auto simp: kept_def droppable_def dest: has_tmp_above)

lemma merge_pend_inv:
  assumes inva: "pend_inv E N v" and full: "tmp_ev v = TMPNUM" and oldest: "\<not> has_tmp oldest" and N: "N < 2 ^ 31"
  shows "\<exists>v'. merge_tmpev_with_eb junk oldest v = Inr v' \<and> pend_inv E (N + 1) v' \<and> tmp_ev v' = 0 \<and>
     VBM v' = VBM v \<and> edge_num v' = edge_num v \<and> ve_locked v' = ve_locked v \<and>
     intervals E v' = intervals E v"
proof -
  have wf: "ve_wf v" using inva by (simp add: pend_inv_def)
  obtain v' where v': "merge_tmpev_with_eb junk oldest v = Inr v'" "ve_wf v'" "tmp_ev v' = 0"
    "mset (pa_cells v') = mset (kept oldest (pa_cells v)) + mset (tb_cells v)" "VBM v' = VBM v"
    "edge_num v' = edge_num v" "ve_locked v' = ve_locked v" "merge_times v' = merge_times v + 1"
    using merge_correct [OF wf full, of junk oldest] by blast
  let ?t = "tvb_at v (ring_slot E)"
  have t: "tvb_at v' k = tvb_at v k" for k using v'(5) by (simp add: tvb_at_def)
  have all: "all_cells v' = pa_cells v'" using v'(3) by (simp add: all_cells_def tb_cells_def)
  have cells: "mset (all_cells v') = mset (kept oldest (pa_cells v)) + mset (tb_cells v)" using v'(4) all by simp
  have set_cells: "set (all_cells v') = set (kept oldest (pa_cells v)) \<union> set (tb_cells v)"
    using arg_cong [OF cells, of set_mset] by simp
  have sub: "c \<in> set (all_cells v)" if "c \<in> set (all_cells v')" for c
    using that set_cells by (auto simp: all_cells_def kept_def)
  have sup: "c \<in> set (all_cells v')" if "c \<in> set (all_cells v)" "has_tmp (ew_block (fst c))" for c
    using that kept_marked [OF oldest, of c] unfolding set_cells by (auto simp: all_cells_def simp del: split_paired_All)
  have mt: "unat (merge_times v') = unat (merge_times v) + 1"
    using inva N v'(8) by (simp add: pend_inv_def unat_word_ariths(1))
  have marked: "marked_keys (mset (all_cells v)) \<subseteq> marked_keys (mset (all_cells v'))"
    using sup by (auto simp: marked_keys_def)
  have "entry_placed v' x" if "x \<in> set (tvb_live ?t)" for x
  proof -
    have x: "entry_placed v x" "strip_del (ent_edge x) \<in> marked_keys (mset (all_cells v))"
      using inva that by (auto simp: pend_inv_def)
    have "unat (ent_merge_times x) \<noteq> unat (merge_times v')" using x(1) mt by (simp add: entry_placed_def)
    then have "ent_merge_times x \<noteq> merge_times v'" by auto
    moreover have "strip_del (ent_edge x) \<in> ckey ` set (pa_cells v')"
      using x(2) marked all by (auto simp: marked_keys_def)
    ultimately show ?thesis using x(1) mt by (simp add: entry_placed_def)
  qed
  moreover have "ve_num v' \<le> ve_num v"
  proof -
    have "length (pa_cells v') = length (kept oldest (pa_cells v)) + length (tb_cells v)"
      using arg_cong [OF v'(4), of size] by simp
    also have "\<dots> \<le> length (pa_cells v) + length (tb_cells v)" by (simp add: kept_def)
    finally show ?thesis using wf v'(2,3) by (simp add: ve_wf_def pa_cells_def tb_cells_def)
  qed
  ultimately have "pend_inv E (N + 1) v'"
    using inva v'(2,5) t sub marked mt
    by (auto simp: pend_inv_def published_ok_def tvbs_ok_def Let_def)
  moreover have "cells_ivs (mset (all_cells v')) = cells_ivs (mset (all_cells v))"
  proof -
    have "filter (\<lambda>c. \<not> is_delete (ew_e (fst c))) (kept oldest (pa_cells v)) = filter (\<lambda>c. \<not> is_delete (ew_e (fst c))) (pa_cells v)"
      by (auto simp: kept_def droppable_def intro: filter_cong)
    then show ?thesis unfolding cells by (simp add: cells_ivs_def all_cells_def mset_filter [symmetric] del: mset_filter)
  qed
  ultimately show ?thesis using v' t by (auto simp: intervals_def live_ivs_cells)
qed

section \<open>Locating the edge\<close>

text \<open>
  \<open>located\<close>: slot \<open>s\<close> of \<open>v2\<close> holds the edge \<open>d\<close>, \<open>R\<close> are the other cells, which are cells of \<open>v1\<close>
  too, and \<open>c0\<close> is the edge's cell in \<open>v1\<close> unless it is new.
\<close>

definition located :: "vertex_edges \<Rightarrow> vertex_edges \<Rightarrow> slot \<Rightarrow> dst_t \<Rightarrow> ew_pair multiset \<Rightarrow> ew_pair option \<Rightarrow> bool" where
  "located v1 v2 s d R c0 \<longleftrightarrow>
     ve_wf v2 \<and> slot_in v2 s \<and> ckey (cell v2 s) = d \<and> VBM v2 = VBM v1 \<and> merge_times v2 = merge_times v1 \<and>
     edge_num v2 = edge_num v1 \<and> ve_locked v2 = ve_locked v1 \<and> ve_num v2 \<le> ve_num v1 + 1 \<and>
     mset (all_cells v2) = add_mset (cell v2 s) R \<and>
     mset (all_cells v1) = (case c0 of None \<Rightarrow> R | Some c \<Rightarrow> add_mset c R) \<and>
     (\<forall>c. c0 = Some c \<longrightarrow> ckey c = d) \<and>
     (\<forall>sl. slot_in v1 sl \<longrightarrow> slot_in v2 sl \<and> ckey (cell v2 sl) = ckey (cell v1 sl)) \<and>
     ckey ` set (pa_cells v1) \<subseteq> ckey ` set (pa_cells v2)"

lemma add_new_located:
  assumes wf: "ve_wf v" and d: "d \<notin> ve_keys v" "\<not> is_delete d" and room: "tmp_ev v < TMPNUM"
  shows "\<exists>v2. locate_or_add d w v = Inr (v2, Tmp (tmp_ev v), False) \<and>
     located v v2 (Tmp (tmp_ev v)) d (mset (all_cells v)) None \<and>
     item_e v2 (Tmp (tmp_ev v)) = \<lparr>ew_e = d, ew_block = 0, ew_index = 0\<rparr>"
proof -
  let ?t = "tmp_ev v"
  let ?x = "ew_clear ((tmp_item v ! ?t)\<lparr>ew_e := d\<rparr>)" and ?p = "(tmp_item v ! (?t + TMPNUM))\<lparr>ew_e := w\<rparr>"
  have key: "strip_del d = d" "nonempty d"
  proof -
    show "strip_del d = d" using d(2) by (rule strip_del_id)
    show "nonempty d" using d(2) by (auto simp: is_delete_bit FLAG_EMPTY_SLOT_def)
  qed
  have M: "ht2_ok (ve_M v)" "ht2_keys (ve_M v) = ve_keys v" using wf by (auto simp: ve_wf_def)
  then obtain M' where M': "setDestHashTableVal2 (ve_M v) d = Some M'" "ht2_ok M'" "ht2_keys M' = insert d (ve_keys v)"
    using ht2.put_law [of "ve_M v" d] key d by auto
  have get: "getDestHashTableVal2 (ve_M v) d = Some False" using ht2.get_law [of "ve_M v" d] M key d by simp
  define v2 where "v2 = v\<lparr>tmp_item := (tmp_item v)[?t + TMPNUM := ?p, ?t := ?x], tmp_ev := Suc ?t,
     ve_num := Suc (ve_num v), ve_M := M'\<rparr>"
  have len: "length (tmp_item v) = 2 * TMPNUM" using wf by (simp add: ve_wf_def)
  have run: "locate_or_add d w v = Inr (v2, Tmp ?t, False)"
    using get M' room len by (simp add: locate_or_add_def Let_def v2_def)
  have x: "?x = \<lparr>ew_e = d, ew_block = 0, ew_index = 0\<rparr>" by (simp add: ew_clear_def)
  have tb: "tb_cells v2 = tb_cells v @ [(?x, ?p)]"
    using cells_put [of ?t TMPNUM "tmp_item v" ?p ?x] room len by (simp add: tb_cells_def v2_def)
  have pa: "pa_cells v2 = pa_cells v" by (simp add: pa_cells_def v2_def)
  have keys: "ckey (?x, ?p) = d" using key by (simp add: ckey_def entry_key_def ew_clear_def)
  have fields: "length (ve_start v2) = length (ve_start v)" "capacity v2 = capacity v"
    "edges_and_versions v2 = edges_and_versions v" "length (tmp_item v2) = length (tmp_item v)"
    "tmp_ev v2 = Suc (tmp_ev v)" "ve_M v2 = M'" "ve_num v2 = Suc (ve_num v)" "VBM v2 = VBM v"
    "merge_times v2 = merge_times v" "edge_num v2 = edge_num v" "ve_locked v2 = ve_locked v"
    by (simp_all add: v2_def)
  have "ve_keys v2 = insert d (ve_keys v)" unfolding ve_keys_def tb pa using keys by simp
  moreover have "d \<notin> ckey ` set (tb_cells v)" "d \<notin> ckey ` set (pa_cells v)" using d by (auto simp: ve_keys_def)
  ultimately have wf': "ve_wf v2"
    using wf M' room keys unfolding ve_wf_def fields tb pa by simp
  have new: "cell v2 (Tmp ?t) = (?x, ?p)" using room len by (simp add: cell_def v2_def TMPNUM_def)
  have old: "cell v2 sl = cell v sl" if "slot_in v sl" for sl
    using that room len by (cases sl) (auto simp: cell_def v2_def TMPNUM_def nth_list_update)
  have "slot_in v2 sl" if "slot_in v sl" for sl using that by (cases sl) (auto simp: v2_def)
  then have "located v v2 (Tmp ?t) d (mset (all_cells v)) None"
    unfolding located_def fields all_cells_def tb pa using wf' keys new old by (auto simp: fields)
  moreover have "item_e v2 (Tmp ?t) = \<lparr>ew_e = d, ew_block = 0, ew_index = 0\<rparr>"
    using x new by (simp add: cell_def)
  ultimately show ?thesis using run by blast
qed

lemma located_set_cell:
  assumes wf: "ve_wf v" and s: "slot_in v s" "ckey (cell v s) = d" and c: "ckey c = d"
  shows "located v (set_cell s c v) s d (mset (all_cells v) - {#cell v s#}) (Some (cell v s))"
proof -
  note shape = ve_wf_shape [OF wf]
  have "ckey (cell (set_cell s c v) sl) = ckey (cell v sl)" if "slot_in v sl" for sl
  proof -
    have "cell (set_cell s c v) sl = all_cells (set_cell s c v) ! slot_pos v sl"
      using all_cells_slot [of "set_cell s c v" sl] that by simp
    also have "\<dots> = (if slot_pos v sl = slot_pos v s then c else cell v sl)"
      using set_cell_all [OF shape s(1)] slot_pos_less [OF that] slot_pos_less [OF s(1)] all_cells_slot [OF that]
      by (simp add: nth_list_update)
    finally show ?thesis using all_cells_slot [OF that] all_cells_slot [OF s(1)] s c by (auto split: if_splits)
  qed
  moreover have "ckey ` set (pa_cells (set_cell s c v)) = ckey ` set (pa_cells v)"
  proof -
    have "map ckey (pa_cells (set_cell s c v)) = map ckey (pa_cells v)"
      using set_cell_cells [OF shape s(1), of c] s c
      by (cases s; simp add: map_update cell_def pa_cells_def cells_nth list_update_same_conv)
    then show ?thesis by (metis list.set_map)
  qed
  moreover have "cell v s \<in># mset (all_cells v)" using cell_in_all [OF s(1)] by simp
  ultimately show ?thesis
    using set_cell_wf [OF wf s(1), of c] s c cell_set_cell [OF shape s(1)] set_cell_mset [OF shape s(1), of c]
    by (simp add: located_def)
qed

lemma locate_existing:
  assumes wf: "ve_wf v" and d: "d \<in> ve_keys v" "\<not> is_delete d"
    and safe: "d \<in> ckey ` set (pa_cells v) \<or> search_safe v d"
  shows "\<exists>s. locate_or_add d w v =
       Inr (set_cell s ((item_e v s)\<lparr>ew_e := d\<rparr>, item_p v s) v, s, is_delete (ew_e (item_e v s))) \<and>
     slot_in v s \<and> ckey (cell v s) = d \<and> get_edge_index v d = Inr (Some (s, offset_of s)) \<and>
     located v (set_cell s ((item_e v s)\<lparr>ew_e := d\<rparr>, item_p v s) v) s d (mset (all_cells v) - {#cell v s#}) (Some (cell v s))"
proof -
  obtain s where s: "get_edge_index v d = Inr (Some (s, offset_of s))" "slot_in v s" "ckey (cell v s) = d"
    using get_edge_index_finds [OF wf d(1) safe] by blast
  have "nonempty d" using d(2) by (auto simp: is_delete_bit FLAG_EMPTY_SLOT_def)
  then have get: "getDestHashTableVal2 (ve_M v) d = Some True"
    using ht2.get_law [of "ve_M v" d] wf d by (simp add: ve_wf_def)
  have e: "strip_del (ew_e (item_e v s)) = d" using s(3) by (simp add: cell_def ckey_def entry_key_def)
  have "ckey ((item_e v s)\<lparr>ew_e := d\<rparr>, item_p v s) = d"
    using d(2) by (simp add: ckey_def entry_key_def strip_del_id)
  from located_set_cell [OF wf s(2,3) this] show ?thesis
    using s get e set_item_e_cell [OF ve_wf_shape [OF wf] s(2)]
    by (auto simp: locate_or_add_def Let_def)
qed

section \<open>Recording the old version\<close>

lemma VBM_frame [simp]:
  "pa_cells (v\<lparr>VBM := m\<rparr>) = pa_cells v" "tb_cells (v\<lparr>VBM := m\<rparr>) = tb_cells v"
  "all_cells (v\<lparr>VBM := m\<rparr>) = all_cells v" "ve_wf (v\<lparr>VBM := m\<rparr>) = ve_wf v" "ve_shape (v\<lparr>VBM := m\<rparr>) = ve_shape v"
  "item_e (v\<lparr>VBM := m\<rparr>) s = item_e v s" "item_p (v\<lparr>VBM := m\<rparr>) s = item_p v s" "cell (v\<lparr>VBM := m\<rparr>) s = cell v s"
  "slot_in (v\<lparr>VBM := m\<rparr>) s = slot_in v s" "entry_placed (v\<lparr>VBM := m\<rparr>) x = entry_placed v x"
proof -
  show cells: "pa_cells (v\<lparr>VBM := m\<rparr>) = pa_cells v" "tb_cells (v\<lparr>VBM := m\<rparr>) = tb_cells v"
    by (simp_all add: pa_cells_def tb_cells_def)
  show "all_cells (v\<lparr>VBM := m\<rparr>) = all_cells v" "ve_shape (v\<lparr>VBM := m\<rparr>) = ve_shape v"
    by (simp_all add: all_cells_def cells ve_shape_def)
  show "ve_wf (v\<lparr>VBM := m\<rparr>) = ve_wf v" by (simp add: ve_wf_def ve_keys_def cells)
  show items: "item_e (v\<lparr>VBM := m\<rparr>) s = item_e v s" "item_p (v\<lparr>VBM := m\<rparr>) s = item_p v s" for s
    by (cases s; simp)+
  show "cell (v\<lparr>VBM := m\<rparr>) s = cell v s" "slot_in (v\<lparr>VBM := m\<rparr>) s = slot_in v s" for s
    by (simp add: cell_def items) (cases s; simp)
  then show "entry_placed (v\<lparr>VBM := m\<rparr>) x = entry_placed v x" by (simp add: entry_placed_def cells)
qed

lemma set_tvb_frame [simp]:
  "pa_cells (set_tvb k t v) = pa_cells v" "tb_cells (set_tvb k t v) = tb_cells v"
  "all_cells (set_tvb k t v) = all_cells v" "ve_wf (set_tvb k t v) = ve_wf v" "ve_shape (set_tvb k t v) = ve_shape v"
  "item_e (set_tvb k t v) s = item_e v s" "item_p (set_tvb k t v) s = item_p v s" "cell (set_tvb k t v) s = cell v s"
  "slot_in (set_tvb k t v) s = slot_in v s" "entry_placed (set_tvb k t v) x = entry_placed v x"
  "merge_times (set_tvb k t v) = merge_times v" "ve_num (set_tvb k t v) = ve_num v"
  "edge_num (set_tvb k t v) = edge_num v" "ve_locked (set_tvb k t v) = ve_locked v"
  "vbm_end (VBM (set_tvb k t v)) = vbm_end (VBM v)" "vbm_end_epoch (VBM (set_tvb k t v)) = vbm_end_epoch (VBM v)"
  "vbm_index (VBM (set_tvb k t v)) = vbm_index (VBM v)"
  "length (vbm_tvb_array (VBM (set_tvb k t v))) = length (vbm_tvb_array (VBM v))"
  "published_ok E (set_tvb k t v) = published_ok E v"
  by (simp_all add: set_tvb_def published_ok_def vbm_ok_def)

lemma tvb_at_set_tvb:
  "k < length (vbm_tvb_array (VBM v)) \<Longrightarrow> tvb_at (set_tvb k t v) j = (if j = k then t else tvb_at v j)"
  by (simp add: tvb_at_def set_tvb_def nth_list_update)

lemma set_tvb_set_tvb [simp]: "set_tvb k t' (set_tvb k t v) = set_tvb k t' v"
  by (simp add: set_tvb_def)

definition recorded_entry :: "dst_t \<times> weight_t \<Rightarrow> slot \<Rightarrow> epoch_t \<Rightarrow> intra_t \<Rightarrow> intra_t \<Rightarrow> 32 word \<Rightarrow> version_entry \<Rightarrow> bool" where
  "recorded_entry e s le oi ni mt x \<longleftrightarrow>
     ent_edge x = fst e \<and> ent_weight x = snd e \<and> ent_offset x = offset_of s \<and> ent_merge_times x = mt \<and>
     ent_last_epoch x = le \<and> ent_old_intra_c x = oi \<and> ent_new_intra_c x = ni \<and> link_block (ent_link x) = le"

text \<open>\<open>relinked\<close>: the entries kept their fields, except that entry \<open>j\<close>, if there is one, has a new link.\<close>

definition relinked :: "nat option \<Rightarrow> version_entry list \<Rightarrow> version_entry list \<Rightarrow> bool" where
  "relinked j xs ys \<longleftrightarrow> length ys = length xs \<and>
     (\<forall>i < length xs. (j \<noteq> Some i \<longrightarrow> ys ! i = xs ! i) \<and> (\<exists>l. ys ! i = (xs ! i)\<lparr>ent_link := l\<rparr>))"

lemma same_link [simp]: "\<exists>l. x = x\<lparr>ent_link := l\<rparr>"
  by (rule exI [of _ "ent_link x"]) simp

lemma relinked_refl [simp]: "relinked j xs xs"
  by (simp add: relinked_def)

lemma relinked_fields:
  assumes "relinked j xs ys" "i < length xs"
  shows "ent_edge (ys ! i) = ent_edge (xs ! i)" "ent_last_epoch (ys ! i) = ent_last_epoch (xs ! i)"
    "ent_old_intra_c (ys ! i) = ent_old_intra_c (xs ! i)" "ent_new_intra_c (ys ! i) = ent_new_intra_c (xs ! i)"
    "ent_offset (ys ! i) = ent_offset (xs ! i)" "ent_merge_times (ys ! i) = ent_merge_times (xs ! i)"
proof -
  obtain l where "ys ! i = (xs ! i)\<lparr>ent_link := l\<rparr>" using assms by (auto simp: relinked_def)
  then show "ent_edge (ys ! i) = ent_edge (xs ! i)" "ent_last_epoch (ys ! i) = ent_last_epoch (xs ! i)"
    "ent_old_intra_c (ys ! i) = ent_old_intra_c (xs ! i)" "ent_new_intra_c (ys ! i) = ent_new_intra_c (xs ! i)"
    "ent_offset (ys ! i) = ent_offset (xs ! i)" "ent_merge_times (ys ! i) = ent_merge_times (xs ! i)" by simp_all
qed

lemma entry_ok_mono: "entry_ok E n x \<Longrightarrow> n \<le> m \<Longrightarrow> entry_ok E m x"
  by (auto simp: entry_ok_def)

lemma entry_ok_relink:
  assumes "entry_ok E n x" "\<not> has_tmp E" "unat ix < m"
  shows "entry_ok E m (x\<lparr>ent_link := (ent_link x)\<lparr>link_block := link_block (ent_link x) OR E, link_index := ix\<rparr>\<rparr>)"
proof -
  have "strip_tmp (link_block (ent_link x) OR E) = E" if "ent_last_epoch x = 0"
  proof -
    have "strip_tmp (link_block (ent_link x)) = 0 \<or> strip_tmp (link_block (ent_link x)) = E"
      using assms(1) that by (auto simp: entry_ok_def HasNextVB_def)
    then show ?thesis using assms(2) by (auto simp: strip_tmp_or strip_tmp_id)
  qed
  then show ?thesis using assms by (auto simp: entry_ok_def)
qed

lemma record_version_spec:
  assumes tv: "tvbs_ok E N v" and N: "N < 2 ^ 31" and E: "\<not> has_tmp E"
    and ts: "tvb_timestamp (tvb_at v (ring_slot E)) = E"
    and old: "le \<le> E" "is_tmp \<and> le \<noteq> 0 \<Longrightarrow> le = E \<and> unat li < length (tvb_live (tvb_at v (ring_slot E)))"
    and del: "le = 0 \<Longrightarrow> \<not> is_delete (fst e)" and oi: "oi \<noteq> INTRA_MAX"
    and gi: "get_intra_c txn d = (intra, txn', d')" "intra \<noteq> INTRA_MAX"
  shows "\<exists>t' ys x. record_version e E s is_tmp (le, li, oi) txn v d =
       Inr (set_tvb (ring_slot E) t' v, length ys, intra, txn', d') \<and>
     tvbs_ok E (N + 1) (set_tvb (ring_slot E) t' v) \<and> tvb_timestamp t' = E \<and> tvb_live t' = ys @ [x] \<and>
     relinked (if is_tmp \<and> le \<noteq> 0 then Some (unat li) else None) (tvb_live (tvb_at v (ring_slot E))) ys \<and>
     recorded_entry e s le oi intra (merge_times v) x"
proof -
  let ?k = "ring_slot E" and ?t = "tvb_at v (ring_slot E)"
  have len: "?k < length (vbm_tvb_array (VBM v))" using tv by (simp add: tvbs_ok_def)
  have t: "tvb_ok ?t" "version_num ?t \<le> N" "\<forall>x \<in> set (tvb_live ?t). entry_ok E (version_num ?t) x"
    using tv by (auto simp: tvbs_ok_def Let_def)
  note live_len = length_tvb_live [OF t(1)]
  obtain t1 idx where iv: "InsertVersion ?t e le li (push_bit 32 (ucast le) OR ucast li) (tx_addr txn) (tx_write_only txn)
      (offset_of s) (merge_times v) le oi intra = (t1, idx)" by (metis surj_pair)
  note spec = InsertVersion_spec [OF t(1) iv]
  obtain x where t1: "tvb_live t1 = tvb_live ?t @ [x]" "recorded_entry e s le oi intra (merge_times v) x"
    using spec(5) by (simp add: recorded_entry_def)
  have x_ok: "entry_ok E (Suc (version_num ?t)) x"
    using t1(2) old(1) gi(2) del oi by (auto simp: recorded_entry_def entry_ok_def HasNextVB_def)
  have olds_ok: "\<forall>y \<in> set (tvb_live ?t). entry_ok E (Suc (version_num ?t)) y"
    using t(3) entry_ok_mono [of E "version_num ?t"] by auto
  have tv_intro: "tvbs_ok E (N + 1) (set_tvb ?k t' v)"
    if "tvb_ok t'" "version_num t' = Suc (version_num ?t)" "tvb_timestamp t' = E"
      "\<forall>y \<in> set (tvb_live t'). entry_ok E (Suc (version_num ?t)) y" for t'
    using tv that len t(2) by (simp add: tvbs_ok_def tvb_at_set_tvb)
  show ?thesis
  proof (cases "is_tmp \<and> le \<noteq> 0")
    case False
    have "record_version e E s is_tmp (le, li, oi) txn v d =
        Inr (set_tvb ?k t1 v, length (tvb_live ?t), intra, txn', d')"
      using False gi(1) iv spec(2) live_len by (auto simp: record_version_def Let_def)
    moreover have "tvbs_ok E (N + 1) (set_tvb ?k t1 v)"
      using spec ts x_ok olds_ok t1(1) by (intro tv_intro) auto
    moreover have "relinked None (tvb_live ?t) (tvb_live ?t)"
      by simp
    moreover have "tvb_timestamp t1 = E" using ts spec(3) by simp
    ultimately show ?thesis using t1 False
      by (intro exI [of _ t1] exI [of _ "tvb_live ?t"] exI [of _ x]) simp
  next
    case True
    let ?i = "unat li"
    have le: "le = E" and i: "?i < version_num ?t" using old(2) True live_len by auto
    let ?y = "tmp_entry t1 ! ?i"
    have ok1: "tvb_ok t1" by (rule spec(1))
    then have in_arr: "?i < length (tmp_entry t1)" "tmp_entry t1 \<noteq> []" using i spec(4) by (auto simp: tvb_ok_def)
    define t2 where "t2 = t1\<lparr>tmp_entry := (tmp_entry t1)[?i := ?y\<lparr>ent_link := (ent_link ?y)\<lparr>link_block := link_block (ent_link ?y) OR E,
      link_index := word_of_nat idx\<rparr>\<rparr>]\<rparr>"
    have change: "ChangeNextIndex t1 ?i E (word_of_nat idx) = Inr t2"
      using in_arr by (auto simp: ChangeNextIndex_def t2_def Let_def)
    note spec2 = ChangeNextIndex_spec [OF ok1 change]
    let ?ys = "(tvb_live ?t)[?i := ?y\<lparr>ent_link := (ent_link ?y)\<lparr>link_block := link_block (ent_link ?y) OR E,
      link_index := word_of_nat idx\<rparr>\<rparr>]"
    have y: "?y = tvb_live ?t ! ?i"
    proof -
      have "?y = tvb_live t1 ! ?i" using i spec(4) by (simp add: tvb_live_def)
      then show ?thesis using t1(1) i live_len by (simp add: nth_append)
    qed
    have live2: "tvb_live t2 = ?ys @ [x]"
      using spec2(5) t1(1) i live_len by (simp add: list_update_append)
    have "record_version e E s is_tmp (le, li, oi) txn v d = Inr (set_tvb ?k t2 v, length ?ys, intra, txn', d')"
      using True le gi(1) iv spec(2) live_len len change
      by (simp add: record_version_def Let_def tvb_at_set_tvb)
    moreover have "tvbs_ok E (N + 1) (set_tvb ?k t2 v)"
    proof (rule tv_intro)
      have "unat (word_of_nat idx :: 32 word) = idx"
        using spec(2) t(2) N by (simp add: unat_of_nat take_bit_nat_eq_self)
      then have "entry_ok E (Suc (version_num ?t)) (?y\<lparr>ent_link := (ent_link ?y)\<lparr>link_block := link_block (ent_link ?y) OR E,
          link_index := word_of_nat idx\<rparr>\<rparr>)"
        using t(3) y i live_len spec(2) E by (intro entry_ok_relink) auto
      then show "\<forall>y \<in> set (tvb_live t2). entry_ok E (Suc (version_num ?t)) y"
        using live2 x_ok olds_ok by (auto dest: set_update_subset_insert [THEN subsetD])
    qed (use spec2 spec ts in auto)
    moreover have "relinked (Some ?i) (tvb_live ?t) ?ys"
      using y i live_len by (auto simp: relinked_def nth_list_update intro: exI [of _ "ent_link _"])
    ultimately show ?thesis using live2 t1(2) True spec2(3) spec(3) ts by (intro exI [of _ t2] exI [of _ ?ys] exI [of _ x]) auto
  qed
qed

section \<open>One write\<close>

lemma mark_pending_set_cell:
  assumes "ve_shape v" "slot_in v s"
  shows "mark_pending s E intra e pb v =
     set_cell s (\<lparr>ew_e = e, ew_block = E OR TMPVB_MASK, ew_index = intra\<rparr>, (item_p v s)\<lparr>ew_block := pb, ew_index := 0\<rparr>) v"
proof -
  let ?x = "\<lparr>ew_e = e, ew_block = E OR TMPVB_MASK, ew_index = intra\<rparr>"
  have "set_item_e s ?x v = set_cell s (?x, item_p v s) v" by (rule set_item_e_cell [OF assms])
  moreover have "cell (set_cell s (?x, item_p v s) v) s = (?x, item_p v s)" by (rule cell_set_cell [OF assms])
  ultimately show ?thesis
    using assms by (simp add: mark_pending_def Let_def cell_def set_item_p_cell set_cell_set_cell)
qed

lemma located_entry_placed: "located v1 v2 s d R c0 \<Longrightarrow> entry_placed v1 y \<Longrightarrow> entry_placed v2 y"
  unfolding located_def entry_placed_def by (auto split: if_splits)

lemma located_others:
  assumes "located v1 v2 s d R c0" "c \<in># R"
  shows "ckey c \<noteq> d" "c \<in> set (all_cells v1)"
proof -
  obtain rs where rs: "mset rs = R" using ex_mset by blast
  have loc: "mset (all_cells v2) = mset (cell v2 s # rs)" "ckey (cell v2 s) = d" "distinct (map ckey (all_cells v2))"
    using assms(1) rs by (auto simp: located_def distinct_keys)
  have "mset (map ckey (all_cells v2)) = mset (map ckey (cell v2 s # rs))"
    using loc(1) by (metis mset_map)
  then have "distinct (map ckey (cell v2 s # rs))" using loc(3) mset_eq_imp_distinct_iff by blast
  then have "d \<notin> ckey ` set rs" using loc(2) by simp
  then show "ckey c \<noteq> d" using rs assms(2) by (metis imageI set_mset_mset)
  have "c \<in># mset (all_cells v1)" using assms by (cases c0) (simp_all add: located_def)
  then show "c \<in> set (all_cells v1)" by simp
qed

lemma marked_keys_add: "marked_keys (add_mset c R) =
   (if has_tmp (ew_block (fst c)) then insert (ckey c) (marked_keys R) else marked_keys R)"
  by (auto simp: marked_keys_def)

definition pending_cell :: "epoch_t \<Rightarrow> intra_t \<Rightarrow> 64 word \<Rightarrow> edge_with_index \<Rightarrow> ew_pair" where
  "pending_cell E intra e p = (\<lparr>ew_e = e, ew_block = E OR TMPVB_MASK, ew_index = intra\<rparr>, p)"

lemma cell_ok_relinked:
  assumes c: "cell_ok E t c" and re: "relinked j (tvb_live t) ys" and live: "tvb_live t' = ys @ [x]"
    and other: "\<And>i. j = Some i \<Longrightarrow> i < length (tvb_live t) \<and> strip_del (ent_edge (tvb_live t ! i)) \<noteq> ckey c"
  shows "cell_ok E t' c"
proof -
  have len: "length ys = length (tvb_live t)"
    and keys: "\<And>i. i < length ys \<Longrightarrow> ent_edge (ys ! i) = ent_edge (tvb_live t ! i)"
    using re by (auto simp: relinked_def)
  have "\<exists>y \<in> set (tvb_live t'). strip_del (ent_edge y) = ckey c \<and> (ent_last_epoch y \<noteq> 0 \<or> \<not> HasNextVB (ent_link y))"
    if tmp: "has_tmp (ew_block (fst c))"
  proof -
    obtain y where y: "y \<in> set (tvb_live t)" "strip_del (ent_edge y) = ckey c"
      "ent_last_epoch y \<noteq> 0 \<or> \<not> HasNextVB (ent_link y)" using c tmp by (auto simp: cell_ok_def)
    obtain i where i: "i < length (tvb_live t)" "tvb_live t ! i = y" using y(1) by (auto simp: in_set_conv_nth)
    then have "j \<noteq> Some i" using other y(2) by auto
    then have "ys ! i = y" using re i by (auto simp: relinked_def)
    then have "y \<in> set ys" using i len by (metis nth_mem)
    then show ?thesis using y live by auto
  qed
  then show ?thesis using c live len keys by (auto simp: cell_ok_def nth_append)
qed

text \<open>The pieces of the invariant after a write: the new cell, the placed entries and the closed versions.\<close>

lemma pending_cell_ok:
  assumes inva: "pend_inv E N v1" "N + 1 < 2 ^ 31" and re: "relinked j (tvb_live (tvb_at v1 (ring_slot E))) ys"
    and t': "tvb_live t' = ys @ [x]" and x: "recorded_entry e s le oi intra mt x" "strip_del (fst e) = strip_del e'"
    and pb: "is_delete e' \<or> ew_block p = word_of_nat (length ys)" and intra: "intra \<noteq> INTRA_MAX"
  shows "cell_ok E t' (pending_cell E intra e' p)"
proof -
  let ?t1 = "tvb_at v1 (ring_slot E)"
  have E: "\<not> has_tmp E" "E \<noteq> 0" using inva by (auto simp: pend_inv_def published_ok_def)
  have "version_num ?t1 \<le> N" "tvb_ok ?t1" using inva(1) by (auto simp: pend_inv_def tvbs_ok_def Let_def)
  then have "length ys \<le> N" using re length_tvb_live by (metis relinked_def)
  then have "unat (word_of_nat (length ys) :: 32 word) = length ys" using inva(2) by (simp add: unat_of_nat take_bit_nat_eq_self)
  moreover have "strip_del (ent_edge x) = strip_del e'" "ent_last_epoch x \<noteq> 0 \<or> \<not> HasNextVB (ent_link x)"
    using x by (auto simp: recorded_entry_def HasNextVB_def)
  ultimately show ?thesis
    using intra E pb t' by (auto simp: cell_ok_def pending_cell_def GetCoarseC_def strip_tmp_id ckey_def entry_key_def)
qed

lemma closed_version_ivs:
  assumes inv1: "pend_inv E N v1" and re: "relinked j (tvb_live (tvb_at v1 (ring_slot E))) ys"
    and t': "tvb_timestamp t' = E" "tvb_live t' = ys @ [x]" and x: "recorded_entry e s le oi intra mt x" "strip_del (fst e) = d"
  shows "mset (tvb_ivs t') = mset (tvb_ivs (tvb_at v1 (ring_slot E))) + (if le \<noteq> 0 then {#(d, le, Some E)#} else {#})"
proof -
  let ?t1 = "tvb_at v1 (ring_slot E)" and ?f = "\<lambda>y. (ent_last_epoch y, entry_iv E y)"
  have ts1: "tvb_timestamp ?t1 = E" if "tvb_live ?t1 \<noteq> []"
    using that inv1 by (auto simp: pend_inv_def tvbs_ok_def Let_def tvb_live_def)
  have "map ?f ys = map ?f (tvb_live ?t1)"
    by (rule nth_equalityI) (use re relinked_fields [OF re] in \<open>simp_all add: entry_iv_def relinked_def\<close>)
  then have "map snd (filter (\<lambda>p. fst p \<noteq> 0) (map ?f ys)) = map snd (filter (\<lambda>p. fst p \<noteq> 0) (map ?f (tvb_live ?t1)))" by simp
  then have "map (entry_iv E) (filter (\<lambda>y. ent_last_epoch y \<noteq> 0) ys) = tvb_ivs ?t1"
    using ts1 by (cases "tvb_live ?t1 = []") (auto simp: tvb_ivs_def filter_map comp_def)
  then show ?thesis using t' x by (auto simp: tvb_ivs_def recorded_entry_def entry_iv_def)
qed

lemma old_entry_placed:
  assumes inv1: "pend_inv E N v1" and loc: "located v1 v2 s d R c0" and loc5: "located (set_tvb k t' (v2\<lparr>VBM := m\<rparr>)) v5 s d R' c1"
    and re: "relinked j (tvb_live (tvb_at v1 (ring_slot E))) ys" and y: "y \<in> set ys"
  shows "entry_placed v5 y" "strip_del (ent_edge y) \<in> marked_keys (mset (all_cells v1))"
proof -
  let ?t1 = "tvb_at v1 (ring_slot E)"
  obtain i where i: "i < length ys" "y = ys ! i" using y by (auto simp: in_set_conv_nth)
  then obtain l where l: "y = (tvb_live ?t1 ! i)\<lparr>ent_link := l\<rparr>" using re by (auto simp: relinked_def)
  have "tvb_live ?t1 ! i \<in> set (tvb_live ?t1)" using i re by (simp add: relinked_def)
  then have yy: "entry_placed v1 (tvb_live ?t1 ! i)" "strip_del (ent_edge (tvb_live ?t1 ! i)) \<in> marked_keys (mset (all_cells v1))"
    using inv1 by (auto simp: pend_inv_def)
  have "entry_placed v2 (tvb_live ?t1 ! i)" by (rule located_entry_placed [OF loc yy(1)])
  then have "entry_placed (set_tvb k t' (v2\<lparr>VBM := m\<rparr>)) (tvb_live ?t1 ! i)" by simp
  from located_entry_placed [OF loc5 this] show "entry_placed v5 y" by (simp add: l entry_placed_def)
  show "strip_del (ent_edge y) \<in> marked_keys (mset (all_cells v1))" using yy(2) by (simp add: l)
qed

lemma write_keeps_inv:
  assumes inv1: "pend_inv E N v1" and loc: "located v1 v2 s d R c0" and N: "N + 1 < 2 ^ 31"
    and v3: "v3 = v2\<lparr>VBM := m\<rparr>" "tvbs_ok E N v3" "published_ok E v3" "tvb_timestamp (tvb_at v3 (ring_slot E)) = E"
      "tvb_live (tvb_at v3 (ring_slot E)) = tvb_live (tvb_at v1 (ring_slot E))" "vbm_end m = vbm_end (VBM v1)"
    and old: "le \<le> E" "is_tmp \<and> le \<noteq> 0 \<Longrightarrow> le = E \<and> unat li < length (tvb_live (tvb_at v1 (ring_slot E))) \<and>
        strip_del (ent_edge (tvb_live (tvb_at v1 (ring_slot E)) ! unat li)) = d"
    and keys: "strip_del (fst e) = d" "strip_del e' = d" and del: "le = 0 \<Longrightarrow> \<not> is_delete (fst e)"
    and oi: "oi \<noteq> INTRA_MAX" and gi: "get_intra_c txn dd = (intra, txn', dd')" "intra \<noteq> INTRA_MAX"
  shows "\<exists>v4 idx. record_version e E s is_tmp (le, li, oi) txn v3 dd = Inr (v4, idx, intra, txn', dd') \<and>
     item_e v4 s = item_e v2 s \<and> ve_locked v4 = ve_locked v1 \<and> edge_num v4 = edge_num v1 \<and>
     (\<forall>pb. (is_delete e' \<or> pb = word_of_nat idx) \<longrightarrow>
        (let v5 = mark_pending s E intra e' pb v4 in
         pend_inv E (N + 1) v5 \<and> ve_locked v5 = ve_locked v1 \<and> edge_num v5 = edge_num v1 \<and>
         intervals E v5 =
           cells_ivs (add_mset (pending_cell E intra e' ((item_p v2 s)\<lparr>ew_block := pb, ew_index := 0\<rparr>)) R) +
           mset (chain_ivs (vbm_end (VBM v1))) + mset (tvb_ivs (tvb_at v1 (ring_slot E))) +
           (if le \<noteq> 0 then {#(d, le, Some E)#} else {#})))"
proof -
  let ?k = "ring_slot E" and ?t1 = "tvb_at v1 (ring_slot E)"
  have E: "\<not> has_tmp E" "E \<noteq> 0" using inv1 by (auto simp: pend_inv_def published_ok_def)
  have old3: "is_tmp \<and> le \<noteq> 0 \<Longrightarrow> le = E \<and> unat li < length (tvb_live (tvb_at v3 ?k))" using old(2) v3(5) by simp
  define j where "j = (if is_tmp \<and> le \<noteq> 0 then Some (unat li) else None)"
  obtain t' ys x where rv: "record_version e E s is_tmp (le, li, oi) txn v3 dd =
       Inr (set_tvb ?k t' v3, length ys, intra, txn', dd')"
    and t': "tvbs_ok E (N + 1) (set_tvb ?k t' v3)" "tvb_timestamp t' = E" "tvb_live t' = ys @ [x]"
    and re: "relinked j (tvb_live ?t1) ys"
    and x: "recorded_entry e s le oi intra (merge_times v3) x"
    using record_version_spec [OF v3(2) _ E(1) v3(4) old(1) old3 del oi gi, where is_tmp = is_tmp and s = s]
      N v3(5) unfolding j_def by auto
  let ?v4 = "set_tvb ?k t' v3"
  have v2: "ve_wf v2" "slot_in v2 s" "ckey (cell v2 s) = d" "mset (all_cells v2) = add_mset (cell v2 s) R"
    "merge_times v2 = merge_times v1" "ve_num v2 \<le> ve_num v1 + 1" using loc by (auto simp: located_def)
  have len: "?k < length (vbm_tvb_array (VBM v3))" using v3(2) by (simp add: tvbs_ok_def)
  have t4: "tvb_at ?v4 ?k = t'" using len by (simp add: tvb_at_set_tvb)
  have ys_keys: "length ys = length (tvb_live ?t1)"
    "\<And>i. i < length ys \<Longrightarrow> \<exists>l. ys ! i = (tvb_live ?t1 ! i)\<lparr>ent_link := l\<rparr>" using re by (auto simp: relinked_def)
  have all4: "all_cells ?v4 = all_cells v2" "item_p ?v4 s = item_p v2 s" "item_e ?v4 s = item_e v2 s"
    "slot_in ?v4 s = slot_in v2 s" "ve_wf ?v4 = ve_wf v2" "cell ?v4 s = cell v2 s" "merge_times ?v4 = merge_times v2"
    "ve_num ?v4 = ve_num v2" "ve_locked ?v4 = ve_locked v2" "edge_num ?v4 = edge_num v2"
    using v3(1) by simp_all
  have main: "pend_inv E (N + 1) v5 \<and> ve_locked v5 = ve_locked v1 \<and> edge_num v5 = edge_num v1 \<and>
         intervals E v5 = cells_ivs (add_mset (pending_cell E intra e' ((item_p v2 s)\<lparr>ew_block := pb, ew_index := 0\<rparr>)) R) +
           mset (chain_ivs (vbm_end (VBM v1))) + mset (tvb_ivs ?t1) + (if le \<noteq> 0 then {#(d, le, Some E)#} else {#})"
    if pb: "is_delete e' \<or> pb = word_of_nat (length ys)" and v5_def: "v5 = mark_pending s E intra e' pb ?v4" for pb v5
  proof -
    let ?c = "pending_cell E intra e' ((item_p v2 s)\<lparr>ew_block := pb, ew_index := 0\<rparr>)"
    have v5: "v5 = set_cell s ?c ?v4"
      using mark_pending_set_cell [of ?v4 s E intra e' pb] v2(1,2) all4 by (simp add: pending_cell_def v5_def ve_wf_shape)
    have ck: "ckey ?c = d" using keys(2) by (simp add: pending_cell_def ckey_def entry_key_def)
    have loc5: "located ?v4 v5 s d (mset (all_cells ?v4) - {#cell ?v4 s#}) (Some (cell ?v4 s))"
      unfolding v5 by (rule located_set_cell) (use v2 all4 ck in auto)
    have wf5: "ve_wf v5" using loc5 by (simp add: located_def)
    have cells5: "mset (all_cells v5) = add_mset ?c R"
      using set_cell_mset [of ?v4 s ?c] v2 all4 by (simp add: v5 ve_wf_shape)
    have VBM5: "VBM v5 = VBM ?v4" "tvb_at v5 j = tvb_at ?v4 j" "merge_times v5 = merge_times v1" "ve_num v5 = ve_num v2" for j
      using v5 all4 v2 by simp_all
    have ck_ok: "cell_ok E t' ?c"
      using pending_cell_ok [OF inv1 N re t'(3) x _ _ gi(2), of e' "(item_p v2 s)\<lparr>ew_block := pb, ew_index := 0\<rparr>"] keys pb by simp
    have others_ok: "cell_ok E t' c" if "c \<in># R" for c
    proof (rule cell_ok_relinked [OF _ re t'(3)])
      show "cell_ok E ?t1 c" using located_others(2) [OF loc that] inv1 by (simp add: pend_inv_def)
      show "i < length (tvb_live ?t1) \<and> strip_del (ent_edge (tvb_live ?t1 ! i)) \<noteq> ckey c" if "j = Some i" for i
        using that old(2) located_others(1) [OF loc \<open>c \<in># R\<close>] by (auto simp: j_def split: if_splits)
    qed
    have marked: "marked_keys (mset (all_cells v1)) \<subseteq> marked_keys (add_mset ?c R)" "d \<in> marked_keys (add_mset ?c R)"
    proof -
      have tmp: "has_tmp (ew_block (fst ?c))" by (simp add: pending_cell_def)
      show "d \<in> marked_keys (add_mset ?c R)" using tmp ck by (simp add: marked_keys_add)
      show "marked_keys (mset (all_cells v1)) \<subseteq> marked_keys (add_mset ?c R)"
        using loc tmp ck by (cases c0) (auto simp: located_def marked_keys_add)
    qed
    have placed: "entry_placed v5 y \<and> strip_del (ent_edge y) \<in> marked_keys (add_mset ?c R)" if y: "y \<in> set (tvb_live t')" for y
    proof (cases "y = x")
      case True
      have "ve_num v1 \<le> N" "ve_wf v1" using inv1 by (auto simp: pend_inv_def)
      then have "tmp_ev v5 + edges_and_versions v5 < 2 ^ 31"
        using wf5 VBM5(4) v2(6) N by (simp add: ve_wf_def)
      moreover have "slot_in v5 s" using loc5 by (simp add: located_def)
      ultimately have "slot_of_offset (offset_of s) = s" by (rule slot_offset_roundtrip [rotated])
      then have "entry_placed v5 x"
        using x loc5 keys(1) VBM5(3) v2(5) all4(7) v3(1) by (simp add: entry_placed_def recorded_entry_def located_def)
      moreover have "strip_del (ent_edge x) = d" using x keys(1) by (simp add: recorded_entry_def)
      ultimately show ?thesis using True marked(2) by simp
    next
      case False
      then have "y \<in> set ys" using y t'(3) by simp
      from old_entry_placed [OF inv1 loc loc5 [unfolded v3(1)] re this] show ?thesis using marked(1) by auto
    qed
    have "tvbs_ok E (N + 1) v5" using t'(1) VBM5 by (simp add: tvbs_ok_def)
    moreover have "published_ok E v5" using v3(3) VBM5 by (simp add: published_ok_def vbm_ok_def)
    moreover have "\<forall>c \<in> set (all_cells v5). cell_ok E t' c"
    proof
      fix c assume "c \<in> set (all_cells v5)"
      then have "c = ?c \<or> c \<in># R" using arg_cong [OF cells5, of set_mset] by auto
      then show "cell_ok E t' c" using ck_ok others_ok by blast
    qed
    ultimately have "pend_inv E (N + 1) v5"
      using wf5 placed cells5 VBM5 t4 inv1 v2(6) by (auto simp: pend_inv_def)
    moreover note closed_version_ivs [OF inv1 re t'(2,3) x keys(1)]
    ultimately show ?thesis
      using cells5 VBM5 t4 v3(1,6) all4 loc by (auto simp: intervals_def live_ivs_cells v5 located_def ac_simps)
  qed
  show ?thesis
  proof (intro exI conjI allI impI)
    show "record_version e E s is_tmp (le, li, oi) txn v3 dd = Inr (?v4, length ys, intra, txn', dd')" by (rule rv)
    show "item_e ?v4 s = item_e v2 s" by (rule all4(3))
    show "ve_locked ?v4 = ve_locked v1" "edge_num ?v4 = edge_num v1" using all4(9,10) loc by (simp_all add: located_def)
  next
    fix pb :: "32 word"
    assume "is_delete e' \<or> pb = word_of_nat (length ys)"
    from main [OF this refl] show "let v5 = mark_pending s E intra e' pb ?v4 in
         pend_inv E (N + 1) v5 \<and> ve_locked v5 = ve_locked v1 \<and> edge_num v5 = edge_num v1 \<and>
         intervals E v5 =
           cells_ivs (add_mset (pending_cell E intra e' ((item_p v2 s)\<lparr>ew_block := pb, ew_index := 0\<rparr>)) R) +
           mset (chain_ivs (vbm_end (VBM v1))) + mset (tvb_ivs ?t1) + (if le \<noteq> 0 then {#(d, le, Some E)#} else {#})"
      by (simp only: Let_def)
  qed
qed

end
