(* ===== verification/Vertex_Ops.thy ===== *)
theory Vertex_Ops
  imports Vertex_Pending
begin

text \<open>
  \<open>insert_edge_block\<close> and \<open>delete_edge_block\<close> against their specification on version intervals: an insertion
  closes the edge's open interval, if it has one, and opens a new one at the transaction's epoch;
  a deletion closes the open interval. A write that loses a conflict changes neither.
\<close>

section \<open>Touching the temporary block\<close>

definition touched :: "epoch_t \<Rightarrow> vertex_edges \<Rightarrow> vb_manager \<Rightarrow> bool" where
  "touched E v m \<longleftrightarrow>
     vbm_end m = vbm_end (VBM v) \<and> vbm_end_epoch m = vbm_end_epoch (VBM v) \<and> vbm_index m = vbm_index (VBM v) \<and>
     tvb_timestamp (tvb_at (v\<lparr>VBM := m\<rparr>) (ring_slot E)) = E \<and>
     tvb_live (tvb_at (v\<lparr>VBM := m\<rparr>) (ring_slot E)) = tvb_live (tvb_at v (ring_slot E))"

lemma touch_tvb_spec:
  assumes tv: "tvbs_ok E N v" and tid: "tx_threadid txn < length (vd_vb_vector d)"
  shows "\<exists>m d'. touch_tvb self E txn v d = Inr (v\<lparr>VBM := m\<rparr>, d') \<and> touched E v m \<and> tvbs_ok E N (v\<lparr>VBM := m\<rparr>) \<and>
     vd_intra_counter d' = vd_intra_counter d \<and> length (vd_vb_vector d') = length (vd_vb_vector d)"
proof (cases "tvb_timestamp (tvb_at v (ring_slot E)) = E")
  case True
  then show ?thesis using tv by (auto simp: touch_tvb_def Let_def touched_def intro!: exI [of _ "VBM v"])
next
  case False
  let ?k = "ring_slot E" and ?t = "tvb_at v (ring_slot E)"
  let ?m = "MarkTvbActive (VBM (set_tvb ?k (?t\<lparr>tvb_timestamp := E, version_num := 0\<rparr>) v)) E"
  let ?v = "v\<lparr>VBM := ?m\<rparr>"
  have "tmp_entry ?t = []" using tv False by (auto simp: tvbs_ok_def Let_def)
  moreover have "?k < length (vbm_tvb_array (VBM v))" using tv by (simp add: tvbs_ok_def)
  moreover have "vbm_tvb_array ?m = (vbm_tvb_array (VBM v))[?k := ?t\<lparr>tvb_timestamp := E, version_num := 0\<rparr>]"
    by (simp add: MarkTvbActive_def set_tvb_def)
  ultimately have t: "tvb_at ?v ?k = ?t\<lparr>tvb_timestamp := E, version_num := 0\<rparr>"
    "j \<noteq> ?k \<Longrightarrow> tvb_at ?v j = tvb_at v j" "tvb_live ?t = []" for j
    by (auto simp: tvb_at_def tvb_live_def)
  have "touch_tvb self E txn v d = Inr (?v, the (case write_lock_pushback txn d (self, ?k) of Inr d' \<Rightarrow> Some d' | _ \<Rightarrow> None))"
    using False tid by (simp add: touch_tvb_def Let_def write_lock_pushback_def VB_pushback_def set_tvb_def)
  moreover have "touched E v ?m" using t by (simp add: touched_def MarkTvbActive_def set_tvb_def tvb_live_def)
  moreover have "tvbs_ok E N ?v"
    using tv t \<open>tmp_entry ?t = []\<close> by (auto simp: tvbs_ok_def Let_def MarkTvbActive_def set_tvb_def tvb_ok_def tvb_live_def)
  ultimately show ?thesis using tid by (auto simp: write_lock_pushback_def VB_pushback_def)
qed

lemma touched_published: "touched E v m \<Longrightarrow> published_ok E (v\<lparr>VBM := m\<rparr>) = published_ok E v"
  by (auto simp: touched_def published_ok_def vbm_ok_def)

lemma touched_pend_inv:
  assumes "pend_inv E N v" "touched E v m" "tvbs_ok E N (v\<lparr>VBM := m\<rparr>)"
  shows "pend_inv E N (v\<lparr>VBM := m\<rparr>)" "intervals E (v\<lparr>VBM := m\<rparr>) = intervals E v"
proof -
  let ?v = "v\<lparr>VBM := m\<rparr>"
  have live: "tvb_live (tvb_at ?v (ring_slot E)) = tvb_live (tvb_at v (ring_slot E))"
    using assms(2) by (simp add: touched_def)
  then have "cell_ok E (tvb_at ?v (ring_slot E)) = cell_ok E (tvb_at v (ring_slot E))"
    by (simp add: fun_eq_iff cell_ok_def)
  then show "pend_inv E N ?v"
    using assms touched_published [OF assms(2)] live by (simp add: pend_inv_def)
  have "tvb_ivs (tvb_at ?v (ring_slot E)) = tvb_ivs (tvb_at v (ring_slot E))"
  proof (cases "tvb_live (tvb_at v (ring_slot E)) = []")
    case False
    then have "tvb_timestamp (tvb_at v (ring_slot E)) = E"
      using assms(1) by (auto simp: pend_inv_def tvbs_ok_def Let_def tvb_live_def)
    then show ?thesis using live assms(2) by (simp add: tvb_ivs_def touched_def)
  qed (simp add: tvb_ivs_def live)
  then show "intervals E ?v = intervals E v"
    using assms(2) by (simp add: intervals_def live_ivs_def touched_def)
qed

lemma pend_inv_mono: "pend_inv E N v \<Longrightarrow> N \<le> N' \<Longrightarrow> pend_inv E N' v"
  by (auto simp: pend_inv_def tvbs_ok_def Let_def)

lemma pend_inv_lock [simp]: "pend_inv E N (v\<lparr>ve_locked := b\<rparr>) = pend_inv E N v"
  "intervals E (v\<lparr>ve_locked := b\<rparr>) = intervals E v"
proof -
  have cells: "tb_cells (v\<lparr>ve_locked := b\<rparr>) = tb_cells v" "pa_cells (v\<lparr>ve_locked := b\<rparr>) = pa_cells v"
    by (simp_all add: tb_cells_def pa_cells_def)
  have slots: "slot_in (v\<lparr>ve_locked := b\<rparr>) s = slot_in v s" "cell (v\<lparr>ve_locked := b\<rparr>) s = cell v s" for s
    by (cases s; simp add: cell_def)+
  have t: "tvb_at (v\<lparr>ve_locked := b\<rparr>) k = tvb_at v k" for k by (simp add: tvb_at_def)
  show "pend_inv E N (v\<lparr>ve_locked := b\<rparr>) = pend_inv E N v"
    by (simp add: pend_inv_def published_ok_def tvbs_ok_def ve_wf_def ve_keys_def all_cells_def cells t entry_placed_def slots)
  show "intervals E (v\<lparr>ve_locked := b\<rparr>) = intervals E v"
    by (simp add: intervals_def live_ivs_def cells t)
qed

section \<open>The specification of a write\<close>

definition ins_effect :: "epoch_t \<Rightarrow> dst_t \<Rightarrow> interval multiset \<Rightarrow> interval multiset \<Rightarrow> bool" where
  "ins_effect E d I I' \<longleftrightarrow>
     (\<exists>c J. I = add_mset (d, c, None) J \<and> I' = add_mset (d, E, None) (add_mset (d, c, Some E) J)) \<or>
     ((\<forall>c. (d, c, None) \<notin># I) \<and> I' = add_mset (d, E, None) I)"

definition del_effect :: "epoch_t \<Rightarrow> dst_t \<Rightarrow> interval multiset \<Rightarrow> interval multiset \<Rightarrow> bool" where
  "del_effect E d I I' \<longleftrightarrow> (\<exists>c J. I = add_mset (d, c, None) J \<and> I' = add_mset (d, c, Some E) J)"

definition next_intra :: "transaction \<Rightarrow> vb_data \<Rightarrow> intra_t" where
  "next_intra txn d = (if tx_intra_c txn = 0 then vd_intra_counter d + 1 else tx_intra_c txn)"

lemma get_intra_c_next: "\<exists>txn' d'. get_intra_c txn d = (next_intra txn d, txn', d') \<and>
    tx_threadid txn' = tx_threadid txn \<and> vd_vb_vector d' = vd_vb_vector d"
  by (auto simp: get_intra_c_def next_intra_def fetch_add_intra_def)

definition merge_if_full :: "edge_with_index \<Rightarrow> epoch_t \<Rightarrow> vertex_edges \<Rightarrow> vertex_edges res" where
  "merge_if_full junk oldest v = (if tmp_ev v = TMPNUM then merge_tmpev_with_eb junk oldest v else Inr v)"

text \<open>
  The lookup of an edge that sits in the buffer must not hit the cell behind the primary array by
  accident: what is stored there is not an edge.
\<close>

definition lookup_safe :: "edge_with_index \<Rightarrow> epoch_t \<Rightarrow> vertex_edges \<Rightarrow> dst_t \<Rightarrow> bool" where
  "lookup_safe junk oldest v d \<longleftrightarrow>
     (case merge_if_full junk oldest v of
        Inl _ \<Rightarrow> True
      | Inr v1 \<Rightarrow> d \<in> ckey ` set (tb_cells v1) \<longrightarrow> search_safe v1 d)"

lemma merge_if_full_spec:
  assumes "pend_inv E N v" "\<not> has_tmp oldest" "N < 2 ^ 31"
  shows "\<exists>v1. merge_if_full junk oldest v = Inr v1 \<and> pend_inv E (N + 1) v1 \<and> tmp_ev v1 < TMPNUM \<and>
     edge_num v1 = edge_num v \<and> ve_locked v1 = ve_locked v \<and> intervals E v1 = intervals E v \<and>
     set (all_cells v1) \<subseteq> set (all_cells v)"
proof (cases "tmp_ev v = TMPNUM")
  case True
  have wf: "ve_wf v" using assms(1) by (simp add: pend_inv_def)
  obtain v1 where v1: "merge_tmpev_with_eb junk oldest v = Inr v1" "pend_inv E (N + 1) v1" "tmp_ev v1 = 0"
    "edge_num v1 = edge_num v" "ve_locked v1 = ve_locked v" "intervals E v1 = intervals E v"
    using merge_pend_inv [OF assms(1) True assms(2,3)] by blast
  moreover have "mset (pa_cells v1) = mset (kept oldest (pa_cells v)) + mset (tb_cells v)"
    using merge_correct [OF wf True, of junk oldest] v1(1) by auto
  then have "set (pa_cells v1) = set (kept oldest (pa_cells v)) \<union> set (tb_cells v)"
    by (metis set_mset_mset set_mset_union)
  ultimately show ?thesis using True by (auto simp: merge_if_full_def all_cells_def tb_cells_def kept_def TMPNUM_def)
next
  case False
  then have "tmp_ev v < TMPNUM" using assms(1) by (auto simp: pend_inv_def ve_wf_def)
  with False assms(1) pend_inv_mono [OF assms(1), of "N + 1"] show ?thesis by (auto simp: merge_if_full_def)
qed

lemma cells_ivs_add: "cells_ivs (add_mset c R) =
    (if is_delete (ew_e (fst c)) then cells_ivs R else add_mset (cell_iv c) (cells_ivs R))"
  by (simp add: cells_ivs_def)

lemma closed_intervals: "(d, c, None) \<notin> set (chain_ivs ch)" "(d, c, None) \<notin> set (tvb_ivs t)"
  by (auto simp: chain_ivs_def vb_ivs_def tvb_ivs_def entry_iv_def)

lemma other_cells_not_open: "(\<forall>c \<in># R. ckey c \<noteq> d) \<Longrightarrow> (d, c, None) \<notin># cells_ivs R"
  by (auto simp: cells_ivs_def cell_iv_def)

lemma set_cell_id: "set_cell s (item_e v s, item_p v s) v = v"
  by (cases s) (simp_all add: set_cell_def)

section \<open>insert_edge_block\<close>

definition insert_outcome :: "epoch_t \<Rightarrow> nat \<Rightarrow> dst_t \<Rightarrow> vertex_edges \<Rightarrow> vertex_edges \<Rightarrow> bool \<Rightarrow> bool" where
  "insert_outcome E N d v v' ok \<longleftrightarrow> pend_inv E N v' \<and> edge_num v' = edge_num v \<and> ve_locked v' = ok \<and>
     (if ok then ins_effect E d (intervals E v) (intervals E v') else intervals E v' = intervals E v)"

text \<open>The part after the edge has been located, for an edge that is new or was deleted.\<close>

lemma insert_fresh:
  assumes inva: "pend_inv E N v1" and unl: "\<not> ve_locked v1" and loc: "located v1 v2 s d R c0" and N: "N + 1 < 2 ^ 31"
    and d: "\<not> is_delete d" "ew_e (item_e v2 s) = d"
    and c0: "\<And>c. c0 = Some c \<Longrightarrow> is_delete (ew_e (fst c))"
    and m: "touched E v2 m" "tvbs_ok E N (v2\<lparr>VBM := m\<rparr>)"
    and gi: "get_intra_c txn dd = (intra, txn', dd')" "intra \<noteq> INTRA_MAX"
  shows "\<exists>v4 idx. record_version (d, w) E s is_tmp (0, li, 0) txn (v2\<lparr>VBM := m\<rparr>) dd = Inr (v4, idx, intra, txn', dd') \<and>
     insert_outcome E (N + 1) d v1
       ((mark_pending s E intra (ew_e (item_e v4 s)) (word_of_nat idx) v4)\<lparr>ve_locked := True\<rparr>) True"
proof -
  let ?v3 = "v2\<lparr>VBM := m\<rparr>"
  have VBM2: "VBM v2 = VBM v1" using loc by (simp add: located_def)
  then have t21: "tvb_at v2 k = tvb_at v1 k" for k by (simp add: tvb_at_def)
  have pub: "published_ok E ?v3"
    using touched_published [OF m(1)] inva VBM2 by (simp add: pend_inv_def published_ok_def)
  have live: "tvb_live (tvb_at ?v3 (ring_slot E)) = tvb_live (tvb_at v1 (ring_slot E))"
    and ts: "tvb_timestamp (tvb_at ?v3 (ring_slot E)) = E" and ch: "vbm_end m = vbm_end (VBM v1)"
    using m(1) t21 VBM2 by (auto simp: touched_def)
  have keyd: "strip_del (fst (d, w)) = d" "strip_del d = d" using d(1) by (simp_all add: strip_del_id)
  obtain v4 idx where rv: "record_version (d, w) E s is_tmp (0, li, 0) txn ?v3 dd = Inr (v4, idx, intra, txn', dd')"
    and e4: "item_e v4 s = item_e v2 s"
    and res: "\<forall>pb. (is_delete d \<or> pb = word_of_nat idx) \<longrightarrow>
        (let v5 = mark_pending s E intra d pb v4 in
         pend_inv E (N + 1) v5 \<and> ve_locked v5 = ve_locked v1 \<and> edge_num v5 = edge_num v1 \<and>
         intervals E v5 =
           cells_ivs (add_mset (pending_cell E intra d ((item_p v2 s)\<lparr>ew_block := pb, ew_index := 0\<rparr>)) R) +
           mset (chain_ivs (vbm_end (VBM v1))) + mset (tvb_ivs (tvb_at v1 (ring_slot E))) +
           (if (0::epoch_t) \<noteq> 0 then {#(d, 0, Some E)#} else {#}))"
    using write_keeps_inv [OF inva loc N refl m(2) pub ts live ch, of 0 is_tmp li "(d, w)" d 0 txn dd intra txn' dd']
      keyd d(1) gi by (auto simp: INTRA_MAX_def)
  let ?v5 = "mark_pending s E intra d (word_of_nat idx) v4"
  have v5: "pend_inv E (N + 1) ?v5" "edge_num ?v5 = edge_num v1"
    "intervals E ?v5 = cells_ivs (add_mset (pending_cell E intra d ((item_p v2 s)\<lparr>ew_block := word_of_nat idx, ew_index := 0\<rparr>)) R) +
           mset (chain_ivs (vbm_end (VBM v1))) + mset (tvb_ivs (tvb_at v1 (ring_slot E)))"
    using res [rule_format, of "word_of_nat idx"] by (simp_all add: Let_def)
  have E: "\<not> has_tmp E" using inva by (simp add: pend_inv_def published_ok_def)
  have iv: "cell_iv (pending_cell E intra d p) = (d, E, None)" for p
    using keyd E by (simp add: cell_iv_def pending_cell_def ckey_def entry_key_def GetCoarseC_def strip_tmp_id)
  have old: "cells_ivs (mset (all_cells v1)) = cells_ivs R"
    using loc c0 by (cases c0) (auto simp: located_def cells_ivs_add)
  have I': "intervals E ?v5 = add_mset (d, E, None) (intervals E v1)"
    unfolding v5(3) using d(1) iv old by (simp add: intervals_def live_ivs_cells cells_ivs_add pending_cell_def)
  have "(d, c, None) \<notin># intervals E v1" for c
    using other_cells_not_open [of R d c] located_others(1) [OF loc] old
    by (auto simp: intervals_def live_ivs_cells closed_intervals)
  then have "ins_effect E d (intervals E v1) (intervals E ?v5)" using I' by (auto simp: ins_effect_def)
  then show ?thesis using rv v5 e4 d(2) by (auto simp: insert_outcome_def intro!: exI [of _ v4] exI [of _ idx])
qed

text \<open>The entry that a pending live cell points to.\<close>

lemma pending_link:
  assumes inva: "pend_inv E N v" and s: "slot_in v s" "ckey (cell v s) = d" "\<not> is_delete (ew_e (item_e v s))"
    and N: "N + 1 < 2 ^ 31" and tmp: "has_tmp (ew_block (item_e v s))"
  defines "t \<equiv> tvb_at v (ring_slot E)" and "li \<equiv> fst (snd (read_old v s))"
  shows "GetCoarseC (item_e v s) = E \<and> unat li < length (tvb_live t) \<and> strip_del (ent_edge (tvb_live t ! unat li)) = d"
proof -
  have "cell_ok E t (cell v s)" using inva cell_in_all [OF s(1)] by (simp add: pend_inv_def t_def)
  then have p: "GetCoarseC (item_e v s) = E" "unat (ew_block (item_p v s)) < length (tvb_live t)"
    "strip_del (ent_edge (tvb_live t ! unat (ew_block (item_p v s)))) = d"
    using tmp s(2,3) by (auto simp: cell_ok_def cell_def)
  have "ew_block (item_p v s) \<noteq> - 1"
  proof
    assume minus: "ew_block (item_p v s) = - 1"
    have "tvb_ok t" "version_num t \<le> N" using inva by (auto simp: pend_inv_def tvbs_ok_def Let_def t_def)
    then have "length (tvb_live t) \<le> N" using length_tvb_live by metis
    then show False using p(2) N minus by (simp add: unsigned_minus_1_eq_mask mask_eq_exp_minus_1)
  qed
  then show ?thesis using p by (simp add: read_old_def li_def)
qed

text \<open>A write that closes the open interval of a live edge, shared by update and deletion.\<close>

lemma write_live:
  assumes inva: "pend_inv E N v1" and s: "slot_in v1 s" "ckey (cell v1 s) = d" "\<not> is_delete (ew_e (item_e v1 s))"
    and N: "N + 1 < 2 ^ 31" and m: "touched E v1 m" "tvbs_ok E N (v1\<lparr>VBM := m\<rparr>)"
    and e: "strip_del (fst e) = d" "strip_del e' = d"
    and gi: "get_intra_c txn dd = (intra, txn', dd')" "intra \<noteq> INTRA_MAX"
  shows "\<exists>v4 idx. record_version e E s (has_tmp (ew_block (item_e v1 s))) (read_old v1 s) txn (v1\<lparr>VBM := m\<rparr>) dd =
       Inr (v4, idx, intra, txn', dd') \<and> item_e v4 s = item_e v1 s \<and>
     (\<forall>pb. (is_delete e' \<or> pb = word_of_nat idx) \<longrightarrow>
       (let v5 = mark_pending s E intra e' pb v4; J = intervals E v1 - {#(d, GetCoarseC (item_e v1 s), None)#} in
        pend_inv E (N + 1) v5 \<and> ve_locked v5 = ve_locked v1 \<and> edge_num v5 = edge_num v1 \<and>
        intervals E v1 = add_mset (d, GetCoarseC (item_e v1 s), None) J \<and>
        intervals E v5 = (if is_delete e' then {#} else {#(d, E, None)#}) +
          add_mset (d, GetCoarseC (item_e v1 s), Some E) J))"
proof -
  let ?c0 = "cell v1 s" and ?le = "GetCoarseC (item_e v1 s)" and ?t = "tvb_at v1 (ring_slot E)"
  let ?R = "mset (all_cells v1) - {#?c0#}"
  have wf: "ve_wf v1" using inva by (simp add: pend_inv_def)
  have "set_cell s ?c0 v1 = v1" by (simp add: cell_def set_cell_id)
  then have loc: "located v1 v1 s d ?R (Some ?c0)"
    using located_set_cell [OF wf s(1,2), of ?c0] s(2) by simp
  have pub: "published_ok E (v1\<lparr>VBM := m\<rparr>)" using touched_published [OF m(1)] inva by (simp add: pend_inv_def)
  have live: "tvb_live (tvb_at (v1\<lparr>VBM := m\<rparr>) (ring_slot E)) = tvb_live ?t"
    and ts: "tvb_timestamp (tvb_at (v1\<lparr>VBM := m\<rparr>) (ring_slot E)) = E" and ch: "vbm_end m = vbm_end (VBM v1)"
    using m(1) by (auto simp: touched_def)
  have ok: "cell_ok E ?t ?c0" using inva cell_in_all [OF s(1)] by (simp add: pend_inv_def)
  then have le: "?le \<le> E" "?le \<noteq> 0" by (auto simp: cell_ok_def cell_def)
  obtain li oi where old: "read_old v1 s = (?le, li, oi)" by (simp add: read_old_def)
  have oi: "oi \<noteq> INTRA_MAX" using ok old by (auto simp: cell_ok_def cell_def read_old_def)
  have li: "?le = E \<and> unat li < length (tvb_live ?t) \<and> strip_del (ent_edge (tvb_live ?t ! unat li)) = d"
    if tmp: "has_tmp (ew_block (item_e v1 s))"
    using pending_link [OF inva s N tmp] old by simp
  obtain v4 idx where rv: "record_version e E s (has_tmp (ew_block (item_e v1 s))) (?le, li, oi) txn (v1\<lparr>VBM := m\<rparr>) dd =
      Inr (v4, idx, intra, txn', dd')" and e4: "item_e v4 s = item_e v1 s"
    and res: "\<forall>pb. (is_delete e' \<or> pb = word_of_nat idx) \<longrightarrow>
        (let v5 = mark_pending s E intra e' pb v4 in
         pend_inv E (N + 1) v5 \<and> ve_locked v5 = ve_locked v1 \<and> edge_num v5 = edge_num v1 \<and>
         intervals E v5 =
           cells_ivs (add_mset (pending_cell E intra e' ((item_p v1 s)\<lparr>ew_block := pb, ew_index := 0\<rparr>)) ?R) +
           mset (chain_ivs (vbm_end (VBM v1))) + mset (tvb_ivs ?t) + (if ?le \<noteq> 0 then {#(d, ?le, Some E)#} else {#}))"
    using write_keeps_inv [OF inva loc N refl m(2) pub ts live ch le(1), of "has_tmp (ew_block (item_e v1 s))" li e e'
        oi txn dd intra txn' dd'] li e le(2) oi gi by auto
  have E: "\<not> has_tmp E" using inva by (simp add: pend_inv_def published_ok_def)
  have iv: "cell_iv (pending_cell E intra e' p) = (d, E, None)" for p
    using e(2) E by (simp add: cell_iv_def pending_cell_def ckey_def entry_key_def GetCoarseC_def strip_tmp_id)
  have "cells_ivs (mset (all_cells v1)) = cells_ivs (add_mset ?c0 ?R)" using cell_in_all [OF s(1)] by simp
  also have "\<dots> = add_mset (d, ?le, None) (cells_ivs ?R)"
    using s(2,3) unfolding cells_ivs_add by (simp add: cell_iv_def cell_def)
  finally have I: "intervals E v1 = add_mset (d, ?le, None) (cells_ivs ?R + mset (chain_ivs (vbm_end (VBM v1))) + mset (tvb_ivs ?t))"
    by (simp add: intervals_def live_ivs_cells)
  have e_del: "ew_e (fst (pending_cell E intra e' p)) = e'" for p by (simp add: pending_cell_def)
  have "let v5 = mark_pending s E intra e' pb v4; J = intervals E v1 - {#(d, ?le, None)#} in
        pend_inv E (N + 1) v5 \<and> ve_locked v5 = ve_locked v1 \<and> edge_num v5 = edge_num v1 \<and>
        intervals E v1 = add_mset (d, ?le, None) J \<and>
        intervals E v5 = (if is_delete e' then {#} else {#(d, E, None)#}) + add_mset (d, ?le, Some E) J"
    if "is_delete e' \<or> pb = word_of_nat idx" for pb
    using res [rule_format, OF that] I le(2) iv unfolding Let_def by (simp add: cells_ivs_add e_del)
  then show ?thesis using rv e4 old by (intro exI [of _ v4] exI [of _ idx]) simp
qed


text \<open>A write-only transaction meets no version of a later epoch.\<close>

lemma write_only_no_conflict:
  assumes "pend_inv E N v" "slot_in v s" "write_conflict txn E (fst (read_old v s))"
  shows "\<not> tx_write_only txn"
proof
  assume "tx_write_only txn"
  then have "E < GetCoarseC (item_e v s)" using assms(3) by (simp add: write_conflict_def read_old_def)
  moreover have "cell_ok E (tvb_at v (ring_slot E)) (cell v s)" using assms(1) cell_in_all [OF assms(2)] by (simp add: pend_inv_def)
  ultimately show False by (auto simp: cell_ok_def cell_def)
qed

text \<open>The insertion finds a live edge.\<close>

lemma insert_existing:
  assumes inva: "pend_inv E (N + 1) v1" and mg: "\<not> ve_locked v" "merge_if_full junk oldest v = Inr v1" and N: "N + 2 < 2 ^ 31"
    and d: "\<not> is_delete d" and tid: "tx_threadid txn < length (vd_vb_vector dd)" and intra: "next_intra txn dd \<noteq> INTRA_MAX"
    and s: "locate_or_add d w v1 = Inr (v1, s, False)" "slot_in v1 s" "ckey (cell v1 s) = d" "\<not> is_delete (ew_e (item_e v1 s))"
  shows "\<exists>v' txn' dd' ok. insert_edge_block junk oldest self (d, w) E txn v dd = Inr (v', txn', dd', ok) \<and>
     insert_outcome E (N + 2) d v1 v' ok \<and> (tx_write_only txn \<longrightarrow> ok)"
proof -
  have tv: "tvbs_ok E (N + 1) v1" using inva by (simp add: pend_inv_def)
  obtain m dd1 where m: "touch_tvb self E txn v1 dd = Inr (v1\<lparr>VBM := m\<rparr>, dd1)" "touched E v1 m"
    "tvbs_ok E (N + 1) (v1\<lparr>VBM := m\<rparr>)" "vd_intra_counter dd1 = vd_intra_counter dd"
    using touch_tvb_spec [OF tv tid, of self] by blast
  have old: "read_old (v1\<lparr>VBM := m\<rparr>) s = read_old v1 s" by (simp add: read_old_def)
  note run = insert_edge_block_def merge_if_full_def [symmetric] Let_def split_def
  show ?thesis
  proof (cases "write_conflict txn E (fst (read_old v1 s))")
    case True
    then have "insert_edge_block junk oldest self (d, w) E txn v dd = Inr (v1\<lparr>VBM := m, ve_locked := False\<rparr>, txn, dd1, False)"
      using mg s(1) m(1) old by (simp add: run)
    moreover have "insert_outcome E (N + 2) d v1 (v1\<lparr>VBM := m, ve_locked := False\<rparr>) False"
      using touched_pend_inv [OF inva m(2,3)] pend_inv_mono [of E "N + 1" _ "N + 2"] by (auto simp: insert_outcome_def)
    ultimately show ?thesis using write_only_no_conflict [OF inva s(2) True] by blast
  next
    case False
    have "next_intra txn dd1 = next_intra txn dd" using m(4) by (simp add: next_intra_def)
    then obtain intra' txn' dd' where gi: "get_intra_c txn dd1 = (intra', txn', dd')" "intra' \<noteq> INTRA_MAX"
      using get_intra_c_next [of txn dd1] intra by auto
    have e: "strip_del (fst (d, w)) = d" "strip_del d = d" using d by (simp_all add: strip_del_id)
    have N1: "N + 1 + 1 < 2 ^ 31" using N by simp
    obtain v4 idx where rv: "record_version (d, w) E s (has_tmp (ew_block (item_e v1 s))) (read_old v1 s) txn (v1\<lparr>VBM := m\<rparr>) dd1 =
        Inr (v4, idx, intra', txn', dd')" and e4: "item_e v4 s = item_e v1 s"
      and res: "\<forall>pb. (is_delete d \<or> pb = word_of_nat idx) \<longrightarrow>
        (let v5 = mark_pending s E intra' d pb v4; J = intervals E v1 - {#(d, GetCoarseC (item_e v1 s), None)#} in
         pend_inv E (N + 1 + 1) v5 \<and> ve_locked v5 = ve_locked v1 \<and> edge_num v5 = edge_num v1 \<and>
         intervals E v1 = add_mset (d, GetCoarseC (item_e v1 s), None) J \<and>
         intervals E v5 = (if is_delete d then {#} else {#(d, E, None)#}) + add_mset (d, GetCoarseC (item_e v1 s), Some E) J)"
      using write_live [OF inva s(2-4) N1 m(2,3) e gi] by blast
    have ed: "ew_e (item_e v4 s) = d" using e4 s(3,4) by (simp add: cell_def ckey_def entry_key_def strip_del_id)
    let ?v5 = "mark_pending s E intra' d (word_of_nat idx) v4"
    have "insert_edge_block junk oldest self (d, w) E txn v dd = Inr (?v5\<lparr>ve_locked := True\<rparr>, AddEB txn' self, dd', True)"
      using mg s(1) m(1) old False rv ed by (simp add: run)
    moreover have "insert_outcome E (N + 2) d v1 (?v5\<lparr>ve_locked := True\<rparr>) True"
      using res [rule_format, OF disjI2 [OF refl]] d by (auto simp: insert_outcome_def ins_effect_def Let_def)
    ultimately show ?thesis by blast
  qed
qed

text \<open>Otherwise it finds a deleted cell or adds one, and no version is displaced.\<close>

lemma insert_locates:
  assumes wf: "ve_wf v1" "tmp_ev v1 < TMPNUM" and d: "\<not> is_delete d" and safe: "d \<in> ve_keys v1 \<Longrightarrow> d \<in> ckey ` set (pa_cells v1) \<or> search_safe v1 d"
    and not_live: "\<not> (\<exists>s. locate_or_add d w v1 = Inr (v1, s, False) \<and> slot_in v1 s \<and> ckey (cell v1 s) = d \<and> \<not> is_delete (ew_e (item_e v1 s)))"
  obtains v2 s wd R c0 where "locate_or_add d w v1 = Inr (v2, s, wd)" "located v1 v2 s d R c0"
    "ew_e (item_e v2 s) = d" "\<And>c. c0 = Some c \<Longrightarrow> is_delete (ew_e (fst c))"
    "\<exists>li. (if wd then (0, 0, 0) else read_old v2 s) = (0, li, 0)"
proof (cases "d \<in> ve_keys v1")
  case True
  from locate_existing [OF wf(1) True d safe [OF True], of w] obtain s where
    s: "locate_or_add d w v1 = Inr (set_cell s ((item_e v1 s)\<lparr>ew_e := d\<rparr>, item_p v1 s) v1, s, is_delete (ew_e (item_e v1 s)))"
    "slot_in v1 s" "ckey (cell v1 s) = d"
    "located v1 (set_cell s ((item_e v1 s)\<lparr>ew_e := d\<rparr>, item_p v1 s) v1) s d (mset (all_cells v1) - {#cell v1 s#}) (Some (cell v1 s))"
    by blast
  have del: "is_delete (ew_e (item_e v1 s))"
  proof (rule ccontr)
    assume live: "\<not> is_delete (ew_e (item_e v1 s))"
    then have "ew_e (item_e v1 s) = d" using s(3) by (simp add: cell_def ckey_def entry_key_def strip_del_id)
    then have "(item_e v1 s)\<lparr>ew_e := d\<rparr> = item_e v1 s" by simp
    with not_live s live show False by (auto simp: set_cell_id)
  qed
  show ?thesis
    by (rule that [OF s(1,4)])
      (use del cell_set_cell [OF ve_wf_shape [OF wf(1)] s(2)] in \<open>auto simp: cell_def\<close>)
next
  case False
  from add_new_located [OF wf(1) False d wf(2), of w] obtain v2 where
    "locate_or_add d w v1 = Inr (v2, Tmp (tmp_ev v1), False)" "located v1 v2 (Tmp (tmp_ev v1)) d (mset (all_cells v1)) None"
    "item_e v2 (Tmp (tmp_ev v1)) = \<lparr>ew_e = d, ew_block = 0, ew_index = 0\<rparr>" by blast
  then show ?thesis by (intro that) (auto simp: GetCoarseC_def read_old_def)
qed

lemma insert_new:
  assumes inva: "pend_inv E (N + 1) v1" and mg: "\<not> ve_locked v" "merge_if_full junk oldest v = Inr v1" "\<not> ve_locked v1"
    and N: "N + 2 < 2 ^ 31" and d: "\<not> is_delete d"
    and tid: "tx_threadid txn < length (vd_vb_vector dd)" and intra: "next_intra txn dd \<noteq> INTRA_MAX"
    and l: "locate_or_add d w v1 = Inr (v2, s, wd)" "located v1 v2 s d R c0" "ew_e (item_e v2 s) = d"
      "\<And>c. c0 = Some c \<Longrightarrow> is_delete (ew_e (fst c))" and old: "(if wd then (0, 0, 0) else read_old v2 s) = (0, li, 0)"
  shows "\<exists>v' txn' dd'. insert_edge_block junk oldest self (d, w) E txn v dd = Inr (v', txn', dd', True) \<and> insert_outcome E (N + 2) d v1 v' True"
proof -
  have "VBM v2 = VBM v1" using l(2) by (simp add: located_def)
  then have tv: "tvbs_ok E (N + 1) v2" using inva by (simp add: pend_inv_def tvbs_ok_def tvb_at_def)
  obtain m dd1 where m: "touch_tvb self E txn v2 dd = Inr (v2\<lparr>VBM := m\<rparr>, dd1)" "touched E v2 m"
    "tvbs_ok E (N + 1) (v2\<lparr>VBM := m\<rparr>)" "vd_intra_counter dd1 = vd_intra_counter dd"
    using touch_tvb_spec [OF tv tid, of self] by blast
  have "next_intra txn dd1 = next_intra txn dd" using m(4) by (simp add: next_intra_def)
  then obtain intra' txn' dd' where gi: "get_intra_c txn dd1 = (intra', txn', dd')" "intra' \<noteq> INTRA_MAX"
    using get_intra_c_next [of txn dd1] intra by auto
  have N1: "N + 1 + 1 < 2 ^ 31" using N by simp
  have "read_old (v2\<lparr>VBM := m\<rparr>) s = read_old v2 s" by (simp add: read_old_def)
  then have old': "(if wd then (0, 0, 0) else read_old (v2\<lparr>VBM := m\<rparr>) s) = (0, li, 0)" using old by (simp only:)
  from insert_fresh [OF inva mg(3) l(2) N1 d l(3,4) m(2,3) gi, of w "has_tmp (ew_block (item_e v2 s))" li]
  obtain v4 idx where "record_version (d, w) E s (has_tmp (ew_block (item_e v2 s))) (0, li, 0) txn (v2\<lparr>VBM := m\<rparr>) dd1 = Inr (v4, idx, intra', txn', dd')"
    "insert_outcome E (N + 1 + 1) d v1 ((mark_pending s E intra' (ew_e (item_e v4 s)) (word_of_nat idx) v4)\<lparr>ve_locked := True\<rparr>) True"
    by blast
  moreover have "\<not> write_conflict txn E 0" by (simp add: write_conflict_def)
  ultimately show ?thesis
    using mg(1,2) l(1) m(1) old' by (simp add: insert_edge_block_def merge_if_full_def [symmetric] Let_def)
qed
lemma insert_correct:
  assumes inva: "pend_inv E N v" and unl: "\<not> ve_locked v" and N: "N + 2 < 2 ^ 31"
    and d: "\<not> is_delete d" and oldest: "\<not> has_tmp oldest" and safe: "lookup_safe junk oldest v d"
    and tid: "tx_threadid txn < length (vd_vb_vector dd)" and intra: "next_intra txn dd \<noteq> INTRA_MAX"
  shows "\<exists>v' txn' dd' ok. insert_edge_block junk oldest self (d, w) E txn v dd = Inr (v', txn', dd', ok) \<and>
     insert_outcome E (N + 2) d v v' ok \<and> (tx_write_only txn \<longrightarrow> ok)"
proof -
  obtain v1 where v1: "merge_if_full junk oldest v = Inr v1" "pend_inv E (N + 1) v1" "tmp_ev v1 < TMPNUM"
    "edge_num v1 = edge_num v" "ve_locked v1 = ve_locked v" "intervals E v1 = intervals E v"
    using merge_if_full_spec [OF inva oldest, of junk] N by auto
  have lift: "insert_outcome E (N + 2) d v1 v' ok \<Longrightarrow> insert_outcome E (N + 2) d v v' ok" for v' ok
    using v1(4,6) by (auto simp: insert_outcome_def split: if_splits)
  show ?thesis
  proof (cases "\<exists>s. locate_or_add d w v1 = Inr (v1, s, False) \<and> slot_in v1 s \<and> ckey (cell v1 s) = d \<and> \<not> is_delete (ew_e (item_e v1 s))")
    case True
    then show ?thesis using insert_existing [OF v1(2) unl v1(1) N d tid intra] lift by blast
  next
    case False
    have wf: "ve_wf v1" using v1(2) by (simp add: pend_inv_def)
    have "d \<in> ckey ` set (pa_cells v1) \<or> search_safe v1 d" if "d \<in> ve_keys v1"
      using safe v1(1) that by (auto simp: lookup_safe_def ve_keys_def)
    then obtain v2 s wd R c0 li where l: "locate_or_add d w v1 = Inr (v2, s, wd)" "located v1 v2 s d R c0" "ew_e (item_e v2 s) = d"
      "\<And>c. c0 = Some c \<Longrightarrow> is_delete (ew_e (fst c))" "(if wd then (0, 0, 0) else read_old v2 s) = (0, li, 0)"
      using insert_locates [OF wf v1(3) d _ False] by metis
    have "\<not> ve_locked v1" using unl v1(5) by simp
    from insert_new [OF v1(2) unl v1(1) this N d tid intra l, of self] show ?thesis using lift by blast
  qed
qed

section \<open>delete_edge_block\<close>

definition deletable :: "vertex_edges \<Rightarrow> dst_t \<Rightarrow> bool" where
  "deletable v d \<longleftrightarrow> (\<forall>c \<in> set (all_cells v). ckey c = d \<longrightarrow> \<not> is_delete (ew_e (fst c)))"

definition delete_outcome :: "epoch_t \<Rightarrow> nat \<Rightarrow> dst_t \<Rightarrow> vertex_edges \<Rightarrow> vertex_edges \<Rightarrow> bool \<Rightarrow> bool" where
  "delete_outcome E N d v v' ok \<longleftrightarrow> pend_inv E N v' \<and> edge_num v' = edge_num v \<and> ve_locked v' = ok \<and>
     (if ok then del_effect E d (intervals E v) (intervals E v') else intervals E v' = intervals E v)"

lemma open_interval_iff:
  assumes "deletable v d"
  shows "(\<exists>c. (d, c, None) \<in># intervals E v) \<longleftrightarrow> d \<in> ve_keys v"
proof
  assume "\<exists>c. (d, c, None) \<in># intervals E v"
  then obtain c where "(d, c, None) \<in># cells_ivs (mset (all_cells v))"
    by (auto simp: intervals_def live_ivs_cells closed_intervals)
  then show "d \<in> ve_keys v" by (auto simp: cells_ivs_def cell_iv_def ve_keys_all)
next
  assume "d \<in> ve_keys v"
  then obtain c where "c \<in> set (all_cells v)" "ckey c = d" by (auto simp: ve_keys_all)
  then have "(d, GetCoarseC (fst c), None) \<in># cells_ivs (mset (all_cells v))"
    using assms by (auto simp: cells_ivs_def cell_iv_def deletable_def intro!: image_eqI [of _ _ c])
  then show "\<exists>c. (d, c, None) \<in># intervals E v" by (auto simp: intervals_def live_ivs_cells)
qed

lemma delete_correct:
  assumes inva: "pend_inv E N v" and unl: "\<not> ve_locked v" and N: "N + 2 < 2 ^ 31"
    and d: "\<not> is_delete d" and oldest: "\<not> has_tmp oldest" and safe: "lookup_safe junk oldest v d"
    and tid: "tx_threadid txn < length (vd_vb_vector dd)" and intra: "next_intra txn dd \<noteq> INTRA_MAX"
    and live: "deletable v d"
  shows "\<exists>v' txn' dd' ok. delete_edge_block junk oldest self (d, w) E txn v dd = Inr (v', txn', dd', ok) \<and>
     delete_outcome E (N + 2) d v v' ok \<and>
     (tx_write_only txn \<longrightarrow> ok = (\<exists>c. (d, c, None) \<in># intervals E v))"
proof -
  obtain v1 where v1: "merge_if_full junk oldest v = Inr v1" "pend_inv E (N + 1) v1"
    "edge_num v1 = edge_num v" "ve_locked v1 = ve_locked v" "intervals E v1 = intervals E v"
    "set (all_cells v1) \<subseteq> set (all_cells v)"
    using merge_if_full_spec [OF inva oldest, of junk] N by auto
  have wf: "ve_wf v1" and tv: "tvbs_ok E (N + 1) v1" using v1(2) by (auto simp: pend_inv_def)
  have live1: "deletable v1 d" using live v1(6) by (auto simp: deletable_def)
  have merge: "bind_res (if tmp_ev v = TMPNUM then merge_tmpev_with_eb junk oldest v else Inr v) f = f v1" for f :: "_ \<Rightarrow> write_result"
    using v1(1) by (simp add: merge_if_full_def)
  have lift: "delete_outcome E (N + 2) d v1 v' ok \<Longrightarrow> delete_outcome E (N + 2) d v v' ok" for v' ok
    using v1(3,5) by (auto simp: delete_outcome_def split: if_splits)
  have "nonempty d" using d by (auto simp: is_delete_bit FLAG_EMPTY_SLOT_def)
  then have get: "getDestHashTableVal2 (ve_M v1) d = Some (d \<in> ve_keys v1)"
    using ht2.get_law [of "ve_M v1" d] wf by (simp add: ve_wf_def)
  have has: "(\<exists>c. (d, c, None) \<in># intervals E v) \<longleftrightarrow> d \<in> ve_keys v1"
    using open_interval_iff [OF live1, of E] v1(5) by simp
  show ?thesis
  proof (cases "d \<in> ve_keys v1")
    case False
    then have "delete_edge_block junk oldest self (d, w) E txn v dd = Inr (v1\<lparr>ve_locked := False\<rparr>, txn, dd, False)"
      using unl merge get by (simp add: delete_edge_block_def)
    moreover have "delete_outcome E (N + 2) d v1 (v1\<lparr>ve_locked := False\<rparr>) False"
      using pend_inv_mono [OF v1(2), of "N + 2"] by (simp add: delete_outcome_def)
    ultimately show ?thesis using lift has False by blast
  next
    case True
    have "d \<in> ckey ` set (pa_cells v1) \<or> search_safe v1 d"
      using safe v1(1) True by (auto simp: lookup_safe_def ve_keys_def)
    from get_edge_index_finds [OF wf True this] obtain s where
      s: "get_edge_index v1 d = Inr (Some (s, offset_of s))" "slot_in v1 s" "ckey (cell v1 s) = d" by blast
    have not_del: "\<not> is_delete (ew_e (item_e v1 s))"
      using live1 cell_in_all [OF s(2)] s(3) by (auto simp: deletable_def cell_def)
    obtain m dd1 where m: "touch_tvb self E txn v1 dd = Inr (v1\<lparr>VBM := m\<rparr>, dd1)" "touched E v1 m"
      "tvbs_ok E (N + 1) (v1\<lparr>VBM := m\<rparr>)" "vd_intra_counter dd1 = vd_intra_counter dd"
      using touch_tvb_spec [OF tv tid, of self] by blast
    have old: "read_old (v1\<lparr>VBM := m\<rparr>) s = read_old v1 s" by (simp add: read_old_def)
    show ?thesis
    proof (cases "write_conflict txn E (fst (read_old v1 s))")
      case conflict: True
      then have "delete_edge_block junk oldest self (d, w) E txn v dd = Inr (v1\<lparr>VBM := m, ve_locked := False\<rparr>, txn, dd1, False)"
        using unl merge s(1) m(1) old get True by (simp add: delete_edge_block_def Let_def split_def)
      moreover have "delete_outcome E (N + 2) d v1 (v1\<lparr>VBM := m, ve_locked := False\<rparr>) False"
        using touched_pend_inv [OF v1(2) m(2,3)] pend_inv_mono [of E "N + 1" _ "N + 2"]
        by (auto simp: delete_outcome_def)
      ultimately show ?thesis using lift write_only_no_conflict [OF v1(2) s(2) conflict] by blast
    next
      case False
      have "next_intra txn dd1 = next_intra txn dd" using m(4) by (simp add: next_intra_def)
      then obtain intra' txn' dd' where gi: "get_intra_c txn dd1 = (intra', txn', dd')" "intra' \<noteq> INTRA_MAX"
        using get_intra_c_next [of txn dd1] intra by auto
      have e: "strip_del (fst (d OR DELETION_MASK, w)) = d" "strip_del (d OR DELETION_MASK) = d"
        using d by (simp_all add: strip_del_id)
      have N1: "N + 1 + 1 < 2 ^ 31" using N by simp
      obtain v4 idx where rv: "record_version (d OR DELETION_MASK, w) E s (has_tmp (ew_block (item_e v1 s))) (read_old v1 s) txn
          (v1\<lparr>VBM := m\<rparr>) dd1 = Inr (v4, idx, intra', txn', dd')" and e4: "item_e v4 s = item_e v1 s"
        and res: "\<forall>pb. (is_delete (d OR DELETION_MASK) \<or> pb = word_of_nat idx) \<longrightarrow>
          (let v5 = mark_pending s E intra' (d OR DELETION_MASK) pb v4; J = intervals E v1 - {#(d, GetCoarseC (item_e v1 s), None)#} in
           pend_inv E (N + 1 + 1) v5 \<and> ve_locked v5 = ve_locked v1 \<and> edge_num v5 = edge_num v1 \<and>
           intervals E v1 = add_mset (d, GetCoarseC (item_e v1 s), None) J \<and>
           intervals E v5 = (if is_delete (d OR DELETION_MASK) then {#} else {#(d, E, None)#}) + add_mset (d, GetCoarseC (item_e v1 s), Some E) J)"
        using write_live [OF v1(2) s(2,3) not_del N1 m(2,3) e gi] by blast
      have ed: "ew_e (item_e v4 s) = d" using e4 s(3) not_del by (simp add: cell_def ckey_def entry_key_def strip_del_id)
      let ?v5 = "mark_pending s E intra' (d OR DELETION_MASK) 0 v4"
      have "delete_edge_block junk oldest self (d, w) E txn v dd = Inr (?v5\<lparr>ve_locked := True\<rparr>, AddEB txn' self, dd', True)"
        using unl merge s(1) m(1) old False rv ed get True by (simp add: delete_edge_block_def Let_def split_def)
      moreover have "delete_outcome E (N + 2) d v1 (?v5\<lparr>ve_locked := True\<rparr>) True"
        using res [rule_format, of 0] by (auto simp: delete_outcome_def del_effect_def Let_def)
      ultimately show ?thesis using lift has True by blast
    qed
  qed
qed

end
