(* ===== verification/Vertex_Transform.thy ===== *)
theory Vertex_Transform
  imports Vertex_Ops
begin

text \<open>
  \<open>Transform\<close>: for every order of equal entries that \<open>std::sort\<close> may choose, publishing an epoch's
  temporary block never faults, clears every pending mark, leaves the version intervals as they
  are and pushes a well-formed version block.
\<close>

section \<open>Steps that only settle pending cells\<close>

definition cell_settles :: "ew_pair \<Rightarrow> ew_pair \<Rightarrow> bool" where
  "cell_settles c c' \<longleftrightarrow> ew_e (fst c') = ew_e (fst c) \<and> GetCoarseC (fst c') = GetCoarseC (fst c) \<and>
     (ew_index (fst c) \<noteq> INTRA_MAX \<longrightarrow> ew_index (fst c') \<noteq> INTRA_MAX) \<and>
     (has_tmp (ew_block (fst c')) \<longrightarrow> has_tmp (ew_block (fst c)))"

definition entry_relinks :: "version_entry \<Rightarrow> version_entry \<Rightarrow> bool" where
  "entry_relinks x x' \<longleftrightarrow> (\<exists>l. x' = x\<lparr>ent_link := l\<rparr> \<and> link_index l = link_index (ent_link x) \<and>
     strip_tmp (link_block l) = strip_tmp (link_block (ent_link x)))"

definition tvb_relinks :: "tmp_version_block \<Rightarrow> tmp_version_block \<Rightarrow> bool" where
  "tvb_relinks t t' \<longleftrightarrow> tmp_num t' = tmp_num t \<and> version_num t' = version_num t \<and>
     tvb_timestamp t' = tvb_timestamp t \<and> list_all2 entry_relinks (tmp_entry t) (tmp_entry t')"

definition settles :: "vertex_edges \<Rightarrow> vertex_edges \<Rightarrow> bool" where
  "settles v v' \<longleftrightarrow>
     ve_wf v' \<and> list_all2 cell_settles (tb_cells v) (tb_cells v') \<and> list_all2 cell_settles (pa_cells v) (pa_cells v') \<and>
     merge_times v' = merge_times v \<and> ve_num v' = ve_num v \<and> edge_num v' = edge_num v \<and> ve_locked v' = ve_locked v \<and>
     vbm_end (VBM v') = vbm_end (VBM v) \<and> vbm_end_epoch (VBM v') = vbm_end_epoch (VBM v) \<and>
     vbm_index (VBM v') = vbm_index (VBM v) \<and>
     list_all2 tvb_relinks (vbm_tvb_array (VBM v)) (vbm_tvb_array (VBM v'))"

definition cleaned :: "vertex_edges \<Rightarrow> dst_t \<Rightarrow> bool" where
  "cleaned v d \<longleftrightarrow> (\<forall>c \<in> set (all_cells v). ckey c = d \<longrightarrow> \<not> has_tmp (ew_block (fst c)))"

lemma relinks_refl [simp]: "cell_settles c c" "entry_relinks x x" "tvb_relinks t t"
proof -
  show "cell_settles c c" by (simp add: cell_settles_def)
  show e: "entry_relinks x x" for x by (auto simp: entry_relinks_def intro!: exI [of _ "ent_link x"])
  show "tvb_relinks t t" by (simp add: tvb_relinks_def list_all2_same e)
qed

lemma settles_refl: "ve_wf v \<Longrightarrow> settles v v"
  by (simp add: settles_def list_all2_same)

lemma settles_refl_right: "settles u v \<Longrightarrow> settles v v"
  by (rule settles_refl) (simp add: settles_def)

lemma entry_relinks_trans: "entry_relinks x y \<Longrightarrow> entry_relinks y z \<Longrightarrow> entry_relinks x z"
  by (auto simp: entry_relinks_def)

lemma tvb_relinks_trans: "tvb_relinks x y \<Longrightarrow> tvb_relinks y z \<Longrightarrow> tvb_relinks x z"
  using transpD [OF list.rel_transp [OF transpI], of entry_relinks] entry_relinks_trans
  unfolding tvb_relinks_def by metis

lemma settles_trans:
  assumes "settles u v" "settles v w"
  shows "settles u w"
proof -
  have "transp cell_settles" by (rule transpI) (auto simp: cell_settles_def)
  note cells = transpD [OF list.rel_transp [OF this]]
  have "transp tvb_relinks" by (rule transpI) (rule tvb_relinks_trans)
  note tvbs = transpD [OF list.rel_transp [OF this]]
  have "list_all2 cell_settles (tb_cells u) (tb_cells w)" "list_all2 cell_settles (pa_cells u) (pa_cells w)"
    "list_all2 tvb_relinks (vbm_tvb_array (VBM u)) (vbm_tvb_array (VBM w))"
    using assms cells [of "tb_cells u" "tb_cells v" "tb_cells w"] cells [of "pa_cells u" "pa_cells v" "pa_cells w"]
      tvbs [of "vbm_tvb_array (VBM u)" "vbm_tvb_array (VBM v)" "vbm_tvb_array (VBM w)"]
    by (simp_all add: settles_def)
  then show ?thesis using assms by (simp add: settles_def)
qed

lemma settles_ckey: "cell_settles c c' \<Longrightarrow> ckey c' = ckey c"
  by (simp add: cell_settles_def ckey_def entry_key_def)

lemma settles_all: "settles v v' \<Longrightarrow> list_all2 cell_settles (all_cells v) (all_cells v')"
  by (simp add: settles_def all_cells_def list_all2_appendI)

lemma settles_slots:
  assumes "settles v v'"
  shows "tmp_ev v' = tmp_ev v" "edges_and_versions v' = edges_and_versions v"
    "slot_in v' s = slot_in v s" "slot_pos v' s = slot_pos v s"
proof -
  show e: "tmp_ev v' = tmp_ev v" "edges_and_versions v' = edges_and_versions v"
    using assms by (auto simp: settles_def tb_cells_def pa_cells_def dest!: list_all2_lengthD)
  show "slot_in v' s = slot_in v s" "slot_pos v' s = slot_pos v s" by (cases s; simp add: e)+
qed

lemma settles_cell:
  assumes "settles v v'" "slot_in v s"
  shows "cell_settles (cell v s) (cell v' s)"
proof -
  have "slot_in v' s" using assms settles_slots by simp
  then show ?thesis
    using list_all2_nthD [OF settles_all [OF assms(1)] slot_pos_less [OF assms(2)]]
      all_cells_slot [OF assms(2)] all_cells_slot [of v' s] settles_slots [OF assms(1)] by simp
qed

lemma settles_keys:
  assumes "settles v v'"
  shows "map ckey (pa_cells v') = map ckey (pa_cells v)" "map ckey (all_cells v') = map ckey (all_cells v)"
proof -
  have "map ckey ys = map ckey xs" if "list_all2 cell_settles xs ys" for xs ys
    using that by (induction rule: list_all2_induct) (auto dest: settles_ckey)
  then show "map ckey (pa_cells v') = map ckey (pa_cells v)" "map ckey (all_cells v') = map ckey (all_cells v)"
    using assms settles_all [OF assms] by (auto simp: settles_def)
qed

lemma settles_cleaned:
  assumes "settles v v'" "cleaned v d"
  shows "cleaned v' d"
  unfolding cleaned_def
proof (intro ballI impI)
  fix c' assume c': "c' \<in> set (all_cells v')" "ckey c' = d"
  obtain i where i: "i < length (all_cells v')" "all_cells v' ! i = c'" using c'(1) by (auto simp: in_set_conv_nth)
  have len: "length (all_cells v') = length (all_cells v)" using settles_all [OF assms(1)] by (simp add: list_all2_lengthD)
  have "cell_settles (all_cells v ! i) c'" using list_all2_nthD [OF settles_all [OF assms(1)], of i] i len by simp
  then show "\<not> has_tmp (ew_block (fst c'))"
    using assms(2) i len c'(2) settles_ckey by (fastforce simp: cleaned_def cell_settles_def)
qed

lemma settles_placed: "settles v v' \<Longrightarrow> entry_placed v x \<Longrightarrow> entry_placed v' x"
  unfolding entry_placed_def
  using settles_slots(3) settles_cell settles_ckey settles_keys(1)
  by (smt (verit) list.set_map settles_def)

lemma settles_set_cell:
  assumes wf: "ve_wf v" and s: "slot_in v s" and c: "cell_settles (cell v s) c"
  shows "settles v (set_cell s c v)"
proof -
  have wf': "ve_wf (set_cell s c v)" by (rule set_cell_wf [OF wf s settles_ckey [OF c]])
  have "list_all2 cell_settles xs (xs[i := y])" if "cell_settles (xs ! i) y" for xs i y
    using list_all2_update_cong [of cell_settles xs xs "xs ! i" y i] that by (simp add: list_all2_same)
  then have "list_all2 cell_settles (tb_cells v) (tb_cells (set_cell s c v))"
    "list_all2 cell_settles (pa_cells v) (pa_cells (set_cell s c v))"
    using set_cell_cells [OF ve_wf_shape [OF wf] s, of c] s c
    by (cases s; simp add: list_all2_same cell_def tb_cells_def pa_cells_def cells_nth)+
  then show ?thesis using wf' by (simp add: settles_def list_all2_same)
qed

lemma settles_set_tvb:
  assumes "ve_wf v" "k < length (vbm_tvb_array (VBM v))" "tvb_relinks (tvb_at v k) t"
  shows "settles v (set_tvb k t v)"
proof -
  have "list_all2 tvb_relinks (vbm_tvb_array (VBM v)) ((vbm_tvb_array (VBM v))[k := t])"
    using assms(2,3) by (auto simp: list_all2_conv_all_nth nth_list_update tvb_at_def)
  then show ?thesis using assms(1) by (simp add: settles_def list_all2_same) (simp add: set_tvb_def)
qed

lemma settles_entry:
  assumes "settles v v'" "k < length (vbm_tvb_array (VBM v))"
  shows "tvb_relinks (tvb_at v k) (tvb_at v' k)"
  using assms by (auto simp: settles_def tvb_at_def dest: list_all2_nthD)

lemma ChangeLastIndex_relinks:
  assumes "i < length (tmp_entry t)"
  shows "\<exists>t'. ChangeLastIndex t i l = Inr t' \<and> tvb_relinks t t'"
proof -
  have "tmp_entry t \<noteq> []" using assms by auto
  moreover have "entry_relinks x (x\<lparr>ent_link := (ent_link x)\<lparr>link_link := l, link_block := link_block (ent_link x) XOR TMPVB_MASK\<rparr>\<rparr>)" for x
    by (auto simp: entry_relinks_def strip_tmp_xor)
  ultimately show ?thesis
    using assms by (auto simp: ChangeLastIndex_def Let_def tvb_relinks_def list_all2_conv_all_nth nth_list_update)
qed

lemma locate_item_finds:
  assumes wf: "ve_wf v" and x: "entry_placed v x"
  shows "\<exists>s. locate_item x v = Inr s \<and> slot_in v s \<and> ckey (cell v s) = strip_del (ent_edge x)"
proof (cases "ent_merge_times x = merge_times v")
  case True
  let ?s = "slot_of_offset (ent_offset x)"
  have s: "slot_in v ?s" "ckey (cell v ?s) = strip_del (ent_edge x)" using x True by (auto simp: entry_placed_def)
  have "slot_in_range v ?s" using s(1) wf by (cases ?s) (auto simp: ve_wf_def)
  with True s show ?thesis by (auto simp: locate_item_def Let_def)
next
  case False
  then have "strip_del (ent_edge x) \<in> ckey ` set (pa_cells v)" using x by (simp add: entry_placed_def)
  from get_edge_index2_finds [OF wf this] False show ?thesis by (auto simp: locate_item_def)
qed

section \<open>The loops\<close>

definition entry_of :: "epoch_t \<Rightarrow> vertex_edges \<Rightarrow> nat \<Rightarrow> version_entry" where
  "entry_of E v idx = tmp_entry (tvb_at v (ring_slot E)) ! idx"

definition rec_key :: "epoch_t \<Rightarrow> vertex_edges \<Rightarrow> nat \<Rightarrow> dst_t" where
  "rec_key E v idx = strip_del (ent_edge (entry_of E v idx))"

lemma unique_cell:
  assumes "ve_wf v" "slot_in v s" "c \<in> set (all_cells v)" "ckey c = ckey (cell v s)"
  shows "c = cell v s"
proof -
  obtain s' where s': "slot_in v s'" "cell v s' = c" using cell_from_all [OF assms(3)] by blast
  then show ?thesis using same_key_same_slot [OF assms(1) s'(1) assms(2)] assms(4)
      all_cells_slot [OF s'(1)] all_cells_slot [OF assms(2)] by metis
qed

lemma entry_located:
  assumes inva: "pend_inv E N v0" and st: "settles v0 v" and idx: "idx < version_num (tvb_at v0 (ring_slot E))"
  shows "entry_relinks (entry_of E v0 idx) (entry_of E v idx)"
    and "\<exists>s. locate_item (entry_of E v idx) v = Inr s \<and> slot_in v s \<and> ckey (cell v s) = rec_key E v0 idx \<and>
      GetCoarseC (item_e v s) = E \<and> ew_index (item_e v s) \<noteq> INTRA_MAX"
proof -
  let ?t = "tvb_at v0 (ring_slot E)" and ?x = "entry_of E v0 idx" and ?x' = "entry_of E v idx"
  have len: "ring_slot E < length (vbm_tvb_array (VBM v0))" using inva by (simp add: pend_inv_def tvbs_ok_def)
  have tok: "tvb_ok ?t" using inva by (simp add: pend_inv_def tvbs_ok_def Let_def)
  have live: "?x \<in> set (tvb_live ?t)"
  proof -
    have "tvb_live ?t ! idx = ?x" using idx by (simp add: tvb_live_def entry_of_def)
    then show ?thesis using idx length_tvb_live [OF tok] by (metis nth_mem)
  qed
  have "tvb_relinks ?t (tvb_at v (ring_slot E))" by (rule settles_entry [OF st len])
  then show rel: "entry_relinks ?x ?x'"
    using idx tok list_all2_nthD [of entry_relinks "tmp_entry ?t" "tmp_entry (tvb_at v (ring_slot E))" idx]
    by (simp add: tvb_relinks_def entry_of_def tvb_ok_def)
  have placed: "entry_placed v0 ?x" "strip_del (ent_edge ?x) \<in> marked_keys (mset (all_cells v0))"
    using inva live by (auto simp: pend_inv_def)
  have "entry_placed v ?x'"
    using settles_placed [OF st placed(1)] rel by (auto simp: entry_relinks_def entry_placed_def)
  moreover have wf: "ve_wf v" using st by (simp add: settles_def)
  ultimately obtain s where s: "locate_item ?x' v = Inr s" "slot_in v s" "ckey (cell v s) = strip_del (ent_edge ?x')"
    using locate_item_finds by blast
  have key: "strip_del (ent_edge ?x') = rec_key E v0 idx" using rel by (auto simp: entry_relinks_def rec_key_def)
  have s0: "slot_in v0 s" using s(2) settles_slots [OF st] by simp
  have cs: "cell_settles (cell v0 s) (cell v s)" by (rule settles_cell [OF st s0])
  have wf0: "ve_wf v0" using inva by (simp add: pend_inv_def)
  obtain c where c: "c \<in> set (all_cells v0)" "ckey c = rec_key E v0 idx" "has_tmp (ew_block (fst c))"
    using placed(2) by (auto simp: marked_keys_def rec_key_def)
  have "c = cell v0 s"
    by (rule unique_cell [OF wf0 s0 c(1)]) (use s(3) key c(2) settles_ckey [OF cs] in simp)
  moreover have "cell_ok E ?t c" using inva c(1) by (simp add: pend_inv_def)
  ultimately have "GetCoarseC (item_e v s) = E" "ew_index (item_e v s) \<noteq> INTRA_MAX"
    using c(3) cs by (auto simp: cell_ok_def cell_settles_def cell_def)
  then show "\<exists>s. locate_item ?x' v = Inr s \<and> slot_in v s \<and> ckey (cell v s) = rec_key E v0 idx \<and>
      GetCoarseC (item_e v s) = E \<and> ew_index (item_e v s) \<noteq> INTRA_MAX"
    using s key by auto
qed

lemma cleaned_cell:
  assumes "ve_wf v" "slot_in v s" "ckey (cell v s) = d" "\<not> has_tmp (ew_block (item_e v s))"
  shows "cleaned v d"
  unfolding cleaned_def
proof (intro ballI impI)
  fix c assume c: "c \<in> set (all_cells v)" "ckey c = d"
  have "c = cell v s" by (rule unique_cell [OF assms(1,2) c(1)]) (simp add: c(2) assms(3))
  then show "\<not> has_tmp (ew_block (fst c))" using assms(4) by (simp add: cell_def)
qed

lemma settle_cell_at:
  fixes p
  assumes "ve_wf v" "slot_in v s" "GetCoarseC (item_e v s) = E" "\<not> has_tmp E" "i \<noteq> INTRA_MAX" "ckey (cell v s) = d"
  defines "v' \<equiv> set_cell s ((item_e v s)\<lparr>ew_block := E, ew_index := i\<rparr>, p) v"
  shows "settles v v'" "cleaned v' d" "item_p v' s = p" "item_e v' s = (item_e v s)\<lparr>ew_block := E, ew_index := i\<rparr>"
proof -
  have cs: "cell_settles (cell v s) ((item_e v s)\<lparr>ew_block := E, ew_index := i\<rparr>, p)"
    using assms(3-5) by (simp add: cell_settles_def cell_def GetCoarseC_def strip_tmp_id)
  show st: "settles v v'" unfolding v'_def by (rule settles_set_cell [OF assms(1,2) cs])
  have c: "cell v' s = ((item_e v s)\<lparr>ew_block := E, ew_index := i\<rparr>, p)"
    unfolding v'_def by (rule cell_set_cell [OF ve_wf_shape [OF assms(1)] assms(2)])
  then show i: "item_p v' s = p" "item_e v' s = (item_e v s)\<lparr>ew_block := E, ew_index := i\<rparr>" by (simp_all add: cell_def)
  have "ckey (cell v' s) = d" using c settles_ckey [OF cs] assms(6) by simp
  then show "cleaned v' d"
    using st i assms(2,4) settles_slots(3) [OF st] by (intro cleaned_cell [of v' s]) (auto simp: settles_def)
qed

text \<open>One turn of the first loop, for an entry without an old version.\<close>

lemma publish_new_turn:
  assumes inva: "pend_inv E N v0" and st: "settles v0 v" and idx: "idx < version_num (tvb_at v0 (ring_slot E))"
    and le: "ent_last_epoch (entry_of E v0 idx) = 0"
  shows "\<exists>v'. settles v v' \<and> (\<not> HasNextVB (ent_link (entry_of E v0 idx)) \<longrightarrow> cleaned v' (rec_key E v0 idx)) \<and>
    (\<forall>m i indices a ed. indices ! i = idx \<longrightarrow>
       publish_new (ring_slot E) E (Suc m) i (v, indices, a, ed) =
       publish_new (ring_slot E) E m (i + 1) (v', indices, a, ed + 1))"
proof -
  let ?k = "ring_slot E" and ?x = "entry_of E v0 idx" and ?x' = "entry_of E v idx"
  obtain s where s: "locate_item ?x' v = Inr s" "slot_in v s" "ckey (cell v s) = rec_key E v0 idx"
    "GetCoarseC (item_e v s) = E" "ew_index (item_e v s) \<noteq> INTRA_MAX" using entry_located(2) [OF inva st idx] by blast
  obtain l where l: "?x' = ?x\<lparr>ent_link := l\<rparr>" "link_index l = link_index (ent_link ?x)"
    "strip_tmp (link_block l) = strip_tmp (link_block (ent_link ?x))"
    using entry_located(1) [OF inva st idx] by (auto simp: entry_relinks_def)
  have E: "\<not> has_tmp E" using inva by (simp add: pend_inv_def published_ok_def)
  have wf: "ve_wf v" using st by (simp add: settles_def)
  have tok: "tvb_ok (tvb_at v0 ?k)" using inva by (simp add: pend_inv_def tvbs_ok_def Let_def)
  have x_ok: "entry_ok E (version_num (tvb_at v0 ?k)) ?x"
  proof -
    have "tvb_live (tvb_at v0 ?k) ! idx = ?x" using idx by (simp add: tvb_live_def entry_of_def)
    then have "?x \<in> set (tvb_live (tvb_at v0 ?k))" using idx length_tvb_live [OF tok] by (metis nth_mem)
    then show ?thesis using inva by (simp add: pend_inv_def tvbs_ok_def Let_def)
  qed
  have not_del: "\<not> is_delete (ent_edge ?x)" and ni: "ent_new_intra_c ?x \<noteq> INTRA_MAX" using x_ok le by (auto simp: entry_ok_def)
  have next_eq: "HasNextVB (ent_link ?x') = HasNextVB (ent_link ?x)" using l by (simp add: HasNextVB_def)
  show ?thesis
  proof (cases "HasNextVB (ent_link ?x)")
    case False
    let ?e = "(item_e v s)\<lparr>ew_block := E, ew_index := ent_new_intra_c ?x\<rparr>"
    let ?p = "(ew_clear (item_p v s))\<lparr>ew_e := ent_weight ?x\<rparr>"
    let ?v' = "set_cell s (?e, ?p) v"
    note sh = ve_wf_shape [OF wf]
    have one: "set_item_e s ?e v = set_cell s (?e, item_p v s) v" by (rule set_item_e_cell [OF sh s(2)])
    have two: "set_item_p s (ew_clear (item_p v s)) (set_cell s (?e, item_p v s) v) = set_cell s (?e, ew_clear (item_p v s)) v"
      using cell_set_cell [OF sh s(2), of "(?e, item_p v s)"] sh s(2)
      by (simp add: set_item_p_cell cell_def set_cell_set_cell)
    have three: "set_item_p s ?p (set_cell s (?e, ew_clear (item_p v s)) v) = ?v'"
      using cell_set_cell [OF sh s(2), of "(?e, ew_clear (item_p v s))"] sh s(2)
      by (simp add: set_item_p_cell cell_def set_cell_set_cell)
    have p1: "item_p (set_cell s (?e, item_p v s) v) s = item_p v s"
      "item_p (set_cell s (?e, ew_clear (item_p v s)) v) s = ew_clear (item_p v s)"
      using cell_set_cell [OF sh s(2), of "(?e, item_p v s)"] cell_set_cell [OF sh s(2), of "(?e, ew_clear (item_p v s))"]
      by (simp_all add: cell_def)
    have "publish_new ?k E (Suc m) i (v, indices, a, ed) = publish_new ?k E m (i + 1) (?v', indices, a, ed + 1)"
      if "indices ! i = idx" for m i indices a ed
      using that le not_del s(1) False l next_eq one two three p1
      by (simp add: entry_of_def [symmetric] Let_def)
    moreover note settle_cell_at(1,2) [OF wf s(2,4) E ni s(3), where p = ?p]
    ultimately show ?thesis by blast
  next
    case True
    have li: "unat (link_index l) < version_num (tvb_at v0 ?k)" "ring_slot (link_block l) = ?k"
    proof -
      show "unat (link_index l) < version_num (tvb_at v0 ?k)" using x_ok le True l(2) by (simp add: entry_ok_def)
      have "strip_tmp (link_block l) = E" using x_ok le True l(3) by (simp add: entry_ok_def)
      then show "ring_slot (link_block l) = ?k" using ring_slot_strip by metis
    qed
    have len: "?k < length (vbm_tvb_array (VBM v0))" using inva by (simp add: pend_inv_def tvbs_ok_def)
    have tr: "tvb_relinks (tvb_at v0 ?k) (tvb_at v ?k)" by (rule settles_entry [OF st len])
    have "unat (link_index l) < length (tmp_entry (tvb_at v ?k))"
      using li(1) tok tr by (auto simp: tvb_relinks_def tvb_ok_def dest!: list_all2_lengthD)
    then obtain t' where t': "ChangeLastIndex (tvb_at v ?k) (unat (link_index l)) 0 = Inr t'" "tvb_relinks (tvb_at v ?k) t'"
      using ChangeLastIndex_relinks by blast
    have len': "?k < length (vbm_tvb_array (VBM v))" using len st by (auto simp: settles_def dest!: list_all2_lengthD)
    have st1: "settles v (set_tvb ?k t' v)" by (rule settles_set_tvb [OF wf len' t'(2)])
    let ?p = "(item_p v s)\<lparr>ew_e := ent_weight ?x\<rparr>"
    let ?v' = "set_cell s (item_e v s, ?p) (set_tvb ?k t' v)"
    have st2: "settles (set_tvb ?k t' v) ?v'"
      by (rule settles_set_cell) (use wf s(2) in \<open>auto simp: cell_settles_def cell_def\<close>)
    have "publish_new ?k E (Suc m) i (v, indices, a, ed) = publish_new ?k E m (i + 1) (?v', indices, a, ed + 1)"
      if "indices ! i = idx" for m i indices a ed
    proof -
      have "set_item_p s ?p (set_tvb ?k t' v) = ?v'"
        using set_item_p_cell [of "set_tvb ?k t' v" s ?p] wf s(2) by (simp add: ve_wf_shape)
      then show ?thesis using that le not_del s(1) True l next_eq li(2) t'(1)
        by (simp add: entry_of_def [symmetric] Let_def)
    qed
    then show ?thesis using settles_trans [OF st1 st2] True by blast
  qed
qed

definition is_new :: "epoch_t \<Rightarrow> vertex_edges \<Rightarrow> nat \<Rightarrow> bool" where
  "is_new E v idx \<longleftrightarrow> ent_last_epoch (entry_of E v idx) = 0"

lemma publish_new_loop:
  assumes inva: "pend_inv E N v0" and idxs: "set indices \<subseteq> {0..<version_num (tvb_at v0 (ring_slot E))}"
  shows "settles v0 v \<Longrightarrow> i + m = length indices \<Longrightarrow>
    \<exists>v'. publish_new (ring_slot E) E m i (v, indices, 0, ed) =
        Inr ((v', indices, 0, ed + int (length (takeWhile (is_new E v0) (drop i indices)))),
             i + length (takeWhile (is_new E v0) (drop i indices))) \<and>
      settles v v' \<and>
      (\<forall>idx \<in> set (takeWhile (is_new E v0) (drop i indices)).
         \<not> HasNextVB (ent_link (entry_of E v0 idx)) \<longrightarrow> cleaned v' (rec_key E v0 idx))"
proof (induction m arbitrary: v i ed)
  case 0
  then show ?case by (auto intro: settles_refl_right)
next
  case (Suc m)
  let ?idx = "indices ! i"
  have i: "i < length indices" using Suc.prems(2) by simp
  then have drop: "drop i indices = ?idx # drop (i + 1) indices" by (simp add: Cons_nth_drop_Suc)
  have idx: "?idx < version_num (tvb_at v0 (ring_slot E))" using idxs i by (auto dest: nth_mem)
  show ?case
  proof (cases "is_new E v0 ?idx")
    case False
    have "ent_last_epoch (entry_of E v ?idx) = ent_last_epoch (entry_of E v0 ?idx)"
      using entry_located(1) [OF inva Suc.prems(1) idx] by (auto simp: entry_relinks_def)
    then show ?thesis
      using False drop Suc.prems(1) by (auto simp: is_new_def entry_of_def [symmetric] intro: settles_refl_right)
  next
    case True
    obtain v1 where v1: "settles v v1"
      "\<not> HasNextVB (ent_link (entry_of E v0 ?idx)) \<longrightarrow> cleaned v1 (rec_key E v0 ?idx)"
      "publish_new (ring_slot E) E (Suc m) i (v, indices, 0, ed) =
       publish_new (ring_slot E) E m (i + 1) (v1, indices, 0, ed + 1)"
      using publish_new_turn [OF inva Suc.prems(1) idx] True unfolding is_new_def by blast
    have st1: "settles v0 v1" by (rule settles_trans [OF Suc.prems(1) v1(1)])
    have "i + 1 + m = length indices" using Suc.prems(2) by simp
    from Suc.IH [OF st1 this, of "ed + 1"] obtain v' where
      v': "publish_new (ring_slot E) E m (i + 1) (v1, indices, 0, ed + 1) =
        Inr ((v', indices, 0, ed + 1 + int (length (takeWhile (is_new E v0) (drop (i + 1) indices)))),
             i + 1 + length (takeWhile (is_new E v0) (drop (i + 1) indices)))" "settles v1 v'"
      "\<forall>idx \<in> set (takeWhile (is_new E v0) (drop (i + 1) indices)).
         \<not> HasNextVB (ent_link (entry_of E v0 idx)) \<longrightarrow> cleaned v' (rec_key E v0 idx)" by blast
    have tw: "takeWhile (is_new E v0) (drop i indices) = ?idx # takeWhile (is_new E v0) (drop (i + 1) indices)"
      using drop True by simp
    show ?thesis
      unfolding tw v1(3) v'(1) using settles_trans [OF v1(1) v'(2)] settles_cleaned [OF v'(2)] v1(2) v'(3) by auto
  qed
qed

definition record_e :: "version_entry \<Rightarrow> edge_with_index" where
  "record_e x = SetEdgeFG (strip_del (ent_edge x)) (ent_last_epoch x) (ent_old_intra_c x)"

definition degree_change :: "version_entry \<Rightarrow> int" where
  "degree_change x = (if is_delete (ent_edge x) then - 1 else 1)"

text \<open>One turn of the second loop.\<close>

lemma publish_old_turn:
  assumes inva: "pend_inv E N v0" and st: "settles v0 v" and idx: "idx < version_num (tvb_at v0 (ring_slot E))"
  shows "\<exists>v' p. publish_old (ring_slot E) E idx (v, ed, es, ps) =
      Inr (v', ed + degree_change (entry_of E v0 idx), es @ [record_e (entry_of E v0 idx)], ps @ [p]) \<and>
    ew_index p \<noteq> INTRA_MAX \<and> settles v v' \<and> cleaned v' (rec_key E v0 idx)"
proof -
  let ?k = "ring_slot E" and ?x = "entry_of E v0 idx" and ?x' = "entry_of E v idx"
  obtain s where s: "locate_item ?x' v = Inr s" "slot_in v s" "ckey (cell v s) = rec_key E v0 idx"
    "GetCoarseC (item_e v s) = E" "ew_index (item_e v s) \<noteq> INTRA_MAX" using entry_located(2) [OF inva st idx] by blast
  obtain l where l: "?x' = ?x\<lparr>ent_link := l\<rparr>" using entry_located(1) [OF inva st idx] by (auto simp: entry_relinks_def)
  have E: "\<not> has_tmp E" using inva by (simp add: pend_inv_def published_ok_def)
  have wf: "ve_wf v" using st by (simp add: settles_def)
  have tok: "tvb_ok (tvb_at v0 ?k)" using inva by (simp add: pend_inv_def tvbs_ok_def Let_def)
  have "tvb_live (tvb_at v0 ?k) ! idx = ?x" using idx by (simp add: tvb_live_def entry_of_def)
  then have "?x \<in> set (tvb_live (tvb_at v0 ?k))" using idx length_tvb_live [OF tok] by (metis nth_mem)
  then have ni: "ent_new_intra_c ?x \<noteq> INTRA_MAX"
    using inva by (simp add: pend_inv_def tvbs_ok_def Let_def entry_ok_def)
  note sh = ve_wf_shape [OF wf]
  let ?e = "(item_e v s)\<lparr>ew_block := E, ew_index := ent_new_intra_c ?x\<rparr>"
  let ?p' = "if is_delete (ent_edge ?x) then SetPropFG 0 (word_of_nat (length es)) 0
             else SetPropFG (ent_weight ?x) (word_of_nat (length es)) 0"
  let ?v' = "set_cell s (?e, ?p') v"
  have one: "set_item_e s ?e v = set_cell s (?e, item_p v s) v" by (rule set_item_e_cell [OF sh s(2)])
  have two: "set_item_p s p (set_cell s (?e, item_p v s) v) = set_cell s (?e, p) v" for p
    using cell_set_cell [OF sh s(2), of "(?e, item_p v s)"] sh s(2) by (simp add: set_item_p_cell cell_def set_cell_set_cell)
  let ?p = "SetPropFG (ew_e (item_p v s)) (link_index l) (ent_new_intra_c ?x)"
  have "publish_old ?k E idx (v, ed, es, ps) = Inr (?v', ed + degree_change ?x, es @ [record_e ?x], ps @ [?p])"
    using s(1) l one two by (simp add: publish_old_def entry_of_def [symmetric] Let_def record_e_def degree_change_def)
  moreover have "ew_index ?p \<noteq> INTRA_MAX" using ni by (simp add: SetPropFG_def)
  moreover note settle_cell_at(1,2) [OF wf s(2,4) E ni s(3), where p = ?p']
  ultimately show ?thesis by blast
qed

lemma publish_old_loop:
  assumes inva: "pend_inv E N v0"
  shows "settles v0 v \<Longrightarrow> set idxs \<subseteq> {0..<version_num (tvb_at v0 (ring_slot E))} \<Longrightarrow>
    \<exists>v' qs. foldR (publish_old (ring_slot E) E) idxs (v, ed, es, ps) =
        Inr (v', ed + (\<Sum>idx\<leftarrow>idxs. degree_change (entry_of E v0 idx)), es @ map (record_e \<circ> entry_of E v0) idxs, ps @ qs) \<and>
      length qs = length idxs \<and> (\<forall>q \<in> set qs. ew_index q \<noteq> INTRA_MAX) \<and> settles v v' \<and>
      (\<forall>idx \<in> set idxs. cleaned v' (rec_key E v0 idx))"
proof (induction idxs arbitrary: v ed es ps)
  case Nil
  then show ?case by (auto intro: settles_refl_right)
next
  case (Cons idx idxs)
  obtain v1 p where v1: "publish_old (ring_slot E) E idx (v, ed, es, ps) =
      Inr (v1, ed + degree_change (entry_of E v0 idx), es @ [record_e (entry_of E v0 idx)], ps @ [p])"
    "ew_index p \<noteq> INTRA_MAX" "settles v v1" "cleaned v1 (rec_key E v0 idx)"
    using publish_old_turn [OF inva Cons.prems(1), of idx ed es ps] Cons.prems(2) by auto
  have st1: "settles v0 v1" by (rule settles_trans [OF Cons.prems(1) v1(3)])
  obtain v' qs where v': "foldR (publish_old (ring_slot E) E) idxs
        (v1, ed + degree_change (entry_of E v0 idx), es @ [record_e (entry_of E v0 idx)], ps @ [p]) =
      Inr (v', ed + degree_change (entry_of E v0 idx) + (\<Sum>idx\<leftarrow>idxs. degree_change (entry_of E v0 idx)),
           (es @ [record_e (entry_of E v0 idx)]) @ map (record_e \<circ> entry_of E v0) idxs, (ps @ [p]) @ qs)"
    "length qs = length idxs" "\<forall>q \<in> set qs. ew_index q \<noteq> INTRA_MAX" "settles v1 v'"
    "\<forall>idx \<in> set idxs. cleaned v' (rec_key E v0 idx)"
    using Cons.IH [OF st1, of "ed + degree_change (entry_of E v0 idx)" "es @ [record_e (entry_of E v0 idx)]" "ps @ [p]"]
      Cons.prems(2) by auto
  show ?case
    using v1 v' settles_trans [OF v1(3) v'(4)] settles_cleaned [OF v'(4) v1(4)]
    by (intro exI [of _ v'] exI [of _ "p # qs"]) auto
qed

section \<open>The whole of Transform\<close>

definition quiet_inv :: "epoch_t \<Rightarrow> nat \<Rightarrow> vertex_edges \<Rightarrow> bool" where
  "quiet_inv E N v \<longleftrightarrow>
     ve_wf v \<and> vbm_ok (VBM v) \<and> (\<forall>vb \<in> set (vbm_end (VBM v)). vb_ok vb) \<and> vbm_end_epoch (VBM v) \<le> E \<and> \<not> has_tmp E \<and>
     length (vbm_tvb_array (VBM v)) = MAXSIMULBATCH \<and>
     (\<forall>j < MAXSIMULBATCH. tvb_ok (tvb_at v j) \<and> tmp_entry (tvb_at v j) = []) \<and>
     (\<forall>c \<in> set (all_cells v). ew_index (fst c) \<noteq> INTRA_MAX \<and> GetCoarseC (fst c) \<noteq> 0 \<and> GetCoarseC (fst c) \<le> E \<and>
        \<not> has_tmp (ew_block (fst c))) \<and>
     ve_num v \<le> N \<and> unat (merge_times v) \<le> N"

definition quiet_intervals :: "vertex_edges \<Rightarrow> interval multiset" where
  "quiet_intervals v = mset (live_ivs v) + mset (chain_ivs (vbm_end (VBM v)))"

lemma cells_append: "length es = n \<Longrightarrow> length ps = n \<Longrightarrow> cells (es @ ps) n n = zip es ps"
  by (rule nth_equalityI) (auto simp: cells_nth nth_append)

lemma finish_transform_fields:
  fixes v vb k
  defines "v' \<equiv> finish_transform k vb v"
  shows "all_cells v' = all_cells v" "ve_wf v' = ve_wf v" "edge_num v' = edge_num v + vb_edge_num vb"
    "ve_num v' = ve_num v" "merge_times v' = merge_times v" "ve_locked v' = ve_locked v"
    "vbm_end (VBM v') = SetNextVB vb (vbm_end (VBM v)) (vbm_end_epoch (VBM v))"
    "vbm_end_epoch (VBM v') = vb_timestamp vb"
    "vbm_index (VBM v') = vbm_index (VBM v) @ [(vb_timestamp vb, vbm_end (VBM v'))]"
    "vbm_tvb_array (VBM v') = (vbm_tvb_array (VBM v))[k := tvb_Clear (tvb_at v k)]"
proof -
  let ?m = "fst (PushVB (VBM v) (edge_num v) vb)"
  have arr: "vbm_tvb_array ?m = vbm_tvb_array (VBM v)" by (simp add: PushVB_def PushVBIndex_def Let_def)
  have v': "v' = v\<lparr>edge_num := edge_num v + vb_edge_num vb,
      VBM := MarkTvbInactive (?m\<lparr>vbm_tvb_array := (vbm_tvb_array (VBM v))[k := tvb_Clear (tvb_at v k)]\<rparr>) (vb_timestamp vb)\<rparr>"
    by (simp add: v'_def finish_transform_def Let_def split_def set_tvb_def tvb_at_def PushVB_def PushVBIndex_def)
  have cells: "tb_cells (w\<lparr>edge_num := n\<rparr>) = tb_cells w" "pa_cells (w\<lparr>edge_num := n\<rparr>) = pa_cells w" for w n
    by (simp_all add: tb_cells_def pa_cells_def)
  have wf: "ve_wf (w\<lparr>edge_num := n\<rparr>) = ve_wf w" for w n by (simp add: ve_wf_def ve_keys_def cells)
  show "all_cells v' = all_cells v" "ve_wf v' = ve_wf v" by (simp_all add: v' all_cells_def cells wf)
  show "edge_num v' = edge_num v + vb_edge_num vb" "ve_num v' = ve_num v" "merge_times v' = merge_times v"
    "ve_locked v' = ve_locked v" "vbm_end (VBM v') = SetNextVB vb (vbm_end (VBM v)) (vbm_end_epoch (VBM v))"
    "vbm_end_epoch (VBM v') = vb_timestamp vb"
    "vbm_index (VBM v') = vbm_index (VBM v) @ [(vb_timestamp vb, vbm_end (VBM v'))]"
    "vbm_tvb_array (VBM v') = (vbm_tvb_array (VBM v))[k := tvb_Clear (tvb_at v k)]"
    by (simp_all add: v' MarkTvbInactive_def PushVB_def PushVBIndex_def Let_def)
qed

lemma finish_quiet:
  assumes inva: "pend_inv E N v0" and st: "settles v0 v" and clean: "\<forall>c \<in> set (all_cells v). \<not> has_tmp (ew_block (fst c))"
    and vb: "vb_timestamp vb = E" "vb_ok (vb\<lparr>vb_last_epoch := vbm_end_epoch (VBM v0)\<rparr>)"
  defines "v' \<equiv> finish_transform (ring_slot E) vb v"
  shows "quiet_inv E N v'"
    and "quiet_intervals v' = cells_ivs (mset (all_cells v0)) + mset (vb_ivs vb) + mset (chain_ivs (vbm_end (VBM v0)))"
proof -
  note f = finish_transform_fields [of "ring_slot E" vb v, folded v'_def]
  have VBM: "vbm_end (VBM v) = vbm_end (VBM v0)" "vbm_end_epoch (VBM v) = vbm_end_epoch (VBM v0)"
    "vbm_index (VBM v) = vbm_index (VBM v0)" "length (vbm_tvb_array (VBM v)) = length (vbm_tvb_array (VBM v0))"
    using st by (auto simp: settles_def dest!: list_all2_lengthD)
  have end_lt: "vbm_end_epoch (VBM v0) < E" and E: "\<not> has_tmp E" using inva by (auto simp: pend_inv_def published_ok_def)
  have ok: "vbm_ok (VBM v')"
    using inva end_lt vb(1) by (simp add: vbm_ok_def f VBM pend_inv_def published_ok_def SetNextVB_def)
  have blocks: "\<forall>b \<in> set (vbm_end (VBM v')). vb_ok b"
    using inva vb(2) by (simp add: f VBM SetNextVB_def pend_inv_def published_ok_def)
  have tvbs: "tvb_ok (tvb_at v' j) \<and> tmp_entry (tvb_at v' j) = []" if "j < MAXSIMULBATCH" for j
  proof (cases "j = ring_slot E")
    case True
    then show ?thesis using inva VBM(4) that
      by (simp add: tvb_at_def f pend_inv_def tvbs_ok_def tvb_Clear_ok) (simp add: tvb_Clear_def)
  next
    case False
    have "tvb_relinks (tvb_at v0 j) (tvb_at v j)"
      using settles_entry [OF st] inva that by (simp add: pend_inv_def tvbs_ok_def)
    moreover have "tvb_ok (tvb_at v0 j) \<and> tmp_entry (tvb_at v0 j) = []"
      using inva that False by (simp add: pend_inv_def tvbs_ok_def)
    moreover have "tvb_at v' j = tvb_at v j" using False by (simp add: tvb_at_def f)
    ultimately show ?thesis by (auto simp: tvb_relinks_def tvb_ok_def)
  qed
  have cells: "ew_index (fst c) \<noteq> INTRA_MAX \<and> GetCoarseC (fst c) \<noteq> 0 \<and> GetCoarseC (fst c) \<le> E" if cin: "c \<in> set (all_cells v)" for c
  proof -
    obtain i where i: "i < length (all_cells v)" "all_cells v ! i = c" using cin [unfolded in_set_conv_nth] by blast
    have "length (all_cells v) = length (all_cells v0)" using settles_all [OF st] by (simp add: list_all2_lengthD)
    then have "cell_settles (all_cells v0 ! i) c" "all_cells v0 ! i \<in> set (all_cells v0)"
      using list_all2_nthD [OF settles_all [OF st], of i] i by auto
    moreover from this have "cell_ok E (tvb_at v0 (ring_slot E)) (all_cells v0 ! i)"
      using inva by (simp add: pend_inv_def)
    ultimately show ?thesis by (auto simp: cell_ok_def cell_settles_def)
  qed
  show "quiet_inv E N v'"
    using ok blocks tvbs cells clean st inva E vb(1)
    by (auto simp: quiet_inv_def f VBM settles_def pend_inv_def tvbs_ok_def)
  have "map cell_iv (filter (\<lambda>c. \<not> is_delete (ew_e (fst c))) ys) = map cell_iv (filter (\<lambda>c. \<not> is_delete (ew_e (fst c))) xs)"
    if "list_all2 cell_settles xs ys" for xs ys
    using that by (induction rule: list_all2_induct) (auto simp: cell_settles_def cell_iv_def ckey_def entry_key_def)
  from this [OF settles_all [OF st]] have "mset (live_ivs v') = cells_ivs (mset (all_cells v0))"
    by (simp add: live_ivs_cells f) (simp add: cells_ivs_def mset_filter [symmetric] mset_map [symmetric] del: mset_filter mset_map)
  moreover have "vb_ivs (vb\<lparr>vb_last_epoch := x\<rparr>) = vb_ivs vb" for x
    by (cases "vb_start vb") (simp_all add: vb_ivs_def vb_records_def)
  ultimately show "quiet_intervals v' = cells_ivs (mset (all_cells v0)) + mset (vb_ivs vb) + mset (chain_ivs (vbm_end (VBM v0)))"
    by (simp add: quiet_intervals_def f VBM SetNextVB_def chain_ivs_def)
qed

text \<open>The epochs the temporary blocks were last touched in; publishing leaves them alone.\<close>

definition stamps :: "vertex_edges \<Rightarrow> epoch_t list" where
  "stamps v = map tvb_timestamp (vbm_tvb_array (VBM v))"

lemma finish_stamps:
  assumes "settles v0 v"
  shows "stamps (finish_transform k vb v) = stamps v0"
proof -
  have "list_all2 tvb_relinks (vbm_tvb_array (VBM v0)) (vbm_tvb_array (VBM v))" using assms by (simp add: settles_def)
  then have "map tvb_timestamp (vbm_tvb_array (VBM v)) = map tvb_timestamp (vbm_tvb_array (VBM v0))"
    by (induction rule: list_all2_induct) (auto simp: tvb_relinks_def)
  moreover have "tvb_timestamp (tvb_Clear t) = tvb_timestamp t" for t by (simp add: tvb_Clear_def)
  ultimately show ?thesis
    unfolding stamps_def finish_transform_fields map_update by (metis list_update_beyond list_update_id map_update not_le nth_map tvb_at_def)
qed

lemma transform_order_splits:
  assumes "transform_order (tvb_at v (ring_slot E)) indices"
  shows "takeWhile (is_new E v) indices = filter (is_new E v) indices"
    and "sorted_wrt (\<lambda>i j. ent_last_epoch (entry_of E v i) \<le> ent_last_epoch (entry_of E v j)) indices"
proof -
  have "sorted_wrt (\<lambda>i j. \<not> version_before (entry_of E v j) (entry_of E v i)) indices"
    using assms by (simp add: transform_order_def entry_of_def)
  then show sorted: "sorted_wrt (\<lambda>i j. ent_last_epoch (entry_of E v i) \<le> ent_last_epoch (entry_of E v j)) indices"
    by (rule sorted_wrt_mono_rel [rotated]) (auto simp: version_before_def not_less split: if_splits)
  show "takeWhile (is_new E v) indices = filter (is_new E v) indices"
    by (rule takeWhile_sorted_filter [OF sorted]) (auto simp: is_new_def)
qed

lemma drop_takeWhile_filter:
  "takeWhile P xs = filter P xs \<Longrightarrow> drop (length (takeWhile P xs)) xs = filter (\<lambda>x. \<not> P x) xs"
proof (induction xs)
  case (Cons x xs)
  show ?case
  proof (cases "P x")
    case False
    then have "filter P xs = []" using Cons.prems by simp
    then have "filter (\<lambda>x. \<not> P x) xs = xs" by (simp add: filter_id_conv filter_empty_conv)
    with False show ?thesis by simp
  qed (use Cons in simp)
qed simp

text \<open>The entries of a block and an order of its indexes.\<close>

lemma ordered_entries:
  assumes inva: "pend_inv E N v0" and ord: "transform_order (tvb_at v0 (ring_slot E)) indices"
  shows "set indices = {0..<version_num (tvb_at v0 (ring_slot E))}"
    and "mset indices = mset [0..<version_num (tvb_at v0 (ring_slot E))]"
    and "tvb_live (tvb_at v0 (ring_slot E)) = map (entry_of E v0) [0..<version_num (tvb_at v0 (ring_slot E))]"
    and "idx \<in> set indices \<Longrightarrow> entry_ok E (version_num (tvb_at v0 (ring_slot E))) (entry_of E v0 idx)"
proof -
  let ?t = "tvb_at v0 (ring_slot E)"
  have tok: "tvb_ok ?t" using inva by (auto simp: pend_inv_def tvbs_ok_def Let_def)
  show idxs: "set indices = {0..<version_num ?t}" using ord by (auto simp: transform_order_def)
  show "mset indices = mset [0..<version_num ?t]"
    using ord idxs by (metis transform_order_def distinct_upt set_eq_iff_mset_eq_distinct set_upt)
  have "tvb_live ?t ! i = entry_of E v0 i" if "i < version_num ?t" for i using that by (simp add: tvb_live_def entry_of_def)
  then show live: "tvb_live ?t = map (entry_of E v0) [0..<version_num ?t]"
    by (intro nth_equalityI) (simp_all add: length_tvb_live [OF tok])
  show "entry_ok E (version_num ?t) (entry_of E v0 idx)" if "idx \<in> set indices"
  proof -
    have "entry_of E v0 idx \<in> set (tvb_live ?t)" using that idxs live by auto
    then show ?thesis using inva by (simp add: pend_inv_def tvbs_ok_def Let_def)
  qed
qed

text \<open>The two loops of \<open>Transform\<close> add up the change of the degree.\<close>

lemma transform_degree:
  assumes inva: "pend_inv E N v0" and ord: "transform_order (tvb_at v0 (ring_slot E)) indices"
  shows "int (length (filter (is_new E v0) indices)) +
      (\<Sum>idx\<leftarrow>filter (\<lambda>i. \<not> is_new E v0 i) indices. degree_change (entry_of E v0 idx)) =
    (\<Sum>x\<leftarrow>tvb_live (tvb_at v0 (ring_slot E)). degree_change x)"
proof -
  let ?X = "entry_of E v0" and ?new = "filter (is_new E v0) indices"
  note entries = ordered_entries [OF inva ord]
  have one: "degree_change (?X idx) = 1" if "idx \<in> set ?new" for idx
    using that entries(4) [of idx] by (auto simp: degree_change_def is_new_def entry_ok_def)
  have "(\<Sum>idx\<leftarrow>?new. degree_change (?X idx)) = (\<Sum>idx\<leftarrow>?new. 1)"
    by (rule arg_cong [where f = sum_list]) (rule map_cong [OF refl one])
  then have "(\<Sum>idx\<leftarrow>?new. degree_change (?X idx)) = int (length ?new)" by (simp add: sum_list_triv)
  then have "int (length ?new) + (\<Sum>idx\<leftarrow>filter (\<lambda>i. \<not> is_new E v0 i) indices. degree_change (?X idx)) = (\<Sum>idx\<leftarrow>indices. degree_change (?X idx))"
    using sum_list_map_filter_split [of "\<lambda>idx. degree_change (?X idx)" indices "is_new E v0"] by simp
  also have "\<dots> = (\<Sum>idx\<leftarrow>[0..<version_num (tvb_at v0 (ring_slot E))]. degree_change (?X idx))"
    using arg_cong [OF entries(2), of "\<lambda>M. sum_mset (image_mset (\<lambda>idx. degree_change (?X idx)) M)"]
    by (metis mset_map sum_mset_sum_list)
  finally show ?thesis by (simp add: entries(3) comp_def)
qed

text \<open>After both loops no cell is marked as pending.\<close>

lemma transform_cleans:
  assumes inva: "pend_inv E N v0" and ord: "transform_order (tvb_at v0 (ring_slot E)) indices"
    and st: "settles v0 v1" "settles v1 v2"
    and new: "\<forall>idx \<in> set (filter (is_new E v0) indices). \<not> HasNextVB (ent_link (entry_of E v0 idx)) \<longrightarrow> cleaned v1 (rec_key E v0 idx)"
    and old: "\<forall>idx \<in> set (filter (\<lambda>i. \<not> is_new E v0 i) indices). cleaned v2 (rec_key E v0 idx)"
  shows "\<forall>c \<in> set (all_cells v2). \<not> has_tmp (ew_block (fst c))"
proof (intro ballI notI)
  let ?t = "tvb_at v0 (ring_slot E)" and ?X = "entry_of E v0"
  note entries = ordered_entries [OF inva ord] and settled = settles_all [OF settles_trans [OF st]]
  fix c assume c: "c \<in> set (all_cells v2)" "has_tmp (ew_block (fst c))"
  obtain i where i: "i < length (all_cells v2)" "all_cells v2 ! i = c" using c(1) [unfolded in_set_conv_nth] by blast
  have "length (all_cells v2) = length (all_cells v0)" using settled by (simp add: list_all2_lengthD)
  then have cs: "cell_settles (all_cells v0 ! i) c" "all_cells v0 ! i \<in> set (all_cells v0)"
    using list_all2_nthD [OF settled, of i] i by auto
  have "cell_ok E ?t (all_cells v0 ! i)" using inva cs(2) by (simp add: pend_inv_def)
  moreover have "has_tmp (ew_block (fst (all_cells v0 ! i)))" using cs(1) c(2) by (simp add: cell_settles_def)
  ultimately obtain x where x: "x \<in> set (tvb_live ?t)" "strip_del (ent_edge x) = ckey (all_cells v0 ! i)"
    "ent_last_epoch x \<noteq> 0 \<or> \<not> HasNextVB (ent_link x)" by (auto simp: cell_ok_def)
  then obtain idx where idx: "idx \<in> set indices" "x = ?X idx" using entries(1,3) by auto
  have key: "rec_key E v0 idx = ckey c" using x(2) idx(2) settles_ckey [OF cs(1)] by (simp add: rec_key_def)
  have "cleaned v2 (rec_key E v0 idx)"
  proof (cases "is_new E v0 idx")
    case True
    then have "cleaned v1 (rec_key E v0 idx)" using new x(3) idx by (auto simp: is_new_def)
    then show ?thesis by (rule settles_cleaned [OF st(2)])
  qed (use old idx(1) in simp)
  then show False using key c by (auto simp: cleaned_def)
qed

text \<open>The block that is published holds the displaced versions.\<close>

lemma published_block:
  assumes inva: "pend_inv E N v0" and ord: "transform_order (tvb_at v0 (ring_slot E)) indices"
    and n: "version_num (tvb_at v0 (ring_slot E)) \<noteq> 0"
    and old: "old = filter (\<lambda>i. \<not> is_new E v0 i) indices" and qs: "length qs = length old" "\<forall>q \<in> set qs. ew_index q \<noteq> INTRA_MAX"
    and vb: "vb_timestamp vb = E" "vb_version_num vb = length old"
      "vb_start vb = (if old = [] then None else Some (map (record_e \<circ> entry_of E v0) old @ qs))"
  shows "vb_ok (vb\<lparr>vb_last_epoch := l\<rparr>)" "mset (vb_ivs vb) = mset (tvb_ivs (tvb_at v0 (ring_slot E)))"
proof -
  let ?X = "entry_of E v0" and ?t = "tvb_at v0 (ring_slot E)"
  note entries = ordered_entries [OF inva ord]
  have E: "\<not> has_tmp E" using inva by (simp add: pend_inv_def published_ok_def)
  have ts: "tvb_timestamp ?t = E" using inva n by (auto simp: pend_inv_def tvbs_ok_def Let_def tvb_ok_def)
  have recs: "vb_records vb = zip (map (record_e \<circ> ?X) old) qs" using vb qs(1) by (simp add: vb_records_def cells_append)
  have le_old: "\<not> has_tmp (ent_last_epoch (?X idx))" if "idx \<in> set old" for idx
    using that entries(4) [of idx] E has_tmp_antimono by (auto simp: old entry_ok_def)
  show "vb_ok (vb\<lparr>vb_last_epoch := l\<rparr>)"
  proof -
    have "sorted_wrt (\<lambda>x y. ew_block x \<le> ew_block y) (map (record_e \<circ> ?X) old)"
      using transform_order_splits(2) [OF ord] by (simp add: old sorted_wrt_map sorted_wrt_filter record_e_def SetEdgeFG_def)
    then have "sorted_wrt (\<lambda>x y. ew_block (fst x) \<le> ew_block (fst y)) (zip (map (record_e \<circ> ?X) old) qs)"
      using qs(1) by (simp add: sorted_wrt_iff_nth_less)
    moreover have "\<not> has_tmp (ew_block (fst c)) \<and> ew_index (snd c) \<noteq> INTRA_MAX"
      if "c \<in> set (zip (map (record_e \<circ> ?X) old) qs)" for c
    proof -
      have "fst c \<in> (record_e \<circ> ?X) ` set old" "snd c \<in> set qs"
        using that by (metis list.set_map prod.collapse set_zip_leftD, metis prod.collapse set_zip_rightD)
      then show ?thesis using le_old qs(2) by (auto simp: record_e_def SetEdgeFG_def)
    qed
    moreover have "vb_records (vb\<lparr>vb_last_epoch := l\<rparr>) = vb_records vb"
      by (cases "vb_start vb") (simp_all add: vb_records_def)
    ultimately show ?thesis using recs qs(1) vb(2,3) by (auto simp: vb_ok_def)
  qed
  have "vb_ivs vb = map ((\<lambda>e. (ew_e e, GetLinkBlock e, Some E)) \<circ> fst) (zip (map (record_e \<circ> ?X) old) qs)"
    using recs vb(1) by (simp add: vb_ivs_def comp_def)
  also have "\<dots> = map (\<lambda>e. (ew_e e, GetLinkBlock e, Some E)) (map fst (zip (map (record_e \<circ> ?X) old) qs))"
    by (rule map_map [symmetric])
  also have "map fst (zip (map (record_e \<circ> ?X) old) qs) = map (record_e \<circ> ?X) old"
    by (rule map_fst_zip) (simp add: qs(1))
  also have "map (\<lambda>e. (ew_e e, GetLinkBlock e, Some E)) (map (record_e \<circ> ?X) old) = map (entry_iv E) (map ?X old)"
    using le_old by (auto simp: record_e_def SetEdgeFG_def entry_iv_def GetLinkBlock_def strip_tmp_id)
  finally have "mset (vb_ivs vb) = mset (map (entry_iv E) (map ?X (filter (\<lambda>i. \<not> is_new E v0 i) [0..<version_num ?t])))"
    using entries(2) by (metis mset_filter mset_map old)
  also have "map (entry_iv E) (map ?X (filter (\<lambda>i. \<not> is_new E v0 i) [0..<version_num ?t])) = tvb_ivs ?t"
    by (simp add: tvb_ivs_def ts entries(3) filter_map comp_def is_new_def)
  finally show "mset (vb_ivs vb) = mset (tvb_ivs ?t)" .
qed

lemma transform_correct:
  assumes inva: "pend_inv E N v0" and unl: "\<not> ve_locked v0" and n: "version_num (tvb_at v0 (ring_slot E)) \<noteq> 0"
    and ord: "transform_order (tvb_at v0 (ring_slot E)) indices"
  shows "\<exists>v' vb. transform_pending indices (ring_slot E) v0 = Inr v' \<and> quiet_inv E N v' \<and>
     quiet_intervals v' = intervals E v0 \<and> \<not> ve_locked v' \<and>
     vbm_end (VBM v') = vb # vbm_end (VBM v0) \<and> vb_timestamp vb = E \<and>
     vb_edge_num vb = (\<Sum>x\<leftarrow>tvb_live (tvb_at v0 (ring_slot E)). degree_change x) \<and>
     edge_num v' = edge_num v0 + vb_edge_num vb \<and> stamps v' = stamps v0"
proof -
  let ?k = "ring_slot E" and ?t = "tvb_at v0 (ring_slot E)" and ?X = "entry_of E v0"
  let ?n = "version_num ?t" and ?new = "filter (is_new E v0) indices" and ?old = "filter (\<lambda>i. \<not> is_new E v0 i) indices"
  note entries = ordered_entries [OF inva ord] and split = transform_order_splits [OF ord] and delta = transform_degree [OF inva ord]
  have ts: "tvb_timestamp ?t = E" using inva n by (auto simp: pend_inv_def tvbs_ok_def Let_def tvb_ok_def)
  have len: "length indices = ?n" using entries(2) by (metis length_upt minus_nat.diff_0 size_mset)
  have old: "drop (length ?new) indices = ?old" using drop_takeWhile_filter [OF split(1)] unfolding split(1) .
  have sub: "set indices \<subseteq> {0..<?n}" "set ?old \<subseteq> {0..<?n}"
    using entries(1) filter_is_subset [of "\<lambda>i. \<not> is_new E v0 i" indices] by (simp_all only: order_refl)
  have zero_len: "0 + ?n = length indices" using len by simp
  have wf0: "ve_wf v0" using inva by (simp add: pend_inv_def)
  define vb0 where "vb0 = VersionBlock_of_tvb ?t"
  have vb0: "vb_timestamp vb0 = E" "vb_edge_num vb0 = 0" "vb_start vb0 = None"
    using ts by (simp_all add: vb0_def VersionBlock_of_tvb_def)
  have "\<exists>v'. publish_new ?k E ?n 0 (v0, indices, 0, 0) = Inr ((v', indices, 0, 0 + int (length ?new)), 0 + length ?new) \<and>
      settles v0 v' \<and> (\<forall>idx \<in> set ?new. \<not> HasNextVB (ent_link (?X idx)) \<longrightarrow> cleaned v' (rec_key E v0 idx))"
    using publish_new_loop [OF inva sub(1) settles_refl [OF wf0] zero_len, of 0] unfolding drop_0 split(1) .
  then obtain v1 where v1: "publish_new ?k E ?n 0 (v0, indices, 0, 0) = Inr ((v1, indices, 0, int (length ?new)), length ?new)"
    "settles v0 v1" "\<forall>idx \<in> set ?new. \<not> HasNextVB (ent_link (?X idx)) \<longrightarrow> cleaned v1 (rec_key E v0 idx)"
    unfolding add_0 by (elim exE conjE)
  obtain v2 qs where v2: "foldR (publish_old ?k E) ?old (v1, int (length ?new), [], []) =
      Inr (v2, int (length ?new) + (\<Sum>idx\<leftarrow>?old. degree_change (?X idx)), map (record_e \<circ> ?X) ?old, qs)"
    "length qs = length ?old" "\<forall>q \<in> set qs. ew_index q \<noteq> INTRA_MAX" "settles v1 v2"
    "\<forall>idx \<in> set ?old. cleaned v2 (rec_key E v0 idx)"
    using publish_old_loop [OF inva v1(2) sub(2), of "int (length ?new)" "[]" "[]"] unfolding append_Nil by blast
  have st2: "settles v0 v2" by (rule settles_trans [OF v1(2) v2(4)])
  let ?\<Delta> = "\<Sum>x\<leftarrow>tvb_live ?t. degree_change x"
  define vb1 where "vb1 = vb0\<lparr>vb_edge_num := ?\<Delta>, vb_version_num := length ?old,
    vb_start := (if ?old = [] then None else Some (map (record_e \<circ> ?X) ?old @ qs))\<rparr>"
  have vb1: "vb_timestamp vb1 = E" "vb_edge_num vb1 = ?\<Delta>" "vb_version_num vb1 = length ?old"
    "vb_start vb1 = (if ?old = [] then None else Some (map (record_e \<circ> ?X) ?old @ qs))" using vb0 by (simp_all add: vb1_def)
  note block = published_block [OF inva ord n refl v2(2,3) vb1(1,3,4)]
  let ?v' = "finish_transform ?k vb1 v2"
  have num: "?n - length ?new + 0 = length ?old" using len arg_cong [OF old, of length] by simp
  have run: "transform_pending indices ?k v0 = Inr ?v'"
  proof (cases "?old = []")
    case True
    then have "v2 = v1" "int (length ?new) = ?\<Delta>" using v2(1) delta by auto
    moreover have "vb0\<lparr>vb_edge_num := ?\<Delta>, vb_version_num := 0\<rparr> = vb1"
      using True vb0(3) by (simp add: vb1_def vb0_def VersionBlock_of_tvb_def)
    ultimately show ?thesis
      using n unl v1(1) vb0 num True unfolding transform_pending_def Transform_def Let_def vb0_def [symmetric] by simp
  next
    case False
    have "vb0\<lparr>vb_edge_num := ?\<Delta>, vb_version_num := length ?old, vb_start := Some (map (record_e \<circ> ?X) ?old @ qs)\<rparr> = vb1"
      using False by (simp add: vb1_def)
    moreover have "length ?new < ?n"
      using num False zero_less_diff [of ?n "length ?new"] by (metis add_0_right length_greater_0_conv)
    ultimately show ?thesis
      using n unl v1(1) vb0 num False v2(1) old delta
      unfolding transform_pending_def Transform_def Let_def vb0_def [symmetric] by simp
  qed
  note quiet = finish_quiet [OF inva st2 transform_cleans [OF inva ord v1(2) v2(4) v1(3) v2(5)] vb1(1) block(1)]
  have "quiet_intervals ?v' = intervals E v0"
    using quiet(2) block(2) by (simp add: intervals_def live_ivs_cells)
  moreover have "settles v0 v2" by (rule st2)
  then have "vbm_end (VBM ?v') = vb1\<lparr>vb_last_epoch := vbm_end_epoch (VBM v0)\<rparr> # vbm_end (VBM v0)"
    "edge_num ?v' = edge_num v0 + ?\<Delta>" "ve_locked ?v' = ve_locked v0"
    using vb1 by (simp_all add: finish_transform_fields settles_def SetNextVB_def)
  ultimately show ?thesis
    using run quiet(1) vb1 unl finish_stamps [OF st2] by (intro exI [of _ ?v'] exI [of _ "vb1\<lparr>vb_last_epoch := vbm_end_epoch (VBM v0)\<rparr>"]) simp
qed

end
