(* ===== verification/Vertex_History.thy ===== *)
theory Vertex_History
  imports Vertex_Transform
begin

text \<open>
  End to end: a vertex that starts empty and goes through any number of epochs, each with any
  writes by any committed transactions and then one \<open>Transform\<close>. Readers of every epoch see
  exactly the edges that replaying the successful writes up to that epoch gives.
\<close>

section \<open>Running a history\<close>

datatype vop = VInsert dst_t weight_t | VDelete dst_t weight_t

fun vop_dst :: "vop \<Rightarrow> dst_t" where
  "vop_dst (VInsert d w) = d"
| "vop_dst (VDelete d w) = d"

text \<open>One write: the operation, its transaction, the watermark and what fresh memory holds.\<close>

type_synonym vwrite = "vop \<times> transaction \<times> epoch_t \<times> edge_with_index"

definition apply_op :: "nat \<Rightarrow> epoch_t \<Rightarrow> vwrite \<Rightarrow> vertex_edges \<Rightarrow> vb_data \<Rightarrow> write_result" where
  "apply_op self E wr v d =
     (case wr of (op, txn, oldest, junk) \<Rightarrow>
        (case op of
           VInsert dst w \<Rightarrow> insert_edge_block junk oldest self (dst, w) E txn v d
         | VDelete dst w \<Rightarrow> delete_edge_block junk oldest self (dst, w) E txn v d))"

text \<open>The transaction commits right after its write and releases the vertices it holds.\<close>

definition run_write :: "nat \<Rightarrow> epoch_t \<Rightarrow> vwrite \<Rightarrow> vertex_edges \<Rightarrow> vb_data \<Rightarrow> (vertex_edges \<times> vb_data \<times> bool) res" where
  "run_write self E wr v d =
     bind_res (apply_op self E wr v d) (\<lambda>(v1, txn1, d1, ok).
       case Transaction_commit txn1 d1 of (_, d2, ebs) \<Rightarrow>
         Inr (if self \<in> set ebs then unleashReadLock v1 else v1, d2, ok))"

type_synonym log = "(epoch_t \<times> vop) list"

fun run_writes :: "nat \<Rightarrow> epoch_t \<Rightarrow> vwrite list \<Rightarrow> vertex_edges \<times> vb_data \<times> log \<Rightarrow> (vertex_edges \<times> vb_data \<times> log) res" where
  "run_writes self E [] s = Inr s"
| "run_writes self E (wr # wrs) (v, d, lg) =
     bind_res (run_write self E wr v d) (\<lambda>(v', d', ok).
       run_writes self E wrs (v', d', if ok then lg @ [(E, fst wr)] else lg))"

text \<open>An epoch: its writes, then the publication in some order that the sort may choose.\<close>

type_synonym vepoch = "epoch_t \<times> vwrite list \<times> (tmp_version_block \<Rightarrow> nat list)"

fun run_epochs :: "nat \<Rightarrow> vepoch list \<Rightarrow> vertex_edges \<times> log \<Rightarrow> (vertex_edges \<times> log) res" where
  "run_epochs self [] s = Inr s"
| "run_epochs self ((E, wrs, order) # eps) (v, lg) =
     bind_res (run_writes self E wrs (v, VBData_new E, lg)) (\<lambda>(v1, _, lg1).
     bind_res (transform_pending (order (tvb_at v1 (ring_slot E))) (ring_slot E) v1) (\<lambda>v2.
       run_epochs self eps (v2, lg1)))"

section \<open>The specification\<close>

fun replay :: "vop list \<Rightarrow> dst_t set \<Rightarrow> dst_t set" where
  "replay [] S = S"
| "replay (VInsert d w # ops) S = replay ops (insert d S)"
| "replay (VDelete d w # ops) S = replay ops (S - {d})"

definition edges_at :: "log \<Rightarrow> epoch_t \<Rightarrow> dst_t set" where
  "edges_at lg q = replay (map snd (filter (\<lambda>e. fst e \<le> q) lg)) {}"

text \<open>
  What the callers owe: a destination below \<open>2^63\<close>, a thread id within the table, an epoch counter that has not
  run out, a watermark below \<open>2^31\<close>, a deletion only of an edge that exists, and no accidental hit
  behind the primary array.
\<close>

definition legal_write :: "vwrite \<Rightarrow> vertex_edges \<Rightarrow> vb_data \<Rightarrow> log \<Rightarrow> bool" where
  "legal_write wr v d lg \<longleftrightarrow>
     (case wr of (op, txn, oldest, junk) \<Rightarrow>
        \<not> is_delete (vop_dst op) \<and> \<not> has_tmp oldest \<and> tx_threadid txn < length (vd_vb_vector d) \<and>
        next_intra txn d \<noteq> INTRA_MAX \<and> lookup_safe junk oldest v (vop_dst op) \<and>
        (case op of VInsert _ _ \<Rightarrow> True | VDelete dst _ \<Rightarrow> dst \<in> replay (map snd lg) {}))"

fun legal_writes :: "nat \<Rightarrow> epoch_t \<Rightarrow> vwrite list \<Rightarrow> vertex_edges \<times> vb_data \<times> log \<Rightarrow> bool" where
  "legal_writes self E [] s = True"
| "legal_writes self E (wr # wrs) (v, d, lg) =
     (legal_write wr v d lg \<and>
      (case run_write self E wr v d of
         Inl _ \<Rightarrow> True
       | Inr (v', d', ok) \<Rightarrow> legal_writes self E wrs (v', d', if ok then lg @ [(E, fst wr)] else lg)))"

fun legal_epochs :: "nat \<Rightarrow> epoch_t \<Rightarrow> vepoch list \<Rightarrow> vertex_edges \<times> log \<Rightarrow> bool" where
  "legal_epochs self E0 [] s = True"
| "legal_epochs self E0 ((E, wrs, order) # eps) (v, lg) =
     (E0 < E \<and> \<not> has_tmp E \<and> legal_writes self E wrs (v, VBData_new E, lg) \<and>
      (case run_writes self E wrs (v, VBData_new E, lg) of
         Inl _ \<Rightarrow> True
       | Inr (v1, _, lg1) \<Rightarrow>
           transform_order (tvb_at v1 (ring_slot E)) (order (tvb_at v1 (ring_slot E))) \<and>
           (case transform_pending (order (tvb_at v1 (ring_slot E))) (ring_slot E) v1 of
              Inl _ \<Rightarrow> True
            | Inr v2 \<Rightarrow> legal_epochs self E eps (v2, lg1))))"

section \<open>Intervals and replay\<close>

definition iv_bounded :: "epoch_t \<Rightarrow> interval multiset \<Rightarrow> bool" where
  "iv_bounded E I \<longleftrightarrow> (\<forall>d c t. (d, c, t) \<in># I \<longrightarrow> c \<le> E \<and> (\<forall>t'. t = Some t' \<longrightarrow> t' \<le> E))"

definition log_bounded :: "epoch_t \<Rightarrow> log \<Rightarrow> bool" where
  "log_bounded E lg \<longleftrightarrow> (\<forall>e \<in> set lg. fst e \<le> E)"

definition snapshots :: "interval multiset \<Rightarrow> log \<Rightarrow> bool" where
  "snapshots I lg \<longleftrightarrow> (\<forall>q. image_mset fst (filter_mset (alive_at q) I) = mset_set (edges_at lg q))"

lemma replay_append: "replay (xs @ ys) S = replay ys (replay xs S)"
  by (induction xs S rule: replay.induct) auto

lemma finite_replay: "finite S \<Longrightarrow> finite (replay xs S)"
  by (induction xs S rule: replay.induct) auto

lemma finite_edges_at [simp]: "finite (edges_at lg q)"
  by (simp add: edges_at_def finite_replay)

lemma edges_at_snoc:
  "edges_at (lg @ [(E, VInsert d w)]) q = (if E \<le> q then insert d (edges_at lg q) else edges_at lg q)"
  "edges_at (lg @ [(E, VDelete d w)]) q = (if E \<le> q then edges_at lg q - {d} else edges_at lg q)"
  by (simp_all add: edges_at_def replay_append)

lemma edges_at_late: "log_bounded E lg \<Longrightarrow> E \<le> q \<Longrightarrow> edges_at lg q = replay (map snd lg) {}"
proof -
  assume "log_bounded E lg" "E \<le> q"
  then have "filter (\<lambda>e. fst e \<le> q) lg = lg" by (force simp: filter_id_conv log_bounded_def)
  then show ?thesis by (simp add: edges_at_def)
qed

lemma open_iff_live:
  assumes "iv_bounded E I" "snapshots I lg" "E \<le> q"
  shows "(\<exists>c. (d, c, None) \<in># I) \<longleftrightarrow> d \<in> edges_at lg q"
proof -
  have "d \<in> edges_at lg q \<longleftrightarrow> d \<in># image_mset fst (filter_mset (alive_at q) I)"
    using assms(2) by (simp add: snapshots_def)
  also have "\<dots> \<longleftrightarrow> (\<exists>c t. (d, c, t) \<in># I \<and> alive_at q (d, c, t))" by force
  also have "\<dots> \<longleftrightarrow> (\<exists>c. (d, c, None) \<in># I)"
  proof
    assume "\<exists>c t. (d, c, t) \<in># I \<and> alive_at q (d, c, t)"
    then obtain c t where ct: "(d, c, t) \<in># I" "alive_at q (d, c, t)" by blast
    then have "t = None" using assms(1,3) by (cases t) (force simp: iv_bounded_def alive_at_def)+
    with ct show "\<exists>c. (d, c, None) \<in># I" by blast
  next
    assume "\<exists>c. (d, c, None) \<in># I"
    then show "\<exists>c t. (d, c, t) \<in># I \<and> alive_at q (d, c, t)"
      using assms(1,3) by (force simp: iv_bounded_def alive_at_def)
  qed
  finally show ?thesis by simp
qed

lemma ins_effect_snapshots:
  assumes I: "iv_bounded E I" "snapshots I lg" and eff: "ins_effect E d I I'"
  shows "iv_bounded E I'" "snapshots I' (lg @ [(E, VInsert d w)])"
proof -
  show "iv_bounded E I'" using I(1) eff by (auto simp: ins_effect_def iv_bounded_def)
  have "image_mset fst (filter_mset (alive_at q) I') = mset_set (edges_at (lg @ [(E, VInsert d w)]) q)" for q
  proof -
    have old: "image_mset fst (filter_mset (alive_at q) I) = mset_set (edges_at lg q)"
      using I(2) by (simp add: snapshots_def)
    from eff consider c J where "I = add_mset (d, c, None) J" "I' = add_mset (d, E, None) (add_mset (d, c, Some E) J)"
      | "\<forall>c. (d, c, None) \<notin># I" "I' = add_mset (d, E, None) I" by (auto simp: ins_effect_def)
    then show ?thesis
    proof cases
      case 1
      have cE: "c \<le> E" using I(1) 1 by (auto simp: iv_bounded_def)
      have "alive_at q (d, E, None) \<longleftrightarrow> E \<le> q" "alive_at q (d, c, None) \<longleftrightarrow> c \<le> q"
        "alive_at q (d, c, Some E) \<longleftrightarrow> c \<le> q \<and> q < E" by (auto simp: alive_at_def)
      then have "image_mset fst (filter_mset (alive_at q) I') = image_mset fst (filter_mset (alive_at q) I)"
        using 1 cE by (auto simp: not_le)
      moreover have "d \<in> edges_at lg q" if "E \<le> q" using open_iff_live [OF I that, of d] 1 by auto
      ultimately show ?thesis using old by (auto simp: edges_at_snoc insert_absorb)
    next
      case 2
      have "d \<notin> edges_at lg q" if "E \<le> q" using open_iff_live [OF I that, of d] 2 by auto
      then show ?thesis using old 2 by (auto simp: edges_at_snoc alive_at_def)
    qed
  qed
  then show "snapshots I' (lg @ [(E, VInsert d w)])" by (simp add: snapshots_def)
qed

lemma del_effect_snapshots:
  assumes I: "iv_bounded E I" "snapshots I lg" and eff: "del_effect E d I I'"
  shows "iv_bounded E I'" "snapshots I' (lg @ [(E, VDelete d w)])"
proof -
  obtain c J where J: "I = add_mset (d, c, None) J" "I' = add_mset (d, c, Some E) J"
    using eff by (auto simp: del_effect_def)
  show "iv_bounded E I'" using I(1) J by (auto simp: iv_bounded_def)
  have "image_mset fst (filter_mset (alive_at q) I') = mset_set (edges_at (lg @ [(E, VDelete d w)]) q)" for q
  proof -
    have old: "image_mset fst (filter_mset (alive_at q) I) = mset_set (edges_at lg q)"
      using I(2) by (simp add: snapshots_def)
    have cE: "c \<le> E" using I(1) J by (auto simp: iv_bounded_def)
    have al: "alive_at q (d, c, None) \<longleftrightarrow> c \<le> q" "alive_at q (d, c, Some E) \<longleftrightarrow> c \<le> q \<and> q < E"
      by (auto simp: alive_at_def)
    show ?thesis
    proof (cases "E \<le> q")
      case True
      have "d \<in> edges_at lg q" using open_iff_live [OF I True, of d] J by auto
      then have "mset_set (edges_at lg q) = add_mset d (mset_set (edges_at lg q - {d}))" by (simp add: mset_set.remove)
      then show ?thesis using old J al True cE by (auto simp: edges_at_snoc)
    next
      case False
      then show ?thesis using old J al by (auto simp: edges_at_snoc not_le)
    qed
  qed
  then show "snapshots I' (lg @ [(E, VDelete d w)])" by (simp add: snapshots_def)
qed

section \<open>One write\<close>

lemma insert_adds_EB:
  "insert_edge_block junk oldest self e E txn v d = Inr (v', txn', d', True) \<Longrightarrow> self \<in> set (tx_EB_vec txn')"
  by (auto simp: insert_edge_block_def bind_res_def Let_def AddEB_def split: sum.splits if_splits prod.splits)

lemma delete_adds_EB:
  "delete_edge_block junk oldest self e E txn v d = Inr (v', txn', d', True) \<Longrightarrow> self \<in> set (tx_EB_vec txn')"
  by (auto simp: delete_edge_block_def bind_res_def Let_def AddEB_def split: sum.splits if_splits prod.splits option.splits bool.splits)

lemma commit_EBs: "snd (snd (Transaction_commit txn d)) = tx_EB_vec txn"
  by (auto simp: Transaction_commit_def get_intra_c_def Let_def split: prod.splits)

lemma live_deletable:
  assumes "pend_inv E N v" "(d, c, None) \<in># intervals E v"
  shows "deletable v d"
proof -
  have wf: "ve_wf v" using assms(1) by (simp add: pend_inv_def)
  obtain x where x: "x \<in> set (all_cells v)" "ckey x = d" "\<not> is_delete (ew_e (fst x))"
    using assms(2) by (auto simp: intervals_def live_ivs_cells closed_intervals cells_ivs_def cell_iv_def)
  have "distinct (map ckey (all_cells v))" using wf by (auto simp: ve_wf_def all_cells_def strict_sorted_iff)
  then have inj: "inj_on ckey (set (all_cells v))" by (simp add: distinct_map)
  have "\<not> is_delete (ew_e (fst y))" if "y \<in> set (all_cells v)" "ckey y = d" for y
  proof -
    have "y = x" by (rule inj_onD [OF inj _ that(1) x(1)]) (simp add: that(2) x(2))
    then show ?thesis using x(3) by simp
  qed
  then show ?thesis by (simp add: deletable_def)
qed

definition hist_inv :: "epoch_t \<Rightarrow> nat \<Rightarrow> vertex_edges \<Rightarrow> log \<Rightarrow> bool" where
  "hist_inv E N v lg \<longleftrightarrow> pend_inv E N v \<and> \<not> ve_locked v \<and> iv_bounded E (intervals E v) \<and>
     snapshots (intervals E v) lg \<and> log_bounded E lg"

lemma log_bounded_snoc: "log_bounded E lg \<Longrightarrow> log_bounded E (lg @ [(E, x)])"
  by (auto simp: log_bounded_def)

definition blind_write :: "vwrite \<Rightarrow> bool" where
  "blind_write wr = (case wr of (op, txn, oldest, junk) \<Rightarrow> tx_write_only txn)"

definition epoch_log :: "epoch_t \<Rightarrow> vwrite list \<Rightarrow> log" where
  "epoch_log E wrs = map (\<lambda>wr. (E, fst wr)) wrs"

lemma apply_op_inv:
  assumes inva: "hist_inv E N v lg" and legal: "legal_write wr v d lg" and N: "N + 2 < 2 ^ 31"
  shows "\<exists>v1 txn1 d1 ok. apply_op self E wr v d = Inr (v1, txn1, d1, ok) \<and> (ok \<longrightarrow> self \<in> set (tx_EB_vec txn1)) \<and>
      pend_inv E (N + 2) v1 \<and> ve_locked v1 = ok \<and> iv_bounded E (intervals E v1) \<and>
      snapshots (intervals E v1) (if ok then lg @ [(E, fst wr)] else lg) \<and> (blind_write wr \<longrightarrow> ok)"
proof -
  obtain op txn oldest junk where wr: "wr = (op, txn, oldest, junk)" by (cases wr) auto
  have p: "pend_inv E N v" "\<not> ve_locked v" and iv: "iv_bounded E (intervals E v)" "snapshots (intervals E v) lg"
    and lb: "log_bounded E lg" using inva by (auto simp: hist_inv_def)
  have l: "\<not> is_delete (vop_dst op)" "\<not> has_tmp oldest" "tx_threadid txn < length (vd_vb_vector d)"
    "next_intra txn d \<noteq> INTRA_MAX" "lookup_safe junk oldest v (vop_dst op)"
    using legal by (auto simp: legal_write_def wr)
  have "\<exists>v1 txn1 d1 ok. apply_op self E wr v d = Inr (v1, txn1, d1, ok) \<and> (ok \<longrightarrow> self \<in> set (tx_EB_vec txn1)) \<and>
      pend_inv E (N + 2) v1 \<and> ve_locked v1 = ok \<and> iv_bounded E (intervals E v1) \<and>
      snapshots (intervals E v1) (if ok then lg @ [(E, op)] else lg) \<and> (tx_write_only txn \<longrightarrow> ok)"
  proof (cases op)
    case (VInsert dst w)
    obtain v1 txn1 d1 ok where r: "insert_edge_block junk oldest self (dst, w) E txn v d = Inr (v1, txn1, d1, ok)"
      "insert_outcome E (N + 2) dst v v1 ok" "tx_write_only txn \<longrightarrow> ok"
      using insert_correct [OF p N _ l(2) _ l(3,4), where d = dst and junk = junk and self = self and w = w] l VInsert by auto
    have "iv_bounded E (intervals E v1) \<and> snapshots (intervals E v1) (if ok then lg @ [(E, op)] else lg)"
      using ins_effect_snapshots(1) [OF iv, of dst] ins_effect_snapshots(2) [OF iv, of dst _ w] r(2) iv VInsert
      by (cases ok) (auto simp: insert_outcome_def)
    then show ?thesis using r insert_adds_EB [of junk oldest self "(dst, w)" E txn v d v1 txn1 d1]
      by (intro exI [of _ v1] exI [of _ txn1] exI [of _ d1] exI [of _ ok])
        (auto simp: apply_op_def wr VInsert insert_outcome_def)
  next
    case (VDelete dst w)
    have "dst \<in> edges_at lg E" using legal edges_at_late [OF lb, of E] by (simp add: legal_write_def wr VDelete)
    then obtain c where opn: "(dst, c, None) \<in># intervals E v" using open_iff_live [OF iv, of E dst] by auto
    then have dl: "deletable v dst" by (rule live_deletable [OF p(1)])
    obtain v1 txn1 d1 ok where r: "delete_edge_block junk oldest self (dst, w) E txn v d = Inr (v1, txn1, d1, ok)"
      "delete_outcome E (N + 2) dst v v1 ok" "tx_write_only txn \<longrightarrow> ok = (\<exists>c. (dst, c, None) \<in># intervals E v)"
      using delete_correct [OF p N _ l(2) _ l(3,4) dl, where junk = junk and self = self and w = w] l VDelete by auto
    then have only: "tx_write_only txn \<longrightarrow> ok" using opn by blast
    have "iv_bounded E (intervals E v1) \<and> snapshots (intervals E v1) (if ok then lg @ [(E, op)] else lg)"
      using del_effect_snapshots(1) [OF iv, of dst] del_effect_snapshots(2) [OF iv, of dst _ w] r(2) iv VDelete
      by (cases ok) (auto simp: delete_outcome_def)
    then show ?thesis using r(1,2) only delete_adds_EB [of junk oldest self "(dst, w)" E txn v d v1 txn1 d1]
      by (intro exI [of _ v1] exI [of _ txn1] exI [of _ d1] exI [of _ ok])
        (auto simp: apply_op_def wr VDelete delete_outcome_def)
  qed
  then show ?thesis unfolding wr blind_write_def prod.case fst_conv .
qed

lemma run_write_inv:
  assumes inva: "hist_inv E N v lg" and legal: "legal_write wr v d lg" and N: "N + 2 < 2 ^ 31"
  shows "\<exists>v' d' ok. run_write self E wr v d = Inr (v', d', ok) \<and>
     hist_inv E (N + 2) v' (if ok then lg @ [(E, fst wr)] else lg) \<and> (blind_write wr \<longrightarrow> ok)"
proof -
  have lb: "log_bounded E lg" using inva by (simp add: hist_inv_def)
  obtain v1 txn1 d1 ok where r: "apply_op self E wr v d = Inr (v1, txn1, d1, ok)"
    "ok \<longrightarrow> self \<in> set (tx_EB_vec txn1)" "pend_inv E (N + 2) v1" "ve_locked v1 = ok" "iv_bounded E (intervals E v1)"
    "snapshots (intervals E v1) (if ok then lg @ [(E, fst wr)] else lg)" "blind_write wr \<longrightarrow> ok"
    using apply_op_inv [OF assms, of self] by blast
  obtain t2 d2 where c: "Transaction_commit txn1 d1 = (t2, d2, tx_EB_vec txn1)"
    using commit_EBs [of txn1 d1] by (metis prod.collapse)
  let ?v2 = "if self \<in> set (tx_EB_vec txn1) then unleashReadLock v1 else v1"
  have "run_write self E wr v d = Inr (?v2, d2, ok)" using r(1) c by (simp add: run_write_def)
  moreover have "hist_inv E (N + 2) ?v2 (if ok then lg @ [(E, fst wr)] else lg)"
    using r lb by (auto simp: hist_inv_def unleashReadLock_def log_bounded_snoc)
  ultimately show ?thesis using r(7) by blast
qed

lemma run_writes_inv:
  assumes "hist_inv E N v lg" "legal_writes self E wrs (v, d, lg)" "N + 2 * length wrs < 2 ^ 31"
  shows "\<exists>v' d' lg'. run_writes self E wrs (v, d, lg) = Inr (v', d', lg') \<and>
     hist_inv E (N + 2 * length wrs) v' lg' \<and>
     ((\<forall>wr \<in> set wrs. blind_write wr) \<longrightarrow> lg' = lg @ epoch_log E wrs)"
  using assms
proof (induction wrs arbitrary: N v d lg)
  case (Cons wr wrs)
  obtain v1 d1 ok where r: "run_write self E wr v d = Inr (v1, d1, ok)"
    "hist_inv E (N + 2) v1 (if ok then lg @ [(E, fst wr)] else lg)" "blind_write wr \<longrightarrow> ok"
    using run_write_inv [OF Cons.prems(1), of wr d self] Cons.prems by auto
  let ?lg = "if ok then lg @ [(E, fst wr)] else lg"
  have "legal_writes self E wrs (v1, d1, ?lg)" using Cons.prems(2) r(1) by simp
  then obtain v' d' lg' where "run_writes self E wrs (v1, d1, ?lg) = Inr (v', d', lg')"
    "hist_inv E (N + 2 + 2 * length wrs) v' lg'"
    "(\<forall>wr \<in> set wrs. blind_write wr) \<longrightarrow> lg' = ?lg @ epoch_log E wrs"
    using Cons.IH [OF r(2), of d1] Cons.prems(3) by auto
  then show ?case using r(1,3) by (auto simp: add.assoc epoch_log_def)
qed (simp add: epoch_log_def)

section \<open>Between epochs\<close>

lemma quiet_pend:
  assumes "quiet_inv E N v" "E < E'" "\<not> has_tmp E'"
  shows "pend_inv E' N v" "intervals E' v = quiet_intervals v"
proof -
  have none: "version_num (tvb_at v j) = 0" if "j < MAXSIMULBATCH" for j
    using assms(1) that by (auto simp: quiet_inv_def tvb_ok_def)
  then have live: "tvb_live (tvb_at v (ring_slot E')) = []" by (simp add: tvb_live_def)
  show "intervals E' v = quiet_intervals v" by (simp add: intervals_def quiet_intervals_def tvb_ivs_def live)
  have "published_ok E' v" using assms by (auto simp: quiet_inv_def published_ok_def)
  moreover have "tvbs_ok E' N v" using assms(1) none live by (auto simp: quiet_inv_def tvbs_ok_def Let_def)
  moreover have "\<forall>c \<in> set (all_cells v). cell_ok E' (tvb_at v (ring_slot E')) c"
    using assms by (auto simp: quiet_inv_def cell_ok_def)
  ultimately show "pend_inv E' N v" using assms(1) live by (simp add: pend_inv_def quiet_inv_def)
qed

lemma pend_idle:
  assumes "pend_inv E N v" "version_num (tvb_at v (ring_slot E)) = 0"
  shows "quiet_inv E N v" "quiet_intervals v = intervals E v"
proof -
  have live: "tvb_live (tvb_at v (ring_slot E)) = []" using assms(2) by (simp add: tvb_live_def)
  then show "quiet_intervals v = intervals E v" by (simp add: intervals_def quiet_intervals_def tvb_ivs_def)
  have tv: "tvbs_ok E N v" and pub: "published_ok E v" and cells: "\<forall>c \<in> set (all_cells v). cell_ok E (tvb_at v (ring_slot E)) c"
    using assms(1) by (auto simp: pend_inv_def)
  have "tvb_ok (tvb_at v j) \<and> tmp_entry (tvb_at v j) = []" if "j < MAXSIMULBATCH" for j
    using tv assms(2) that by (cases "j = ring_slot E") (auto simp: tvbs_ok_def Let_def)
  moreover have "\<not> has_tmp (ew_block (fst c)) \<and> ew_index (fst c) \<noteq> INTRA_MAX \<and> GetCoarseC (fst c) \<noteq> 0 \<and> GetCoarseC (fst c) \<le> E"
    if "c \<in> set (all_cells v)" for c
    using cells that live by (auto simp: cell_ok_def)
  moreover have "length (vbm_tvb_array (VBM v)) = MAXSIMULBATCH" using tv by (simp add: tvbs_ok_def)
  ultimately show "quiet_inv E N v" using assms(1) pub by (auto simp: quiet_inv_def pend_inv_def published_ok_def)
qed

lemma publish_epoch:
  assumes "pend_inv E N v" "\<not> ve_locked v" "transform_order (tvb_at v (ring_slot E)) indices"
  shows "\<exists>v'. transform_pending indices (ring_slot E) v = Inr v' \<and> quiet_inv E N v' \<and>
     quiet_intervals v' = intervals E v \<and> \<not> ve_locked v' \<and> stamps v' = stamps v"
proof (cases "version_num (tvb_at v (ring_slot E)) = 0")
  case True
  then have "transform_pending indices (ring_slot E) v = Inr v" by (simp add: transform_pending_def Transform_def)
  then show ?thesis using pend_idle [OF assms(1) True] assms(2) by auto
next
  case False
  then show ?thesis using transform_correct [OF assms(1,2) False assms(3)] by blast
qed

definition rest_inv :: "epoch_t \<Rightarrow> nat \<Rightarrow> vertex_edges \<Rightarrow> log \<Rightarrow> bool" where
  "rest_inv E N v lg \<longleftrightarrow> quiet_inv E N v \<and> \<not> ve_locked v \<and> iv_bounded E (quiet_intervals v) \<and>
     snapshots (quiet_intervals v) lg \<and> log_bounded E lg"

lemma rest_hist:
  assumes "rest_inv E N v lg" "E < E'" "\<not> has_tmp E'"
  shows "hist_inv E' N v lg"
proof -
  have le: "x \<le> E'" if "x \<le> E" for x using that assms(2) by simp
  have "iv_bounded E' (quiet_intervals v)" "log_bounded E' lg"
    using assms(1) le unfolding rest_inv_def iv_bounded_def log_bounded_def by blast+
  then show ?thesis using assms quiet_pend [of E N v E'] by (simp add: rest_inv_def hist_inv_def)
qed

fun count_writes :: "vepoch list \<Rightarrow> nat" where
  "count_writes [] = 0"
| "count_writes ((E, wrs, order) # eps) = length wrs + count_writes eps"

fun full_log :: "vepoch list \<Rightarrow> log" where
  "full_log [] = []"
| "full_log ((E, wrs, order) # eps) = epoch_log E wrs @ full_log eps"

fun blind_history :: "vepoch list \<Rightarrow> bool" where
  "blind_history [] = True"
| "blind_history ((E, wrs, order) # eps) = ((\<forall>wr \<in> set wrs. blind_write wr) \<and> blind_history eps)"

lemma run_epochs_inv:
  assumes "rest_inv E0 N v lg" "legal_epochs self E0 eps (v, lg)" "N + 2 * count_writes eps < 2 ^ 31"
  shows "\<exists>v' lg' E'. run_epochs self eps (v, lg) = Inr (v', lg') \<and> rest_inv E' (N + 2 * count_writes eps) v' lg' \<and>
    (blind_history eps \<longrightarrow> lg' = lg @ full_log eps)"
  using assms
proof (induction eps arbitrary: E0 N v lg)
  case (Cons ep eps)
  obtain E wrs order where ep: "ep = (E, wrs, order)" by (cases ep) auto
  have lg: "E0 < E" "\<not> has_tmp E" "legal_writes self E wrs (v, VBData_new E, lg)" using Cons.prems(2) by (simp_all add: ep)
  have bound: "N + 2 * length wrs < 2 ^ 31" using Cons.prems(3) by (simp add: ep)
  obtain v1 d1 lg1 where w: "run_writes self E wrs (v, VBData_new E, lg) = Inr (v1, d1, lg1)"
    "hist_inv E (N + 2 * length wrs) v1 lg1" "(\<forall>wr \<in> set wrs. blind_write wr) \<longrightarrow> lg1 = lg @ epoch_log E wrs"
    using run_writes_inv [OF rest_hist [OF Cons.prems(1) lg(1,2)] lg(3) bound] by blast
  let ?o = "order (tvb_at v1 (ring_slot E))"
  have o: "transform_order (tvb_at v1 (ring_slot E)) ?o" using Cons.prems(2) w(1) by (simp add: ep)
  obtain v2 where t: "transform_pending ?o (ring_slot E) v1 = Inr v2" "quiet_inv E (N + 2 * length wrs) v2"
    "quiet_intervals v2 = intervals E v1" "\<not> ve_locked v2"
    using publish_epoch [OF _ _ o] w(2) by (auto simp: hist_inv_def)
  have rest: "rest_inv E (N + 2 * length wrs) v2 lg1" using t w(2) by (simp add: rest_inv_def hist_inv_def)
  have "legal_epochs self E eps (v2, lg1)" using Cons.prems(2) w(1) t(1) by (simp add: ep)
  then obtain v' lg' E' where "run_epochs self eps (v2, lg1) = Inr (v', lg')"
    "rest_inv E' (N + 2 * length wrs + 2 * count_writes eps) v' lg'" "blind_history eps \<longrightarrow> lg' = lg1 @ full_log eps"
    using Cons.IH [OF rest] Cons.prems(3) unfolding ep count_writes.simps distrib_left add.assoc by blast
  moreover have "run_epochs self (ep # eps) (v, lg) = run_epochs self eps (v2, lg1)" using w(1) t(1) by (simp add: ep)
  moreover have "blind_history (ep # eps) \<longrightarrow> lg1 = lg @ epoch_log E wrs \<and> blind_history eps" using w(3) by (simp add: ep)
  ultimately show ?case unfolding ep count_writes.simps full_log.simps distrib_left add.assoc append_assoc [symmetric] by metis
qed auto

section \<open>Snapshots\<close>

lemma rest_reads:
  assumes "rest_inv E N v lg"
  shows "\<exists>xs. for_each_edge Fine (Composite q INTRA_MAX) v = Inr xs \<and> mset (map ew_e xs) = mset_set (edges_at lg q)"
proof -
  have q: "quiet_inv E N v" and s: "snapshots (quiet_intervals v) lg" using assms by (auto simp: rest_inv_def)
  have "nothing_pending v" using q by (auto simp: quiet_inv_def nothing_pending_def)
  moreover have "cells_settled v" using q by (auto simp: quiet_inv_def cells_settled_def all_cells_def)
  moreover have "chain_wf (vbm_end_epoch (VBM v)) (vbm_end (VBM v))" "\<forall>vb \<in> set (vbm_end (VBM v)). vb_ok vb"
    using q by (auto simp: quiet_inv_def vbm_ok_def)
  ultimately obtain xs where xs: "for_each_edge Fine (Composite q INTRA_MAX) v = Inr xs"
    "map ew_e xs = map fst (filter (alive_at q) (live_ivs v @ chain_ivs (vbm_end (VBM v))))"
    using quiescent_reads by blast
  have "mset (map ew_e xs) = image_mset fst (filter_mset (alive_at q) (quiet_intervals v))"
    unfolding xs(2) quiet_intervals_def by (metis mset_append mset_filter mset_map)
  then show ?thesis using xs(1) s by (auto simp: snapshots_def)
qed

definition empty_vertex :: "edge_with_index list \<Rightarrow> vertex_edges res" where
  "empty_vertex pool = build pool [] VertexEdges_new"

lemma empty_vertex_rests:
  assumes "length pool = 2 * TMPNUM"
  shows "\<exists>v. empty_vertex pool = Inr v \<and> rest_inv 0 0 v []"
proof -
  let ?v = "VertexEdges_new\<lparr>tmp_item := pool\<rparr>"
  have v: "empty_vertex pool = Inr ?v" by (simp add: empty_vertex_def build_def VertexEdges_new_def)
  have cells: "tb_cells ?v = []" "pa_cells ?v = []" by (simp_all add: tb_cells_def pa_cells_def VertexEdges_new_def cells_def)
  have tvb: "tvb_at ?v j = tvb_new" if "j < MAXSIMULBATCH" for j
    using that by (simp add: tvb_at_def VertexEdges_new_def VersionBlockManager_new_def)
  have wf: "ve_wf ?v" using assms cells HashTable2_init_ok
    by (simp add: ve_wf_def ve_keys_def) (simp add: VertexEdges_new_def)
  have "quiet_inv 0 0 ?v"
    using wf cells tvb tvb_new_ok
    by (auto simp: quiet_inv_def all_cells_def) (auto simp: VertexEdges_new_def VersionBlockManager_new_def vbm_ok_def has_tmp_def tvb_new_def)
  moreover have "quiet_intervals ?v = {#}"
    using cells by (simp add: quiet_intervals_def live_ivs_def) (simp add: VertexEdges_new_def VersionBlockManager_new_def chain_ivs_def)
  moreover have "\<not> ve_locked ?v" by (simp add: VertexEdges_new_def)
  ultimately have "rest_inv 0 0 ?v []" by (simp add: rest_inv_def iv_bounded_def snapshots_def log_bounded_def edges_at_def)
  with v show ?thesis by blast
qed

text \<open>
  C1: A vertex starts empty and goes through any epochs, each with any legal writes by committing
  transactions and then \<open>Transform\<close>, whatever order its sort picks. Every step returns, and afterwards a
  reader of any past epoch q is called back exactly once for every edge that replaying the successful
  writes up to q leaves. When all transactions are write-only, every write succeeds.
\<close>

theorem readers_see_committed_history:
  assumes "length pool = 2 * TMPNUM" "empty_vertex pool = Inr v0"
    and "legal_epochs self 0 eps (v0, [])" "2 * count_writes eps < 2 ^ 31"
  shows "\<exists>v lg. run_epochs self eps (v0, []) = Inr (v, lg) \<and> (blind_history eps \<longrightarrow> lg = full_log eps) \<and>
    (\<forall>q. \<exists>xs. for_each_edge Fine (Composite q INTRA_MAX) v = Inr xs \<and> mset (map ew_e xs) = mset_set (edges_at lg q))"
proof -
  have r0: "rest_inv 0 0 v0 []" using empty_vertex_rests [OF assms(1)] assms(2) by auto
  obtain v lg E where run: "run_epochs self eps (v0, []) = Inr (v, lg)" "rest_inv E (2 * count_writes eps) v lg"
    "blind_history eps \<longrightarrow> lg = full_log eps"
    using run_epochs_inv [OF r0 assms(3)] assms(4) by auto
  then show ?thesis using rest_reads [OF run(2)] by blast
qed

definition sample_pool :: "edge_with_index list" where
  "sample_pool = replicate 128 \<lparr>ew_e = 0, ew_block = 0, ew_index = 0\<rparr>"

definition sample_txn :: transaction where
  "sample_txn = Transaction_new 16 0 False True 0"

definition sample_write :: "vop \<Rightarrow> vwrite" where
  "sample_write op = (op, sample_txn, 0, \<lparr>ew_e = 0, ew_block = 0, ew_index = 0\<rparr>)"

definition sample_history :: "vepoch list" where
  "sample_history =
     [(1, [sample_write (VInsert 5 50), sample_write (VInsert 3 30)], \<lambda>t. [0..<version_num t]),
      (2, [sample_write (VDelete 5 0), sample_write (VInsert 9 90)], \<lambda>t. rev [0..<version_num t])]"

lemma sample_start: "empty_vertex sample_pool = Inr (VertexEdges_new\<lparr>tmp_item := sample_pool\<rparr>)"
  by code_simp
lemma sample_blind: "blind_history sample_history"
  by code_simp
lemma sample_legal: "legal_epochs 0 0 sample_history (VertexEdges_new\<lparr>tmp_item := sample_pool\<rparr>, [])"
  by code_simp
theorem readers_see_committed_history_witness:
  "\<exists>v. run_epochs 0 sample_history (VertexEdges_new\<lparr>tmp_item := sample_pool\<rparr>, []) = Inr (v, full_log sample_history) \<and>
    (\<exists>xs. for_each_edge Fine (Composite 1 INTRA_MAX) v = Inr xs \<and> mset (map ew_e xs) = {#3, 5#}) \<and>
    (\<exists>xs. for_each_edge Fine (Composite 2 INTRA_MAX) v = Inr xs \<and> mset (map ew_e xs) = {#3, 9#})"
proof -
  have fits: "length sample_pool = 2 * TMPNUM" "2 * count_writes sample_history < 2 ^ 31"
    by (simp_all add: sample_pool_def TMPNUM_def sample_history_def)
  have l: "full_log sample_history = [(1, VInsert 5 50), (1, VInsert 3 30), (2, VDelete 5 0), (2, VInsert 9 90)]"
    by (simp add: sample_history_def epoch_log_def sample_write_def)
  have at: "edges_at (full_log sample_history) 1 = {3, 5}" "edges_at (full_log sample_history) 2 = {3, 9}"
    unfolding l edges_at_def by (auto simp: word_le_nat_alt)
  from readers_see_committed_history [OF fits(1) sample_start sample_legal fits(2)] sample_blind
  obtain v where v: "run_epochs 0 sample_history (VertexEdges_new\<lparr>tmp_item := sample_pool\<rparr>, []) = Inr (v, full_log sample_history)"
    "\<forall>q. \<exists>xs. for_each_edge Fine (Composite q INTRA_MAX) v = Inr xs \<and> mset (map ew_e xs) = mset_set (edges_at (full_log sample_history) q)"
    by blast
  show ?thesis using v(1) v(2) [rule_format, of 1] v(2) [rule_format, of 2] unfolding at by auto
qed
end
