(* ===== verification/Graph_Store.thy ===== *)
theory Graph_Store
  imports Vertex_History
begin

text \<open>
  \<open>data-structure/EdgeBlock/GraphStore\<close>: the vector of vertices, the creation of vertices and the
  dispatch of edge writes to their source vertex; with it the operations of \<open>Transaction\<close> that go
  through the store (\<open>insertedge\<close>, \<open>deletedge\<close>, \<open>execute\<close> and the release of the locks in
  \<open>commit\<close>). A transaction's watermark reads and what fresh memory holds come from the environment:
  \<open>env k\<close> is what the \<open>k\<close>-th write of the call finds. Vertex ids are naturals.
\<close>

section \<open>The store\<close>

record graph_store =
  gs_blocks :: "vertex_edges option list"
  gs_pmap :: "dst_t list"
  gs_block_count :: nat
  gs_node_num :: nat

definition GraphStore_new :: "nat \<Rightarrow> graph_store" where
  "GraphStore_new block_count =
     \<lparr>gs_blocks = replicate block_count None, gs_pmap = replicate block_count 0,
      gs_block_count = block_count, gs_node_num = 0\<rparr>"

text \<open>\<open>blocks[index].eb\<close>, dereferenced.\<close>

definition GetBlockByIndex :: "graph_store \<Rightarrow> nat \<Rightarrow> vertex_edges res" where
  "GetBlockByIndex g index =
     (if index \<ge> length (gs_blocks g) then Inl OutOfBounds
      else case gs_blocks g ! index of None \<Rightarrow> Inl NullDeref | Some v \<Rightarrow> Inr v)"

definition SetBlockByIndex :: "nat \<Rightarrow> vertex_edges \<Rightarrow> graph_store \<Rightarrow> graph_store res" where
  "SetBlockByIndex index eb g =
     (if index \<ge> length (gs_blocks g) then Inl OutOfBounds
      else Inr (g\<lparr>gs_blocks := (gs_blocks g)[index := Some eb]\<rparr>))"

definition SetBlockByIndex_build :: "edge_with_index list \<Rightarrow> nat \<Rightarrow> (dst_t \<times> weight_t) list \<Rightarrow> graph_store \<Rightarrow> graph_store res" where
  "SetBlockByIndex_build pool index es g =
     (if index \<ge> length (gs_blocks g) then Inl OutOfBounds
      else bind_res (build pool es (setSrc VertexEdges_new (of_nat index))) (\<lambda>eb. SetBlockByIndex index eb g))"

definition gs_insert_edge_block :: "edge_with_index \<Rightarrow> epoch_t \<Rightarrow> edge_triple \<Rightarrow> epoch_t \<Rightarrow> transaction \<Rightarrow>
    graph_store \<Rightarrow> vb_data \<Rightarrow> (graph_store \<times> transaction \<times> vb_data \<times> bool) res" where
  "gs_insert_edge_block junk oldest edge epoch txn g d =
     (case edge of (v, e, w) \<Rightarrow>
        bind_res (GetBlockByIndex g v) (\<lambda>eb.
        bind_res (insert_edge_block junk oldest v (e, w) epoch txn eb d) (\<lambda>(eb', txn', d', f).
        bind_res (SetBlockByIndex v eb' g) (\<lambda>g'. Inr (g', txn', d', f)))))"

definition gs_delete_edge_block :: "edge_with_index \<Rightarrow> epoch_t \<Rightarrow> edge_triple \<Rightarrow> epoch_t \<Rightarrow> transaction \<Rightarrow>
    graph_store \<Rightarrow> vb_data \<Rightarrow> (graph_store \<times> transaction \<times> vb_data \<times> bool) res" where
  "gs_delete_edge_block junk oldest edge epoch txn g d =
     (case edge of (v, e, w) \<Rightarrow>
        bind_res (GetBlockByIndex g v) (\<lambda>eb.
        bind_res (delete_edge_block junk oldest v (e, w) epoch txn eb d) (\<lambda>(eb', txn', d', f).
        bind_res (SetBlockByIndex v eb' g) (\<lambda>g'. Inr (g', txn', d', f)))))"

text \<open>
  \<open>grow_to_at_least\<close> of the concurrent vector never shrinks; its capacity is a parameter.
\<close>

definition grow_to_at_least :: "'a list \<Rightarrow> nat \<Rightarrow> 'a \<Rightarrow> 'a list" where
  "grow_to_at_least v n x = v @ replicate (n - length v) x"

definition grow_vector_if_smaller :: "nat \<Rightarrow> 'a list \<Rightarrow> nat \<Rightarrow> 'a \<Rightarrow> 'a list" where
  "grow_vector_if_smaller cap v s init_value =
     (if cap \<le> s then grow_to_at_least v (cap * 2) init_value else v)"

definition new_vertex :: "edge_with_index list \<Rightarrow> graph_store \<Rightarrow> (graph_store \<times> nat) res" where
  "new_vertex pool g =
     bind_res (build pool [] VertexEdges_new) (\<lambda>eb0.
       let v = gs_node_num g; g1 = g\<lparr>gs_node_num := v + 1\<rparr>; eb = setSrc eb0 (of_nat v);
           blocks = (if length (gs_blocks g1) \<le> v
                     then grow_to_at_least (gs_blocks g1) (max (v + 1) (length (gs_blocks g1) * 2)) None
                     else gs_blocks g1)
       in bind_res (SetBlockByIndex v eb (g1\<lparr>gs_blocks := blocks\<rparr>)) (\<lambda>g2. Inr (g2, v)))"

definition check_degree_now :: "graph_store \<Rightarrow> nat \<Rightarrow> nat res" where
  "check_degree_now g index = bind_res (GetBlockByIndex g index) (\<lambda>v. Inr (ve_num v))"

definition check_degree :: "graph_store \<Rightarrow> nat \<Rightarrow> epoch_t \<Rightarrow> 32 word res" where
  "check_degree g index epoch =
     bind_res (GetBlockByIndex g index) (\<lambda>v. bind_res (getReadLock v) (\<lambda>v'. get_degree v' epoch))"

section \<open>Transactions on the store\<close>

fun insert_all :: "(nat \<Rightarrow> edge_with_index \<times> epoch_t) \<Rightarrow> nat \<Rightarrow> edge_triple list \<Rightarrow>
    graph_store \<times> transaction \<times> vb_data \<Rightarrow> (graph_store \<times> transaction \<times> vb_data) res" where
  "insert_all env k [] s = Inr s"
| "insert_all env k (edge # edges) (g, txn, d) =
     bind_res (gs_insert_edge_block (fst (env k)) (snd (env k)) edge (tx_epoch txn) txn g d)
       (\<lambda>(g', txn', d', _). insert_all env (k + 1) edges (g', txn', d'))"

text \<open>\<open>execute\<close> reads \<open>one_edge_\<close> even when nothing was inserted; the pointer is then uninitialised.\<close>

definition Transaction_execute :: "(nat \<Rightarrow> edge_with_index \<times> epoch_t) \<Rightarrow> graph_store \<times> transaction \<times> vb_data \<Rightarrow>
    (graph_store \<times> transaction \<times> vb_data) res" where
  "Transaction_execute env s =
     (case s of (g, txn, d) \<Rightarrow>
        if tx_insert_cnt txn = 0 then Inl WildPointer else insert_all env 0 (tx_pending txn) (g, txn, d))"

definition insertedge :: "edge_with_index \<times> epoch_t \<Rightarrow> edge_triple \<Rightarrow> graph_store \<times> transaction \<times> vb_data \<Rightarrow>
    (graph_store \<times> transaction \<times> vb_data) res" where
  "insertedge env edge s =
     (case s of (g, txn, d) \<Rightarrow>
        bind_res (gs_insert_edge_block (fst env) (snd env) edge (tx_epoch txn) txn g d)
          (\<lambda>(g', txn', d', _). Inr (g', txn', d')))"

definition deletedge :: "edge_with_index \<times> epoch_t \<Rightarrow> edge_triple \<Rightarrow> graph_store \<times> transaction \<times> vb_data \<Rightarrow>
    (graph_store \<times> transaction \<times> vb_data) res" where
  "deletedge env edge s =
     (case s of (g, txn, d) \<Rightarrow>
        bind_res (gs_delete_edge_block (fst env) (snd env) edge (tx_epoch txn) txn g d)
          (\<lambda>(g', txn', d', _). Inr (g', txn', d')))"

definition unlock_block :: "nat \<Rightarrow> graph_store \<Rightarrow> graph_store res" where
  "unlock_block i g = bind_res (GetBlockByIndex g i) (\<lambda>v. SetBlockByIndex i (unleashReadLock v) g)"

definition commit_on_store :: "graph_store \<times> transaction \<times> vb_data \<Rightarrow> (graph_store \<times> transaction \<times> vb_data) res" where
  "commit_on_store s =
     (case s of (g, txn, d) \<Rightarrow> case Transaction_commit txn d of (txn', d', ebs) \<Rightarrow>
        bind_res (foldR unlock_block ebs g) (\<lambda>g'. Inr (g', txn', d')))"

section \<open>Well-formed stores\<close>

definition gs_ok :: "graph_store \<Rightarrow> bool" where
  "gs_ok g \<longleftrightarrow> gs_node_num g \<le> length (gs_blocks g) \<and> (\<forall>i < gs_node_num g. gs_blocks g ! i \<noteq> None)"

lemma GraphStore_new_ok: "gs_ok (GraphStore_new n)" "gs_node_num (GraphStore_new n) = 0"
  by (simp_all add: gs_ok_def GraphStore_new_def)

lemma GetBlock_ok: "gs_ok g \<Longrightarrow> i < gs_node_num g \<Longrightarrow> \<exists>v. GetBlockByIndex g i = Inr v"
  by (fastforce simp: gs_ok_def GetBlockByIndex_def)

lemma SetBlock_Get:
  assumes "SetBlockByIndex i v g = Inr g'"
  shows "GetBlockByIndex g' i = Inr v" "j \<noteq> i \<Longrightarrow> GetBlockByIndex g' j = GetBlockByIndex g j"
    "gs_node_num g' = gs_node_num g" "length (gs_blocks g') = length (gs_blocks g)" "gs_pmap g' = gs_pmap g"
  using assms by (auto simp: SetBlockByIndex_def GetBlockByIndex_def split: if_splits)

lemma SetBlock_total: "GetBlockByIndex g i = Inr v \<Longrightarrow> \<exists>g'. SetBlockByIndex i v' g = Inr g'"
  by (auto simp: SetBlockByIndex_def GetBlockByIndex_def split: if_splits)

lemma SetBlock_ok: "gs_ok g \<Longrightarrow> SetBlockByIndex i v g = Inr g' \<Longrightarrow> gs_ok g'"
  by (auto simp: gs_ok_def SetBlockByIndex_def nth_list_update split: if_splits)

lemma new_vertex_spec:
  assumes "gs_ok g" "empty_vertex pool = Inr v0"
  shows "\<exists>g'. new_vertex pool g = Inr (g', gs_node_num g) \<and> gs_ok g' \<and> gs_node_num g' = gs_node_num g + 1 \<and>
     GetBlockByIndex g' (gs_node_num g) = Inr (setSrc v0 (of_nat (gs_node_num g))) \<and>
     (\<forall>i < gs_node_num g. GetBlockByIndex g' i = GetBlockByIndex g i) \<and> gs_pmap g' = gs_pmap g"
proof -
  let ?v = "gs_node_num g"
  let ?b = "if length (gs_blocks g) \<le> ?v then grow_to_at_least (gs_blocks g) (max (?v + 1) (length (gs_blocks g) * 2)) None
            else gs_blocks g"
  have len: "?v < length ?b" "length (gs_blocks g) \<le> length ?b" by (auto simp: grow_to_at_least_def)
  have old: "?b ! i = gs_blocks g ! i" if "i < length (gs_blocks g)" for i
    using that by (auto simp: grow_to_at_least_def nth_append)
  have le: "?v \<le> length (gs_blocks g)" using assms(1) by (simp add: gs_ok_def)
  let ?g = "g\<lparr>gs_node_num := ?v + 1, gs_blocks := ?b[?v := Some (setSrc v0 (of_nat ?v))]\<rparr>"
  have run: "new_vertex pool g = Inr (?g, ?v)"
    using assms(2) by (cases "length (gs_blocks g) \<le> ?v")
      (auto simp: new_vertex_def empty_vertex_def Let_def SetBlockByIndex_def grow_to_at_least_def)
  have "gs_ok ?g"
    using assms(1) len old le by (auto simp: gs_ok_def nth_list_update less_Suc_eq)
  moreover have "GetBlockByIndex ?g i = GetBlockByIndex g i" if "i < ?v" for i
    using that len old le by (simp add: GetBlockByIndex_def)
  moreover have "GetBlockByIndex ?g ?v = Inr (setSrc v0 (of_nat ?v))"
    using len by (simp add: GetBlockByIndex_def)
  ultimately show ?thesis using run by auto
qed

section \<open>Properties\<close>

fun new_vertices :: "edge_with_index list list \<Rightarrow> graph_store \<Rightarrow> (graph_store \<times> nat list) res" where
  "new_vertices [] g = Inr (g, [])"
| "new_vertices (pool # pools) g =
     bind_res (new_vertex pool g) (\<lambda>(g1, v). bind_res (new_vertices pools g1) (\<lambda>(g2, vs). Inr (g2, v # vs)))"

definition fresh_block :: "nat \<Rightarrow> graph_store \<Rightarrow> bool" where
  "fresh_block i g \<longleftrightarrow> (\<exists>v pool. GetBlockByIndex g i = Inr (setSrc v (of_nat i)) \<and> length pool = 2 * TMPNUM \<and> empty_vertex pool = Inr v)"

lemma new_vertices_spec:
  assumes "gs_ok g" "\<forall>pool \<in> set pools. length pool = 2 * TMPNUM"
  shows "\<exists>g'. new_vertices pools g = Inr (g', [gs_node_num g..<gs_node_num g + length pools]) \<and> gs_ok g' \<and>
     gs_node_num g' = gs_node_num g + length pools \<and>
     (\<forall>i < gs_node_num g. GetBlockByIndex g' i = GetBlockByIndex g i) \<and>
     (\<forall>i \<in> {gs_node_num g..<gs_node_num g + length pools}. fresh_block i g')"
  using assms
proof (induction pools arbitrary: g)
  case (Cons pool pools)
  obtain v0 where v0: "empty_vertex pool = Inr v0" using empty_vertex_rests [of pool] Cons.prems(2) by auto
  let ?n = "gs_node_num g"
  obtain g1 where g1: "new_vertex pool g = Inr (g1, ?n)" "gs_ok g1" "gs_node_num g1 = ?n + 1"
    "GetBlockByIndex g1 ?n = Inr (setSrc v0 (of_nat ?n))" "\<forall>i < ?n. GetBlockByIndex g1 i = GetBlockByIndex g i"
    using new_vertex_spec [OF Cons.prems(1) v0] by blast
  obtain g2 where g2: "new_vertices pools g1 = Inr (g2, [?n + 1..<?n + 1 + length pools])" "gs_ok g2"
    "gs_node_num g2 = ?n + 1 + length pools" "\<forall>i < ?n + 1. GetBlockByIndex g2 i = GetBlockByIndex g1 i"
    "\<forall>i \<in> {?n + 1..<?n + 1 + length pools}. fresh_block i g2"
    using Cons.IH [OF g1(2)] Cons.prems(2) g1(3) by auto
  have "GetBlockByIndex g2 ?n = Inr (setSrc v0 (of_nat ?n))" using g2(4) g1(4) by simp
  then have "fresh_block ?n g2" using v0 Cons.prems(2) by (auto simp: fresh_block_def)
  moreover have "i = ?n \<or> i \<in> {?n + 1..<?n + 1 + length pools}" if "i \<in> {?n..<?n + length (pool # pools)}" for i
    using that by auto
  ultimately have fresh: "\<forall>i \<in> {?n..<?n + length (pool # pools)}. fresh_block i g2" using g2(5) by blast
  have "[?n..<?n + length (pool # pools)] = ?n # [?n + 1..<?n + 1 + length pools]" by (simp add: upt_conv_Cons del: upt_Suc)
  then show ?case using g1 g2 fresh by (auto intro!: exI [of _ g2])
qed auto

text \<open>
  C37: Creating vertices one after another returns consecutive ids from the current vertex count on;
  each new id has an empty adjacency that knows its own id, no block pointer below the count is null,
  and the vertices that existed before are untouched, however often the block vector has to grow.
\<close>

theorem vertices_are_numbered_consecutively:
  assumes "gs_ok g" "\<forall>pool \<in> set pools. length pool = 2 * TMPNUM"
  shows "\<exists>g'. new_vertices pools g = Inr (g', [gs_node_num g..<gs_node_num g + length pools]) \<and> gs_ok g' \<and>
     gs_node_num g' = gs_node_num g + length pools \<and>
     (\<forall>i < gs_node_num g. GetBlockByIndex g' i = GetBlockByIndex g i) \<and>
     (\<forall>i \<in> {gs_node_num g..<gs_node_num g + length pools}. fresh_block i g')"
  by (rule new_vertices_spec [OF assms])

theorem vertices_are_numbered_consecutively_witness:
  "\<exists>g'. new_vertices (replicate 3 sample_pool) (GraphStore_new 1) = Inr (g', [0, 1, 2]) \<and> gs_ok g' \<and> fresh_block 2 g'"
proof -
  have fits: "\<forall>pool \<in> set (replicate 3 sample_pool). length pool = 2 * TMPNUM"
    by (simp add: sample_pool_def TMPNUM_def)
  have "[0..<0 + length (replicate 3 sample_pool)] = [0, 1, 2]" by code_simp
  with vertices_are_numbered_consecutively [OF GraphStore_new_ok(1) fits, of 1] show ?thesis
    by (auto simp: GraphStore_new_ok(2))
qed

text \<open>
  C16: The vertex lock is not recursive and is held until the transaction commits: a transaction that
  inserts two edges with the same source waits for itself on the second one.
\<close>

theorem second_insert_at_a_source_deadlocks:
  assumes "GetBlockByIndex g s = Inr v" "pend_inv (tx_epoch txn) N v" "\<not> ve_locked v" "N + 2 < 2 ^ 31"
    and "\<not> is_delete d1" "\<not> has_tmp (snd (env k))" "lookup_safe (fst (env k)) (snd (env k)) v d1"
    and "tx_threadid txn < length (vd_vb_vector dd)" "next_intra txn dd \<noteq> INTRA_MAX" "tx_write_only txn"
  shows "insert_all env k [(s, d1, w1), (s, d2, w2)] (g, txn, dd) = Inl Deadlock"
proof -
  obtain v' txn' dd' ok where ins: "insert_edge_block (fst (env k)) (snd (env k)) s (d1, w1) (tx_epoch txn) txn v dd = Inr (v', txn', dd', ok)"
    "insert_outcome (tx_epoch txn) (N + 2) d1 v v' ok" "tx_write_only txn \<longrightarrow> ok"
    using insert_correct [OF assms(2-9), where self = s and w = w1] by blast
  then have locked: "ve_locked v'" using assms(10) by (simp add: insert_outcome_def)
  obtain g' where g': "SetBlockByIndex s v' g = Inr g'" using SetBlock_total [OF assms(1)] by blast
  have "GetBlockByIndex g' s = Inr v'" by (rule SetBlock_Get(1) [OF g'])
  then have "gs_insert_edge_block junk oldest (s, d2, w2) E txn2 g' dd2 = Inl Deadlock" for junk oldest E txn2 dd2
    using locked by (simp add: gs_insert_edge_block_def insert_edge_block_def)
  then show ?thesis using assms(1) ins(1) g' by (simp add: gs_insert_edge_block_def)
qed

definition one_vertex_store :: graph_store where
  "one_vertex_store = \<lparr>gs_blocks = [Some (VertexEdges_new\<lparr>tmp_item := sample_pool\<rparr>)], gs_pmap = [0],
     gs_block_count = 1, gs_node_num = 1\<rparr>"

theorem second_insert_at_a_source_deadlocks_witness:
  "insert_all (\<lambda>k. (\<lparr>ew_e = 0, ew_block = 0, ew_index = 0\<rparr>, 0)) 0 [(0, 5, 50), (0, 6, 60)]
     (one_vertex_store, sample_txn\<lparr>tx_epoch := 1\<rparr>, VBData_new 1) = Inl Deadlock"
proof -
  let ?v = "VertexEdges_new\<lparr>tmp_item := sample_pool\<rparr>" and ?txn = "sample_txn\<lparr>tx_epoch := 1\<rparr>"
  have "rest_inv 0 0 ?v []"
    using empty_vertex_rests [of sample_pool] sample_start by (auto simp: sample_pool_def TMPNUM_def)
  then have "hist_inv 1 0 ?v []" by (rule rest_hist) code_simp+
  then have p: "pend_inv (tx_epoch ?txn) 0 ?v" "\<not> ve_locked ?v" by (simp_all add: hist_inv_def)
  have g: "GetBlockByIndex one_vertex_store 0 = Inr ?v" by (simp add: GetBlockByIndex_def one_vertex_store_def)
  show ?thesis
    by (rule second_insert_at_a_source_deadlocks [OF g p])
      (simp_all add: sample_txn_def Transaction_new_def VBData_new_def WRITE_THREADS_MAX_def next_intra_def INTRA_MAX_def
        has_tmp_def is_delete_def DELETION_MASK_def lookup_safe_def merge_if_full_def TMPNUM_def VertexEdges_new_def
        tb_cells_def cells_def)
qed

end
