(* ===== verification/Epoch_Manager.thy ===== *)
theory Epoch_Manager
  imports Graph_Store
begin

text \<open>
  \<open>data-structure/VersionBlock/AllVBManager\<close>: the manager of the epochs. Writers register with the
  current epoch \<open>cur_\<close>, readers with the last published one \<open>read_epoch_\<close>; the epochs in between wait
  in a ring of \<open>VBData\<close> objects; the updater publishes the epochs below every active writer, discards
  the \<open>VBData\<close> no reader needs and advances the garbage-collection watermark.

  This theory has every operation as one thread runs it without interference; \<open>Epoch_Protocol\<close>
  interleaves their atomic steps. \<open>VBData\<close> objects live on a heap, a pointer is an index into it and
  \<open>None\<close> there is a deleted object. A loop that only another thread could end is \<open>LoopsForever\<close>.
\<close>

section \<open>XorShiftRandom\<close>

definition XorShift_seed :: "64 word \<Rightarrow> 64 word" where
  "XorShift_seed s = (if s \<noteq> 0 then s else 1)"

definition xorshift :: "64 word \<Rightarrow> 64 word" where
  "xorshift st =
     (let s1 = st XOR push_bit 13 st; s2 = s1 XOR drop_bit 7 s1 in s2 XOR push_bit 17 s2)"

definition rand_int :: "nat \<Rightarrow> 64 word \<Rightarrow> nat \<times> 64 word" where
  "rand_int bound st = (unat (xorshift st) mod bound, xorshift st)"

section \<open>The state\<close>

definition NO_TRANSACTION :: epoch_t where
  "NO_TRANSACTION = 0xFFFFFFFF"

definition BATCHTXNNUM :: nat where
  "BATCHTXNNUM = 10000000"

definition WRITE_THREAD :: nat where
  "WRITE_THREAD = 64"

record manager =
  am_cur :: epoch_t
  am_no_more :: bool
  am_stopped :: bool
  am_is_create :: bool
  am_read_epoch :: epoch_t
  am_read_epoch_cur :: nat
  am_active_txns :: "nat option list"
  am_heap :: "vb_data option list"
  am_in_use :: "bool list"
  am_active :: "epoch_t list"
  am_reads :: "epoch_t list"
  am_min_epoch :: epoch_t
  am_min_read_epoch :: epoch_t
  am_que :: "nat list"
  am_oldest :: epoch_t

section \<open>Threads\<close>

definition register_thread :: "nat \<Rightarrow> bool \<Rightarrow> manager \<Rightarrow> manager res" where
  "register_thread tid on m =
     (if tid \<ge> length (am_in_use m) then Inl OutOfBounds
      else if am_in_use m ! tid \<and> on then Inl AssertFail
      else Inr (m\<lparr>am_in_use := (am_in_use m)[tid := True]\<rparr>))"

definition deregister_thread :: "nat \<Rightarrow> manager \<Rightarrow> manager res" where
  "deregister_thread tid m =
     (if tid \<ge> length (am_in_use m) \<or> tid \<ge> length (am_active m) then Inl OutOfBounds
      else if \<not> am_in_use m ! tid then Inl AssertFail
      else if am_active m ! tid \<noteq> NO_TRANSACTION then Inl AssertFail
      else Inr (m\<lparr>am_in_use := (am_in_use m)[tid := False]\<rparr>))"

definition reset_max_threads :: "nat \<Rightarrow> manager \<Rightarrow> manager res" where
  "reset_max_threads max_threads m =
     (if True \<in> set (am_in_use m) then Inl AssertFail
      else Inr (m\<lparr>am_active := replicate max_threads NO_TRANSACTION,
                  am_reads := replicate max_threads NO_TRANSACTION,
                  am_in_use := replicate max_threads False\<rparr>))"

text \<open>
  The constructor. The member \<open>is_create\<close> has no initialiser: its first value is the parameter
  \<open>garbage\<close>. Of the ring's 17 slots only slot 1 is written.
\<close>

definition AllVBManager_new :: "bool \<Rightarrow> nat \<Rightarrow> manager res" where
  "AllVBManager_new garbage max_threads =
     reset_max_threads max_threads
       \<lparr>am_cur = 1, am_no_more = False, am_stopped = False, am_is_create = garbage, am_read_epoch = 0,
        am_read_epoch_cur = 1, am_active_txns = (replicate (MAXSIMULBATCH + 1) None)[1 := Some 0],
        am_heap = [Some (VBData_new 1)], am_in_use = [], am_active = [], am_reads = [],
        am_min_epoch = 0, am_min_read_epoch = 0, am_que = [], am_oldest = 0\<rparr>"

section \<open>Registration of transactions\<close>

definition test1 :: "manager \<Rightarrow> epoch_t res" where
  "test1 m = (if am_cur m - am_read_epoch m \<ge> 16 then Inl LoopsForever else Inr (am_cur m))"

text \<open>The guarded body of the epoch change: a fresh \<open>VBData\<close> in the next slot, then \<open>cur_++\<close>.\<close>

definition open_epoch :: "epoch_t \<Rightarrow> manager \<Rightarrow> manager" where
  "open_epoch cur m =
     (if cur = am_cur m then
        m\<lparr>am_heap := am_heap m @ [Some (VBData_new (cur + 1))],
          am_active_txns := (am_active_txns m)[ring_slot (word_of_nat (ring_slot cur) + 1) := Some (length (am_heap m))],
          am_cur := am_cur m + 1\<rparr>
      else m)"

definition maybe_open_epoch :: "epoch_t \<Rightarrow> nat \<Rightarrow> manager \<Rightarrow> manager" where
  "maybe_open_epoch cur x m =
     (if am_cur m - am_read_epoch m < 16 \<and> x = 0 then
        if \<not> am_is_create m then (open_epoch cur (m\<lparr>am_is_create := True\<rparr>))\<lparr>am_is_create := False\<rparr> else m
      else m)"

definition registerTransaction :: "nat \<Rightarrow> 64 word \<Rightarrow> transaction \<Rightarrow> manager \<Rightarrow>
    (transaction \<times> nat option \<times> 64 word \<times> manager) res" where
  "registerTransaction tid rng txn m =
     bind_res (test1 m) (\<lambda>cur.
       if tid \<ge> length (am_active m) then Inl OutOfBounds
       else
         let m1 = m\<lparr>am_active := (am_active m)[tid := cur]\<rparr>;
             it = am_active_txns m1 ! ring_slot cur;
             (x, rng') = rand_int BATCHTXNNUM rng;
             m2 = maybe_open_epoch cur x m1
         in Inr (txn\<lparr>tx_read_epoch := am_read_epoch m2, tx_epoch := cur\<rparr>, it, rng', m2))"

definition deregisterTransaction :: "nat \<Rightarrow> manager \<Rightarrow> manager res" where
  "deregisterTransaction tid m =
     (if tid \<ge> length (am_active m) then Inl OutOfBounds
      else Inr (m\<lparr>am_active := (am_active m)[tid := NO_TRANSACTION]\<rparr>))"

text \<open>\<open>active_txns_[read_epoch_cur_]\<close>, dereferenced.\<close>

definition next_VBData :: "manager \<Rightarrow> (nat \<times> vb_data) res" where
  "next_VBData m =
     (case am_active_txns m ! am_read_epoch_cur m of
        None \<Rightarrow> Inl WildPointer
      | Some p \<Rightarrow>
          (case (if p < length (am_heap m) then am_heap m ! p else None) of
             None \<Rightarrow> Inl WildPointer
           | Some d \<Rightarrow> Inr (p, d)))"

text \<open>The fine-grained read timestamp, from the earliest unpublished epoch.\<close>

definition choose_read_ts :: "epoch_t \<Rightarrow> manager \<Rightarrow> composite res" where
  "choose_read_ts re m =
     (if re + 1 \<le> am_cur m then
        bind_res (next_VBData m) (\<lambda>(p, d).
          if vd_epoch d = re + 1 then Inr (Composite (re + 1) (vd_intra_counter d)) else Inr (Composite re INTRA_MAX))
      else Inr (Composite re INTRA_MAX))"

definition registerROTransaction :: "nat \<Rightarrow> transaction \<Rightarrow> manager \<Rightarrow> (transaction \<times> manager) res" where
  "registerROTransaction tid txn m =
     (let re = am_read_epoch m in
      if tid \<ge> length (am_reads m) then Inl OutOfBounds
      else if re < am_min_read_epoch m then Inl LoopsForever
      else let m1 = m\<lparr>am_reads := (am_reads m)[tid := re]\<rparr> in
           bind_res (choose_read_ts re m1) (\<lambda>ts.
             Inr (txn\<lparr>tx_read_epoch := re, tx_read_ts := ts\<rparr>, m1)))"

definition deregisterROTransaction :: "nat \<Rightarrow> manager \<Rightarrow> manager res" where
  "deregisterROTransaction tid m =
     (if tid \<ge> length (am_reads m) then Inl OutOfBounds
      else Inr (m\<lparr>am_reads := (am_reads m)[tid := NO_TRANSACTION]\<rparr>))"

section \<open>Publishing\<close>

text \<open>
  \<open>VBData::commitVersionBlock\<close>. The threads of the OpenMP loop work on different vertices; the model
  goes through the blocks in order. \<open>order\<close> is what the sort inside \<open>Transform\<close> makes of a block.
\<close>

definition transform_tvb :: "(tmp_version_block \<Rightarrow> nat list) \<Rightarrow> tvb_ptr \<Rightarrow> graph_store \<Rightarrow> graph_store res" where
  "transform_tvb order p g =
     (case p of (s, k) \<Rightarrow>
        bind_res (GetBlockByIndex g s) (\<lambda>v.
        bind_res (transform_pending (order (tvb_at v k)) k v) (\<lambda>v'. SetBlockByIndex s v' g)))"

definition VBData_commitVersionBlock :: "(tmp_version_block \<Rightarrow> nat list) \<Rightarrow> vb_data \<Rightarrow> graph_store \<Rightarrow>
    (vb_data \<times> graph_store) res" where
  "VBData_commitVersionBlock order d g =
     (let blocks = concat (take WRITE_THREAD (vd_vb_vector d));
          d' = d\<lparr>vd_this_vb_vector := vd_this_vb_vector d @ blocks\<rparr>
      in bind_res (foldR (transform_tvb order) (take (length blocks) (vd_this_vb_vector d')) g)
           (\<lambda>g'. Inr (d', g')))"

text \<open>
  One turn of the loop of \<open>AllVBManager::commitVersionBlock\<close>: the epoch's blocks, then the queue and
  the read epoch with its ring slot.
\<close>

definition mark_published :: "nat \<Rightarrow> vb_data \<Rightarrow> manager \<Rightarrow> manager" where
  "mark_published p d m =
     m\<lparr>am_heap := (am_heap m)[p := Some d], am_que := am_que m @ [p],
       am_read_epoch := am_read_epoch m + 1,
       am_read_epoch_cur := (if am_read_epoch_cur m = MAXSIMULBATCH - 1 then 0 else am_read_epoch_cur m + 1)\<rparr>"

definition publish_one :: "(tmp_version_block \<Rightarrow> nat list) \<Rightarrow> manager \<times> graph_store \<Rightarrow> (manager \<times> graph_store) res" where
  "publish_one order s =
     (case s of (m, g) \<Rightarrow>
        bind_res (next_VBData m) (\<lambda>(p, d).
        bind_res (VBData_commitVersionBlock order d g) (\<lambda>(d', g'). Inr (mark_published p d' m, g'))))"

text \<open>The loop runs \<open>cur - 1 - read_epoch_\<close> times.\<close>

fun publish_times :: "(tmp_version_block \<Rightarrow> nat list) \<Rightarrow> nat \<Rightarrow> epoch_t \<Rightarrow> manager \<times> graph_store \<Rightarrow> (manager \<times> graph_store) res" where
  "publish_times order 0 cur s = (if am_read_epoch (fst s) + 1 < cur then Inl LoopsForever else Inr s)"
| "publish_times order (Suc n) cur s =
     (if am_read_epoch (fst s) + 1 < cur then bind_res (publish_one order s) (publish_times order n cur) else Inr s)"

definition commitVersionBlock :: "(tmp_version_block \<Rightarrow> nat list) \<Rightarrow> epoch_t \<Rightarrow> manager \<times> graph_store \<Rightarrow> (manager \<times> graph_store) res" where
  "commitVersionBlock order cur s = publish_times order (unat cur) cur s"

section \<open>Watermarks and garbage collection\<close>

definition update_min_version :: "manager \<Rightarrow> manager" where
  "update_min_version m =
     (let min1 = foldl min NO_TRANSACTION (am_reads m);
          min_read = min (am_read_epoch m) min1;
          last_min = am_min_epoch m;
          start = am_cur m + (if am_no_more m then 1 else 0);
          min2 = foldl min NO_TRANSACTION (am_active m);
          min_ep = min start min2
      in m\<lparr>am_min_read_epoch := min_read,
           am_min_epoch := (if min_ep < last_min \<and> min2 \<noteq> NO_TRANSACTION then last_min else min_ep)\<rparr>)"

fun gc_loop :: "grain \<Rightarrow> epoch_t \<Rightarrow> nat list \<Rightarrow> vb_data option list \<Rightarrow> (nat list \<times> vb_data option list) res" where
  "gc_loop gr limit [] heap = Inr ([], heap)"
| "gc_loop gr limit (p # que) heap =
     (case (if p < length heap then heap ! p else None) of
        None \<Rightarrow> Inl WildPointer
      | Some d \<Rightarrow>
          if (case gr of Fine \<Rightarrow> vd_epoch d < limit | Coarse \<Rightarrow> vd_epoch d \<le> limit)
          then gc_loop gr limit que (heap[p := None])
          else Inr (p # que, heap))"

definition GC :: "grain \<Rightarrow> manager \<Rightarrow> manager res" where
  "GC gr m =
     bind_res (gc_loop gr (am_min_read_epoch m) (am_que m) (am_heap m)) (\<lambda>(que, heap).
       Inr (m\<lparr>am_que := que, am_heap := heap, am_oldest := am_min_read_epoch m\<rparr>))"

text \<open>The updater's loop condition and one turn of its loop.\<close>

definition updater_runs :: "manager \<Rightarrow> bool" where
  "updater_runs m \<longleftrightarrow> (\<not> am_no_more m \<or> am_read_epoch m \<noteq> am_cur m) \<and> \<not> am_stopped m"

definition updater_turn :: "(tmp_version_block \<Rightarrow> nat list) \<Rightarrow> manager \<times> graph_store \<Rightarrow> (manager \<times> graph_store) res" where
  "updater_turn order s =
     (case s of (m, g) \<Rightarrow>
        bind_res (GC Fine (update_min_version m)) (\<lambda>m1.
          if am_read_epoch m1 + 1 < am_min_epoch m1 \<or> (am_no_more m1 \<and> am_read_epoch m1 < am_cur m1)
          then commitVersionBlock order (if am_no_more m1 then am_cur m1 + 1 else am_min_epoch m1) (m1, g)
          else Inr (m1, g)))"

definition NoMoreTxn :: "manager \<Rightarrow> manager" where
  "NoMoreTxn m = m\<lparr>am_no_more := True\<rparr>"

definition FinalizeNoMoreTxn :: "(tmp_version_block \<Rightarrow> nat list) \<Rightarrow> manager \<times> graph_store \<Rightarrow> (manager \<times> graph_store) res" where
  "FinalizeNoMoreTxn order s =
     (case s of (m, g) \<Rightarrow>
        let m1 = m\<lparr>am_no_more := True, am_stopped := True\<rparr>; target = am_cur m1 + 1
        in if am_read_epoch m1 + 1 < target then commitVersionBlock order target (m1, g) else Inr (m1, g))"

definition getMinActiveVersion :: "manager \<Rightarrow> epoch_t" where
  "getMinActiveVersion m = am_min_epoch m"

definition getCurrentReadEpoch :: "manager \<Rightarrow> epoch_t" where
  "getCurrentReadEpoch m = am_read_epoch m"

end
