(* ===== verification/Epoch_Ring.thy ===== *)
theory Epoch_Ring
  imports Epoch_Manager
begin

text \<open>
  The invariant of the epoch ring and of the queue of published epochs, and that publishing, opening
  an epoch and garbage collection keep it. It is what makes the pointers into the ring and the queue
  safe to follow.
\<close>

section \<open>Ring slots\<close>

lemma ring_slot_mod: "ring_slot e = unat e mod 16"
proof -
  have "e AND MODPM = take_bit 4 e" by (simp add: MODPM_def take_bit_eq_mask mask_eq_exp_minus_1)
  then have "ring_slot e = take_bit 4 (unat e)" by (simp only: ring_slot_def unsigned_take_bit_eq)
  then show ?thesis by (simp add: take_bit_eq_mod)
qed

lemma ring_slot_Suc: "ring_slot (e + 1) = (if ring_slot e = 15 then 0 else ring_slot e + 1)"
proof -
  have "unat (e + 1) = (unat e + 1) mod 2 ^ 32" by (simp add: unat_word_ariths)
  then have "ring_slot (e + 1) = (unat e + 1) mod 16" by (simp add: ring_slot_mod mod_mod_cancel)
  also have "\<dots> = (if unat e mod 16 = 15 then 0 else unat e mod 16 + 1)" by (simp add: mod_Suc)
  finally show ?thesis by (simp add: ring_slot_mod)
qed

lemma ring_slot_next: "ring_slot (word_of_nat (ring_slot e) + 1) = ring_slot (e + 1)"
proof -
  have "ring_slot (word_of_nat (ring_slot e) :: epoch_t) = ring_slot e"
    using ring_slot_less [of e] by (simp add: ring_slot_mod unat_of_nat MAXSIMULBATCH_def)
  then show ?thesis by (simp add: ring_slot_Suc)
qed

lemma mod_window:
  fixes x y :: nat
  assumes "x mod 16 = y mod 16" "x < y + 16" "y < x + 16"
  shows "x = y"
proof -
  define i j r where "i = x div 16" and "j = y div 16" and "r = y mod 16"
  have x: "x = 16 * i + r" and y: "y = 16 * j + r"
    using mult_div_mod_eq [of 16 x] mult_div_mod_eq [of 16 y] assms(1) by (simp_all add: i_def j_def r_def)
  have "i < j + 1" "j < i + 1" using assms(2,3) unfolding x y by arith+
  then show ?thesis unfolding x y by simp
qed

lemma ring_slot_inj:
  assumes "ring_slot a = ring_slot b" "unat a < unat b + 16" "unat b < unat a + 16"
  shows "a = b"
proof -
  have eq: "unat a mod 16 = unat b mod 16" using assms(1) by (simp add: ring_slot_mod)
  have "unat a = unat b" by (rule mod_window [OF eq assms(2,3)])
  then show ?thesis by (simp add: word_unat_eq_iff)
qed

section \<open>The invariant\<close>

definition alive_vbd :: "manager \<Rightarrow> nat \<Rightarrow> vb_data \<Rightarrow> bool" where
  "alive_vbd m p d \<longleftrightarrow> p < length (am_heap m) \<and> am_heap m ! p = Some d"

definition in_slot :: "manager \<Rightarrow> epoch_t \<Rightarrow> nat \<Rightarrow> vb_data \<Rightarrow> bool" where
  "in_slot m e p d \<longleftrightarrow> am_active_txns m ! ring_slot e = Some p \<and> alive_vbd m p d \<and> vd_epoch d = e"

text \<open>Every unpublished epoch has its \<open>VBData\<close> in its slot.\<close>

definition ring_ok :: "manager \<Rightarrow> bool" where
  "ring_ok m \<longleftrightarrow>
     length (am_active_txns m) = MAXSIMULBATCH + 1 \<and> am_read_epoch m \<le> am_cur m \<and>
     unat (am_cur m) \<le> unat (am_read_epoch m) + 16 \<and> am_read_epoch_cur m = ring_slot (am_read_epoch m + 1) \<and>
     (\<forall>e. am_read_epoch m < e \<and> e \<le> am_cur m \<longrightarrow> (\<exists>p d. in_slot m e p d))"

text \<open>The queue holds the last published epochs, oldest first, none of them deleted.\<close>

definition que_ok :: "manager \<Rightarrow> bool" where
  "que_ok m \<longleftrightarrow> length (am_que m) \<le> unat (am_read_epoch m) \<and>
     (\<forall>i < length (am_que m). \<exists>d. alive_vbd m (am_que m ! i) d \<and>
        unat (vd_epoch d) = unat (am_read_epoch m) - length (am_que m) + 1 + i)"

lemma unat_plus_one: "(r :: epoch_t) + 1 \<noteq> 0 \<Longrightarrow> unat (r + 1) = unat r + 1"
  by (metis Suc_eq_plus1 unatSuc add.commute)

lemma unat_plus_one_less: "(r :: epoch_t) < c \<Longrightarrow> unat (r + 1) = unat r + 1"
proof -
  assume "r < c"
  then have "unat r + 1 < 2 ^ 32" using unsigned_less [of c, where 'a = nat] by (simp add: word_less_nat_alt)
  then show ?thesis by (simp add: unat_word_ariths)
qed

lemma next_VBData_ok:
  assumes "ring_ok m" "am_read_epoch m < am_cur m"
  obtains p d where "next_VBData m = Inr (p, d)" "in_slot m (am_read_epoch m + 1) p d"
proof -
  have "am_read_epoch m < am_read_epoch m + 1 \<and> am_read_epoch m + 1 \<le> am_cur m"
    using assms(2) unat_plus_one_less [OF assms(2)] by (simp add: word_less_nat_alt word_le_nat_alt)
  then obtain p d where pd: "in_slot m (am_read_epoch m + 1) p d" using assms(1) by (auto simp: ring_ok_def)
  then have "next_VBData m = Inr (p, d)"
    using assms(1) by (simp add: next_VBData_def ring_ok_def in_slot_def alive_vbd_def)
  then show ?thesis using pd that by blast
qed

lemma mark_published_ok:
  assumes ok: "ring_ok m" "que_ok m" and less: "am_read_epoch m < am_cur m"
    and p: "in_slot m (am_read_epoch m + 1) p d" and e: "vd_epoch d' = vd_epoch d"
  shows "ring_ok (mark_published p d' m)" "que_ok (mark_published p d' m)"
proof -
  let ?m = "mark_published p d' m" and ?r = "am_read_epoch m"
  have r1: "unat (?r + 1) = unat ?r + 1" by (rule unat_plus_one_less [OF less])
  have alive: "alive_vbd m q x \<Longrightarrow> \<exists>y. alive_vbd ?m q y \<and> vd_epoch y = vd_epoch x" for q x
    using p e by (auto simp: alive_vbd_def mark_published_def in_slot_def nth_list_update)
  have "\<exists>q x. in_slot ?m e' q x" if e': "?r + 1 < e'" "e' \<le> am_cur m" for e'
  proof -
    have "?r < e'" using e'(1) r1 by (simp add: word_less_nat_alt)
    then obtain q x where "in_slot m e' q x" using ok(1) e'(2) unfolding ring_ok_def by blast
    then show ?thesis using alive [of q x] by (auto simp: in_slot_def mark_published_def)
  qed
  moreover have "ring_slot (?r + 1 + 1) = (if ring_slot (?r + 1) = MAXSIMULBATCH - 1 then 0 else ring_slot (?r + 1) + 1)"
    unfolding ring_slot_Suc [of "?r + 1"] MAXSIMULBATCH_def by simp
  ultimately show "ring_ok ?m"
    using ok(1) less r1 by (auto simp: ring_ok_def mark_published_def word_less_nat_alt word_le_nat_alt)
  have "\<exists>y. alive_vbd ?m (am_que ?m ! i) y \<and>
      unat (vd_epoch y) = unat (am_read_epoch ?m) - length (am_que ?m) + 1 + i" if i: "i < length (am_que ?m)" for i
  proof (cases "i < length (am_que m)")
    case True
    then obtain x where "alive_vbd m (am_que m ! i) x" "unat (vd_epoch x) = unat ?r - length (am_que m) + 1 + i"
      using ok(2) by (auto simp: que_ok_def)
    then show ?thesis using alive [of "am_que m ! i" x] True r1
      by (auto simp: mark_published_def nth_append)
  next
    case False
    then have "i = length (am_que m)" using i by (simp add: mark_published_def)
    then show ?thesis using p e r1 ok(2)
      by (auto simp: mark_published_def in_slot_def alive_vbd_def que_ok_def)
  qed
  then show "que_ok ?m" using ok(2) r1 by (auto simp: que_ok_def mark_published_def)
qed

lemma heap_append_alive: "alive_vbd m p d \<Longrightarrow> alive_vbd (m\<lparr>am_heap := am_heap m @ ys, am_active_txns := xs, am_cur := c\<rparr>) p d"
  by (simp add: alive_vbd_def nth_append)

lemma open_epoch_ok:
  assumes ok: "ring_ok m" "que_ok m" and room: "am_cur m - am_read_epoch m < 16" and wrap: "am_cur m + 1 \<noteq> 0"
  shows "ring_ok (open_epoch (am_cur m) m)" "que_ok (open_epoch (am_cur m) m)"
proof -
  let ?m = "open_epoch (am_cur m) m" and ?c = "am_cur m" and ?r = "am_read_epoch m"
  have c1: "unat (?c + 1) = unat ?c + 1" using wrap by (rule unat_plus_one)
  have slot: "ring_slot (?c + 1) < length (am_active_txns m)" using ok(1) less_SucI [OF ring_slot_less [of "?c + 1"]]
    by (simp add: ring_ok_def)
  have le: "?r \<le> ?c" using ok(1) by (simp add: ring_ok_def)
  have gap: "unat ?c < unat ?r + 16" using room le by (simp add: word_less_nat_alt unat_sub word_le_nat_alt)
  have m: "?m = m\<lparr>am_heap := am_heap m @ [Some (VBData_new (?c + 1))],
      am_active_txns := (am_active_txns m)[ring_slot (?c + 1) := Some (length (am_heap m))], am_cur := ?c + 1\<rparr>"
    by (simp add: open_epoch_def ring_slot_next)
  have "\<exists>p d. in_slot ?m e p d" if e: "?r < e" "e \<le> ?c + 1" for e
  proof (cases "e = ?c + 1")
    case True
    have "in_slot ?m e (length (am_heap m)) (VBData_new e)"
      using True slot by (simp add: m in_slot_def alive_vbd_def VBData_new_def)
    then show ?thesis by blast
  next
    case False
    then have ec: "e \<le> ?c" using e(2) c1 by (auto simp: word_le_nat_alt word_unat_eq_iff)
    then obtain p d where pd: "in_slot m e p d" using ok(1) e(1) by (auto simp: ring_ok_def)
    have "ring_slot e \<noteq> ring_slot (?c + 1)"
    proof
      assume "ring_slot e = ring_slot (?c + 1)"
      moreover have "unat e < unat (?c + 1) + 16" using ec c1 by (simp add: word_le_nat_alt)
      moreover have "unat (?c + 1) < unat e + 16" using e(1) c1 gap by (simp add: word_less_nat_alt)
      ultimately show False using ring_slot_inj False by blast
    qed
    then have "in_slot ?m e p d" using pd by (simp add: m in_slot_def heap_append_alive)
    then show ?thesis by blast
  qed
  then show "ring_ok ?m" using ok(1) gap c1 le by (simp add: m ring_ok_def word_le_nat_alt)
  have "alive_vbd m p d \<Longrightarrow> alive_vbd ?m p d" for p d by (simp add: m heap_append_alive)
  then show "que_ok ?m" using ok(2) by (fastforce simp: que_ok_def m)
qed

section \<open>Garbage collection\<close>

lemma gc_loop_spec:
  assumes "\<forall>i < length que. \<exists>d. que ! i < length heap \<and> heap ! (que ! i) = Some d \<and> unat (vd_epoch d) = b + i"
  shows "\<exists>n heap'. gc_loop Fine limit que heap = Inr (drop n que, heap') \<and> n \<le> length que \<and> length heap' = length heap \<and>
     (\<forall>p < length heap. p \<notin> set (take n que) \<longrightarrow> heap' ! p = heap ! p) \<and>
     (\<forall>i < n. b + i < unat limit) \<and> (n < length que \<longrightarrow> unat limit \<le> b + n)"
  using assms
proof (induction que arbitrary: heap b)
  case Nil
  show ?case by (intro exI [of _ 0]) simp
next
  case (Cons p que)
  obtain d where d: "p < length heap" "heap ! p = Some d" "unat (vd_epoch d) = b" using Cons.prems by (auto dest: spec [of _ 0])
  have rest: "\<exists>d. que ! i < length heap \<and> heap ! (que ! i) = Some d \<and> unat (vd_epoch d) = Suc b + i" if "i < length que" for i
    using Cons.prems that by (auto dest!: spec [of _ "Suc i"])
  show ?case
  proof (cases "vd_epoch d < limit")
    case False
    then show ?thesis using d by (intro exI [of _ 0]) (auto simp: word_less_nat_alt)
  next
    case True
    have "\<forall>i < length que. \<exists>d. que ! i < length (heap[p := None]) \<and> heap[p := None] ! (que ! i) = Some d \<and> unat (vd_epoch d) = Suc b + i"
    proof (intro allI impI)
      fix i assume i: "i < length que"
      obtain d' where d': "que ! i < length heap" "heap ! (que ! i) = Some d'" "unat (vd_epoch d') = Suc b + i" using rest [OF i] by blast
      then have "que ! i \<noteq> p" using d by auto
      then show "\<exists>d. que ! i < length (heap[p := None]) \<and> heap[p := None] ! (que ! i) = Some d \<and> unat (vd_epoch d) = Suc b + i"
        using d' by simp
    qed
    from Cons.IH [OF this] obtain n heap' where n: "gc_loop Fine limit que (heap[p := None]) = Inr (drop n que, heap')" "n \<le> length que"
      "length heap' = length heap" "\<forall>q < length heap. q \<notin> set (take n que) \<longrightarrow> heap' ! q = heap[p := None] ! q"
      "\<forall>i < n. Suc b + i < unat limit" "n < length que \<longrightarrow> unat limit \<le> Suc b + n" by auto
    have "\<forall>i < Suc n. b + i < unat limit" using n(5) True d(3) by (auto simp: less_Suc_eq_0_disj word_less_nat_alt)
    then show ?thesis using n d True by (intro exI [of _ "Suc n"] exI [of _ heap']) (auto simp: nth_list_update)
  qed
qed

text \<open>The collector never follows a dangling pointer and deletes only published epochs below the watermark.\<close>

lemma GC_ok:
  assumes ok: "ring_ok m" "que_ok m"
  shows "\<exists>m'. GC Fine m = Inr m' \<and> ring_ok m' \<and> que_ok m' \<and> am_oldest m' = am_min_read_epoch m \<and>
     am_cur m' = am_cur m \<and> am_read_epoch m' = am_read_epoch m \<and> am_active m' = am_active m \<and> am_reads m' = am_reads m \<and>
     am_active_txns m' = am_active_txns m \<and> am_is_create m' = am_is_create m \<and> am_no_more m' = am_no_more m \<and>
     am_min_epoch m' = am_min_epoch m \<and> am_min_read_epoch m' = am_min_read_epoch m \<and>
     (\<forall>p d. alive_vbd m p d \<and> am_min_read_epoch m \<le> vd_epoch d \<longrightarrow> alive_vbd m' p d) \<and>
     (\<forall>p d. alive_vbd m p d \<and> am_read_epoch m < vd_epoch d \<longrightarrow> alive_vbd m' p d)"
proof -
  let ?r = "unat (am_read_epoch m)" and ?q = "am_que m" and ?L = "am_min_read_epoch m"
  have q: "\<forall>i < length ?q. \<exists>d. ?q ! i < length (am_heap m) \<and> am_heap m ! (?q ! i) = Some d \<and> unat (vd_epoch d) = (?r - length ?q + 1) + i"
    and le: "length ?q \<le> ?r" using ok(2) by (auto simp: que_ok_def alive_vbd_def)
  obtain n heap' where n: "gc_loop Fine ?L ?q (am_heap m) = Inr (drop n ?q, heap')" "n \<le> length ?q"
    "length heap' = length (am_heap m)" "\<forall>p < length (am_heap m). p \<notin> set (take n ?q) \<longrightarrow> heap' ! p = am_heap m ! p"
    "\<forall>i < n. (?r - length ?q + 1) + i < unat ?L" using gc_loop_spec [OF q] by blast
  let ?m = "m\<lparr>am_que := drop n ?q, am_heap := heap', am_oldest := ?L\<rparr>"
  have run: "GC Fine m = Inr ?m" by (simp add: GC_def n(1))
  have keep: "alive_vbd ?m p d" if p: "alive_vbd m p d" and why: "?L \<le> vd_epoch d \<or> am_read_epoch m < vd_epoch d" for p d
  proof -
    have "p \<notin> set (take n ?q)"
    proof
      assume "p \<in> set (take n ?q)"
      then obtain i where i: "i < n" "?q ! i = p" using n(2) by (auto simp: in_set_conv_nth)
      then obtain d' where "am_heap m ! p = Some d'" "unat (vd_epoch d') = (?r - length ?q + 1) + i"
        using q [rule_format, of i] n(2) by auto
      then have "unat (vd_epoch d) = (?r - length ?q + 1) + i" using p by (simp add: alive_vbd_def)
      then show False using why n(5) i n(2) le by (auto simp: word_le_nat_alt word_less_nat_alt)
    qed
    then show ?thesis using p n(3,4) by (simp add: alive_vbd_def)
  qed
  have "ring_ok ?m" using ok(1) keep by (fastforce simp: ring_ok_def in_slot_def)
  moreover have "que_ok ?m"
  proof -
    have "\<exists>d. alive_vbd ?m (drop n ?q ! i) d \<and> unat (vd_epoch d) = ?r - length (drop n ?q) + 1 + i" if i: "i < length (drop n ?q)" for i
    proof -
      obtain d where d: "alive_vbd m (?q ! (n + i)) d" "unat (vd_epoch d) = (?r - length ?q + 1) + (n + i)"
        using q i by (auto simp: alive_vbd_def less_diff_conv add.commute)
      have "?q ! (n + i) \<notin> set (take n ?q)"
      proof
        assume "?q ! (n + i) \<in> set (take n ?q)"
        then obtain j where j: "j < n" "?q ! j = ?q ! (n + i)" using n(2) by (auto simp: in_set_conv_nth)
        then obtain d' where "am_heap m ! (?q ! j) = Some d'" "unat (vd_epoch d') = (?r - length ?q + 1) + j"
          using q [rule_format, of j] n(2) by auto
        then show False using d j by (auto simp: alive_vbd_def)
      qed
      then have "alive_vbd ?m (?q ! (n + i)) d" using d(1) n(3,4) by (simp add: alive_vbd_def)
      then show ?thesis using d(2) i n(2) le by (auto intro!: exI [of _ d])
    qed
    then show ?thesis using le by (auto simp: que_ok_def)
  qed
  ultimately show ?thesis using run keep by auto
qed

section \<open>What publishing an epoch leaves alone\<close>

lemma mark_published_fields [simp]:
  "am_read_epoch (mark_published p d m) = am_read_epoch m + 1" "am_cur (mark_published p d m) = am_cur m"
  "am_active (mark_published p d m) = am_active m" "am_reads (mark_published p d m) = am_reads m"
  "am_is_create (mark_published p d m) = am_is_create m" "am_no_more (mark_published p d m) = am_no_more m"
  "am_min_epoch (mark_published p d m) = am_min_epoch m" "am_active_txns (mark_published p d m) = am_active_txns m"
  "am_min_read_epoch (mark_published p d m) = am_min_read_epoch m" "am_oldest (mark_published p d m) = am_oldest m"
  "am_que (mark_published p d m) = am_que m @ [p]" "am_stopped (mark_published p d m) = am_stopped m"
  by (simp_all add: mark_published_def)

end
