(* ===== verification/Epoch_Protocol.thy ===== *)
theory Epoch_Protocol
  imports Epoch_Ring
begin

text \<open>
  The threads of \<open>AllVBManager\<close> interleaved: writers in \<open>registerTransaction\<close>, readers in
  \<open>registerROTransaction\<close>, the updater in \<open>run_min_epoch_updater\<close>. A step touches one variable that
  other threads see, as the machine does under sequential consistency; the exceptions are the push
  into the queue and \<open>read_epoch_cur_\<close>, which move together with \<open>read_epoch_\<close> (the queue belongs to the
  updater, \<open>read_epoch_cur_\<close> is read by readers only, and they check the epoch of what they find there).
  The phase before \<open>NoMoreTxn\<close> is modelled; the blocks of a published epoch are \<open>VBData\<close>'s business.
\<close>

section \<open>Program counters\<close>

datatype wpc =
    W_Idle | W_Load | W_Room epoch_t | W_Store epoch_t | W_Check epoch_t | W_Slot epoch_t
  | W_Cur epoch_t "nat option" bool | W_Read epoch_t "nat option" bool epoch_t
  | W_Cas epoch_t "nat option" | W_Crit epoch_t "nat option" | W_Inc epoch_t "nat option"
  | W_Rel epoch_t "nat option" | W_Fin epoch_t "nat option" | W_In epoch_t "nat option" epoch_t

datatype rpc =
    R_Idle | R_Load | R_Store epoch_t | R_Check epoch_t | R_Cur epoch_t | R_Slot epoch_t
  | R_Deref epoch_t "nat option" | R_In epoch_t composite

datatype upc =
    U_Start | U_Reads nat epoch_t | U_Cur | U_Writers epoch_t nat epoch_t | U_GC | U_Decide | U_Pub epoch_t

record psys =
  ps_m :: manager
  ps_w :: "wpc list"
  ps_r :: "rpc list"
  ps_u :: upc

section \<open>Steps\<close>

text \<open>\<open>x\<close>: the random number is 0, so this writer tries to open the next epoch.\<close>

fun writer_step :: "nat \<Rightarrow> bool \<Rightarrow> wpc \<Rightarrow> manager \<Rightarrow> wpc \<times> manager" where
  "writer_step t x W_Idle m = (W_Room (am_cur m), m)"
| "writer_step t x W_Load m = (W_Room (am_cur m), m)"
| "writer_step t x (W_Room nw) m = (if nw - am_read_epoch m \<ge> 16 then (W_Load, m) else (W_Store nw, m))"
| "writer_step t x (W_Store nw) m = (W_Check nw, m\<lparr>am_active := (am_active m)[t := nw]\<rparr>)"
| "writer_step t x (W_Check nw) m = (if nw \<noteq> am_cur m then (W_Load, m) else (W_Slot nw, m))"
| "writer_step t x (W_Slot e) m = (W_Cur e (am_active_txns m ! ring_slot e) x, m)"
| "writer_step t x (W_Cur e it y) m = (W_Read e it y (am_cur m), m)"
| "writer_step t x (W_Read e it y c) m =
     (if c - am_read_epoch m < 16 \<and> y then (W_Cas e it, m) else (W_Fin e it, m))"
| "writer_step t x (W_Cas e it) m =
     (if am_is_create m then (W_Fin e it, m) else (W_Crit e it, m\<lparr>am_is_create := True\<rparr>))"
| "writer_step t x (W_Crit e it) m =
     (if e = am_cur m
      then (W_Inc e it,
            m\<lparr>am_heap := am_heap m @ [Some (VBData_new (e + 1))],
              am_active_txns := (am_active_txns m)[ring_slot (word_of_nat (ring_slot e) + 1) := Some (length (am_heap m))]\<rparr>)
      else (W_Rel e it, m))"
| "writer_step t x (W_Inc e it) m = (W_Rel e it, m\<lparr>am_cur := am_cur m + 1\<rparr>)"
| "writer_step t x (W_Rel e it) m = (W_Fin e it, m\<lparr>am_is_create := False\<rparr>)"
| "writer_step t x (W_Fin e it) m = (W_In e it (am_read_epoch m), m)"
| "writer_step t x (W_In e it re) m = (W_In e it re, m)"

text \<open>A running transaction counts its writes in the \<open>VBData\<close> it was given.\<close>

definition count_write :: "nat option \<Rightarrow> manager \<Rightarrow> manager res" where
  "count_write it m =
     (case it of
        None \<Rightarrow> Inl WildPointer
      | Some p \<Rightarrow>
          (case (if p < length (am_heap m) then am_heap m ! p else None) of
             None \<Rightarrow> Inl WildPointer
           | Some d \<Rightarrow> Inr (m\<lparr>am_heap := (am_heap m)[p := Some (d\<lparr>vd_intra_counter := vd_intra_counter d + 1\<rparr>)]\<rparr>)))"

fun reader_step :: "nat \<Rightarrow> rpc \<Rightarrow> manager \<Rightarrow> (rpc \<times> manager) res" where
  "reader_step t R_Idle m = Inr (R_Store (am_read_epoch m), m)"
| "reader_step t R_Load m = Inr (R_Store (am_read_epoch m), m)"
| "reader_step t (R_Store re) m = Inr (R_Check re, m\<lparr>am_reads := (am_reads m)[t := re]\<rparr>)"
| "reader_step t (R_Check re) m = Inr (if re < am_min_read_epoch m then R_Load else R_Cur re, m)"
| "reader_step t (R_Cur re) m =
     Inr (if re + 1 \<le> am_cur m then R_Slot re else R_In re (Composite re INTRA_MAX), m)"
| "reader_step t (R_Slot re) m = Inr (R_Deref re (am_active_txns m ! am_read_epoch_cur m), m)"
| "reader_step t (R_Deref re it) m =
     (case it of
        None \<Rightarrow> Inl WildPointer
      | Some p \<Rightarrow>
          (case (if p < length (am_heap m) then am_heap m ! p else None) of
             None \<Rightarrow> Inl WildPointer
           | Some d \<Rightarrow> Inr (R_In re (if vd_epoch d = re + 1 then Composite (re + 1) (vd_intra_counter d)
                                      else Composite re INTRA_MAX), m)))"
| "reader_step t (R_In re ts) m = Inr (R_In re ts, m)"

text \<open>One turn of the collector's loop in the fine-grained build.\<close>

definition gc_front :: "manager \<Rightarrow> manager option res" where
  "gc_front m =
     (case am_que m of
        [] \<Rightarrow> Inr None
      | p # que \<Rightarrow>
          (case (if p < length (am_heap m) then am_heap m ! p else None) of
             None \<Rightarrow> Inl WildPointer
           | Some d \<Rightarrow>
               if vd_epoch d < am_min_read_epoch m
               then Inr (Some (m\<lparr>am_que := que, am_heap := (am_heap m)[p := None]\<rparr>)) else Inr None))"

fun updater_step :: "upc \<Rightarrow> manager \<Rightarrow> (upc \<times> manager) res" where
  "updater_step U_Start m =
     Inr (if updater_runs m then (U_Reads 0 NO_TRANSACTION, m\<lparr>am_min_read_epoch := am_read_epoch m\<rparr>) else (U_Start, m))"
| "updater_step (U_Reads i acc) m =
     Inr (if i < length (am_reads m) then (U_Reads (Suc i) (min acc (am_reads m ! i)), m)
          else (U_Cur, m\<lparr>am_min_read_epoch := min (am_min_read_epoch m) acc\<rparr>))"
| "updater_step U_Cur m =
     Inr (U_Writers (am_min_epoch m) 0 NO_TRANSACTION, m\<lparr>am_min_epoch := am_cur m + (if am_no_more m then 1 else 0)\<rparr>)"
| "updater_step (U_Writers last_min i acc) m =
     Inr (if i < length (am_active m) then (U_Writers last_min (Suc i) (min acc (am_active m ! i)), m)
          else (U_GC, m\<lparr>am_min_epoch :=
             (if min (am_min_epoch m) acc < last_min \<and> acc \<noteq> NO_TRANSACTION then last_min
              else min (am_min_epoch m) acc)\<rparr>))"
| "updater_step U_GC m =
     bind_res (gc_front m) (\<lambda>r. Inr (case r of
        Some m' \<Rightarrow> (U_GC, m')
      | None \<Rightarrow> (U_Decide, m\<lparr>am_oldest := am_min_read_epoch m\<rparr>)))"
| "updater_step U_Decide m =
     Inr (if am_read_epoch m + 1 < am_min_epoch m \<or> (am_no_more m \<and> am_read_epoch m < am_cur m)
          then (U_Pub (if am_no_more m then am_cur m + 1 else am_min_epoch m), m) else (U_Start, m))"
| "updater_step (U_Pub target) m =
     (if am_read_epoch m + 1 < target
      then bind_res (next_VBData m) (\<lambda>(p, d). Inr (U_Pub target, mark_published p d m))
      else Inr (U_Start, m))"

datatype act = Writer nat bool | Use nat | WEnd nat | Reader nat | REnd nat | Updater

text \<open>An action of a thread that does not exist or is not there yet changes nothing.\<close>

definition do_act :: "act \<Rightarrow> psys \<Rightarrow> psys res" where
  "do_act a s =
     (case a of
        Writer t x \<Rightarrow>
          if t < length (ps_w s)
          then (case writer_step t x (ps_w s ! t) (ps_m s) of
                  (pc, m) \<Rightarrow> Inr (s\<lparr>ps_w := (ps_w s)[t := pc], ps_m := m\<rparr>))
          else Inr s
      | Use t \<Rightarrow>
          (if t < length (ps_w s)
           then case ps_w s ! t of
                  W_In e it re \<Rightarrow> bind_res (count_write it (ps_m s)) (\<lambda>m. Inr (s\<lparr>ps_m := m\<rparr>))
                | _ \<Rightarrow> Inr s
           else Inr s)
      | WEnd t \<Rightarrow>
          (if t < length (ps_w s)
           then case ps_w s ! t of
                  W_In e it re \<Rightarrow>
                    Inr (s\<lparr>ps_w := (ps_w s)[t := W_Idle], ps_m := (ps_m s)\<lparr>am_active := (am_active (ps_m s))[t := NO_TRANSACTION]\<rparr>\<rparr>)
                | _ \<Rightarrow> Inr s
           else Inr s)
      | Reader t \<Rightarrow>
          if t < length (ps_r s)
          then bind_res (reader_step t (ps_r s ! t) (ps_m s)) (\<lambda>(pc, m). Inr (s\<lparr>ps_r := (ps_r s)[t := pc], ps_m := m\<rparr>))
          else Inr s
      | REnd t \<Rightarrow>
          (if t < length (ps_r s)
           then case ps_r s ! t of
                  R_In re ts \<Rightarrow>
                    Inr (s\<lparr>ps_r := (ps_r s)[t := R_Idle], ps_m := (ps_m s)\<lparr>am_reads := (am_reads (ps_m s))[t := NO_TRANSACTION]\<rparr>\<rparr>)
                | _ \<Rightarrow> Inr s
           else Inr s)
      | Updater \<Rightarrow> bind_res (updater_step (ps_u s) (ps_m s)) (\<lambda>(u, m). Inr (s\<lparr>ps_u := u, ps_m := m\<rparr>)))"

text \<open>The state after construction, with \<open>is_create\<close> zero, for \<open>n\<close> threads.\<close>

definition start_psys :: "nat \<Rightarrow> psys" where
  "start_psys n =
     \<lparr>ps_m = \<lparr>am_cur = 1, am_no_more = False, am_stopped = False, am_is_create = False, am_read_epoch = 0,
        am_read_epoch_cur = 1, am_active_txns = (replicate (MAXSIMULBATCH + 1) None)[1 := Some 0],
        am_heap = [Some (VBData_new 1)], am_in_use = replicate n False, am_active = replicate n NO_TRANSACTION,
        am_reads = replicate n NO_TRANSACTION,
        am_min_epoch = 0, am_min_read_epoch = 0, am_que = [], am_oldest = 0\<rparr>,
      ps_w = replicate n W_Idle, ps_r = replicate n R_Idle, ps_u = U_Start\<rparr>"

text \<open>Reachable while the 32-bit epoch counter is not used up.\<close>

inductive reachable :: "nat \<Rightarrow> psys \<Rightarrow> bool" for n where
  reachable_start: "reachable n (start_psys n)"
| reachable_step: "reachable n s \<Longrightarrow> do_act a s = Inr s' \<Longrightarrow> am_cur (ps_m s') < NO_TRANSACTION \<Longrightarrow> reachable n s'"

lemma start_psys_constructed: "AllVBManager_new False n = Inr (ps_m (start_psys n))"
  by (auto simp: AllVBManager_new_def start_psys_def reset_max_threads_def)

end
