(* ===== verification/Epoch_Safety.thy ===== *)
theory Epoch_Safety
  imports Epoch_Protocol
begin

text \<open>
  What the epoch protocol guarantees under every interleaving: no thread follows a dangling \<open>VBData\<close>
  pointer, the epoch of a running writer is not published, and the collector keeps what the
  registered readers need.
\<close>

section \<open>What a thread may rely on\<close>

fun w_epoch :: "wpc \<Rightarrow> epoch_t option" where
  "w_epoch (W_Slot e) = Some e"
| "w_epoch (W_Cur e it x) = Some e"
| "w_epoch (W_Read e it x c) = Some e"
| "w_epoch (W_Cas e it) = Some e"
| "w_epoch (W_Crit e it) = Some e"
| "w_epoch (W_Inc e it) = Some e"
| "w_epoch (W_Rel e it) = Some e"
| "w_epoch (W_Fin e it) = Some e"
| "w_epoch (W_In e it re) = Some e"
| "w_epoch _ = None"

fun w_ptr :: "wpc \<Rightarrow> (epoch_t \<times> nat option) option" where
  "w_ptr (W_Cur e it x) = Some (e, it)"
| "w_ptr (W_Read e it x c) = Some (e, it)"
| "w_ptr (W_Cas e it) = Some (e, it)"
| "w_ptr (W_Crit e it) = Some (e, it)"
| "w_ptr (W_Inc e it) = Some (e, it)"
| "w_ptr (W_Rel e it) = Some (e, it)"
| "w_ptr (W_Fin e it) = Some (e, it)"
| "w_ptr (W_In e it re) = Some (e, it)"
| "w_ptr _ = None"

fun w_locks :: "wpc \<Rightarrow> bool" where
  "w_locks (W_Crit e it) = True"
| "w_locks (W_Inc e it) = True"
| "w_locks (W_Rel e it) = True"
| "w_locks _ = False"

fun r_epoch :: "rpc \<Rightarrow> epoch_t option" where
  "r_epoch (R_Cur re) = Some re"
| "r_epoch (R_Slot re) = Some re"
| "r_epoch (R_Deref re it) = Some re"
| "r_epoch (R_In re ts) = Some re"
| "r_epoch _ = None"

text \<open>The pointer is to a live \<open>VBData\<close> of an epoch at least \<open>e\<close>.\<close>

definition points_to :: "manager \<Rightarrow> nat option \<Rightarrow> (epoch_t \<Rightarrow> bool) \<Rightarrow> bool" where
  "points_to m it P \<longleftrightarrow> (\<exists>p d. it = Some p \<and> alive_vbd m p d \<and> P (vd_epoch d))"

text \<open>The updater will not publish epoch \<open>e\<close> before it scans the writers again.\<close>

definition spares :: "manager \<Rightarrow> upc \<Rightarrow> nat \<Rightarrow> epoch_t \<Rightarrow> bool" where
  "spares m u t e \<longleftrightarrow>
     (case u of
        U_Writers last_min i acc \<Rightarrow> last_min \<le> e \<and> (t < i \<longrightarrow> am_min_epoch m \<le> e \<or> acc \<le> e)
      | U_Pub target \<Rightarrow> target \<le> e \<and> am_min_epoch m \<le> e
      | _ \<Rightarrow> am_min_epoch m \<le> e)"

definition writer_ok :: "manager \<Rightarrow> upc \<Rightarrow> nat \<Rightarrow> wpc \<Rightarrow> bool" where
  "writer_ok m u t pc \<longleftrightarrow>
     (\<forall>e. w_epoch pc = Some e \<longrightarrow> am_active m ! t = e \<and> e \<le> am_cur m \<and> am_read_epoch m < e \<and> spares m u t e) \<and>
     (\<forall>e it. w_ptr pc = Some (e, it) \<longrightarrow> points_to m it (\<lambda>x. x = e)) \<and>
     (case pc of
        W_Check nw \<Rightarrow> am_active m ! t = nw
      | W_Read e it x c \<Rightarrow> e \<le> c \<and> c \<le> am_cur m
      | W_Cas e it \<Rightarrow> am_cur m = e \<longrightarrow> unat (am_cur m) < unat (am_read_epoch m) + 16
      | W_Crit e it \<Rightarrow> am_cur m = e \<longrightarrow> unat (am_cur m) < unat (am_read_epoch m) + 16
      | W_Inc e it \<Rightarrow> am_cur m = e \<and> unat (am_cur m) < unat (am_read_epoch m) + 16 \<and>
                      am_read_epoch m < e + 1 \<and> (\<exists>p d. in_slot m (e + 1) p d)
      | _ \<Rightarrow> True)"

text \<open>The collector will not delete what a reader at \<open>re\<close> needs.\<close>

definition keeps :: "manager \<Rightarrow> upc \<Rightarrow> nat \<Rightarrow> epoch_t \<Rightarrow> bool" where
  "keeps m u t re \<longleftrightarrow>
     (case u of
        U_Reads i acc \<Rightarrow> t < i \<longrightarrow> am_min_read_epoch m \<le> re \<or> acc \<le> re
      | U_Cur \<Rightarrow> am_min_read_epoch m \<le> re
      | U_Writers last_min i acc \<Rightarrow> am_min_read_epoch m \<le> re
      | U_GC \<Rightarrow> am_min_read_epoch m \<le> re
      | _ \<Rightarrow> True)"

definition reader_ok :: "manager \<Rightarrow> upc \<Rightarrow> nat \<Rightarrow> rpc \<Rightarrow> bool" where
  "reader_ok m u t pc \<longleftrightarrow>
     (\<forall>re. r_epoch pc = Some re \<longrightarrow> am_reads m ! t = re \<and> keeps m u t re) \<and>
     (case pc of
        R_Store re \<Rightarrow> re \<le> am_read_epoch m
      | R_Check re \<Rightarrow> re \<le> am_read_epoch m \<and> am_reads m ! t = re
      | R_Cur re \<Rightarrow> re \<le> am_read_epoch m
      | R_Slot re \<Rightarrow> re \<le> am_read_epoch m
      | R_Deref re it \<Rightarrow> re \<le> am_read_epoch m \<and> points_to m it (\<lambda>x. re < x)
      | R_In re ts \<Rightarrow> re \<le> am_read_epoch m
      | _ \<Rightarrow> True)"

definition updater_ok :: "manager \<Rightarrow> upc \<Rightarrow> bool" where
  "updater_ok m u \<longleftrightarrow> am_min_epoch m \<le> am_cur m \<and>
     (case u of U_Writers last_min i acc \<Rightarrow> last_min \<le> am_cur m | U_Pub target \<Rightarrow> target \<le> am_cur m | _ \<Rightarrow> True)"

definition lock_ok :: "bool \<Rightarrow> wpc list \<Rightarrow> bool" where
  "lock_ok b ws \<longleftrightarrow> (\<forall>i < length ws. w_locks (ws ! i) \<longrightarrow> b) \<and>
     (\<forall>i < length ws. \<forall>j < length ws. w_locks (ws ! i) \<longrightarrow> w_locks (ws ! j) \<longrightarrow> i = j)"

definition manager_ok :: "manager \<Rightarrow> bool" where
  "manager_ok m \<longleftrightarrow> ring_ok m \<and> que_ok m \<and> am_read_epoch m < am_cur m \<and> am_cur m < NO_TRANSACTION \<and>
     \<not> am_no_more m \<and> \<not> am_stopped m"

definition psys_ok :: "psys \<Rightarrow> bool" where
  "psys_ok s \<longleftrightarrow>
     manager_ok (ps_m s) \<and> updater_ok (ps_m s) (ps_u s) \<and> lock_ok (am_is_create (ps_m s)) (ps_w s) \<and>
     length (am_active (ps_m s)) = length (ps_w s) \<and> length (am_reads (ps_m s)) = length (ps_r s) \<and>
     (\<forall>t < length (ps_w s). writer_ok (ps_m s) (ps_u s) t (ps_w s ! t)) \<and>
     (\<forall>t < length (ps_r s). reader_ok (ps_m s) (ps_u s) t (ps_r s ! t))"

section \<open>Frames: what the other threads see of a step\<close>

text \<open>\<open>m'\<close> differs from \<open>m\<close> in nothing that a thread other than \<open>t\<close> relies on.\<close>

definition objects_kept :: "manager \<Rightarrow> manager \<Rightarrow> (epoch_t \<Rightarrow> bool) \<Rightarrow> bool" where
  "objects_kept m m' P \<longleftrightarrow> (\<forall>p d. alive_vbd m p d \<longrightarrow> P (vd_epoch d) \<longrightarrow> (\<exists>d'. alive_vbd m' p d' \<and> vd_epoch d' = vd_epoch d))"

lemma points_to_kept:
  "points_to m it P \<Longrightarrow> objects_kept m m' Q \<Longrightarrow> (\<And>x. P x \<Longrightarrow> Q x) \<Longrightarrow> points_to m' it P"
  unfolding points_to_def objects_kept_def by metis

lemma objects_kept_refl [simp]: "am_heap m' = am_heap m \<Longrightarrow> objects_kept m m' P"
  by (simp add: objects_kept_def alive_vbd_def)

lemma less_NO_TRANSACTION: "(e :: epoch_t) < NO_TRANSACTION \<Longrightarrow> unat (e + 1) = unat e + 1"
  by (rule unat_plus_one_less)

lemma in_slot_kept:
  assumes "\<exists>p d. in_slot m e p d" "objects_kept m m' P" "P e" "am_active_txns m' = am_active_txns m"
  shows "\<exists>p d. in_slot m' e p d"
  using assms unfolding in_slot_def objects_kept_def by metis

text \<open>
  A writer sees the counters move up, its own cell unchanged, and its epoch spared by the updater.
\<close>

lemma writer_frame:
  assumes ok: "writer_ok m u t pc" and cur: "am_cur m < NO_TRANSACTION"
    and same: "am_active m' ! t = am_active m ! t"
    and up: "am_cur m \<le> am_cur m'" "am_read_epoch m \<le> am_read_epoch m'"
    and spare: "\<And>e. w_epoch pc = Some e \<Longrightarrow> am_read_epoch m < e \<Longrightarrow> spares m u t e \<Longrightarrow> spares m' u' t e \<and> am_read_epoch m' < e"
    and heap: "objects_kept m m' (\<lambda>x. am_read_epoch m' < x)"
    and lock: "w_locks pc \<Longrightarrow> am_cur m' = am_cur m \<and> am_active_txns m' = am_active_txns m"
  shows "writer_ok m' u' t pc"
proof -
  have sp: "spares m' u' t e \<and> am_read_epoch m' < e \<and> e \<le> am_cur m' \<and> am_active m' ! t = e" if "w_epoch pc = Some e" for e
    using spare [OF that] ok that up same by (auto simp: writer_ok_def intro: order_trans)
  have ptr: "points_to m' it (\<lambda>x. x = e)" if "w_ptr pc = Some (e, it)" for e it
  proof -
    have p: "points_to m it (\<lambda>x. x = e)" and e: "am_read_epoch m' < e"
      using ok that sp by (auto simp: writer_ok_def elim!: w_ptr.elims)
    show ?thesis by (rule points_to_kept [OF p heap]) (use e in simp)
  qed
  have gap: "unat (am_cur m') < unat (am_read_epoch m') + 16"
    if "am_cur m' = am_cur m" "unat (am_cur m) < unat (am_read_epoch m) + 16"
    using that up(2) by (simp add: word_le_nat_alt)
  show ?thesis
  proof (cases pc)
    case (W_Inc e it)
    have "am_read_epoch m' < e + 1"
      using sp [of e] W_Inc ok less_NO_TRANSACTION [OF cur] by (auto simp: writer_ok_def word_less_nat_alt)
    moreover from this have "\<exists>p d. in_slot m' (e + 1) p d"
      using ok lock in_slot_kept [OF _ heap, of "e + 1"] W_Inc by (auto simp: writer_ok_def)
    ultimately show ?thesis using ok ptr sp lock gap unfolding W_Inc by (auto simp: writer_ok_def)
  next
    case (W_Cas e it)
    then have "am_cur m' = e \<longrightarrow> am_cur m' = am_cur m" using ok up by (auto simp: writer_ok_def)
    then show ?thesis using ok ptr sp gap unfolding W_Cas by (auto simp: writer_ok_def)
  next
    case (W_Crit e it)
    then show ?thesis using ok ptr sp lock gap by (auto simp: writer_ok_def)
  qed (use ok ptr sp same in \<open>auto simp: writer_ok_def intro: order_trans [OF _ up(1)]\<close>)
qed

text \<open>A reader sees its own cell unchanged and what it needs kept.\<close>

lemma reader_frame:
  assumes ok: "reader_ok m u t pc"
    and same: "am_reads m' ! t = am_reads m ! t" and up: "am_read_epoch m \<le> am_read_epoch m'"
    and keep: "\<And>re. r_epoch pc = Some re \<Longrightarrow> am_reads m ! t = re \<Longrightarrow> re \<le> am_read_epoch m \<Longrightarrow> keeps m u t re \<Longrightarrow>
      keeps m' u' t re \<and> objects_kept m m' (\<lambda>x. re < x)"
  shows "reader_ok m' u' t pc"
proof (cases pc)
  case (R_Deref re it)
  then have "points_to m' it (\<lambda>x. re < x)"
    using ok keep [of re] by (auto simp: reader_ok_def intro: points_to_kept)
  then show ?thesis using ok up keep unfolding R_Deref by (auto simp: reader_ok_def same)
qed (use ok up keep in \<open>auto simp: reader_ok_def same\<close>)

section \<open>Steps of a writer\<close>

definition put_next :: "manager \<Rightarrow> manager" where
  "put_next m =
     m\<lparr>am_heap := am_heap m @ [Some (VBData_new (am_cur m + 1))],
       am_active_txns := (am_active_txns m)[ring_slot (am_cur m + 1) := Some (length (am_heap m))]\<rparr>"

lemma append_alive: "alive_vbd m p d \<Longrightarrow> am_heap m' = am_heap m @ ys \<Longrightarrow> alive_vbd m' p d"
  by (simp add: alive_vbd_def nth_append)

lemma append_kept: "am_heap m' = am_heap m @ ys \<Longrightarrow> objects_kept m m' P"
  unfolding objects_kept_def using append_alive by blast

lemma que_ok_append:
  "que_ok m \<Longrightarrow> am_heap m' = am_heap m @ ys \<Longrightarrow> am_que m' = am_que m \<Longrightarrow> am_read_epoch m' = am_read_epoch m \<Longrightarrow> que_ok m'"
  unfolding que_ok_def using append_alive by metis

lemma put_next_ok:
  assumes ok: "ring_ok m" and gap: "unat (am_cur m) < unat (am_read_epoch m) + 16" and cur: "am_cur m < NO_TRANSACTION"
  shows "ring_ok (put_next m)" "in_slot (put_next m) (am_cur m + 1) (length (am_heap m)) (VBData_new (am_cur m + 1))"
proof -
  let ?c = "am_cur m" and ?r = "am_read_epoch m"
  have slot: "ring_slot (?c + 1) < length (am_active_txns m)"
    using ok less_SucI [OF ring_slot_less [of "?c + 1"]] by (simp add: ring_ok_def)
  show "in_slot (put_next m) (?c + 1) (length (am_heap m)) (VBData_new (?c + 1))"
    using slot by (simp add: put_next_def in_slot_def alive_vbd_def VBData_new_def)
  have "\<exists>p d. in_slot (put_next m) e p d" if e: "?r < e" "e \<le> ?c" for e
  proof -
    obtain p d where pd: "in_slot m e p d" using ok e unfolding ring_ok_def by blast
    have "ring_slot e \<noteq> ring_slot (?c + 1)"
    proof
      assume "ring_slot e = ring_slot (?c + 1)"
      then have "e = ?c + 1"
        using e gap less_NO_TRANSACTION [OF cur] by (intro ring_slot_inj) (auto simp: word_less_nat_alt word_le_nat_alt)
      then show False using e less_NO_TRANSACTION [OF cur] by (simp add: word_le_nat_alt)
    qed
    then show ?thesis using pd append_alive [of m p d "put_next m"] by (auto simp: in_slot_def put_next_def)
  qed
  then show "ring_ok (put_next m)" using ok by (auto simp: ring_ok_def put_next_def)
qed

lemma advance_cur_ok:
  assumes ok: "ring_ok m" and gap: "unat (am_cur m) < unat (am_read_epoch m) + 16" and cur: "am_cur m < NO_TRANSACTION"
    and slot: "in_slot m (am_cur m + 1) p d"
  shows "ring_ok (m\<lparr>am_cur := am_cur m + 1\<rparr>)"
proof -
  let ?m = "m\<lparr>am_cur := am_cur m + 1\<rparr>"
  have c: "unat (am_cur m + 1) = unat (am_cur m) + 1" by (rule less_NO_TRANSACTION [OF cur])
  have same: "in_slot ?m e q x = in_slot m e q x" for e q x by (simp add: in_slot_def alive_vbd_def)
  have "\<exists>q x. in_slot m e q x" if e: "am_read_epoch m < e" "e \<le> am_cur m + 1" for e
  proof (cases "e = am_cur m + 1")
    case False
    then have "unat e \<noteq> unat (am_cur m + 1)" by (metis unsigned_word_eqI)
    then have "e \<le> am_cur m" using e(2) c by (simp add: word_le_nat_alt)
    then show ?thesis using ok e unfolding ring_ok_def by blast
  qed (use slot in blast)
  then show ?thesis using ok gap c by (auto simp: ring_ok_def same word_le_nat_alt)
qed

lemma writer_step_frame:
  assumes "writer_step t x pc m = (pc', m')"
  shows "am_reads m' = am_reads m \<and> am_min_epoch m' = am_min_epoch m \<and> am_min_read_epoch m' = am_min_read_epoch m \<and>
    am_read_epoch m' = am_read_epoch m \<and> am_que m' = am_que m \<and> am_no_more m' = am_no_more m \<and>
    am_stopped m' = am_stopped m \<and> length (am_active m') = length (am_active m) \<and> (\<exists>ys. am_heap m' = am_heap m @ ys) \<and>
    (\<forall>t'. t' \<noteq> t \<longrightarrow> am_active m' ! t' = am_active m ! t') \<and>
    (\<not> w_locks pc \<longrightarrow> am_cur m' = am_cur m \<and> am_active_txns m' = am_active_txns m)"
  using assms by (cases pc) (auto split: if_splits)

lemma view_cong [simp]:
  "spares (m\<lparr>am_is_create := b\<rparr>) u t e = spares m u t e" "spares (m\<lparr>am_cur := c\<rparr>) u t e = spares m u t e"
  "points_to (m\<lparr>am_is_create := b\<rparr>) it P = points_to m it P" "points_to (m\<lparr>am_cur := c\<rparr>) it P = points_to m it P"
  by (simp_all add: spares_def points_to_def alive_vbd_def split: upc.split)

lemma writer_step_own:
  assumes m: "manager_ok m" and u: "updater_ok m u" and pc: "writer_ok m u t pc" and t: "t < length (am_active m)"
    and st: "writer_step t x pc m = (pc', m')" and cur: "am_cur m' < NO_TRANSACTION"
  shows "manager_ok m' \<and> updater_ok m' u \<and> writer_ok m' u t pc' \<and> am_cur m \<le> am_cur m'"
proof -
  have keep: "manager_ok (m\<lparr>am_active := as\<rparr>) \<longleftrightarrow> manager_ok m" "updater_ok (m\<lparr>am_active := as\<rparr>) u \<longleftrightarrow> updater_ok m u"
    "manager_ok (m\<lparr>am_is_create := b\<rparr>) \<longleftrightarrow> manager_ok m" "updater_ok (m\<lparr>am_is_create := b\<rparr>) u \<longleftrightarrow> updater_ok m u" for as b
    by (auto simp: manager_ok_def updater_ok_def ring_ok_def que_ok_def in_slot_def alive_vbd_def split: upc.splits)
  show ?thesis
  proof (cases pc)
    case (W_Store nw)
    then show ?thesis using st m u t by (auto simp: keep writer_ok_def)
  next
    case (W_Check nw)
    then show ?thesis using st m u pc
      by (auto simp: writer_ok_def manager_ok_def updater_ok_def spares_def split: if_splits upc.splits)
  next
    case (W_Slot e)
    then have e: "am_read_epoch m < e" "e \<le> am_cur m" using pc by (auto simp: writer_ok_def)
    then obtain p d where "in_slot m e p d" using m unfolding manager_ok_def ring_ok_def by blast
    then have "points_to m (am_active_txns m ! ring_slot e) (\<lambda>x. x = e)"
      by (auto simp: points_to_def in_slot_def)
    then show ?thesis using st m u pc W_Slot by (auto simp: writer_ok_def)
  next
    case (W_Read e it y c)
    have "unat (am_cur m) < unat (am_read_epoch m) + 16" if "c - am_read_epoch m < 16" "am_cur m = e"
    proof -
      have "c = am_cur m" "am_read_epoch m \<le> c" using pc that W_Read by (auto simp: writer_ok_def)
      then show ?thesis using that(1) by (simp add: word_less_nat_alt unat_sub word_le_nat_alt)
    qed
    then show ?thesis using st m u pc W_Read by (auto simp: writer_ok_def split: if_splits)
  next
    case (W_Crit e it)
    show ?thesis
    proof (cases "e = am_cur m")
      case True
      have gap: "unat (am_cur m) < unat (am_read_epoch m) + 16" using pc W_Crit True by (auto simp: writer_ok_def)
      have c: "am_cur m < NO_TRANSACTION" "ring_ok m" "que_ok m" using m by (auto simp: manager_ok_def)
      note put = put_next_ok [OF c(2) gap c(1)]
      have m': "m' = put_next m" "pc' = W_Inc e it"
        using st W_Crit True by (auto simp: put_next_def ring_slot_next)
      have "que_ok m'" using que_ok_append [OF c(3)] by (simp add: m' put_next_def)
      then have "manager_ok m'" using m put(1) by (auto simp: manager_ok_def m' put_next_def)
      moreover have "updater_ok m' u" using u by (auto simp: updater_ok_def m' put_next_def split: upc.splits)
      moreover have "am_read_epoch m < e + 1"
        using m True less_NO_TRANSACTION [OF c(1)] by (auto simp: manager_ok_def word_less_nat_alt)
      moreover have "points_to m' it (\<lambda>x. x = e)"
        using pc W_Crit append_kept [of m' m] by (auto simp: writer_ok_def m' put_next_def intro: points_to_kept)
      ultimately show ?thesis using pc W_Crit True gap put(2)
        by (auto simp: writer_ok_def m' spares_def put_next_def split: upc.splits)
    next
      case False
      then show ?thesis using st m u pc W_Crit by (auto simp: writer_ok_def)
    qed
  next
    case (W_Inc e it)
    then obtain p d where slot: "in_slot m (am_cur m + 1) p d" using pc by (auto simp: writer_ok_def)
    have gap: "unat (am_cur m) < unat (am_read_epoch m) + 16" "e = am_cur m" using pc W_Inc by (auto simp: writer_ok_def)
    have c: "am_cur m < NO_TRANSACTION" "ring_ok m" "que_ok m" using m by (auto simp: manager_ok_def)
    have m': "m' = m\<lparr>am_cur := am_cur m + 1\<rparr>" "pc' = W_Rel e it" using st W_Inc by auto
    have up: "am_cur m < am_cur m + 1" using less_NO_TRANSACTION [OF c(1)] by (simp add: word_less_nat_alt)
    have "que_ok m'" using que_ok_append [OF c(3), of m' "[]"] by (simp add: m')
    then have "manager_ok m'" using m advance_cur_ok [OF c(2) gap(1) c(1) slot] cur up
      by (auto simp: manager_ok_def m' intro: less_trans)
    moreover have "updater_ok m' u" using u up by (auto simp: updater_ok_def m' split: upc.splits intro: order_trans less_imp_le)
    moreover have "points_to m' it (\<lambda>x. x = e)" using pc W_Inc by (auto simp: writer_ok_def m')
    ultimately show ?thesis using pc W_Inc up by (auto simp: writer_ok_def m')
  next
    case (W_Cas e it)
    then show ?thesis using st m u pc by (auto simp: keep writer_ok_def split: if_splits)
  next
    case (W_Rel e it)
    then show ?thesis using st m u pc by (auto simp: keep writer_ok_def)
  qed (use st m u pc in \<open>auto simp: writer_ok_def split: if_splits\<close>)
qed

section \<open>Steps of the updater\<close>

lemma que_front:
  assumes "que_ok m" "am_que m = p # que"
  obtains d where "alive_vbd m p d" "unat (vd_epoch d) = unat (am_read_epoch m) - length que" "vd_epoch d \<le> am_read_epoch m"
    "\<And>i. i < length que \<Longrightarrow> \<exists>d'. alive_vbd m (que ! i) d' \<and> unat (vd_epoch d') = unat (am_read_epoch m) - length que + 1 + i"
proof -
  have le: "Suc (length que) \<le> unat (am_read_epoch m)" using assms by (simp add: que_ok_def)
  have all: "\<exists>d. alive_vbd m ((p # que) ! i) d \<and> unat (vd_epoch d) = unat (am_read_epoch m) - length que + i"
    if "i < Suc (length que)" for i
    using assms le that by (auto simp: que_ok_def dest!: spec [of _ i])
  obtain d where "alive_vbd m p d" "unat (vd_epoch d) = unat (am_read_epoch m) - length que" using all [of 0] by auto
  moreover from this have "vd_epoch d \<le> am_read_epoch m" by (simp add: word_le_nat_alt)
  ultimately show ?thesis using all [of "Suc i" for i] by (intro that) auto
qed

lemma gc_front_ok:
  assumes m: "manager_ok m"
  shows "gc_front m = Inr None \<or> (\<exists>m'. gc_front m = Inr (Some m') \<and> manager_ok m' \<and>
    am_active m' = am_active m \<and> am_reads m' = am_reads m \<and> am_is_create m' = am_is_create m \<and>
    am_min_epoch m' = am_min_epoch m \<and> am_min_read_epoch m' = am_min_read_epoch m \<and> am_cur m' = am_cur m \<and>
    am_read_epoch m' = am_read_epoch m \<and> am_active_txns m' = am_active_txns m \<and>
    objects_kept m m' (\<lambda>x. am_read_epoch m < x) \<and> objects_kept m m' (\<lambda>x. am_min_read_epoch m \<le> x))"
proof (cases "am_que m")
  case Nil
  then show ?thesis by (simp add: gc_front_def)
next
  case (Cons p que)
  have q: "que_ok m" using m by (simp add: manager_ok_def)
  obtain d where d: "alive_vbd m p d" "unat (vd_epoch d) = unat (am_read_epoch m) - length que" "vd_epoch d \<le> am_read_epoch m"
    "\<And>i. i < length que \<Longrightarrow> \<exists>d'. alive_vbd m (que ! i) d' \<and> unat (vd_epoch d') = unat (am_read_epoch m) - length que + 1 + i"
    using que_front [OF q Cons] by blast
  let ?m = "m\<lparr>am_que := que, am_heap := (am_heap m)[p := None]\<rparr>"
  have other: "alive_vbd ?m r x" if "alive_vbd m r x" "vd_epoch x \<noteq> vd_epoch d" for r x
    using that d(1) by (auto simp: alive_vbd_def nth_list_update)
  have ring: "ring_ok ?m" using m d(3) other by (fastforce simp: manager_ok_def ring_ok_def in_slot_def)
  have "\<exists>d'. alive_vbd ?m (que ! i) d' \<and> unat (vd_epoch d') = unat (am_read_epoch m) - length que + 1 + i" if "i < length que" for i
    using d(4) [OF that] d(2) other by fastforce
  then have "que_ok ?m" using q Cons by (auto simp: que_ok_def)
  then have "manager_ok ?m" using ring m by (simp add: manager_ok_def)
  moreover have "objects_kept m ?m (\<lambda>x. am_read_epoch m < x)" using d(3) other by (fastforce simp: objects_kept_def)
  moreover have "objects_kept m ?m (\<lambda>x. am_min_read_epoch m \<le> x)" if "vd_epoch d < am_min_read_epoch m"
    using that other by (fastforce simp: objects_kept_def)
  ultimately show ?thesis using d(1) by (auto simp: gc_front_def Cons alive_vbd_def)
qed

text \<open>What every thread sees of a step of the updater.\<close>

definition updater_moves :: "manager \<Rightarrow> upc \<Rightarrow> manager \<Rightarrow> upc \<Rightarrow> bool" where
  "updater_moves m u m' u' \<longleftrightarrow>
     manager_ok m' \<and> updater_ok m' u' \<and> am_active m' = am_active m \<and> am_reads m' = am_reads m \<and>
     am_is_create m' = am_is_create m \<and> am_cur m' = am_cur m \<and> am_active_txns m' = am_active_txns m \<and>
     am_read_epoch m \<le> am_read_epoch m' \<and> objects_kept m m' (\<lambda>x. am_read_epoch m' < x) \<and>
     (\<forall>t e. t < length (am_active m) \<longrightarrow> am_active m ! t = e \<longrightarrow> am_read_epoch m < e \<longrightarrow> spares m u t e \<longrightarrow>
        spares m' u' t e \<and> am_read_epoch m' < e) \<and>
     (\<forall>t re. t < length (am_reads m) \<longrightarrow> am_reads m ! t = re \<longrightarrow> keeps m u t re \<longrightarrow>
        keeps m' u' t re \<and> objects_kept m m' (\<lambda>x. re < x))"

lemma watermarks_irrelevant [simp]:
  "manager_ok (m\<lparr>am_min_read_epoch := a\<rparr>) = manager_ok m" "manager_ok (m\<lparr>am_min_epoch := b\<rparr>) = manager_ok m"
  "manager_ok (m\<lparr>am_oldest := c\<rparr>) = manager_ok m"
  by (simp_all add: manager_ok_def ring_ok_def que_ok_def in_slot_def alive_vbd_def)

lemma publish_moves:
  assumes m: "manager_ok m" and u: "updater_ok m (U_Pub target)" and less: "am_read_epoch m + 1 < target"
  shows "\<exists>m'. updater_step (U_Pub target) m = Inr (U_Pub target, m') \<and> updater_moves m (U_Pub target) m' (U_Pub target)"
proof -
  have ok: "ring_ok m" "que_ok m" and lt: "am_read_epoch m < am_cur m" using m by (auto simp: manager_ok_def)
  obtain p d where p: "next_VBData m = Inr (p, d)" "in_slot m (am_read_epoch m + 1) p d" using next_VBData_ok [OF ok(1) lt] by blast
  let ?m = "mark_published p d m"
  have r1: "unat (am_read_epoch m + 1) = unat (am_read_epoch m) + 1" by (rule unat_plus_one_less [OF lt])
  have heap: "alive_vbd ?m q x \<longleftrightarrow> alive_vbd m q x" for q x
    using p(2) by (auto simp: alive_vbd_def mark_published_def in_slot_def nth_list_update)
  have "am_read_epoch m + 1 < am_cur m" using less u by (auto simp: updater_ok_def intro: less_le_trans)
  then have "manager_ok ?m" using m mark_published_ok [OF ok lt p(2) refl] by (simp add: manager_ok_def)
  moreover have "updater_ok ?m (U_Pub target)" using u by (simp add: updater_ok_def)
  moreover have "am_read_epoch m \<le> am_read_epoch m + 1" using r1 by (simp add: word_le_nat_alt)
  ultimately have "updater_moves m (U_Pub target) ?m (U_Pub target)"
    using less heap by (auto simp: updater_moves_def spares_def keeps_def objects_kept_def intro: less_le_trans)
  then show ?thesis using less p(1) by simp
qed

lemma collector_moves:
  assumes m: "manager_ok m" and u: "updater_ok m U_GC"
  shows "\<exists>m' u'. updater_step U_GC m = Inr (u', m') \<and> updater_moves m U_GC m' u'"
proof -
  consider "gc_front m = Inr None" | m' where "gc_front m = Inr (Some m')" "manager_ok m'"
    "am_active m' = am_active m" "am_reads m' = am_reads m" "am_is_create m' = am_is_create m"
    "am_min_epoch m' = am_min_epoch m" "am_min_read_epoch m' = am_min_read_epoch m" "am_cur m' = am_cur m"
    "am_read_epoch m' = am_read_epoch m" "am_active_txns m' = am_active_txns m"
    "objects_kept m m' (\<lambda>x. am_read_epoch m < x)" "objects_kept m m' (\<lambda>x. am_min_read_epoch m \<le> x)"
    using gc_front_ok [OF m] by blast
  then show ?thesis
  proof cases
    case 1
    then have "updater_step U_GC m = Inr (U_Decide, m\<lparr>am_oldest := am_min_read_epoch m\<rparr>)" by simp
    then show ?thesis using m u by (auto simp: updater_moves_def updater_ok_def spares_def keeps_def)
  next
    case (2 m')
    have "objects_kept m m' (\<lambda>x. re < x)" if "am_min_read_epoch m \<le> re" for re
      using 2(12) that unfolding objects_kept_def by (meson less_imp_le order_trans)
    then have "updater_moves m U_GC m' U_GC"
      using 2(2-11) u by (auto simp: updater_moves_def updater_ok_def spares_def keeps_def)
    then show ?thesis using 2(1) by simp
  qed
qed

lemma updater_step_ok:
  assumes m: "manager_ok m" and u: "updater_ok m u"
  shows "\<exists>u' m'. updater_step u m = Inr (u', m') \<and> updater_moves m u m' u'"
proof (cases u)
  case U_GC
  then show ?thesis using collector_moves [OF m] u by blast
next
  case (U_Pub target)
  show ?thesis
  proof (cases "am_read_epoch m + 1 < target")
    case True
    then show ?thesis using publish_moves [OF m _ True] u U_Pub by blast
  next
    case False
    then show ?thesis using m u U_Pub by (auto simp: updater_moves_def updater_ok_def spares_def keeps_def)
  qed
next
  case (U_Writers last_min i acc)
  show ?thesis
  proof (cases "i < length (am_active m)")
    case True
    then show ?thesis using m u U_Writers
      by (auto simp: updater_moves_def updater_ok_def spares_def keeps_def less_Suc_eq min_le_iff_disj)
  next
    case False
    then show ?thesis using m u U_Writers
      by (auto simp: updater_moves_def updater_ok_def spares_def keeps_def min_le_iff_disj)
  qed
next
  case (U_Reads i acc)
  then show ?thesis using m u
    by (auto simp: updater_moves_def updater_ok_def spares_def keeps_def less_Suc_eq min_le_iff_disj)
next
  case U_Decide
  then have "\<not> am_no_more m" using m by (simp add: manager_ok_def)
  then show ?thesis using m u U_Decide by (auto simp: updater_moves_def updater_ok_def spares_def keeps_def)
next
  case U_Cur
  then have "\<not> am_no_more m" using m by (simp add: manager_ok_def)
  then show ?thesis using m u U_Cur by (auto simp: updater_moves_def updater_ok_def spares_def keeps_def)
next
  case U_Start
  then show ?thesis using m u by (auto simp: updater_moves_def updater_ok_def spares_def keeps_def)
qed

section \<open>The invariant\<close>

lemma start_psys_ok: "psys_ok (start_psys n)"
proof -
  let ?m = "ps_m (start_psys n)"
  have one: "e = 1" if "0 < e" "e \<le> 1" for e :: epoch_t
    using that by (metis word_le_less_eq word_less_1 word_neq_0_conv)
  have "ring_slot 1 = 1" by code_simp
  then have "in_slot ?m 1 0 (VBData_new 1)"
    by (simp add: start_psys_def in_slot_def alive_vbd_def VBData_new_def MAXSIMULBATCH_def)
  then have "\<exists>p d. in_slot ?m e p d" if "0 < e" "e \<le> 1" for e using one [OF that] by blast
  then have "ring_ok ?m" using \<open>ring_slot 1 = 1\<close> by (simp add: ring_ok_def) (simp add: start_psys_def)
  moreover have "que_ok ?m" by (simp add: que_ok_def start_psys_def)
  ultimately have "manager_ok ?m" by (simp add: manager_ok_def) (simp add: start_psys_def NO_TRANSACTION_def)
  then show ?thesis unfolding psys_ok_def
    by (simp add: start_psys_def updater_ok_def lock_ok_def writer_ok_def reader_ok_def)
qed

lemma spares_cong: "am_min_epoch m' = am_min_epoch m \<Longrightarrow> spares m' u t e = spares m u t e"
  by (simp add: spares_def split: upc.split)

lemma keeps_cong: "am_min_read_epoch m' = am_min_read_epoch m \<Longrightarrow> keeps m' u t e = keeps m u t e"
  by (simp add: keeps_def split: upc.split)

lemma lock_ok_write:
  assumes "lock_ok b ws" "t < length ws"
    and "w_locks pc \<Longrightarrow> w_locks (ws ! t) \<and> b' = b \<or> \<not> b \<and> b'" and "\<not> w_locks pc \<Longrightarrow> b' = b \<or> w_locks (ws ! t)"
  shows "lock_ok b' (ws[t := pc])"
  using assms unfolding lock_ok_def by (cases "w_locks pc") (auto simp: nth_list_update)

lemma writer_step_lock:
  assumes "writer_step t x pc m = (pc', m')"
  shows "w_locks pc' \<Longrightarrow> w_locks pc \<and> am_is_create m' = am_is_create m \<or> \<not> am_is_create m \<and> am_is_create m'"
    and "\<not> w_locks pc' \<Longrightarrow> am_is_create m' = am_is_create m \<or> w_locks pc"
  using assms by (cases pc; auto split: if_splits)+

lemma writer_act_ok:
  assumes ok: "psys_ok s" and t: "t < length (ps_w s)" and st: "writer_step t x (ps_w s ! t) (ps_m s) = (pc', m')"
    and cur: "am_cur m' < NO_TRANSACTION"
  shows "psys_ok (s\<lparr>ps_w := (ps_w s)[t := pc'], ps_m := m'\<rparr>)"
proof -
  let ?m = "ps_m s" and ?u = "ps_u s"
  have m: "manager_ok ?m" "updater_ok ?m ?u" "lock_ok (am_is_create ?m) (ps_w s)" "length (am_active ?m) = length (ps_w s)"
    "length (am_reads ?m) = length (ps_r s)" and w: "\<And>j. j < length (ps_w s) \<Longrightarrow> writer_ok ?m ?u j (ps_w s ! j)"
    and r: "\<And>j. j < length (ps_r s) \<Longrightarrow> reader_ok ?m ?u j (ps_r s ! j)" using ok by (auto simp: psys_ok_def)
  note f = writer_step_frame [OF st]
  have same: "am_reads m' = am_reads ?m" "am_min_epoch m' = am_min_epoch ?m" "am_min_read_epoch m' = am_min_read_epoch ?m"
    "am_read_epoch m' = am_read_epoch ?m" "length (am_active m') = length (am_active ?m)"
    "\<And>j. j \<noteq> t \<Longrightarrow> am_active m' ! j = am_active ?m ! j" using f by auto
  have free: "am_cur m' = am_cur ?m \<and> am_active_txns m' = am_active_txns ?m" if "\<not> w_locks (ps_w s ! t)" using f that by auto
  have kept: "objects_kept ?m m' P" for P using f append_kept by blast
  have own: "manager_ok m' \<and> updater_ok m' ?u \<and> writer_ok m' ?u t pc' \<and> am_cur ?m \<le> am_cur m'"
    using writer_step_own [OF m(1,2) w [OF t] _ st cur] t m(4) by simp
  have c: "am_cur ?m < NO_TRANSACTION" using m(1) by (simp add: manager_ok_def)
  have other: "writer_ok m' ?u j (ps_w s ! j)" if j: "j < length (ps_w s)" "j \<noteq> t" for j
  proof (rule writer_frame [OF w [OF j(1)] c])
    show "am_cur m' = am_cur ?m \<and> am_active_txns m' = am_active_txns ?m" if "w_locks (ps_w s ! j)"
      using that free m(3) j t unfolding lock_ok_def by blast
    show "objects_kept ?m m' (\<lambda>x. am_read_epoch m' < x)" by (rule kept)
  qed (simp_all add: same j own spares_cong [OF same(2)])
  have reader: "reader_ok m' ?u j (ps_r s ! j)" if j: "j < length (ps_r s)" for j
    by (rule reader_frame [OF r [OF j]]) (simp_all add: same kept keeps_cong [OF same(3)])
  have "lock_ok (am_is_create m') ((ps_w s)[t := pc'])"
    by (rule lock_ok_write [OF m(3) t]) (use writer_step_lock [OF st] in blast)+
  then show ?thesis using own m(4,5) same other reader t by (simp add: psys_ok_def nth_list_update)
qed

lemma reader_step_own:
  assumes m: "manager_ok m" and pc: "reader_ok m u t pc" and t: "t < length (am_reads m)"
  shows "\<exists>pc' m'. reader_step t pc m = Inr (pc', m') \<and> reader_ok m' u t pc' \<and>
     (m' = m \<or> (\<exists>re. m' = m\<lparr>am_reads := (am_reads m)[t := re]\<rparr>))"
proof (cases pc)
  case (R_Store re)
  then show ?thesis using pc t by (auto simp: reader_ok_def)
next
  case (R_Check re)
  then have "keeps m u t re" if "\<not> re < am_min_read_epoch m"
    using that by (auto simp: keeps_def split: upc.split)
  then show ?thesis using pc R_Check by (auto simp: reader_ok_def)
next
  case (R_Slot re)
  have "ring_ok m" "am_read_epoch m < am_cur m" using m by (auto simp: manager_ok_def)
  then obtain p d where "next_VBData m = Inr (p, d)" and p: "in_slot m (am_read_epoch m + 1) p d" using next_VBData_ok by blast
  have "unat (am_read_epoch m + 1) = unat (am_read_epoch m) + 1" by (rule unat_plus_one_less [OF \<open>am_read_epoch m < am_cur m\<close>])
  then have "re < am_read_epoch m + 1" using pc R_Slot by (auto simp: reader_ok_def word_less_nat_alt word_le_nat_alt)
  moreover have "am_read_epoch_cur m = ring_slot (am_read_epoch m + 1)" using \<open>ring_ok m\<close> by (simp add: ring_ok_def)
  ultimately have "points_to m (am_active_txns m ! am_read_epoch_cur m) (\<lambda>x. re < x)"
    using p by (auto simp: points_to_def in_slot_def)
  then show ?thesis using pc R_Slot by (auto simp: reader_ok_def)
next
  case (R_Deref re it)
  then obtain p d where "it = Some p" "alive_vbd m p d" using pc by (auto simp: reader_ok_def points_to_def)
  then show ?thesis using pc R_Deref by (auto simp: reader_ok_def alive_vbd_def)
qed (use pc in \<open>auto simp: reader_ok_def\<close>)

lemma updater_act_ok:
  assumes ok: "psys_ok s"
  shows "\<exists>s'. do_act Updater s = Inr s' \<and> psys_ok s'"
proof -
  let ?m = "ps_m s" and ?u = "ps_u s"
  have m: "manager_ok ?m" "updater_ok ?m ?u" "lock_ok (am_is_create ?m) (ps_w s)" "length (am_active ?m) = length (ps_w s)"
    "length (am_reads ?m) = length (ps_r s)" and w: "\<And>j. j < length (ps_w s) \<Longrightarrow> writer_ok ?m ?u j (ps_w s ! j)"
    and r: "\<And>j. j < length (ps_r s) \<Longrightarrow> reader_ok ?m ?u j (ps_r s ! j)" using ok by (auto simp: psys_ok_def)
  obtain u' m' where st: "updater_step ?u ?m = Inr (u', m')" and mv: "updater_moves ?m ?u m' u'"
    using updater_step_ok [OF m(1,2)] by blast
  have c: "am_cur ?m < NO_TRANSACTION" using m(1) by (simp add: manager_ok_def)
  have writer: "writer_ok m' u' j (ps_w s ! j)" if j: "j < length (ps_w s)" for j
  proof (rule writer_frame [OF w [OF j] c])
    fix e assume "w_epoch (ps_w s ! j) = Some e" "am_read_epoch ?m < e" "spares ?m ?u j e"
    then show "spares m' u' j e \<and> am_read_epoch m' < e"
      using mv w [OF j] j m(4) by (auto simp: updater_moves_def writer_ok_def)
  qed (use mv in \<open>simp_all add: updater_moves_def\<close>)
  have reader: "reader_ok m' u' j (ps_r s ! j)" if j: "j < length (ps_r s)" for j
    by (rule reader_frame [OF r [OF j]]) (use mv j m(5) in \<open>auto simp: updater_moves_def\<close>)
  have "psys_ok (s\<lparr>ps_u := u', ps_m := m'\<rparr>)"
    using mv m writer reader by (simp add: psys_ok_def updater_moves_def)
  then show ?thesis using st by (simp add: do_act_def)
qed

text \<open>A step that changes one cell of the announcements, or the counter inside a live \<open>VBData\<close>.\<close>

lemma quiet_change:
  assumes m: "manager_ok m" and u: "updater_ok m u"
    and eq: "am_cur m' = am_cur m" "am_read_epoch m' = am_read_epoch m" "am_active_txns m' = am_active_txns m"
      "am_read_epoch_cur m' = am_read_epoch_cur m" "am_que m' = am_que m" "am_no_more m' = am_no_more m"
      "am_stopped m' = am_stopped m" "am_min_epoch m' = am_min_epoch m"
    and heap: "\<And>P. objects_kept m m' P"
  shows "manager_ok m'" "updater_ok m' u"
proof -
  have "\<exists>p d. in_slot m' e p d" if "\<exists>p d. in_slot m e p d" for e
    by (rule in_slot_kept [OF that heap, of "\<lambda>x. True"]) (simp_all add: eq)
  then have "ring_ok m'" using m by (simp add: manager_ok_def ring_ok_def eq)
  moreover have "que_ok m'" using m heap [of "\<lambda>x. True"] unfolding manager_ok_def que_ok_def objects_kept_def eq by metis
  ultimately show "manager_ok m'" using m by (simp add: manager_ok_def eq)
  show "updater_ok m' u" using u by (simp add: updater_ok_def eq split: upc.splits)
qed

lemma count_write_ok:
  assumes "points_to m it P"
  obtains m' p x where "count_write it m = Inr m'" "m' = m\<lparr>am_heap := (am_heap m)[p := x]\<rparr>" "\<And>Q. objects_kept m m' Q"
proof -
  obtain p d where p: "it = Some p" "alive_vbd m p d" using assms by (auto simp: points_to_def)
  let ?m = "m\<lparr>am_heap := (am_heap m)[p := Some (d\<lparr>vd_intra_counter := vd_intra_counter d + 1\<rparr>)]\<rparr>"
  have "objects_kept m ?m Q" for Q
    using p(2) by (auto simp: objects_kept_def alive_vbd_def nth_list_update)
  then show ?thesis using p that [of ?m p] by (simp add: count_write_def alive_vbd_def)
qed

lemma psys_okD:
  assumes "psys_ok s"
  shows "manager_ok (ps_m s)" "updater_ok (ps_m s) (ps_u s)" "lock_ok (am_is_create (ps_m s)) (ps_w s)"
    "length (am_active (ps_m s)) = length (ps_w s)" "length (am_reads (ps_m s)) = length (ps_r s)"
    "am_cur (ps_m s) < NO_TRANSACTION"
    "j < length (ps_w s) \<Longrightarrow> writer_ok (ps_m s) (ps_u s) j (ps_w s ! j)"
    "j < length (ps_r s) \<Longrightarrow> reader_ok (ps_m s) (ps_u s) j (ps_r s ! j)"
  using assms by (auto simp: psys_ok_def manager_ok_def)

text \<open>A running writer writes through its pointer.\<close>

lemma use_act_ok:
  assumes ok: "psys_ok s" and t: "t < length (ps_w s)" "ps_w s ! t = W_In e it re"
  shows "\<exists>m'. count_write it (ps_m s) = Inr m' \<and> psys_ok (s\<lparr>ps_m := m'\<rparr>)"
proof -
  let ?m = "ps_m s" and ?u = "ps_u s"
  have m: "manager_ok (ps_m s)" "updater_ok (ps_m s) (ps_u s)" "lock_ok (am_is_create (ps_m s)) (ps_w s)"
    "length (am_active (ps_m s)) = length (ps_w s)" "length (am_reads (ps_m s)) = length (ps_r s)"
    "am_cur (ps_m s) < NO_TRANSACTION" by (rule psys_okD [OF ok])+
  note w = psys_okD(7) [OF ok] and r = psys_okD(8) [OF ok]
  have "points_to ?m it (\<lambda>x. x = e)" using w [OF t(1)] t(2) by (simp add: writer_ok_def)
  then obtain m' p y where st: "count_write it ?m = Inr m'" and m': "m' = ?m\<lparr>am_heap := (am_heap ?m)[p := y]\<rparr>"
    and kept: "\<And>Q. objects_kept ?m m' Q" by (rule count_write_ok) blast
  have "writer_ok m' ?u j (ps_w s ! j)" if "j < length (ps_w s)" for j
    by (rule writer_frame [OF w [OF that] m(6)]) (auto simp: m' spares_def kept [unfolded m'] split: upc.splits)
  moreover have "reader_ok m' ?u j (ps_r s ! j)" if "j < length (ps_r s)" for j
    by (rule reader_frame [OF r [OF that]]) (auto simp: m' keeps_def kept [unfolded m'] split: upc.splits)
  moreover have "manager_ok m'" "updater_ok m' ?u" by (rule quiet_change [OF m(1,2)]; auto simp: m' kept [unfolded m'])+
  ultimately have "psys_ok (s\<lparr>ps_m := m'\<rparr>)" using m by (simp add: psys_ok_def) (simp add: m')
  then show ?thesis using st by blast
qed

text \<open>A writer deregisters.\<close>

lemma writer_end_ok:
  assumes ok: "psys_ok s" and t: "t < length (ps_w s)"
  shows "psys_ok (s\<lparr>ps_w := (ps_w s)[t := W_Idle], ps_m := (ps_m s)\<lparr>am_active := (am_active (ps_m s))[t := NO_TRANSACTION]\<rparr>\<rparr>)"
proof -
  let ?u = "ps_u s" and ?m' = "(ps_m s)\<lparr>am_active := (am_active (ps_m s))[t := NO_TRANSACTION]\<rparr>"
  have m: "manager_ok (ps_m s)" "updater_ok (ps_m s) (ps_u s)" "lock_ok (am_is_create (ps_m s)) (ps_w s)"
    "length (am_active (ps_m s)) = length (ps_w s)" "length (am_reads (ps_m s)) = length (ps_r s)"
    "am_cur (ps_m s) < NO_TRANSACTION" by (rule psys_okD [OF ok])+
  note w = psys_okD(7) [OF ok] and r = psys_okD(8) [OF ok]
  have "writer_ok ?m' ?u j (ps_w s ! j)" if "j < length (ps_w s)" "j \<noteq> t" for j
    by (rule writer_frame [OF w [OF that(1)] m(6)]) (use that in \<open>simp_all add: spares_def split: upc.splits\<close>)
  moreover have "reader_ok ?m' ?u j (ps_r s ! j)" if "j < length (ps_r s)" for j
    by (rule reader_frame [OF r [OF that]]) (simp_all add: keeps_def split: upc.splits)
  moreover have "manager_ok ?m'" "updater_ok ?m' ?u" by (rule quiet_change [OF m(1,2)]; simp)+
  moreover have "lock_ok (am_is_create (ps_m s)) ((ps_w s)[t := W_Idle])"
    by (rule lock_ok_write [OF m(3) t]) simp_all
  moreover have "writer_ok ?m' ?u t W_Idle" by (simp add: writer_ok_def)
  ultimately show ?thesis using m t by (simp add: psys_ok_def nth_list_update)
qed

text \<open>A thread announces a read epoch, or takes its announcement back.\<close>

lemma reads_change_ok:
  assumes ok: "psys_ok s" and t: "t < length (ps_r s)" and own: "reader_ok m' (ps_u s) t pc'"
    and m': "m' = ps_m s \<or> (\<exists>re. m' = (ps_m s)\<lparr>am_reads := (am_reads (ps_m s))[t := re]\<rparr>)"
  shows "psys_ok (s\<lparr>ps_r := (ps_r s)[t := pc'], ps_m := m'\<rparr>)"
proof -
  let ?u = "ps_u s"
  have m: "manager_ok (ps_m s)" "updater_ok (ps_m s) (ps_u s)" "lock_ok (am_is_create (ps_m s)) (ps_w s)"
    "length (am_active (ps_m s)) = length (ps_w s)" "length (am_reads (ps_m s)) = length (ps_r s)"
    "am_cur (ps_m s) < NO_TRANSACTION" by (rule psys_okD [OF ok])+
  note w = psys_okD(7) [OF ok] and r = psys_okD(8) [OF ok]
  have kept: "objects_kept (ps_m s) m' P" for P using m' by auto
  have "writer_ok m' ?u j (ps_w s ! j)" if "j < length (ps_w s)" for j
    by (rule writer_frame [OF w [OF that] m(6)]) (use m' in \<open>auto simp: spares_def split: upc.splits\<close>)
  moreover have "reader_ok m' ?u j (ps_r s ! j)" if "j < length (ps_r s)" "j \<noteq> t" for j
    by (rule reader_frame [OF r [OF that(1)]]) (use m' that in \<open>auto simp: keeps_def split: upc.splits\<close>)
  moreover have "manager_ok m'" "updater_ok m' ?u" by (rule quiet_change [OF m(1,2)]; use m' kept in auto)+
  ultimately show ?thesis using m m' own t by (auto simp: psys_ok_def nth_list_update)
qed

lemma do_act_ok:
  assumes ok: "psys_ok s"
  shows "\<exists>s'. do_act a s = Inr s' \<and> (am_cur (ps_m s') < NO_TRANSACTION \<longrightarrow> psys_ok s')"
proof (cases a)
  case (Writer t x)
  then show ?thesis
    by (cases "t < length (ps_w s)"; cases "writer_step t x (ps_w s ! t) (ps_m s)")
       (auto simp: do_act_def ok writer_act_ok [OF ok])
next
  case (Use t)
  then show ?thesis using use_act_ok [OF ok, of t] ok by (fastforce simp: do_act_def split: wpc.split)
next
  case (WEnd t)
  then show ?thesis using writer_end_ok [OF ok, of t] ok by (auto simp: do_act_def split: wpc.split)
next
  case (Reader t)
  show ?thesis
  proof (cases "t < length (ps_r s)")
    case True
    then obtain pc' m' where "reader_step t (ps_r s ! t) (ps_m s) = Inr (pc', m')" "reader_ok m' (ps_u s) t pc'"
      "m' = ps_m s \<or> (\<exists>re. m' = (ps_m s)\<lparr>am_reads := (am_reads (ps_m s))[t := re]\<rparr>)"
      using reader_step_own [OF psys_okD(1) [OF ok] psys_okD(8) [OF ok True]] psys_okD(5) [OF ok] by metis
    then show ?thesis using reads_change_ok [OF ok True] Reader True by (simp add: do_act_def)
  qed (use Reader ok in \<open>simp add: do_act_def\<close>)
next
  case (REnd t)
  have "reader_ok m' (ps_u s) t R_Idle" for m' by (simp add: reader_ok_def)
  then show ?thesis using reads_change_ok [OF ok, of t] REnd ok by (auto simp: do_act_def split: rpc.split)
next
  case Updater
  then show ?thesis using updater_act_ok [OF ok] by blast
qed

lemma reachable_ok: "reachable n s \<Longrightarrow> psys_ok s"
proof (induction rule: reachable.induct)
  case reachable_start
  show ?case by (rule start_psys_ok)
next
  case (reachable_step s a s')
  then show ?case using do_act_ok [of s a] by auto
qed

section \<open>Properties\<close>

text \<open>
  C7: Under every interleaving of writers, readers and the updater, no thread follows a dangling, deleted or
  uninitialised \<open>VBData\<close> pointer: no step of a reachable state faults (before \<open>NoMoreTxn\<close>).
\<close>

theorem protocol_never_faults:
  assumes "reachable n s"
  shows "\<exists>s'. do_act a s = Inr s'"
  using do_act_ok [OF reachable_ok [OF assms]] by blast

theorem protocol_never_faults_witness: "\<exists>s'. do_act Updater (start_psys 2) = Inr s'"
  by (rule protocol_never_faults [OF reachable_start])

text \<open>
  C8: A running writer's epoch is not published: it lies above the read epoch and at most at the current
  epoch, and the \<open>VBData\<close> the writer holds is alive and is that epoch's.
\<close>

theorem running_writer_epoch_unpublished:
  assumes "reachable n s" "t < length (ps_w s)" "ps_w s ! t = W_In e it re"
  shows "am_read_epoch (ps_m s) < e \<and> e \<le> am_cur (ps_m s) \<and>
    (\<exists>p d. it = Some p \<and> alive_vbd (ps_m s) p d \<and> vd_epoch d = e)"
proof -
  have "writer_ok (ps_m s) (ps_u s) t (W_In e it re)"
    using reachable_ok [OF assms(1)] assms(2,3) by (auto simp: psys_ok_def)
  then show ?thesis by (auto simp: writer_ok_def points_to_def)
qed

text \<open>
  C10: Writers never run more than 16 epochs ahead of the readers, and the \<open>VBData\<close> of every epoch between
  the read epoch and the current epoch stands in its own slot of the ring.
\<close>

theorem writers_stay_within_the_ring:
  assumes "reachable n s"
  shows "am_read_epoch (ps_m s) < am_cur (ps_m s) \<and> unat (am_cur (ps_m s)) \<le> unat (am_read_epoch (ps_m s)) + 16 \<and>
    (\<forall>e. am_read_epoch (ps_m s) < e \<longrightarrow> e \<le> am_cur (ps_m s) \<longrightarrow> (\<exists>p d. in_slot (ps_m s) e p d))"
  using reachable_ok [OF assms] by (simp add: psys_ok_def manager_ok_def ring_ok_def)

theorem writers_stay_within_the_ring_witness:
  "\<exists>p d. in_slot (ps_m (start_psys 3)) 1 p d"
proof -
  have "am_read_epoch (ps_m (start_psys 3)) < 1 \<and> 1 \<le> am_cur (ps_m (start_psys 3))" by code_simp
  then show ?thesis using writers_stay_within_the_ring [OF reachable_start, of 3] by blast
qed

text \<open>
  C9: Once a reader's registration check has passed, the collector deletes no \<open>VBData\<close> of an epoch above the
  reader's: whatever step any thread takes, that \<open>VBData\<close> is still alive afterwards.
\<close>

theorem collector_keeps_what_readers_need:
  assumes "reachable n s" "do_act a s = Inr s'" "t < length (ps_r s)" "r_epoch (ps_r s ! t) = Some re"
    "alive_vbd (ps_m s) p d" "re < vd_epoch d"
  shows "\<exists>d'. alive_vbd (ps_m s') p d' \<and> vd_epoch d' = vd_epoch d"
proof -
  have ok: "psys_ok s" by (rule reachable_ok [OF assms(1)])
  then have r: "reader_ok (ps_m s) (ps_u s) t (ps_r s ! t)" "t < length (am_reads (ps_m s))"
    and m: "manager_ok (ps_m s)" "updater_ok (ps_m s) (ps_u s)" using assms(3) by (auto simp: psys_ok_def)
  have "objects_kept (ps_m s) (ps_m s') (\<lambda>x. re < x)"
  proof (cases a)
    case Updater
    then show ?thesis using assms(2,4) r updater_step_ok [OF m]
      by (auto simp: do_act_def updater_moves_def reader_ok_def bind_res_Inr_iff)
  next
    case (Writer i x)
    then show ?thesis using assms(2) writer_step_frame append_kept
      by (fastforce simp: do_act_def split: if_splits prod.splits)
  next
    case (Use i)
    have "objects_kept m1 m2 (\<lambda>x. re < x)" if "count_write it m1 = Inr m2" for it m1 m2
      using that by (auto simp: count_write_def objects_kept_def alive_vbd_def nth_list_update split: option.splits if_splits)
    then show ?thesis using Use assms(2) by (auto simp: do_act_def bind_res_Inr_iff split: if_splits wpc.splits)
  next
    case (WEnd i)
    then show ?thesis using assms(2) by (auto simp: do_act_def split: if_splits wpc.splits)
  next
    case (REnd i)
    then show ?thesis using assms(2) by (auto simp: do_act_def split: if_splits rpc.splits)
  next
    case (Reader i)
    have "am_heap m2 = am_heap m1" if "reader_step i pc m1 = Inr (pc', m2)" for pc pc' m1 m2
      using that by (cases pc) (auto split: option.splits if_splits)
    then show ?thesis using Reader assms(2) by (fastforce simp: do_act_def bind_res_Inr_iff split: if_splits)
  qed
  then show ?thesis using assms(5,6) by (auto simp: objects_kept_def)
qed

end
