(* ===== verification/Epoch_Traces.thy ===== *)
theory Epoch_Traces
  imports Epoch_Safety
begin

text \<open>
  Runs of the epoch protocol: what single threads achieve when they are left to run (an epoch is
  opened, published, finalised), and the interleavings and start states in which the code does not
  do what it means to.
\<close>

section \<open>Running a list of actions\<close>

fun run_acts :: "act list \<Rightarrow> psys \<Rightarrow> psys option" where
  "run_acts [] s = Some s"
| "run_acts (a # as) s =
     (case do_act a s of
        Inl f \<Rightarrow> None
      | Inr s' \<Rightarrow> if am_cur (ps_m s') < NO_TRANSACTION then run_acts as s' else None)"

lemma run_acts_reachable: "run_acts as s = Some s' \<Longrightarrow> reachable n s \<Longrightarrow> reachable n s'"
  by (induction as arbitrary: s) (auto split: sum.splits if_splits intro: reachable_step)

text \<open>A writer that opens the next epoch and leaves, and one turn of the updater.\<close>

definition opens_epoch :: "nat \<Rightarrow> act list" where
  "opens_epoch t = replicate 12 (Writer t True) @ [WEnd t]"

definition runs_into :: "nat \<Rightarrow> act list" where
  "runs_into t = replicate 8 (Writer t False)"

definition writer_runs_trace :: "act list" where
  "writer_runs_trace = opens_epoch 0 @ runs_into 0 @ replicate 9 Updater"

definition sample_running :: "psys option" where
  "sample_running = run_acts writer_runs_trace (start_psys 1)"

theorem running_writer_epoch_unpublished_witness:
  "\<exists>s. reachable 1 s \<and> ps_w s ! 0 = W_In 2 (Some 1) 0 \<and> am_read_epoch (ps_m s) = 1 \<and> (\<exists>d. alive_vbd (ps_m s) 1 d \<and> vd_epoch d = 2)"
proof -
  have "map_option (\<lambda>s. (length (ps_w s), ps_w s ! 0, am_read_epoch (ps_m s))) sample_running = Some (1, W_In 2 (Some 1) 0, 1)"
    by code_simp
  then obtain s where s: "sample_running = Some s" "length (ps_w s) = 1" "ps_w s ! 0 = W_In 2 (Some 1) 0" "am_read_epoch (ps_m s) = 1" by auto
  then have r: "reachable 1 s" using run_acts_reachable [OF _ reachable_start] by (simp add: sample_running_def)
  then show ?thesis using running_writer_epoch_unpublished [OF r _ s(3)] s by auto
qed

definition sample_reader :: "psys option" where
  "sample_reader = run_acts (opens_epoch 0 @ replicate 6 (Reader 0)) (start_psys 1)"

theorem collector_keeps_what_readers_need_witness:
  "\<exists>s s' d. reachable 1 s \<and> r_epoch (ps_r s ! 0) = Some 0 \<and> do_act Updater s = Inr s' \<and> alive_vbd (ps_m s') 1 d \<and> vd_epoch d = 2"
proof -
  have "map_option (\<lambda>s. (length (ps_r s), r_epoch (ps_r s ! 0), length (am_heap (ps_m s)), am_heap (ps_m s) ! 1 = None,
      map_option vd_epoch (am_heap (ps_m s) ! 1))) sample_reader = Some (1, Some 0, 2, False, Some 2)"
    by code_simp
  then obtain s d where s: "sample_reader = Some s" "length (ps_r s) = 1" "r_epoch (ps_r s ! 0) = Some 0" "length (am_heap (ps_m s)) = 2"
    "am_heap (ps_m s) ! 1 = Some d" "vd_epoch d = 2" by auto
  then have r: "reachable 1 s" using run_acts_reachable [OF _ reachable_start] by (simp add: sample_reader_def)
  then obtain s' where st: "do_act Updater s = Inr s'" using do_act_ok [OF reachable_ok] by blast
  have "alive_vbd (ps_m s) 1 d" using s by (simp add: alive_vbd_def)
  then show ?thesis using collector_keeps_what_readers_need [OF r st _ s(3), of 1 d] s r st by auto
qed

section \<open>A reader that registers too late\<close>

text \<open>
  The reader loads read epoch 0 and is held up; the updater publishes epochs 1 to 3, advances the
  watermark and deletes the \<open>VBData\<close> of epochs 1 and 2; the reader announces 0, the updater's next scan
  finds that and lowers the watermark to 0; the reader's check against the watermark passes.
\<close>

definition late_reader_trace :: "act list" where
  "late_reader_trace =
     Reader 0 # concat (replicate 3 (opens_epoch 0)) @ replicate 12 Updater @ replicate 10 Updater @
     [Reader 0] @ replicate 4 Updater @ replicate 4 (Reader 0)"

text \<open>
  C11: Some interleaving registers a reader at epoch 0 after the collector has deleted the \<open>VBData\<close> (and with
  it the version blocks) of epochs 1 and 2, which that reader needs to go back from the published
  epoch 3: the watermark \<open>min_read_epoch\<close> that registration checks is not monotone.
\<close>

theorem late_reader_loses_versions:
  "\<exists>s. reachable 1 s \<and> ps_r s ! 0 = R_In 0 (Composite 0 INTRA_MAX) \<and> am_read_epoch (ps_m s) = 3 \<and>
     am_heap (ps_m s) ! 0 = None \<and> am_heap (ps_m s) ! 1 = None"
proof -
  have "map_option (\<lambda>s. (ps_r s ! 0, am_read_epoch (ps_m s), map (map_option vd_epoch) (am_heap (ps_m s))))
      (run_acts late_reader_trace (start_psys 1)) = Some (R_In 0 (Composite 0 INTRA_MAX), 3, [None, None, Some 3, Some 4])"
    by code_simp
  then obtain s where s: "run_acts late_reader_trace (start_psys 1) = Some s" "ps_r s ! 0 = R_In 0 (Composite 0 INTRA_MAX)"
    "am_read_epoch (ps_m s) = 3" "map (map_option vd_epoch) (am_heap (ps_m s)) = [None, None, Some 3, Some 4]" by auto
  then have "am_heap (ps_m s) ! 0 = None" "am_heap (ps_m s) ! 1 = None"
    by (auto simp: map_eq_Cons_conv)
  then show ?thesis using s run_acts_reachable [OF s(1) reachable_start] by blast
qed

end
