(* ===== verification/Epoch_Progress.thy ===== *)
theory Epoch_Progress
  imports Epoch_Traces
begin

text \<open>
  Smaller facts about the epoch manager: the interleaved steps of a writer that runs alone compose to
  \<open>registerTransaction\<close>, what \<open>update_min_version\<close> computes when no writer is in between (the turn
  of the updater itself is in \<open>System_Run\<close>, with the store it publishes), the random generator, what an
  uninitialised \<open>is_create\<close> does, and the blocks of thread 64.
\<close>

section \<open>Registration as a run of steps\<close>

fun writer_runs :: "nat \<Rightarrow> nat \<Rightarrow> bool \<Rightarrow> wpc \<times> manager \<Rightarrow> wpc \<times> manager" where
  "writer_runs 0 t x s = s"
| "writer_runs (Suc k) t x s = writer_runs k t x (case s of (pc, m) \<Rightarrow> writer_step t x pc m)"

text \<open>
  The steps of a writer that no other thread interrupts compose to \<open>registerTransaction\<close>: the model
  of \<open>Epoch_Protocol\<close>, one step for each atomic access, and that of \<open>Epoch_Manager\<close> agree.
\<close>

lemma registration_steps_compose:
  assumes reg: "registerTransaction t rng txn m = Inr (txn', it, rng', m')"
  shows "\<exists>k \<le> 12. writer_runs k t (fst (rand_int BATCHTXNNUM rng) = 0) (W_Idle, m) =
      (W_In (tx_epoch txn') it (tx_read_epoch txn'), m')"
proof -
  let ?x = "fst (rand_int BATCHTXNNUM rng) = 0" and ?e = "am_cur m"
  have room: "\<not> 16 \<le> am_cur m - am_read_epoch m" and t: "t < length (am_active m)"
    using reg by (auto simp: registerTransaction_def test1_def split: if_splits)
  then have room': "am_cur m - am_read_epoch m < 16" by simp
  let ?m1 = "m\<lparr>am_active := (am_active m)[t := ?e]\<rparr>"
  let ?it = "am_active_txns m ! ring_slot ?e"
  have res: "txn' = txn\<lparr>tx_read_epoch := am_read_epoch m', tx_epoch := ?e\<rparr>" "it = ?it" "m' = maybe_open_epoch ?e (fst (rand_int BATCHTXNNUM rng)) ?m1"
    using reg room t by (auto simp: registerTransaction_def test1_def Let_def not_le split: prod.splits)
  have pre: "writer_runs (7 + k) t ?x (W_Idle, m) = writer_runs k t ?x (if ?x then W_Cas ?e ?it else W_Fin ?e ?it, ?m1)" for k
    using room room' by (simp add: eval_nat_numeral)
  consider "\<not> ?x" | "?x" "am_is_create m" | "?x" "\<not> am_is_create m" by blast
  then show ?thesis
  proof cases
    case 1
    then show ?thesis using pre [of 1] res by (intro exI [of _ 8]) (simp add: maybe_open_epoch_def)
  next
    case 2
    then show ?thesis using pre [of 2] res by (intro exI [of _ 9]) (simp add: maybe_open_epoch_def eval_nat_numeral)
  next
    case 3
    then have "writer_runs 5 t ?x (W_Cas ?e ?it, ?m1) =
        (W_In ?e ?it (am_read_epoch m), (open_epoch ?e (?m1\<lparr>am_is_create := True\<rparr>))\<lparr>am_is_create := False\<rparr>)"
      by (simp add: eval_nat_numeral open_epoch_def)
    moreover have "m' = (open_epoch ?e (?m1\<lparr>am_is_create := True\<rparr>))\<lparr>am_is_create := False\<rparr>"
      using res(3) 3 room by (simp add: maybe_open_epoch_def not_le)
    ultimately show ?thesis using pre [of 5] res 3 by (intro exI [of _ 12]) (simp add: open_epoch_def)
  qed
qed

text \<open>
  If the uninitialised member \<open>is_create\<close> happens to start out non-zero, no registration ever opens a
  new epoch: the current epoch stays where it is and the member stays set.
\<close>

theorem uninitialised_is_create_freezes_epochs:
  assumes "am_is_create m" "registerTransaction t rng txn m = Inr (txn', it, rng', m')"
  shows "am_cur m' = am_cur m \<and> am_is_create m'"
  using assms by (auto simp: registerTransaction_def test1_def Let_def maybe_open_epoch_def split: if_splits prod.splits)

section \<open>The minimal epochs\<close>

lemma foldl_min_NO: "set xs \<subseteq> {NO_TRANSACTION} \<Longrightarrow> foldl min NO_TRANSACTION xs = NO_TRANSACTION"
  by (induction xs) (auto simp: min_def)

lemma le_NO_TRANSACTION: "(e :: epoch_t) \<le> NO_TRANSACTION"
proof -
  have "unat e < 2 ^ 32" using unsigned_less [of e, where 'a = nat] by simp
  then show ?thesis by (simp add: word_le_nat_alt NO_TRANSACTION_def)
qed

lemma update_min_version_idle:
  assumes "set (am_active m) \<subseteq> {NO_TRANSACTION}" "\<not> am_no_more m"
  shows "am_min_epoch (update_min_version m) = am_cur m"
  using assms foldl_min_NO [OF assms(1)] le_NO_TRANSACTION [of "am_cur m"]
  by (simp add: update_min_version_def Let_def min_absorb1)

lemma update_min_version_fields [simp]:
  "am_cur (update_min_version m) = am_cur m" "am_read_epoch (update_min_version m) = am_read_epoch m"
  "am_no_more (update_min_version m) = am_no_more m"
  by (simp_all add: update_min_version_def Let_def)

lemma update_min_version_ok: "ring_ok (update_min_version m) = ring_ok m" "que_ok (update_min_version m) = que_ok m"
  by (simp_all add: update_min_version_def Let_def ring_ok_def que_ok_def in_slot_def alive_vbd_def)

definition one_thread :: manager where
  "one_thread = (ps_m (start_psys 1))\<lparr>am_is_create := True\<rparr>"

lemma registration_succeeds:
  assumes "am_cur m - am_read_epoch m < 16" "t < length (am_active m)"
  shows "\<exists>txn' rng' m'. registerTransaction t rng txn m = Inr (txn', am_active_txns m ! ring_slot (am_cur m), rng', m') \<and>
    tx_epoch txn' = am_cur m \<and> tx_read_epoch txn' = am_read_epoch m"
  using assms by (auto simp: registerTransaction_def test1_def Let_def maybe_open_epoch_def open_epoch_def not_le split: prod.splits)

theorem uninitialised_is_create_freezes_epochs_witness:
  "\<exists>txn rng m'. registerTransaction 0 1 sample_txn one_thread = Inr (txn, Some 0, rng, m') \<and> am_cur m' = 1 \<and> am_is_create m'"
proof -
  have start: "am_cur one_thread - am_read_epoch one_thread < 16" "0 < length (am_active one_thread)"
    "am_active_txns one_thread ! ring_slot (am_cur one_thread) = Some 0" "am_is_create one_thread" "am_cur one_thread = 1"
    by code_simp+
  obtain txn rng m where r: "registerTransaction 0 1 sample_txn one_thread = Inr (txn, Some 0, rng, m)"
    using registration_succeeds [OF start(1,2), of 1 sample_txn] unfolding start(3) by auto
  then show ?thesis using uninitialised_is_create_freezes_epochs [OF start(4) r] start(5) by auto
qed

section \<open>The random generator\<close>

lemma shl_fixpoint:
  fixes s :: "'a :: len word"
  assumes "0 < n" "s = push_bit n s"
  shows "s = 0"
proof -
  have "\<not> bit s i" for i
  proof (induction i rule: less_induct)
    case (less i)
    show ?case
    proof
      assume "bit s i"
      then have "bit (push_bit n s) i" using assms(2) by simp
      then have "n \<le> i" "bit s (i - n)" by (auto simp: bit_push_bit_iff)
      then show False using less [of "i - n"] assms(1) by simp
    qed
  qed
  then show ?thesis by (simp add: bit_eq_iff)
qed

lemma shr_fixpoint:
  fixes s :: "'a :: len word"
  assumes "0 < n" "s = drop_bit n s"
  shows "s = 0"
proof -
  have step: "bit s i \<Longrightarrow> bit s (i + n)" for i
    using arg_cong [OF assms(2), of "\<lambda>w. bit w i"] by (simp add: bit_drop_bit_eq add.commute)
  have "\<not> bit s i" for i
  proof
    assume i: "bit s i"
    have "bit s (i + k * n)" for k
    proof (induction k)
      case (Suc k)
      then show ?case using step [of "i + k * n"] by (simp add: ac_simps)
    qed (use i in simp)
    then have "bit s (i + LENGTH('a) * n)" .
    moreover have "LENGTH('a) \<le> i + LENGTH('a) * n" using assms(1) by (simp add: trans_le_add2)
    ultimately show False using bit_imp_le_length [of s] by fastforce
  qed
  then show ?thesis by (simp add: bit_eq_iff)
qed

lemma xor_eq_0_iff': "(a :: 'a :: len word) XOR b = 0 \<longleftrightarrow> a = b"
  by (metis xor.assoc xor_self_eq xor.right_neutral xor.left_neutral)

text \<open>
  The generator never reaches the state 0, from which it would return 0 for ever (and every registering
  writer would open an epoch): the seed is not 0 and a step keeps that.
\<close>

theorem xorshift_state_never_zero: "(xorshift ^^ k) (XorShift_seed s) \<noteq> 0"
proof (induction k)
  case (Suc k)
  have l: "st XOR push_bit n st \<noteq> 0" if "st \<noteq> 0" "0 < n" for st :: "64 word" and n
    using that shl_fixpoint [of n st] xor_eq_0_iff' by metis
  have r: "st XOR drop_bit n st \<noteq> 0" if "st \<noteq> 0" "0 < n" for st :: "64 word" and n
    using that shr_fixpoint [of n st] xor_eq_0_iff' by metis
  have "xorshift st \<noteq> 0" if "st \<noteq> 0" for st
    unfolding xorshift_def Let_def using l [OF r [OF l [OF that]], of 13 7 17] by simp
  then show ?case using Suc by simp
qed (simp add: XorShift_seed_def)

section \<open>The blocks of thread 64\<close>

text \<open>
  \<open>VBData\<close> has 65 lists of version blocks, one per thread id, but publishing gathers the first 64: what
  thread 64 recorded makes no difference to the graph that is published.
\<close>

theorem thread_64_is_never_published:
  "map_sum id snd (VBData_commitVersionBlock order (d\<lparr>vd_vb_vector := (vd_vb_vector d)[64 := blocks]\<rparr>) g) =
   map_sum id snd (VBData_commitVersionBlock order d g)"
  by (cases "vd_vb_vector d")
    (auto simp: VBData_commitVersionBlock_def Let_def WRITE_THREAD_def bind_res_def split: sum.splits)

end
