(* ===== verification/Pool_Vector.thy ===== *)
theory Pool_Vector
  imports AVB_Prelude
begin

text \<open>
  \<open>HALMemoryPool/BlockAllocator\<close>, the part that hands out fresh memory: \<open>GlobalAllocator\<close> carves a
  mapping of the operating system from bottom to top, \<open>FixedSizeVector\<close> and \<open>TwoLevelVector\<close> keep the
  allocators and add one when the last is used up. Addresses and sizes are integers. \<open>mmap\<close> is a
  parameter: \<open>mm k n\<close> is the address of the \<open>k\<close>-th mapping of a pool, of \<open>n\<close> bytes. A state carries the
  number of mappings made so far. What \<open>aligned_alloc\<close> returns is the object itself; a slot that was
  never written is \<open>None\<close>.
\<close>

section \<open>GlobalAllocator\<close>

definition MB :: int where "MB = 1024 * 1024"
definition FOURMB :: int where "FOURMB = 4 * 1024 * 1024"
definition EIGHTMB :: int where "EIGHTMB = 8 * 1024 * 1024"
definition SIXTEENMB :: int where "SIXTEENMB = 16 * 1024 * 1024"
definition MEMORY_VECTOR_SIZE :: nat where "MEMORY_VECTOR_SIZE = 16"
definition fixedSize :: nat where "fixedSize = 1"
definition MAP_FAILED :: int where "MAP_FAILED = 2 ^ 64 - 1"

type_synonym mmap = "nat \<Rightarrow> int \<Rightarrow> int"

record global_allocator =
  ga_mem :: int
  ga_offset :: int
  ga_totalSpace :: int

definition ga_init :: "mmap \<Rightarrow> int \<Rightarrow> bool \<Rightarrow> nat \<Rightarrow> (global_allocator \<times> nat) res" where
  "ga_init mm sz isInit k =
     (if isInit then
        let total = sz * MB; mem = mm k total;
            (mem', k') = (if mem = MAP_FAILED \<and> total = 0 then (mm (k + 1) (16 * MB), k + 2) else (mem, k + 1))
        in if 0 < total \<and> mem' = MAP_FAILED then Inl WildPointer
           else Inr (\<lparr>ga_mem = mem', ga_offset = 0, ga_totalSpace = total\<rparr>, k')
      else
        let total = (if sz > SIXTEENMB then sz else sz * MB)
        in Inr (\<lparr>ga_mem = mm k total, ga_offset = 0, ga_totalSpace = total\<rparr>, k + 1))"

definition ga_allocate :: "int \<Rightarrow> global_allocator \<Rightarrow> int \<times> global_allocator" where
  "ga_allocate sz g = (ga_mem g + ga_offset g, g\<lparr>ga_offset := ga_offset g + sz\<rparr>)"

definition getOffset :: "global_allocator \<Rightarrow> int" where
  "getOffset g = ga_offset g"

definition getTotalSpace :: "global_allocator \<Rightarrow> int" where
  "getTotalSpace g = ga_totalSpace g"

definition isFreeSpace :: "int \<Rightarrow> global_allocator \<Rightarrow> bool" where
  "isFreeSpace block_size g = (if ga_offset g + block_size > ga_totalSpace g then False else True)"

section \<open>FixedSizeVector\<close>

record fixed_vector =
  fv_blockArr :: "global_allocator option list"
  fv_curIndex :: int

text \<open>\<open>initVal\<close> and \<open>initBlockArray\<close>, which always follow one another.\<close>

definition fv_new :: fixed_vector where
  "fv_new = \<lparr>fv_blockArr = replicate MEMORY_VECTOR_SIZE None, fv_curIndex = - 1\<rparr>"

definition setBlockArr :: "global_allocator \<Rightarrow> fixed_vector \<Rightarrow> fixed_vector res" where
  "setBlockArr val f =
     (let i = fv_curIndex f + 1 in
      if i < 0 \<or> i \<ge> int (length (fv_blockArr f)) then Inl OutOfBounds
      else Inr (f\<lparr>fv_curIndex := i, fv_blockArr := (fv_blockArr f)[nat i := Some val]\<rparr>))"

definition fv_full :: "fixed_vector \<Rightarrow> bool" where
  "fv_full f \<longleftrightarrow> fv_curIndex f = int MEMORY_VECTOR_SIZE - 1"

text \<open>\<open>getBlockArr()[getCurIndex()]\<close>, and the write back of the allocator it points to.\<close>

definition fv_current :: "fixed_vector \<Rightarrow> global_allocator res" where
  "fv_current f =
     (if fv_curIndex f < 0 \<or> fv_curIndex f \<ge> int (length (fv_blockArr f)) then Inl OutOfBounds
      else case fv_blockArr f ! nat (fv_curIndex f) of None \<Rightarrow> Inl WildPointer | Some g \<Rightarrow> Inr g)"

definition fv_set_current :: "global_allocator \<Rightarrow> fixed_vector \<Rightarrow> fixed_vector" where
  "fv_set_current g f = f\<lparr>fv_blockArr := (fv_blockArr f)[nat (fv_curIndex f) := Some g]\<rparr>"

section \<open>TwoLevelVector\<close>

record two_level_vector =
  tv_indr :: "fixed_vector option list option"
  tv_curIndex :: int
  tv_curSize :: nat
  tv_blockSize :: int

definition tv_initVal :: two_level_vector where
  "tv_initVal = \<lparr>tv_indr = None, tv_curIndex = - 1, tv_curSize = 1, tv_blockSize = 0\<rparr>"

text \<open>\<open>IndrArray[curIndex]\<close>, dereferenced, and the write back.\<close>

definition tv_current :: "two_level_vector \<Rightarrow> fixed_vector res" where
  "tv_current v =
     (case tv_indr v of
        None \<Rightarrow> Inl NullDeref
      | Some arr \<Rightarrow>
          if tv_curIndex v < 0 \<or> tv_curIndex v \<ge> int (length arr) then Inl OutOfBounds
          else case arr ! nat (tv_curIndex v) of None \<Rightarrow> Inl WildPointer | Some f \<Rightarrow> Inr f)"

definition tv_put :: "fixed_vector \<Rightarrow> two_level_vector \<Rightarrow> two_level_vector" where
  "tv_put f v = v\<lparr>tv_indr := map_option (\<lambda>arr. arr[nat (tv_curIndex v) := Some f]) (tv_indr v)\<rparr>"

definition tv_addBlock :: "two_level_vector \<Rightarrow> two_level_vector res" where
  "tv_addBlock v =
     (let i = tv_curIndex v + 1 in
      case tv_indr v of
        None \<Rightarrow> Inl NullDeref
      | Some arr \<Rightarrow>
          if i < 0 \<or> i \<ge> int (length arr) then Inl OutOfBounds
          else Inr (v\<lparr>tv_curIndex := i, tv_indr := Some (arr[nat i := Some fv_new])\<rparr>))"

definition tv_setIndrArray :: "two_level_vector \<Rightarrow> two_level_vector res" where
  "tv_setIndrArray v =
     (case tv_indr v of
        None \<Rightarrow>
          let v1 = v\<lparr>tv_indr := Some (replicate (tv_curSize v * fixedSize) None), tv_blockSize := int fixedSize\<rparr>
          in tv_addBlock v1
      | Some arr \<Rightarrow>
          let blenprev = tv_curSize v; b_len_new = 2 * tv_curSize v; bprev = blenprev * fixedSize
          in if bprev > length arr then Inl OutOfBounds
             else Inr (v\<lparr>tv_indr := Some (take bprev arr @ replicate (b_len_new * fixedSize - bprev) None),
                         tv_curIndex := int blenprev - 1, tv_blockSize := int (b_len_new * fixedSize),
                         tv_curSize := b_len_new\<rparr>))"

definition tv_push :: "global_allocator \<Rightarrow> two_level_vector \<Rightarrow> two_level_vector res" where
  "tv_push ga v = bind_res (tv_current v) (\<lambda>f. bind_res (setBlockArr ga f) (\<lambda>f'. Inr (tv_put f' v)))"

definition tv_insert :: "global_allocator \<Rightarrow> two_level_vector \<Rightarrow> two_level_vector res" where
  "tv_insert ga v =
     (if tv_curIndex v = tv_blockSize v - 1 then
        bind_res (tv_current v) (\<lambda>f.
          if fv_full f then bind_res (tv_setIndrArray v) (\<lambda>v1. bind_res (tv_addBlock v1) (tv_push ga))
          else tv_push ga v)
      else
        bind_res (tv_current v) (\<lambda>f.
          if fv_full f then bind_res (tv_addBlock v) (tv_push ga) else tv_push ga v))"

text \<open>The last allocator of the vector carves off a block.\<close>

definition tv_carve :: "int \<Rightarrow> two_level_vector \<Rightarrow> (int \<times> two_level_vector) res" where
  "tv_carve requested_block v =
     bind_res (tv_current v) (\<lambda>f. bind_res (fv_current f) (\<lambda>g.
       case ga_allocate requested_block g of (a, g') \<Rightarrow> Inr (a, tv_put (fv_set_current g' f) v)))"

definition getBlock :: "mmap \<Rightarrow> int \<Rightarrow> two_level_vector \<times> nat \<Rightarrow> (int \<times> two_level_vector \<times> nat) res" where
  "getBlock mm requested_block s =
     (case s of (v, k) \<Rightarrow>
        bind_res (tv_current v) (\<lambda>f. bind_res (fv_current f) (\<lambda>g.
          if isFreeSpace requested_block g then bind_res (tv_carve requested_block v) (\<lambda>(a, v'). Inr (a, v', k))
          else
            bind_res
              (if requested_block = 40 \<or> requested_block = 32 then ga_init mm 512 False k
               else if requested_block \<le> FOURMB then ga_init mm 512 False k
               else if requested_block > FOURMB \<and> requested_block \<le> EIGHTMB then ga_init mm 512 False k
               else if requested_block > EIGHTMB \<and> requested_block \<le> SIXTEENMB then ga_init mm 512 False k
               else ga_init mm requested_block False k) (\<lambda>(ptr, k').
            bind_res (tv_insert ptr v) (\<lambda>v1. bind_res (tv_carve requested_block v1) (\<lambda>(a, v'). Inr (a, v', k')))))))"

section \<open>A source of blocks\<close>

text \<open>Requests served one after the other: the addresses in order.\<close>

fun alloc_run :: "('r \<Rightarrow> 's \<Rightarrow> (int \<times> 's) res) \<Rightarrow> 'r list \<Rightarrow> 's \<Rightarrow> (int list \<times> 's) res" where
  "alloc_run alloc [] s = Inr ([], s)"
| "alloc_run alloc (r # rs) s =
     bind_res (alloc r s) (\<lambda>(a, s'). bind_res (alloc_run alloc rs s') (\<lambda>(as, s''). Inr (a # as, s'')))"

text \<open>
  What a client of an allocator relies on: a good request is served, from addresses that were not in
  use before and are in use afterwards.
\<close>

lemma disjoint_mono: "A \<inter> U = {} \<Longrightarrow> A' \<subseteq> A \<Longrightarrow> B \<subseteq> U \<Longrightarrow> A' \<inter> B = {}"
  by blast

locale block_source =
  fixes alloc :: "'r \<Rightarrow> 's \<Rightarrow> (int \<times> 's) res" and width :: "'r \<Rightarrow> int" and good :: "'r \<Rightarrow> bool"
    and ok :: "'s \<Rightarrow> bool" and used :: "'s \<Rightarrow> int set"
  assumes alloc_fresh: "ok s \<Longrightarrow> good r \<Longrightarrow>
    \<exists>a s'. alloc r s = Inr (a, s') \<and> ok s' \<and> {a..<a + width r} \<inter> used s = {} \<and> used s \<union> {a..<a + width r} \<subseteq> used s'"
begin

lemma run_fresh:
  "ok s \<Longrightarrow> \<forall>r \<in> set rs. good r \<Longrightarrow>
   \<exists>as s'. alloc_run alloc rs s = Inr (as, s') \<and> ok s' \<and> length as = length rs \<and> used s \<subseteq> used s' \<and>
     (\<forall>i < length rs. {as ! i..<as ! i + width (rs ! i)} \<inter> used s = {}) \<and>
     (\<forall>i < length rs. \<forall>j < i. {as ! i..<as ! i + width (rs ! i)} \<inter> {as ! j..<as ! j + width (rs ! j)} = {})"
proof (induction rs arbitrary: s)
  case (Cons r rs)
  obtain a s1 where a: "alloc r s = Inr (a, s1)" "ok s1" "{a..<a + width r} \<inter> used s = {}" "used s \<union> {a..<a + width r} \<subseteq> used s1"
    using alloc_fresh [OF Cons.prems(1), of r] Cons.prems(2) by auto
  obtain as s2 where as: "alloc_run alloc rs s1 = Inr (as, s2)" "ok s2" "length as = length rs" "used s1 \<subseteq> used s2"
    "\<And>i. i < length rs \<Longrightarrow> {as ! i..<as ! i + width (rs ! i)} \<inter> used s1 = {}"
    "\<And>i j. i < length rs \<Longrightarrow> j < i \<Longrightarrow> {as ! i..<as ! i + width (rs ! i)} \<inter> {as ! j..<as ! j + width (rs ! j)} = {}"
    using Cons.IH [OF a(2)] Cons.prems(2) by auto
  have run: "alloc_run alloc (r # rs) s = Inr (a # as, s2)" using a(1) as(1) by simp
  have old: "{(a # as) ! i..<(a # as) ! i + width ((r # rs) ! i)} \<inter> used s = {}" if "i < length (r # rs)" for i
    using that a(3,4) as(5) [of "i - 1"] by (cases i) auto
  have apart: "{(a # as) ! i..<(a # as) ! i + width ((r # rs) ! i)} \<inter> {(a # as) ! j..<(a # as) ! j + width ((r # rs) ! j)} = {}"
    if ij: "i < length (r # rs)" "j < i" for i j
  proof -
    obtain i' where i: "i = Suc i'" "i' < length rs" using ij by (cases i) auto
    show ?thesis
    proof (cases j)
      case 0
      have "{as ! i'..<as ! i' + width (rs ! i')} \<inter> {a..<a + width r} = {}"
        by (rule disjoint_mono [OF as(5) [OF i(2)]]) (use a(4) in simp_all)
      then show ?thesis using i(1) 0 by simp
    next
      case (Suc j')
      then show ?thesis using as(6) [OF i(2), of j'] i(1) ij(2) by simp
    qed
  qed
  show ?case using run as(2,3,4) a(4) old apart by (intro exI [of _ "a # as"] exI [of _ s2]) auto
qed simp

end

section \<open>The vector is a source of blocks\<close>

definition fv_shape :: "fixed_vector \<Rightarrow> bool" where
  "fv_shape f \<longleftrightarrow> length (fv_blockArr f) = MEMORY_VECTOR_SIZE \<and> - 1 \<le> fv_curIndex f \<and> fv_curIndex f < int MEMORY_VECTOR_SIZE"

definition tv_shape :: "two_level_vector \<Rightarrow> bool" where
  "tv_shape v \<longleftrightarrow>
     (\<exists>arr f. tv_indr v = Some arr \<and> length arr = tv_curSize v \<and> tv_blockSize v = int (tv_curSize v) \<and>
        0 \<le> tv_curIndex v \<and> tv_curIndex v < int (tv_curSize v) \<and> arr ! nat (tv_curIndex v) = Some f \<and> fv_shape f)"

definition tv_top :: "two_level_vector \<Rightarrow> global_allocator \<Rightarrow> bool" where
  "tv_top v g \<longleftrightarrow> (\<exists>f. tv_current v = Inr f \<and> fv_current f = Inr g)"

lemma tv_shape_current: "tv_shape v \<Longrightarrow> \<exists>f. tv_current v = Inr f \<and> fv_shape f"
  by (auto simp: tv_shape_def tv_current_def)

lemma tv_put_shape:
  assumes "tv_shape v" "fv_shape f"
  shows "tv_shape (tv_put f v)" "tv_current (tv_put f v) = Inr f"
  using assms by (auto simp: tv_shape_def tv_put_def tv_current_def nat_less_iff)

lemma tv_push_ok:
  assumes "tv_shape v" "tv_current v = Inr f" "\<not> fv_full f"
  shows "\<exists>v'. tv_push g v = Inr v' \<and> tv_shape v' \<and> tv_top v' g"
proof -
  have f: "fv_shape f" using tv_shape_current [OF assms(1)] assms(2) by auto
  then have i: "0 \<le> fv_curIndex f + 1" "fv_curIndex f + 1 < int (length (fv_blockArr f))"
    using assms(3) by (auto simp: fv_shape_def fv_full_def)
  let ?f = "f\<lparr>fv_curIndex := fv_curIndex f + 1, fv_blockArr := (fv_blockArr f)[nat (fv_curIndex f + 1) := Some g]\<rparr>"
  have push: "setBlockArr g f = Inr ?f" using i by (simp add: setBlockArr_def Let_def)
  have "fv_shape ?f" "fv_current ?f = Inr g" using f i by (auto simp: fv_shape_def fv_current_def nat_less_iff)
  then show ?thesis using push assms(2) tv_put_shape [OF assms(1), of ?f] by (auto simp: tv_push_def tv_top_def)
qed

lemma fv_new_shape: "fv_shape fv_new" "\<not> fv_full fv_new"
  by (simp_all add: fv_new_def fv_shape_def fv_full_def MEMORY_VECTOR_SIZE_def)

lemma tv_addBlock_ok:
  assumes "tv_indr v = Some arr" "length arr = tv_curSize v" "tv_blockSize v = int (tv_curSize v)"
    "- 1 \<le> tv_curIndex v" "tv_curIndex v + 1 < int (tv_curSize v)"
  shows "\<exists>v'. tv_addBlock v = Inr v' \<and> tv_shape v' \<and> tv_current v' = Inr fv_new"
  using assms fv_new_shape(1)
  by (auto simp: tv_addBlock_def Let_def tv_shape_def tv_current_def nat_less_iff)

text \<open>Adding an allocator succeeds, whichever of the four cases of \<open>insert\<close> it falls into.\<close>

lemma tv_insert_ok:
  assumes v: "tv_shape v"
  shows "\<exists>v'. tv_insert g v = Inr v' \<and> tv_shape v' \<and> tv_top v' g"
proof -
  obtain arr where arr: "tv_indr v = Some arr" "length arr = tv_curSize v" "tv_blockSize v = int (tv_curSize v)"
    "0 \<le> tv_curIndex v" "tv_curIndex v < int (tv_curSize v)" using v by (auto simp: tv_shape_def)
  obtain f where f: "tv_current v = Inr f" "fv_shape f" using tv_shape_current [OF v] by blast
  have fresh: "\<exists>v'. bind_res (tv_addBlock v1) (tv_push g) = Inr v' \<and> tv_shape v' \<and> tv_top v' g"
    if "\<exists>v'. tv_addBlock v1 = Inr v' \<and> tv_shape v' \<and> tv_current v' = Inr fv_new" for v1
    using that tv_push_ok [OF _ _ fv_new_shape(2)] by auto
  consider "\<not> fv_full f" | "fv_full f" "tv_curIndex v = tv_blockSize v - 1" | "fv_full f" "tv_curIndex v \<noteq> tv_blockSize v - 1" by blast
  then show ?thesis
  proof cases
    case 1
    then show ?thesis using tv_push_ok [OF v f(1)] f(1) by (auto simp: tv_insert_def)
  next
    case 2
    let ?v1 = "v\<lparr>tv_indr := Some (arr @ replicate (tv_curSize v) None), tv_curIndex := int (tv_curSize v) - 1,
        tv_blockSize := int (2 * tv_curSize v), tv_curSize := 2 * tv_curSize v\<rparr>"
    have "tv_setIndrArray v = Inr ?v1" using arr by (simp add: tv_setIndrArray_def Let_def fixedSize_def)
    moreover have "\<exists>v'. tv_addBlock ?v1 = Inr v' \<and> tv_shape v' \<and> tv_current v' = Inr fv_new"
      using arr by (intro tv_addBlock_ok) auto
    ultimately show ?thesis using 2 f(1) fresh [of ?v1] by (simp add: tv_insert_def)
  next
    case 3
    then have "tv_curIndex v + 1 < int (tv_curSize v)" using arr by auto
    then have "\<exists>v'. tv_addBlock v = Inr v' \<and> tv_shape v' \<and> tv_current v' = Inr fv_new"
      using arr by (intro tv_addBlock_ok) auto
    then show ?thesis using 3 f(1) fresh [of v] by (simp add: tv_insert_def)
  qed
qed

text \<open>The operating system's side: mappings succeed and do not overlap (up to 512 MB each).\<close>

definition maps_ok :: "mmap \<Rightarrow> bool" where
  "maps_ok mm \<longleftrightarrow> (\<forall>k n. mm k n \<noteq> MAP_FAILED) \<and>
     (\<forall>j k m n. j \<noteq> k \<longrightarrow> m \<le> 512 * MB \<longrightarrow> n \<le> 512 * MB \<longrightarrow> {mm j m..<mm j m + m} \<inter> {mm k n..<mm k n + n} = {})"

definition mapped :: "mmap \<Rightarrow> nat \<Rightarrow> int set" where
  "mapped mm k = (\<Union>j < k. \<Union>n \<in> {0..512 * MB}. {mm j n..<mm j n + n})"

definition top_ok :: "mmap \<Rightarrow> nat \<Rightarrow> global_allocator \<Rightarrow> bool" where
  "top_ok mm k g \<longleftrightarrow> 0 < k \<and> ga_mem g = mm (k - 1) (ga_totalSpace g) \<and> 0 \<le> ga_offset g \<and>
     ga_offset g \<le> ga_totalSpace g \<and> ga_totalSpace g \<le> 512 * MB"

definition vector_ok :: "mmap \<Rightarrow> two_level_vector \<times> nat \<Rightarrow> bool" where
  "vector_ok mm s \<longleftrightarrow> tv_shape (fst s) \<and> (\<exists>g. tv_top (fst s) g \<and> top_ok mm (snd s) g)"

definition vector_used :: "mmap \<Rightarrow> two_level_vector \<times> nat \<Rightarrow> int set" where
  "vector_used mm s = mapped mm (snd s - 1) \<union> (\<Union>g \<in> {g. tv_top (fst s) g}. {ga_mem g..<ga_mem g + ga_offset g})"

lemma tv_top_unique: "tv_top v g \<Longrightarrow> tv_top v h \<longleftrightarrow> h = g"
  by (auto simp: tv_top_def)

lemma vector_used_top: "tv_top v g \<Longrightarrow> vector_used mm (v, k) = mapped mm (k - 1) \<union> {ga_mem g..<ga_mem g + ga_offset g}"
  by (simp add: vector_used_def tv_top_unique)

lemma tv_carve_ok:
  assumes v: "tv_shape v" and g: "tv_top v g"
  shows "\<exists>v'. tv_carve n v = Inr (ga_mem g + ga_offset g, v') \<and> tv_shape v' \<and> tv_top v' (g\<lparr>ga_offset := ga_offset g + n\<rparr>)"
proof -
  obtain f where f: "tv_current v = Inr f" "fv_current f = Inr g" using g by (auto simp: tv_top_def)
  have s: "fv_shape f" using tv_shape_current [OF v] f(1) by auto
  let ?g = "g\<lparr>ga_offset := ga_offset g + n\<rparr>" and ?f = "fv_set_current (g\<lparr>ga_offset := ga_offset g + n\<rparr>) f"
  have "fv_shape ?f" "fv_current ?f = Inr ?g"
    using s f(2) by (auto simp: fv_shape_def fv_set_current_def fv_current_def nat_less_iff split: if_splits)
  then show ?thesis using f tv_put_shape [OF v, of ?f] by (auto simp: tv_carve_def ga_allocate_def tv_top_def)
qed

lemma mapped_fresh:
  assumes "maps_ok mm" "0 \<le> n" "n \<le> 512 * MB"
  shows "{mm k n..<mm k n + n} \<inter> mapped mm k = {}"
proof -
  have "{mm k n..<mm k n + n} \<inter> {mm j m..<mm j m + m} = {}" if "j < k" "m \<in> {0..512 * MB}" for j m
    using assms that less_imp_neq [OF that(1)] unfolding maps_ok_def by (metis atLeastAtMost_iff Int_commute)
  then show ?thesis unfolding mapped_def by blast
qed

lemma getBlock_fresh:
  assumes mm: "maps_ok mm" and ok: "vector_ok mm s" and n: "0 < n \<and> n \<le> SIXTEENMB"
  shows "\<exists>a s'. getBlock mm n s = Inr (a, s') \<and> vector_ok mm s' \<and> {a..<a + n} \<inter> vector_used mm s = {} \<and>
    vector_used mm s \<union> {a..<a + n} \<subseteq> vector_used mm s'"
proof -
  obtain v k g where s: "s = (v, k)" "tv_shape v" "tv_top v g" "top_ok mm k g" using ok by (cases s) (auto simp: vector_ok_def)
  obtain f where f: "tv_current v = Inr f" "fv_current f = Inr g" using s(3) by (auto simp: tv_top_def)
  have region: "{ga_mem g..<ga_mem g + ga_totalSpace g} \<inter> mapped mm (k - 1) = {}"
    "{ga_mem g..<ga_mem g + ga_totalSpace g} \<subseteq> mapped mm k"
    using mapped_fresh [OF mm, of "ga_totalSpace g" "k - 1"] s(4)
    by (auto simp: top_ok_def mapped_def intro!: bexI [of _ "k - 1"] bexI [of _ "ga_totalSpace g"])
  show ?thesis
  proof (cases "isFreeSpace n g")
    case True
    then have free: "ga_offset g + n \<le> ga_totalSpace g" by (simp add: isFreeSpace_def split: if_splits)
    let ?g = "g\<lparr>ga_offset := ga_offset g + n\<rparr>"
    obtain v' where v': "tv_carve n v = Inr (ga_mem g + ga_offset g, v')" "tv_shape v'" "tv_top v' ?g"
      using tv_carve_ok [OF s(2,3)] by blast
    have "getBlock mm n s = Inr (ga_mem g + ga_offset g, v', k)" using True f v'(1) by (simp add: getBlock_def s(1))
    moreover have "vector_ok mm (v', k)" using v' free n s(4) by (auto simp: vector_ok_def top_ok_def)
    moreover have "{ga_mem g + ga_offset g..<ga_mem g + ga_offset g + n} \<inter> vector_used mm s = {}"
    proof -
      have "{ga_mem g + ga_offset g..<ga_mem g + ga_offset g + n} \<inter> mapped mm (k - 1) = {}"
        by (rule disjoint_mono [OF region(1)]) (use free s(4) in \<open>auto simp: top_ok_def\<close>)
      then show ?thesis unfolding s(1) vector_used_top [OF s(3)] by auto
    qed
    moreover have "vector_used mm s \<union> {ga_mem g + ga_offset g..<ga_mem g + ga_offset g + n} \<subseteq> vector_used mm (v', k)"
      using s(4) n unfolding s(1) vector_used_top [OF s(3)] vector_used_top [OF v'(3)] by (auto simp: top_ok_def)
    ultimately show ?thesis by blast
  next
    case False
    let ?g = "\<lparr>ga_mem = mm k (512 * MB), ga_offset = 0, ga_totalSpace = 512 * MB\<rparr>"
    obtain v1 where v1: "tv_insert ?g v = Inr v1" "tv_shape v1" "tv_top v1 ?g" using tv_insert_ok [OF s(2)] by blast
    obtain v' where v': "tv_carve n v1 = Inr (mm k (512 * MB), v')" "tv_shape v'" "tv_top v' (?g\<lparr>ga_offset := n\<rparr>)"
      using tv_carve_ok [OF v1(2,3), of n] by auto
    have "ga_init mm 512 False k = Inr (?g, k + 1)" by (simp add: ga_init_def SIXTEENMB_def Let_def)
    then have "getBlock mm n s = Inr (mm k (512 * MB), v', k + 1)"
      using False f v1(1) v'(1) n by (auto simp: getBlock_def s(1))
    moreover have "n \<le> 512 * MB" using n by (simp add: SIXTEENMB_def MB_def)
    moreover from this have "vector_ok mm (v', k + 1)" using v' n by (auto simp: vector_ok_def top_ok_def)
    moreover have "vector_used mm s \<subseteq> mapped mm k"
    proof -
      have "{ga_mem g..<ga_mem g + ga_offset g} \<subseteq> mapped mm k" using s(4) by (intro subset_trans [OF _ region(2)]) (auto simp: top_ok_def)
      moreover have "mapped mm (k - 1) \<subseteq> mapped mm k" unfolding mapped_def by (rule UN_mono) auto
      ultimately show ?thesis unfolding s(1) vector_used_top [OF s(3)] by blast
    qed
    moreover have "{mm k (512 * MB)..<mm k (512 * MB) + n} \<inter> mapped mm k = {}"
      by (rule disjoint_mono [OF mapped_fresh [OF mm, of "512 * MB" k]]) (use \<open>n \<le> 512 * MB\<close> in \<open>auto simp: MB_def\<close>)
    ultimately show ?thesis using vector_used_top [OF v'(3), of mm "k + 1"] by auto
  qed
qed

interpretation vec: block_source "getBlock mm" "\<lambda>n. n" "\<lambda>n. 0 < n \<and> n \<le> SIXTEENMB"
    "\<lambda>s. maps_ok mm \<and> vector_ok mm s" "vector_used mm" for mm
  by unfold_locales (use getBlock_fresh in blast)

end
