(* ===== verification/Pool_Index.thy ===== *)
theory Pool_Index
  imports AVB_Prelude
begin

text \<open>
  \<open>HALMemoryPool/HashTablMemory\<close> and \<open>MemoryPoolLib\<close>: the chained hash table that leads from a block size
  to the pool of blocks of that size. A chain is the list of its buckets, head first; \<open>None\<close> for the
  array is the null pointer that \<open>aligned_alloc\<close> returns for a request that cannot be met. A bucket's
  \<open>isAvailable\<close> is not initialised when the bucket is allocated: its first value is the parameter \<open>junk\<close>.
\<close>

section \<open>Sizes\<close>

definition PRIMETABLE :: "int list" where
  "PRIMETABLE = [4, 16, 128, 512, 1024, 8192, 16384, 131072, 524288]"

text \<open>\<open>curSize2\<close> is compared as an unsigned 64-bit number.\<close>

definition getCurSizeTable :: "int \<Rightarrow> int" where
  "getCurSizeTable curSize2 =
     (if curSize2 mod 2 ^ 64 < PRIMETABLE ! 8 then
        (case filter (\<lambda>i. curSize2 = PRIMETABLE ! i) [0..<8] of [] \<Rightarrow> - 1 | i # _ \<Rightarrow> PRIMETABLE ! (i + 1))
      else curSize2 * 2)"

definition defaultSize :: int where
  "defaultSize = 907"

section \<open>MemoryBucket\<close>

record memory_bucket =
  mb_isAvailable :: bool
  mb_blockSize :: int
  mb_freeBlock :: nat

definition getBlockSize :: "memory_bucket \<Rightarrow> int" where
  "getBlockSize b = mb_blockSize b"

definition getFreeBlockList :: "memory_bucket \<Rightarrow> nat" where
  "getFreeBlockList b = mb_freeBlock b"

section \<open>HashTableMemoryIndex\<close>

record memory_index =
  mi_arr :: "memory_bucket list list option"
  mi_curSize :: int
  mi_entryCounter :: int
  mi_multiplier :: int

text \<open>\<open>key % curSize1\<close> with a \<open>size_t\<close> key, and \<open>getBlockSize() % curSize1\<close> with an \<open>int64_t\<close> one.\<close>

definition unsigned_index :: "int \<Rightarrow> int \<Rightarrow> int res" where
  "unsigned_index key n = (if n = 0 then Inl DivByZero else Inr (key mod (n mod 2 ^ 64)))"

definition signed_index :: "int \<Rightarrow> int \<Rightarrow> int res" where
  "signed_index key n = (if n = 0 then Inl DivByZero else Inr (key mod \<bar>n\<bar>))"

definition chain_at :: "memory_bucket list list option \<Rightarrow> int \<Rightarrow> memory_bucket list res" where
  "chain_at arr i =
     (case arr of
        None \<Rightarrow> Inl NullDeref
      | Some cs \<Rightarrow> if i < 0 \<or> i \<ge> int (length cs) then Inl OutOfBounds else Inr (cs ! nat i))"

text \<open>Both branches of the two insertions put the bucket in front of the chain.\<close>

definition push_bucket :: "memory_bucket \<Rightarrow> int \<Rightarrow> memory_bucket list list option \<Rightarrow> memory_bucket list list option res" where
  "push_bucket b i arr =
     bind_res (chain_at arr i) (\<lambda>c. Inr (map_option (\<lambda>cs. cs[nat i := b # c]) arr))"

text \<open>\<open>aligned_alloc(8, n * 8)\<close>, every slot set to null; a negative count asks for nearly \<open>2 ^ 64\<close> bytes.\<close>

definition alloc_chains :: "int \<Rightarrow> memory_bucket list list option" where
  "alloc_chains n = (if n < 0 then None else Some (replicate (nat n) []))"

definition rehash_bucket :: "(int \<Rightarrow> bool) \<Rightarrow> int \<Rightarrow> memory_bucket \<Rightarrow> memory_bucket list list option \<Rightarrow>
    memory_bucket list list option res" where
  "rehash_bucket junk n b temp =
     bind_res (signed_index (mb_blockSize b) n) (\<lambda>i. push_bucket (b\<lparr>mb_isAvailable := junk (mb_blockSize b)\<rparr>) i temp)"

definition rehash_chain :: "(int \<Rightarrow> bool) \<Rightarrow> int \<Rightarrow> memory_bucket list list option \<Rightarrow> nat \<Rightarrow> memory_bucket list list option \<Rightarrow>
    memory_bucket list list option res" where
  "rehash_chain junk n old i temp = bind_res (chain_at old (int i)) (\<lambda>c. foldR (rehash_bucket junk n) c temp)"

definition resizeHashTable :: "(int \<Rightarrow> bool) \<Rightarrow> memory_index \<Rightarrow> memory_index res" where
  "resizeHashTable junk m =
     (let prevCurSize = mi_curSize m in
      if mi_curSize m \<noteq> 0 then
        let n = getCurSizeTable (mi_curSize m) in
        bind_res (foldR (rehash_chain junk n (mi_arr m)) [0..<nat prevCurSize] (alloc_chains n)) (\<lambda>temp.
          Inr (m\<lparr>mi_curSize := n, mi_multiplier := 10, mi_arr := temp\<rparr>))
      else
        Inr (m\<lparr>mi_arr := alloc_chains defaultSize, mi_curSize := defaultSize, mi_multiplier := 10\<rparr>))"

definition HashTableMemoryIndex_new :: "(int \<Rightarrow> bool) \<Rightarrow> memory_index res" where
  "HashTableMemoryIndex_new junk =
     resizeHashTable junk \<lparr>mi_arr = None, mi_curSize = 0, mi_entryCounter = 0, mi_multiplier = 10\<rparr>"

definition getIndexVal :: "int \<Rightarrow> memory_index \<Rightarrow> memory_bucket option res" where
  "getIndexVal key m =
     bind_res (unsigned_index key (mi_curSize m)) (\<lambda>i.
     bind_res (chain_at (mi_arr m) i) (\<lambda>c. Inr (List.find (\<lambda>b. getBlockSize b = key) c)))"

definition index_insert :: "(int \<Rightarrow> bool) \<Rightarrow> int \<Rightarrow> nat \<Rightarrow> memory_index \<Rightarrow> memory_index res" where
  "index_insert junk key val m =
     (let m1 = m\<lparr>mi_entryCounter := mi_entryCounter m + 1\<rparr> in
      bind_res (if mi_entryCounter m1 > mi_curSize m1 then resizeHashTable junk m1 else Inr m1) (\<lambda>m2.
      bind_res (getIndexVal key m2) (\<lambda>found.
        case found of
          Some b \<Rightarrow> Inr m2
        | None \<Rightarrow>
            bind_res (unsigned_index key (mi_curSize m2)) (\<lambda>i.
            bind_res (push_bucket \<lparr>mb_isAvailable = junk key, mb_blockSize = key, mb_freeBlock = val\<rparr> i (mi_arr m2)) (\<lambda>arr.
              Inr (m2\<lparr>mi_arr := arr\<rparr>))))))"

text \<open>The write \<open>getIndexVal(key)->isAvailable = b\<close>.\<close>

definition set_available :: "int \<Rightarrow> bool \<Rightarrow> memory_index \<Rightarrow> memory_index res" where
  "set_available key b m =
     bind_res (getIndexVal key m) (\<lambda>found.
       if found = None then Inl NullDeref
       else
         bind_res (unsigned_index key (mi_curSize m)) (\<lambda>i.
           Inr (m\<lparr>mi_arr := map_option (\<lambda>cs.
             let c = cs ! nat i; p = takeWhile (\<lambda>x. getBlockSize x \<noteq> key) c; r = dropWhile (\<lambda>x. getBlockSize x \<noteq> key) c
             in cs[nat i := p @ (case r of [] \<Rightarrow> [] | x # xs \<Rightarrow> x\<lparr>mb_isAvailable := b\<rparr> # xs)]) (mi_arr m)\<rparr>)))"

definition getDefaultSize :: int where
  "getDefaultSize = defaultSize"

definition getCurSize :: "memory_index \<Rightarrow> int" where
  "getCurSize m = mi_curSize m"

section \<open>Lookup after insertion\<close>

text \<open>A table of the first size in which every bucket stands in the chain of its size.\<close>

definition index_ok :: "memory_index \<Rightarrow> bool" where
  "index_ok m \<longleftrightarrow> mi_curSize m = defaultSize \<and>
     (\<exists>cs. mi_arr m = Some cs \<and> int (length cs) = defaultSize)"

definition entry :: "memory_index \<Rightarrow> int \<Rightarrow> memory_bucket option" where
  "entry m key = (case getIndexVal key m of Inl f \<Rightarrow> None | Inr r \<Rightarrow> r)"

lemma slot_in_range: "0 \<le> key mod defaultSize" "key mod defaultSize < defaultSize"
  by (simp_all add: defaultSize_def)

lemma unsigned_default: "unsigned_index key defaultSize = Inr (key mod defaultSize)"
  by (simp add: unsigned_index_def defaultSize_def)

lemma getIndexVal_ok:
  assumes "index_ok m" "mi_arr m = Some cs"
  shows "getIndexVal key m = Inr (List.find (\<lambda>b. mb_blockSize b = key) (cs ! nat (key mod defaultSize)))"
  using assms slot_in_range [of key]
  by (auto simp: getIndexVal_def index_ok_def unsigned_default chain_at_def getBlockSize_def)

lemma new_index_ok: "\<exists>m. HashTableMemoryIndex_new junk = Inr m \<and> index_ok m \<and> mi_entryCounter m = 0 \<and> (\<forall>k. entry m k = None)"
proof -
  let ?m = "\<lparr>mi_arr = alloc_chains defaultSize, mi_curSize = defaultSize, mi_entryCounter = 0, mi_multiplier = 10\<rparr>"
  have ok: "index_ok ?m" by (simp add: index_ok_def alloc_chains_def defaultSize_def)
  have "entry ?m k = None" for k
  proof -
    have "getIndexVal k ?m = Inr (List.find (\<lambda>b. mb_blockSize b = k) (replicate (nat defaultSize) [] ! nat (k mod defaultSize)))"
      by (rule getIndexVal_ok [OF ok]) (simp add: alloc_chains_def defaultSize_def)
    moreover have "nat (k mod defaultSize) < nat defaultSize" using slot_in_range [of k] by (simp add: nat_less_eq_zless)
    ultimately show ?thesis by (simp add: entry_def)
  qed
  then show ?thesis using ok by (simp add: HashTableMemoryIndex_new_def resizeHashTable_def Let_def)
qed

lemma index_insert_spec:
  assumes ok: "index_ok m" and room: "mi_entryCounter m < defaultSize"
  shows "\<exists>m'. index_insert junk key val m = Inr m' \<and> index_ok m' \<and> mi_entryCounter m' = mi_entryCounter m + 1 \<and>
    (\<forall>k. entry m' k =
       (if k = key \<and> entry m key = None
        then Some \<lparr>mb_isAvailable = junk key, mb_blockSize = key, mb_freeBlock = val\<rparr> else entry m k))"
proof -
  obtain cs where cs: "mi_arr m = Some cs" "int (length cs) = defaultSize" and n: "mi_curSize m = defaultSize"
    using ok by (auto simp: index_ok_def)
  let ?m1 = "m\<lparr>mi_entryCounter := mi_entryCounter m + 1\<rparr>"
  let ?i = "key mod defaultSize" and ?b = "\<lparr>mb_isAvailable = junk key, mb_blockSize = key, mb_freeBlock = val\<rparr>"
  have ok1: "index_ok ?m1" using ok by (simp add: index_ok_def)
  have get: "getIndexVal k ?m1 = Inr (entry m k)" for k
    using getIndexVal_ok [OF ok cs(1), of k] getIndexVal_ok [OF ok1, of cs k] cs(1) by (simp add: entry_def)
  have noresize: "\<not> mi_entryCounter ?m1 > mi_curSize ?m1" using room n by simp
  show ?thesis
  proof (cases "entry m key")
    case (Some b)
    have "index_insert junk key val m = Inr ?m1" using noresize get [of key] Some by (simp add: index_insert_def Let_def)
    moreover have "entry ?m1 k = entry m k" for k using get [of k] by (simp add: entry_def [of ?m1])
    ultimately show ?thesis using ok1 Some by simp
  next
    case None
    let ?cs = "cs[nat ?i := ?b # cs ! nat ?i]" and ?m2 = "?m1\<lparr>mi_arr := Some (cs[nat ?i := ?b # cs ! nat ?i])\<rparr>"
    have i: "0 \<le> ?i" "?i < int (length cs)" using slot_in_range [of key] cs(2) by simp_all
    have run: "index_insert junk key val m = Inr ?m2"
      using noresize get [of key] None i n cs(1)
      by (simp add: index_insert_def Let_def unsigned_default push_bucket_def chain_at_def)
    have ok2: "index_ok ?m2" using ok1 cs(2) by (simp add: index_ok_def)
    have "entry ?m2 k = (if k = key then Some ?b else entry m k)" for k
    proof -
      have k: "0 \<le> k mod defaultSize" "k mod defaultSize < int (length cs)" using slot_in_range [of k] cs(2) by simp_all
      have "entry ?m2 k = List.find (\<lambda>b. mb_blockSize b = k) (?cs ! nat (k mod defaultSize))"
        using getIndexVal_ok [OF ok2, of ?cs k] by (simp add: entry_def)
      moreover have "entry m k = List.find (\<lambda>b. mb_blockSize b = k) (cs ! nat (k mod defaultSize))"
        using getIndexVal_ok [OF ok cs(1), of k] by (simp add: entry_def)
      ultimately show ?thesis using i k by (auto simp: nth_list_update nat_eq_iff)
    qed
    then show ?thesis using run ok2 None by simp
  qed
qed

text \<open>
  C21: A size inserted while the index has room is found afterwards with the block it was inserted with; a
  size that was there keeps its block; no other size is affected.
\<close>

theorem index_insert_lookup:
  assumes ok: "index_ok m" and room: "mi_entryCounter m < defaultSize"
  shows "\<exists>m'. index_insert junk key val m = Inr m' \<and> index_ok m' \<and> mi_entryCounter m' = mi_entryCounter m + 1 \<and>
    (\<forall>k. entry m' k =
       (if k = key \<and> entry m key = None
        then Some \<lparr>mb_isAvailable = junk key, mb_blockSize = key, mb_freeBlock = val\<rparr> else entry m k))"
  by (rule index_insert_spec [OF assms])

theorem index_insert_lookup_witness:
  "\<exists>m m'. HashTableMemoryIndex_new (\<lambda>_. True) = Inr m \<and> index_insert (\<lambda>_. True) 2048 0 m = Inr m' \<and>
     entry m' 2048 = Some \<lparr>mb_isAvailable = True, mb_blockSize = 2048, mb_freeBlock = 0\<rparr> \<and> entry m' 24 = None"
proof -
  obtain m where m: "HashTableMemoryIndex_new (\<lambda>_. True) = Inr m" "index_ok m" "mi_entryCounter m = 0" "\<And>k. entry m k = None"
    using new_index_ok by blast
  have "mi_entryCounter m < defaultSize" using m(3) by (simp add: defaultSize_def)
  from index_insert_lookup [OF m(2) this, of "\<lambda>_. True" 2048 0] m(1,4) show ?thesis by auto
qed

lemma full_index_faults:
  assumes ok: "index_ok m" and full: "mi_entryCounter m = defaultSize" and key: "0 \<le> key" "key < 2 ^ 64 - 1"
  shows "index_insert junk key val m = Inl NullDeref"
proof -
  obtain cs where cs: "mi_arr m = Some cs" "int (length cs) = defaultSize" and n: "mi_curSize m = defaultSize"
    using ok by (auto simp: index_ok_def)
  let ?m1 = "m\<lparr>mi_entryCounter := mi_entryCounter m + 1\<rparr>"
  have next_size: "getCurSizeTable defaultSize = - 1" by code_simp
  have chain: "foldR (rehash_bucket junk (- 1)) c None = (if c = [] then Inr None else Inl NullDeref)" for c
    by (cases c) (simp_all add: rehash_bucket_def signed_index_def push_bucket_def chain_at_def)
  have step: "rehash_chain junk (- 1) (Some cs) i None = Inr None \<or> rehash_chain junk (- 1) (Some cs) i None = Inl NullDeref"
    if "i < length cs" for i
    using that by (auto simp: rehash_chain_def chain_at_def chain)
  have "foldR (rehash_chain junk (- 1) (Some cs)) [0..<j] None \<in> {Inr None, Inl NullDeref}" if "j \<le> length cs" for j
    using that
  proof (induction j)
    case (Suc j)
    then have "foldR (rehash_chain junk (- 1) (Some cs)) [0..<j] None \<in> {Inr None, Inl NullDeref}" by simp
    then show ?case using step [of j] Suc.prems by (auto simp: foldR_append)
  qed simp
  then have loop: "foldR (rehash_chain junk (- 1) (Some cs)) [0..<nat defaultSize] None \<in> {Inr None, Inl NullDeref}"
    using cs(2) by simp
  have "getIndexVal key (?m1\<lparr>mi_curSize := - 1, mi_multiplier := 10, mi_arr := None\<rparr>) = Inl NullDeref"
    by (simp add: getIndexVal_def unsigned_index_def chain_at_def)
  moreover have "defaultSize \<noteq> 0" by (simp add: defaultSize_def)
  ultimately show ?thesis using loop full n cs(1) next_size
    by (auto simp: index_insert_def resizeHashTable_def Let_def alloc_chains_def)
qed

lemma index_fills:
  assumes "index_ok m" "mi_entryCounter m + int (length kvs) \<le> defaultSize"
  shows "\<exists>m'. foldR (\<lambda>(k, v). index_insert junk k v) kvs m = Inr m' \<and> index_ok m' \<and>
    mi_entryCounter m' = mi_entryCounter m + int (length kvs)"
  using assms
proof (induction kvs arbitrary: m)
  case (Cons kv kvs)
  obtain k v where kv: "kv = (k, v)" by (cases kv)
  have "mi_entryCounter m < defaultSize" using Cons.prems(2) by simp
  from index_insert_spec [OF Cons.prems(1) this, of junk k v]
  obtain m1 where m1: "index_insert junk k v m = Inr m1" "index_ok m1" "mi_entryCounter m1 = mi_entryCounter m + 1" by blast
  obtain m' where "foldR (\<lambda>(k, v). index_insert junk k v) kvs m1 = Inr m'" "index_ok m'"
    "mi_entryCounter m' = mi_entryCounter m1 + int (length kvs)"
    using Cons.IH [OF m1(2)] Cons.prems(2) m1(3) by auto
  then show ?case using m1(1,3) by (simp add: kv)
qed simp

text \<open>
  C23: The index cannot grow. A new index takes 907 insertions; whatever the next one inserts, it
  dereferences a null pointer: \<open>getCurSizeTable\<close> has no successor for the size 907 and answers -1, and the
  allocation of -8 bytes fails.
\<close>

theorem index_cannot_grow:
  assumes "length kvs = 907" "0 \<le> key" "key < 2 ^ 64 - 1"
  shows "\<exists>m m'. HashTableMemoryIndex_new junk = Inr m \<and> foldR (\<lambda>(k, v). index_insert junk k v) kvs m = Inr m' \<and>
    index_insert junk key val m' = Inl NullDeref"
proof -
  obtain m where m: "HashTableMemoryIndex_new junk = Inr m" "index_ok m" "mi_entryCounter m = 0" using new_index_ok by blast
  have "mi_entryCounter m + int (length kvs) \<le> defaultSize" using assms(1) m(3) by (simp add: defaultSize_def)
  from index_fills [OF m(2) this, of junk] obtain m' where m': "foldR (\<lambda>(k, v). index_insert junk k v) kvs m = Inr m'"
    "index_ok m'" "mi_entryCounter m' = mi_entryCounter m + int (length kvs)" by blast
  have "mi_entryCounter m' = defaultSize" using m'(3) m(3) assms(1) by (simp add: defaultSize_def)
  then have "index_insert junk key val m' = Inl NullDeref" by (rule full_index_faults [OF m'(2) _ assms(2,3)])
  then show ?thesis using m(1) m'(1) by blast
qed

theorem index_cannot_grow_witness:
  "\<exists>m m'. HashTableMemoryIndex_new (\<lambda>_. True) = Inr m \<and>
     foldR (\<lambda>(k, v). index_insert (\<lambda>_. True) k v) (map (\<lambda>i. (8 * int i, 0)) [0..<907]) m = Inr m' \<and>
     index_insert (\<lambda>_. True) 24 1 m' = Inl NullDeref"
  by (rule index_cannot_grow) simp_all

end
