(* ===== verification/Pool_Allocator.thy ===== *)
theory Pool_Allocator
  imports Pool_Vector Pool_Index
begin

text \<open>
  \<open>HALMemoryPool/BlockAllocator\<close> and \<open>HashTablMemory\<close>: the per-thread allocator, which leads a request to
  the pool of its size, the queue of freed blocks (\<open>FixedSizeBlock\<close>, \<open>TwoLevelQueue\<close>), which takes its own
  memory from the same allocator, and \<open>MemoryAllocator\<close>, one per-thread allocator per thread.
  \<open>AllocatorBlock\<close> and \<open>TwoLevelQueue\<close> objects are reached through pointers from several places and live in
  lists; a pointer is a position. The blocks of a queue are owned by one slot of its array.
\<close>

section \<open>The state\<close>

definition MEMORY_QUEUE_SIZE :: nat where "MEMORY_QUEUE_SIZE = 1024"
definition fixedSize_queue :: nat where "fixedSize_queue = 16"
definition TARGET_BLOCK_SIZE :: int where "TARGET_BLOCK_SIZE = 32 * 64"
definition sizeof_TwoLevelQueue :: int where "sizeof_TwoLevelQueue = 24"
definition sizeof_FixedSizeBlock :: int where "sizeof_FixedSizeBlock = 16"

record fixed_block =
  fb_blockArr :: "int option list"
  fb_cur :: int

text \<open>The array of a queue with the address it was allocated at.\<close>

record two_level_queue =
  tq_indr :: "(int \<times> fixed_block option list) option"
  tq_curIndex :: int
  tq_curSize :: nat
  tq_blockSize :: int

record allocator_block =
  ab_memBlock :: two_level_vector
  ab_freeList :: "nat option"

record pool =
  po_index :: memory_index
  po_blocks :: "allocator_block list"
  po_queues :: "two_level_queue list"
  po_maps :: nat

section \<open>FixedSizeBlock\<close>

definition fb_new :: fixed_block where
  "fb_new = \<lparr>fb_blockArr = replicate MEMORY_QUEUE_SIZE None, fb_cur = - 1\<rparr>"

definition fb_push :: "int \<Rightarrow> fixed_block \<Rightarrow> fixed_block res" where
  "fb_push val f =
     (let i = fb_cur f + 1 in
      if i < 0 \<or> i \<ge> int (length (fb_blockArr f)) then Inl OutOfBounds
      else Inr (f\<lparr>fb_cur := i, fb_blockArr := (fb_blockArr f)[nat i := Some val]\<rparr>))"

definition fb_pop :: "fixed_block \<Rightarrow> (int \<times> fixed_block) res" where
  "fb_pop f =
     (if fb_cur f < 0 \<or> fb_cur f \<ge> int (length (fb_blockArr f)) then Inl OutOfBounds
      else case fb_blockArr f ! nat (fb_cur f) of
             None \<Rightarrow> Inl WildPointer
           | Some p \<Rightarrow> Inr (p, f\<lparr>fb_cur := fb_cur f - 1\<rparr>))"

definition fb_full :: "fixed_block \<Rightarrow> bool" where
  "fb_full f \<longleftrightarrow> fb_cur f = int MEMORY_QUEUE_SIZE - 1"

section \<open>TwoLevelQueue: the operations that do not allocate\<close>

definition tq_initVal :: two_level_queue where
  "tq_initVal = \<lparr>tq_indr = None, tq_curIndex = - 1, tq_curSize = 1, tq_blockSize = 0\<rparr>"

definition tq_block :: "two_level_queue \<Rightarrow> int \<Rightarrow> fixed_block res" where
  "tq_block q i =
     (case tq_indr q of
        None \<Rightarrow> Inl NullDeref
      | Some (a, arr) \<Rightarrow>
          if i < 0 \<or> i \<ge> int (length arr) then Inl OutOfBounds
          else case arr ! nat i of None \<Rightarrow> Inl WildPointer | Some f \<Rightarrow> Inr f)"

definition tq_put :: "int \<Rightarrow> fixed_block \<Rightarrow> two_level_queue \<Rightarrow> two_level_queue" where
  "tq_put i f q = q\<lparr>tq_indr := map_option (\<lambda>(a, arr). (a, arr[nat i := Some f])) (tq_indr q)\<rparr>"

definition tq_push :: "int \<Rightarrow> two_level_queue \<Rightarrow> two_level_queue res" where
  "tq_push x q = bind_res (tq_block q (tq_curIndex q)) (\<lambda>f. bind_res (fb_push x f) (\<lambda>f'. Inr (tq_put (tq_curIndex q) f' q)))"

definition tq_pop :: "two_level_queue \<Rightarrow> (int \<times> two_level_queue) res" where
  "tq_pop q = bind_res (tq_block q (tq_curIndex q)) (\<lambda>f. bind_res (fb_pop f) (\<lambda>(p, f'). Inr (p, tq_put (tq_curIndex q) f' q)))"

definition get_block :: "two_level_queue \<Rightarrow> (int \<times> two_level_queue) res" where
  "get_block q =
     (if tq_curIndex q = 0 then tq_pop q
      else bind_res (tq_block q (tq_curIndex q)) (\<lambda>f.
        if fb_cur f = - 1 then tq_pop (q\<lparr>tq_curIndex := tq_curIndex q - 1\<rparr>) else tq_pop q))"

definition tq_empty :: "two_level_queue \<Rightarrow> bool res" where
  "tq_empty q =
     (if tq_curIndex q = 0 then bind_res (tq_block q 0) (\<lambda>f. Inr (fb_cur f = - 1)) else Inr False)"

section \<open>Allocation\<close>

definition nth_res :: "'a list \<Rightarrow> nat \<Rightarrow> 'a res" where
  "nth_res xs i = (if i < length xs then Inr (xs ! i) else Inl WildPointer)"

definition carve_fresh :: "mmap \<Rightarrow> int \<Rightarrow> nat \<Rightarrow> pool \<Rightarrow> (int \<times> pool) res" where
  "carve_fresh mm req b s =
     bind_res (nth_res (po_blocks s) b) (\<lambda>ab.
     bind_res (getBlock mm req (ab_memBlock ab, po_maps s)) (\<lambda>(a, v, k).
       Inr (a, s\<lparr>po_blocks := (po_blocks s)[b := ab\<lparr>ab_memBlock := v\<rparr>], po_maps := k\<rparr>)))"

definition pt_Allocate :: "mmap \<Rightarrow> int \<Rightarrow> pool \<Rightarrow> (int \<times> pool) res" where
  "pt_Allocate mm req s =
     (if req \<le> SIXTEENMB then
        bind_res (getIndexVal req (po_index s)) (\<lambda>found.
          case found of
            None \<Rightarrow> Inl NullDeref
          | Some m \<Rightarrow>
              if \<not> mb_isAvailable m then carve_fresh mm req (getFreeBlockList m) s
              else
                bind_res (nth_res (po_blocks s) (getFreeBlockList m)) (\<lambda>ab.
                  case ab_freeList ab of
                    None \<Rightarrow> Inl NullDeref
                  | Some qi \<Rightarrow>
                      bind_res (nth_res (po_queues s) qi) (\<lambda>q.
                      bind_res (tq_empty q) (\<lambda>e.
                        if e then carve_fresh mm req (getFreeBlockList m) s
                        else bind_res (get_block q) (\<lambda>(p, q'). Inr (p, s\<lparr>po_queues := (po_queues s)[qi := q']\<rparr>))))))
      else Inr (mm (po_maps s) req, s\<lparr>po_maps := po_maps s + 1\<rparr>))"

section \<open>TwoLevelQueue: the operations that allocate\<close>

text \<open>A new block for slot \<open>++curIndex\<close> of queue \<open>qi\<close>: the object, then its array.\<close>

definition tq_addBlock :: "mmap \<Rightarrow> nat \<Rightarrow> pool \<Rightarrow> pool res" where
  "tq_addBlock mm qi s =
     bind_res (pt_Allocate mm sizeof_FixedSizeBlock s) (\<lambda>(_, s1).
     bind_res (pt_Allocate mm (8 * int MEMORY_QUEUE_SIZE) s1) (\<lambda>(_, s2).
     bind_res (nth_res (po_queues s2) qi) (\<lambda>q.
       let i = tq_curIndex q + 1 in
       case tq_indr q of
         None \<Rightarrow> Inl NullDeref
       | Some (a, arr) \<Rightarrow>
           if i < 0 \<or> i \<ge> int (length arr) then Inl OutOfBounds
           else Inr (s2\<lparr>po_queues := (po_queues s2)[qi := tq_put i fb_new (q\<lparr>tq_curIndex := i\<rparr>)]\<rparr>))))"

text \<open>
  \<open>setIndrArray\<close>; \<open>frees\<close> is the allocator's own \<open>free\<close>, called for the outgrown array between the
  assignments of the fields.
\<close>

definition tq_setIndrArray :: "mmap \<Rightarrow> (int \<Rightarrow> int \<Rightarrow> pool \<Rightarrow> pool res) \<Rightarrow> nat \<Rightarrow> pool \<Rightarrow> pool res" where
  "tq_setIndrArray mm frees qi s =
     bind_res (nth_res (po_queues s) qi) (\<lambda>q0.
       let blenprev = tq_curSize q0; b_len_new = 2 * tq_curSize q0; bprev = blenprev * fixedSize_queue in
       if tq_indr q0 = None then
         bind_res (pt_Allocate mm (8 * int (tq_curSize q0 * fixedSize_queue)) s) (\<lambda>(a, s1).
         bind_res (nth_res (po_queues s1) qi) (\<lambda>q.
           tq_addBlock mm qi
             (s1\<lparr>po_queues := (po_queues s1)[qi := q\<lparr>tq_indr := Some (a, replicate (tq_curSize q * fixedSize_queue) None),
                tq_blockSize := int fixedSize_queue\<rparr>]\<rparr>)))
       else
         bind_res (pt_Allocate mm (8 * int (b_len_new * fixedSize_queue)) s) (\<lambda>(a, s1).
         bind_res (nth_res (po_queues s1) qi) (\<lambda>q.
           case tq_indr q of
             None \<Rightarrow> Inl NullDeref
           | Some (ptr1, arr) \<Rightarrow>
               if bprev > length arr then Inl OutOfBounds
               else
                 let temp = take bprev arr @ replicate (b_len_new * fixedSize_queue - bprev) None;
                     q1 = q\<lparr>tq_indr := Some (a, temp), tq_curIndex := int blenprev - 1\<rparr>
                 in bind_res (frees ptr1 (int bprev * 8) (s1\<lparr>po_queues := (po_queues s1)[qi := q1]\<rparr>)) (\<lambda>s2.
                    bind_res (nth_res (po_queues s2) qi) (\<lambda>q2.
                      Inr (s2\<lparr>po_queues := (po_queues s2)[qi := q2\<lparr>tq_blockSize := int (b_len_new * fixedSize_queue),
                         tq_curSize := b_len_new\<rparr>]\<rparr>))))))"

definition tq_push_at :: "int \<Rightarrow> nat \<Rightarrow> pool \<Rightarrow> pool res" where
  "tq_push_at x qi s =
     bind_res (nth_res (po_queues s) qi) (\<lambda>q. bind_res (tq_push x q) (\<lambda>q'. Inr (s\<lparr>po_queues := (po_queues s)[qi := q']\<rparr>)))"

definition tq_insert :: "mmap \<Rightarrow> (int \<Rightarrow> int \<Rightarrow> pool \<Rightarrow> pool res) \<Rightarrow> int \<Rightarrow> nat \<Rightarrow> pool \<Rightarrow> pool res" where
  "tq_insert mm frees x qi s =
     bind_res (nth_res (po_queues s) qi) (\<lambda>q.
     bind_res (tq_block q (tq_curIndex q)) (\<lambda>f.
       if tq_curIndex q = tq_blockSize q - 1 then
         if fb_full f
         then bind_res (tq_setIndrArray mm frees qi s) (\<lambda>s1. bind_res (tq_addBlock mm qi s1) (tq_push_at x qi))
         else tq_push_at x qi s
       else
         if fb_full f then bind_res (tq_addBlock mm qi s) (tq_push_at x qi)
         else tq_push_at x qi s))"

section \<open>Freeing\<close>

text \<open>
  \<open>free\<close> and the growth of a queue call each other; the first argument bounds the depth of these calls.
\<close>

fun pt_free :: "nat \<Rightarrow> mmap \<Rightarrow> int \<Rightarrow> int \<Rightarrow> pool \<Rightarrow> pool res" where
  "pt_free 0 mm ptr deletedBlock s = Inl LoopsForever"
| "pt_free (Suc n) mm ptr deletedBlock s =
     (if deletedBlock \<le> SIXTEENMB then
        bind_res (getIndexVal deletedBlock (po_index s)) (\<lambda>found.
          case found of
            None \<Rightarrow> Inl NullDeref
          | Some m \<Rightarrow>
              bind_res (nth_res (po_blocks s) (getFreeBlockList m)) (\<lambda>ab.
                case ab_freeList ab of
                  None \<Rightarrow>
                    bind_res (pt_Allocate mm sizeof_TwoLevelQueue s) (\<lambda>(_, s1).
                      let newB = length (po_queues s1) in
                      bind_res (tq_setIndrArray mm (pt_free n mm) newB (s1\<lparr>po_queues := po_queues s1 @ [tq_initVal]\<rparr>)) (\<lambda>s2.
                      bind_res (tq_insert mm (pt_free n mm) ptr newB s2) (\<lambda>s3.
                      bind_res (nth_res (po_blocks s3) (getFreeBlockList m)) (\<lambda>ab3.
                      bind_res (set_available deletedBlock True (po_index s3)) (\<lambda>ix.
                        Inr (s3\<lparr>po_blocks := (po_blocks s3)[getFreeBlockList m := ab3\<lparr>ab_freeList := Some newB\<rparr>], po_index := ix\<rparr>))))))
                | Some two \<Rightarrow> tq_insert mm (pt_free n mm) ptr two s))
      else Inr s)"

section \<open>Initialisation\<close>

definition pt_init :: "mmap \<Rightarrow> (int \<Rightarrow> bool) \<Rightarrow> pool res" where
  "pt_init mm junk =
     bind_res (HashTableMemoryIndex_new junk) (\<lambda>ix.
     bind_res (tv_setIndrArray tv_initVal) (\<lambda>vec_two.
     bind_res (ga_init mm 4 True 0) (\<lambda>(gl, k).
     bind_res (tv_insert gl vec_two) (\<lambda>vec.
     bind_res (index_insert junk TARGET_BLOCK_SIZE 0 ix) (\<lambda>ix1.
     bind_res (set_available TARGET_BLOCK_SIZE False ix1) (\<lambda>ix2.
       Inr \<lparr>po_index = ix2, po_blocks = [\<lparr>ab_memBlock = vec, ab_freeList = None\<rparr>], po_queues = [], po_maps = k\<rparr>))))))"

section \<open>MemoryAllocator\<close>

text \<open>\<open>mms i\<close> and \<open>junk i\<close> are what thread \<open>i\<close>'s allocator gets from the system.\<close>

fun ma_init_loop :: "(nat \<Rightarrow> mmap) \<Rightarrow> (nat \<Rightarrow> int \<Rightarrow> bool) \<Rightarrow> nat \<Rightarrow> pool list res" where
  "ma_init_loop mms junk 0 = Inr []"
| "ma_init_loop mms junk (Suc i) =
     bind_res (ma_init_loop mms junk i) (\<lambda>ps. bind_res (pt_init (mms i) (junk i)) (\<lambda>p. Inr (ps @ [p])))"

definition ma_init :: "(nat \<Rightarrow> mmap) \<Rightarrow> (nat \<Rightarrow> int \<Rightarrow> bool) \<Rightarrow> int \<Rightarrow> nat \<Rightarrow> pool list res" where
  "ma_init mms junk totalSpace totalThread = (if totalThread = 0 then Inl DivByZero else ma_init_loop mms junk totalThread)"

definition getPerThreadMemoryAllocator :: "nat \<Rightarrow> pool list \<Rightarrow> pool res" where
  "getPerThreadMemoryAllocator thread_id ps = (if thread_id < length ps then Inr (ps ! thread_id) else Inl OutOfBounds)"

definition ma_Allocate :: "(nat \<Rightarrow> mmap) \<Rightarrow> int \<Rightarrow> nat \<Rightarrow> pool list \<Rightarrow> (int \<times> pool list) res" where
  "ma_Allocate mms req thread_id ps =
     bind_res (getPerThreadMemoryAllocator thread_id ps) (\<lambda>p.
     bind_res (pt_Allocate (mms thread_id) req p) (\<lambda>(a, p'). Inr (a, ps[thread_id := p'])))"

definition ma_free :: "nat \<Rightarrow> (nat \<Rightarrow> mmap) \<Rightarrow> int \<Rightarrow> int \<Rightarrow> nat \<Rightarrow> pool list \<Rightarrow> pool list res" where
  "ma_free n mms ptr deletedBlock thread_id ps =
     bind_res (getPerThreadMemoryAllocator thread_id ps) (\<lambda>p.
     bind_res (pt_free n (mms thread_id) ptr deletedBlock p) (\<lambda>p'. Inr (ps[thread_id := p'])))"

end
