(* ===== verification/Pool_Safety.thy ===== *)
theory Pool_Safety
  imports Pool_Allocator "HOL-Library.Countable"
begin

text \<open>
  What the memory pool promises and where it breaks its promise: blocks of the one configured size
  never overlap, whichever threads ask for them; any other size up to 16 MB, and freeing, dereference a
  null pointer; the queue of freed blocks is a stack until it grows, and then it loses what it held.
\<close>

section \<open>The availability flag\<close>

lemma find_split:
  "List.find P c = Some b \<Longrightarrow> \<exists>p r. c = p @ b # r \<and> takeWhile (\<lambda>x. \<not> P x) c = p \<and> dropWhile (\<lambda>x. \<not> P x) c = b # r \<and> P b"
  by (induction c) (auto split: if_splits)

lemma find_skip: "\<forall>x \<in> set p. \<not> P x \<Longrightarrow> List.find P (p @ c) = List.find P c"
  by (induction p) auto

lemma set_available_ok:
  assumes ok: "index_ok m" and b: "entry m key = Some b"
  shows "\<exists>m'. set_available key v m = Inr m' \<and> index_ok m' \<and> mi_entryCounter m' = mi_entryCounter m \<and>
    (\<forall>k. entry m' k = (if k = key then Some (b\<lparr>mb_isAvailable := v\<rparr>) else entry m k))"
proof -
  obtain cs where cs: "mi_arr m = Some cs" "int (length cs) = defaultSize" and n: "mi_curSize m = defaultSize"
    using ok by (auto simp: index_ok_def)
  let ?i = "key mod defaultSize" and ?P = "\<lambda>x. mb_blockSize x = key"
  have i: "0 \<le> ?i" "?i < int (length cs)" using slot_in_range [of key] cs(2) by simp_all
  have find: "List.find ?P (cs ! nat ?i) = Some b" using getIndexVal_ok [OF ok cs(1), of key] b by (simp add: entry_def)
  obtain p r where pr: "cs ! nat ?i = p @ b # r" "takeWhile (\<lambda>x. \<not> ?P x) (cs ! nat ?i) = p"
    "dropWhile (\<lambda>x. \<not> ?P x) (cs ! nat ?i) = b # r" "?P b" using find_split [OF find] by auto
  let ?c = "p @ b\<lparr>mb_isAvailable := v\<rparr> # r"
  let ?m = "m\<lparr>mi_arr := Some (cs[nat ?i := ?c])\<rparr>"
  have get: "getIndexVal key m = Inr (Some b)" using getIndexVal_ok [OF ok cs(1), of key] find by simp
  have run: "set_available key v m = Inr ?m"
    using get n cs(1) pr by (simp add: set_available_def unsigned_default getBlockSize_def Let_def)
  have ok2: "index_ok ?m" using ok cs(2) by (simp add: index_ok_def)
  have skip: "\<forall>x \<in> set p. \<not> ?P x" using pr(2) by (metis set_takeWhileD)
  have "entry ?m k = (if k = key then Some (b\<lparr>mb_isAvailable := v\<rparr>) else entry m k)" for k
  proof -
    have k: "0 \<le> k mod defaultSize" "k mod defaultSize < int (length cs)" using slot_in_range [of k] cs(2) by simp_all
    have new: "entry ?m k = List.find (\<lambda>b. mb_blockSize b = k) (cs[nat ?i := ?c] ! nat (k mod defaultSize))"
      using getIndexVal_ok [OF ok2, of "cs[nat ?i := ?c]" k] by (simp add: entry_def)
    have old: "entry m k = List.find (\<lambda>b. mb_blockSize b = k) (cs ! nat (k mod defaultSize))"
      using getIndexVal_ok [OF ok cs(1), of k] by (simp add: entry_def)
    have same: "List.find (\<lambda>b. mb_blockSize b = k) ?c = List.find (\<lambda>b. mb_blockSize b = k) (p @ b # r)" if "k \<noteq> key"
      using that pr(4) by (induction p) auto
    have this_key: "List.find ?P ?c = Some (b\<lparr>mb_isAvailable := v\<rparr>)" using find_skip [OF skip] pr(4) by simp
    show ?thesis
    proof (cases "k mod defaultSize = ?i")
      case True
      then show ?thesis using new old i same this_key pr(1) by (cases "k = key") (simp_all add: nat_less_iff)
    next
      case False
      then have "nat ?i \<noteq> nat (k mod defaultSize)" using i(1) k(1) by (simp add: nat_eq_iff)
      then show ?thesis using new old False by auto
    qed
  qed
  then show ?thesis using run ok2 by auto
qed

section \<open>The pool of a thread\<close>

definition pool_ok :: "mmap \<Rightarrow> pool \<Rightarrow> bool" where
  "pool_ok mm s \<longleftrightarrow> index_ok (po_index s) \<and>
     (\<forall>k. entry (po_index s) k = (if k = TARGET_BLOCK_SIZE then Some \<lparr>mb_isAvailable = False, mb_blockSize = k, mb_freeBlock = 0\<rparr> else None)) \<and>
     (\<exists>v. po_blocks s = [\<lparr>ab_memBlock = v, ab_freeList = None\<rparr>] \<and> vector_ok mm (v, po_maps s)) \<and> po_queues s = []"

definition pool_used :: "mmap \<Rightarrow> pool \<Rightarrow> int set" where
  "pool_used mm s = vector_used mm (ab_memBlock (hd (po_blocks s)), po_maps s)"

lemma getIndexVal_entry: "index_ok m \<Longrightarrow> getIndexVal k m = Inr (entry m k)"
  using getIndexVal_ok by (fastforce simp: entry_def index_ok_def)

lemma pt_init_ok:
  assumes mm: "maps_ok mm"
  shows "\<exists>s. pt_init mm junk = Inr s \<and> pool_ok mm s"
proof -
  obtain ix where ix: "HashTableMemoryIndex_new junk = Inr ix" "index_ok ix" "mi_entryCounter ix = 0" "\<And>k. entry ix k = None"
    using new_index_ok by blast
  have "mi_entryCounter ix < defaultSize" using ix(3) by (simp add: defaultSize_def)
  from index_insert_spec [OF ix(2) this, of junk TARGET_BLOCK_SIZE 0] obtain ix1 where ix1:
    "index_insert junk TARGET_BLOCK_SIZE 0 ix = Inr ix1" "index_ok ix1"
    "\<forall>k. entry ix1 k = (if k = TARGET_BLOCK_SIZE \<and> entry ix TARGET_BLOCK_SIZE = None
       then Some \<lparr>mb_isAvailable = junk TARGET_BLOCK_SIZE, mb_blockSize = TARGET_BLOCK_SIZE, mb_freeBlock = 0\<rparr> else entry ix k)" by blast
  obtain ix2 where ix2: "set_available TARGET_BLOCK_SIZE False ix1 = Inr ix2" "index_ok ix2"
    "\<And>k. entry ix2 k = (if k = TARGET_BLOCK_SIZE then Some \<lparr>mb_isAvailable = False, mb_blockSize = k, mb_freeBlock = 0\<rparr> else None)"
    using set_available_ok [OF ix1(2), of TARGET_BLOCK_SIZE _ False] ix1(3) ix(4) by auto
  let ?v0 = "tv_initVal\<lparr>tv_indr := Some [Some fv_new], tv_blockSize := 1, tv_curIndex := 0\<rparr>"
  have v0: "tv_setIndrArray tv_initVal = Inr ?v0" "tv_shape ?v0"
    using fv_new_shape by (simp_all add: tv_setIndrArray_def tv_initVal_def fixedSize_def tv_addBlock_def Let_def tv_shape_def)
  let ?g = "\<lparr>ga_mem = mm 0 (4 * MB), ga_offset = 0, ga_totalSpace = 4 * MB\<rparr>"
  have g: "ga_init mm 4 True 0 = Inr (?g, 1)" using mm by (simp add: ga_init_def maps_ok_def Let_def MB_def)
  obtain v where v: "tv_insert ?g ?v0 = Inr v" "tv_shape v" "tv_top v ?g" using tv_insert_ok [OF v0(2)] by blast
  have "vector_ok mm (v, 1)" using v by (auto simp: vector_ok_def top_ok_def MB_def)
  then show ?thesis using ix(1) ix1(1) ix2 v0(1) g v(1) by (simp add: pt_init_def pool_ok_def)
qed

lemma pool_allocate_fresh:
  assumes mm: "maps_ok mm" and ok: "pool_ok mm s"
  shows "\<exists>a s'. pt_Allocate mm TARGET_BLOCK_SIZE s = Inr (a, s') \<and> pool_ok mm s' \<and>
    {a..<a + TARGET_BLOCK_SIZE} \<inter> pool_used mm s = {} \<and> pool_used mm s \<union> {a..<a + TARGET_BLOCK_SIZE} \<subseteq> pool_used mm s'"
proof -
  obtain v where v: "po_blocks s = [\<lparr>ab_memBlock = v, ab_freeList = None\<rparr>]" "vector_ok mm (v, po_maps s)"
    using ok by (auto simp: pool_ok_def)
  have size: "0 < TARGET_BLOCK_SIZE \<and> TARGET_BLOCK_SIZE \<le> SIXTEENMB" by (simp add: TARGET_BLOCK_SIZE_def SIXTEENMB_def)
  obtain a v' k' where a: "getBlock mm TARGET_BLOCK_SIZE (v, po_maps s) = Inr (a, v', k')" "vector_ok mm (v', k')"
    "{a..<a + TARGET_BLOCK_SIZE} \<inter> vector_used mm (v, po_maps s) = {}"
    "vector_used mm (v, po_maps s) \<union> {a..<a + TARGET_BLOCK_SIZE} \<subseteq> vector_used mm (v', k')"
    using vec.alloc_fresh [of mm "(v, po_maps s)" TARGET_BLOCK_SIZE] mm v(2) size by auto
  have "getIndexVal TARGET_BLOCK_SIZE (po_index s) = Inr (Some \<lparr>mb_isAvailable = False, mb_blockSize = TARGET_BLOCK_SIZE, mb_freeBlock = 0\<rparr>)"
    using ok getIndexVal_entry by (simp add: pool_ok_def)
  then have "pt_Allocate mm TARGET_BLOCK_SIZE s =
      Inr (a, s\<lparr>po_blocks := [\<lparr>ab_memBlock = v', ab_freeList = None\<rparr>], po_maps := k'\<rparr>)"
    using size v(1) a(1) by (simp add: pt_Allocate_def carve_fresh_def nth_res_def getFreeBlockList_def)
  then show ?thesis using ok a v(1) by (auto simp: pool_ok_def pool_used_def)
qed

interpretation thread_pool: block_source "\<lambda>_. pt_Allocate mm TARGET_BLOCK_SIZE" "\<lambda>_. TARGET_BLOCK_SIZE" "\<lambda>_. True"
    "\<lambda>s. maps_ok mm \<and> pool_ok mm s" "pool_used mm" for mm
  by unfold_locales (use pool_allocate_fresh in blast)

section \<open>The allocator of all threads\<close>

text \<open>No mapping of one thread overlaps a mapping of another.\<close>

definition all_maps_ok :: "(nat \<Rightarrow> mmap) \<Rightarrow> bool" where
  "all_maps_ok mms \<longleftrightarrow> (\<forall>i. maps_ok (mms i)) \<and>
     (\<forall>i j k l m n. i \<noteq> j \<longrightarrow> m \<le> 512 * MB \<longrightarrow> n \<le> 512 * MB \<longrightarrow> {mms i k m..<mms i k m + m} \<inter> {mms j l n..<mms j l n + n} = {})"

definition allocator_ok :: "(nat \<Rightarrow> mmap) \<Rightarrow> nat \<Rightarrow> pool list \<Rightarrow> bool" where
  "allocator_ok mms T ps \<longleftrightarrow> all_maps_ok mms \<and> length ps = T \<and> (\<forall>i < T. pool_ok (mms i) (ps ! i))"

definition allocator_used :: "(nat \<Rightarrow> mmap) \<Rightarrow> nat \<Rightarrow> pool list \<Rightarrow> int set" where
  "allocator_used mms T ps = (\<Union>i < T. pool_used (mms i) (ps ! i))"

text \<open>Everything a pool ever uses lies in its own mappings.\<close>

lemma pool_used_mapped:
  assumes "pool_ok mm s"
  shows "\<exists>k. pool_used mm s \<subseteq> mapped mm k"
proof -
  obtain v g where v: "po_blocks s = [\<lparr>ab_memBlock = v, ab_freeList = None\<rparr>]" "tv_top v g" "top_ok mm (po_maps s) g"
    using assms by (auto simp: pool_ok_def vector_ok_def)
  have "{ga_mem g..<ga_mem g + ga_offset g} \<subseteq> mapped mm (po_maps s)"
    using v(3) by (auto simp: top_ok_def mapped_def intro!: bexI [of _ "po_maps s - 1"] bexI [of _ "ga_totalSpace g"])
  moreover have "mapped mm (po_maps s - 1) \<subseteq> mapped mm (po_maps s)" unfolding mapped_def by (rule UN_mono) auto
  ultimately show ?thesis using vector_used_top [OF v(2)] v(1) by (auto simp: pool_used_def)
qed

lemma mapped_apart:
  assumes "all_maps_ok mms" "i \<noteq> j"
  shows "mapped (mms i) k \<inter> mapped (mms j) l = {}"
proof -
  have "{mms i a m..<mms i a m + m} \<inter> {mms j b n..<mms j b n + n} = {}" if "m \<in> {0..512 * MB}" "n \<in> {0..512 * MB}" for a b m n
    using assms that unfolding all_maps_ok_def by (metis atLeastAtMost_iff)
  then show ?thesis unfolding mapped_def by blast
qed

lemma allocator_fresh:
  assumes ok: "allocator_ok mms T ps" and t: "t < T"
  shows "\<exists>a ps'. ma_Allocate mms TARGET_BLOCK_SIZE t ps = Inr (a, ps') \<and> allocator_ok mms T ps' \<and>
    {a..<a + TARGET_BLOCK_SIZE} \<inter> allocator_used mms T ps = {} \<and>
    allocator_used mms T ps \<union> {a..<a + TARGET_BLOCK_SIZE} \<subseteq> allocator_used mms T ps'"
proof -
  have mm: "all_maps_ok mms" "maps_ok (mms t)" and len: "length ps = T" and p: "\<And>i. i < T \<Longrightarrow> pool_ok (mms i) (ps ! i)"
    using ok by (auto simp: allocator_ok_def all_maps_ok_def)
  obtain a p' where a: "pt_Allocate (mms t) TARGET_BLOCK_SIZE (ps ! t) = Inr (a, p')" "pool_ok (mms t) p'"
    "{a..<a + TARGET_BLOCK_SIZE} \<inter> pool_used (mms t) (ps ! t) = {}"
    "pool_used (mms t) (ps ! t) \<union> {a..<a + TARGET_BLOCK_SIZE} \<subseteq> pool_used (mms t) p'"
    using thread_pool.alloc_fresh [of "mms t" "ps ! t"] mm(2) p [OF t] by auto
  let ?ps = "ps[t := p']"
  have run: "ma_Allocate mms TARGET_BLOCK_SIZE t ps = Inr (a, ?ps)"
    using a(1) t len by (simp add: ma_Allocate_def getPerThreadMemoryAllocator_def)
  have ok': "allocator_ok mms T ?ps" using ok a(2) len t unfolding allocator_ok_def by (metis length_list_update nth_list_update)
  obtain k where k: "pool_used (mms t) p' \<subseteq> mapped (mms t) k" using pool_used_mapped [OF a(2)] by blast
  have "{a..<a + TARGET_BLOCK_SIZE} \<inter> pool_used (mms i) (ps ! i) = {}" if i: "i < T" for i
  proof (cases "i = t")
    case False
    obtain l where l: "pool_used (mms i) (ps ! i) \<subseteq> mapped (mms i) l" using pool_used_mapped [OF p [OF i]] by blast
    show ?thesis using mapped_apart [OF mm(1), of t i k l] False k l a(4) by blast
  qed (use a(3) in simp)
  then have apart: "{a..<a + TARGET_BLOCK_SIZE} \<inter> allocator_used mms T ps = {}" unfolding allocator_used_def by blast
  have sub: "pool_used (mms i) (ps ! i) \<subseteq> pool_used (mms i) (?ps ! i)" for i
    using a(4) t len by (cases "i = t") auto
  have "{a..<a + TARGET_BLOCK_SIZE} \<subseteq> pool_used (mms t) (?ps ! t)" using a(4) t len by simp
  then have "allocator_used mms T ps \<union> {a..<a + TARGET_BLOCK_SIZE} \<subseteq> allocator_used mms T ?ps"
    unfolding allocator_used_def using sub t by blast
  then show ?thesis using run ok' apart by blast
qed

interpretation allocator: block_source "\<lambda>t. ma_Allocate mms TARGET_BLOCK_SIZE t" "\<lambda>_. TARGET_BLOCK_SIZE" "\<lambda>t. t < T"
    "allocator_ok mms T" "allocator_used mms T" for mms T
  by unfold_locales (use allocator_fresh in blast)

lemma ma_init_ok:
  assumes "all_maps_ok mms" "0 < T"
  shows "\<exists>ps. ma_init mms junk space T = Inr ps \<and> allocator_ok mms T ps"
proof -
  have "\<exists>ps. ma_init_loop mms junk n = Inr ps \<and> allocator_ok mms n ps" for n
  proof (induction n)
    case 0
    show ?case using assms(1) by (simp add: allocator_ok_def)
  next
    case (Suc n)
    then obtain ps where ps: "ma_init_loop mms junk n = Inr ps" "allocator_ok mms n ps" by blast
    have "maps_ok (mms n)" using assms(1) by (simp add: all_maps_ok_def)
    then obtain p where p: "pt_init (mms n) (junk n) = Inr p" "pool_ok (mms n) p" using pt_init_ok by blast
    then show ?case using ps by (auto simp: allocator_ok_def nth_append less_Suc_eq)
  qed
  then show ?thesis using assms(2) by (simp add: ma_init_def)
qed

text \<open>
  C12: After \<open>init\<close>, any sequence of requests for the configured block size, by any of the threads in any
  order, is served, and no two of the blocks overlap, provided the operating system's mappings do not.
\<close>

theorem pool_blocks_never_overlap:
  assumes mm: "all_maps_ok mms" and T: "0 < T" and ts: "\<forall>t \<in> set ts. t < T"
  shows "\<exists>ps as ps'. ma_init mms junk space T = Inr ps \<and>
    alloc_run (\<lambda>t. ma_Allocate mms TARGET_BLOCK_SIZE t) ts ps = Inr (as, ps') \<and> length as = length ts \<and>
    (\<forall>i < length ts. \<forall>j < i. {as ! i..<as ! i + TARGET_BLOCK_SIZE} \<inter> {as ! j..<as ! j + TARGET_BLOCK_SIZE} = {})"
proof -
  obtain ps where ps: "ma_init mms junk space T = Inr ps" "allocator_ok mms T ps" using ma_init_ok [OF mm T] by blast
  then show ?thesis using allocator.run_fresh [OF ps(2) ts] by blast
qed

definition sample_maps :: "nat \<Rightarrow> mmap" where
  "sample_maps i k n = (int (prod_encode (i, k)) + 1) * (512 * MB)"

lemma sample_maps_ok: "all_maps_ok sample_maps"
proof -
  have apart: "{sample_maps i k m..<sample_maps i k m + m} \<inter> {sample_maps j l n..<sample_maps j l n + n} = {}"
    if "(i, k) \<noteq> (j, l)" "m \<le> 512 * MB" "n \<le> 512 * MB" for i k j l m n
  proof -
    have "prod_encode (i, k) \<noteq> prod_encode (j, l)" using that(1) by (metis prod_encode_inverse)
    then have "prod_encode (i, k) + 1 \<le> prod_encode (j, l) \<or> prod_encode (j, l) + 1 \<le> prod_encode (i, k)" by linarith
    then show ?thesis using that(2,3) by (auto simp: sample_maps_def MB_def)
  qed
  have "sample_maps i k n \<noteq> MAP_FAILED" for i k n
  proof
    assume "sample_maps i k n = MAP_FAILED"
    then have "even (MAP_FAILED)" by (metis sample_maps_def MB_def dvd_mult even_mult_iff even_numeral)
    then show False by (simp add: MAP_FAILED_def)
  qed
  moreover have "maps_ok (sample_maps i)" for i
    unfolding maps_ok_def using apart [of i _ i] \<open>\<And>i k n. sample_maps i k n \<noteq> MAP_FAILED\<close> by simp
  ultimately show ?thesis unfolding all_maps_ok_def
    by (intro conjI allI impI) (assumption | rule apart | simp)+
qed

theorem pool_blocks_never_overlap_witness:
  "\<exists>ps a b c ps'. ma_init sample_maps (\<lambda>_ _. True) 100 2 = Inr ps \<and>
     alloc_run (\<lambda>t. ma_Allocate sample_maps TARGET_BLOCK_SIZE t) [0, 1, 0] ps = Inr ([a, b, c], ps') \<and>
     {c..<c + 2048} \<inter> {a..<a + 2048} = {}"
proof -
  have "\<exists>ps as ps'. ma_init sample_maps (\<lambda>_ _. True) 100 2 = Inr ps \<and>
      alloc_run (\<lambda>t. ma_Allocate sample_maps TARGET_BLOCK_SIZE t) [0, 1, 0] ps = Inr (as, ps') \<and> length as = length [0 :: nat, 1, 0] \<and>
      (\<forall>i < length [0 :: nat, 1, 0]. \<forall>j < i. {as ! i..<as ! i + TARGET_BLOCK_SIZE} \<inter> {as ! j..<as ! j + TARGET_BLOCK_SIZE} = {})"
    by (rule pool_blocks_never_overlap [OF sample_maps_ok]) simp_all
  then obtain ps as ps' where r: "ma_init sample_maps (\<lambda>_ _. True) 100 2 = Inr ps"
    "alloc_run (\<lambda>t. ma_Allocate sample_maps TARGET_BLOCK_SIZE t) [0, 1, 0] ps = Inr (as, ps')" "length as = 3"
    "\<forall>i < 3. \<forall>j < i. {as ! i..<as ! i + TARGET_BLOCK_SIZE} \<inter> {as ! j..<as ! j + TARGET_BLOCK_SIZE} = {}" by (auto simp: numeral_3_eq_3)
  then obtain a b c where as: "as = [a, b, c]" by (auto simp: length_Suc_conv numeral_3_eq_3)
  have "{c..<c + TARGET_BLOCK_SIZE} \<inter> {a..<a + TARGET_BLOCK_SIZE} = {}" using r(4) [rule_format, of 2 0] as by simp
  then have "{c..<c + 2048} \<inter> {a..<a + 2048} = {}" by (simp only: TARGET_BLOCK_SIZE_def) simp
  then show ?thesis using r as by blast
qed

section \<open>Sizes the pool was not set up for\<close>

text \<open>
  C24: \<open>Allocate\<close> of any size up to 16 MB other than the one configured size dereferences a null pointer:
  the index has no bucket for it and the result of the lookup is used unchecked.
\<close>

theorem other_sizes_fault:
  assumes "pool_ok mm s" "req \<le> SIXTEENMB" "req \<noteq> TARGET_BLOCK_SIZE"
  shows "pt_Allocate mm req s = Inl NullDeref"
  using assms getIndexVal_entry [of "po_index s" req] by (auto simp: pool_ok_def pt_Allocate_def)

text \<open>
  C25: Freeing a block that the pool handed out dereferences a null pointer: the first \<open>free\<close> asks the pool
  itself for the 24 bytes of the queue of freed blocks.
\<close>

theorem first_free_faults:
  assumes "pool_ok mm s"
  shows "pt_free (Suc n) mm ptr TARGET_BLOCK_SIZE s = Inl NullDeref"
proof -
  have "pt_Allocate mm sizeof_TwoLevelQueue s = Inl NullDeref"
    using getIndexVal_entry [of "po_index s" 24] assms
    by (auto simp: pool_ok_def pt_Allocate_def sizeof_TwoLevelQueue_def TARGET_BLOCK_SIZE_def SIXTEENMB_def)
  moreover obtain v where "po_blocks s = [\<lparr>ab_memBlock = v, ab_freeList = None\<rparr>]" using assms by (auto simp: pool_ok_def)
  moreover have "getIndexVal TARGET_BLOCK_SIZE (po_index s) =
      Inr (Some \<lparr>mb_isAvailable = False, mb_blockSize = TARGET_BLOCK_SIZE, mb_freeBlock = 0\<rparr>)"
    using assms getIndexVal_entry by (simp add: pool_ok_def)
  moreover have "TARGET_BLOCK_SIZE \<le> SIXTEENMB" by (simp add: TARGET_BLOCK_SIZE_def SIXTEENMB_def)
  ultimately show ?thesis by (simp add: nth_res_def getFreeBlockList_def)
qed

lemma sample_pool_exists: "\<exists>s. pt_init (sample_maps 0) (\<lambda>_. True) = Inr s \<and> pool_ok (sample_maps 0) s"
  using pt_init_ok sample_maps_ok by (simp add: all_maps_ok_def)

theorem other_sizes_fault_witness:
  "\<exists>s. pt_init (sample_maps 0) (\<lambda>_. True) = Inr s \<and> pt_Allocate (sample_maps 0) 4096 s = Inl NullDeref"
proof -
  obtain s where s: "pt_init (sample_maps 0) (\<lambda>_. True) = Inr s" "pool_ok (sample_maps 0) s" using sample_pool_exists by blast
  have "pt_Allocate (sample_maps 0) 4096 s = Inl NullDeref"
    by (rule other_sizes_fault [OF s(2)]) (simp_all add: SIXTEENMB_def TARGET_BLOCK_SIZE_def)
  then show ?thesis using s(1) by blast
qed

theorem first_free_faults_witness:
  "\<exists>s a s'. pt_init (sample_maps 0) (\<lambda>_. True) = Inr s \<and> pt_Allocate (sample_maps 0) TARGET_BLOCK_SIZE s = Inr (a, s') \<and>
     pt_free 5 (sample_maps 0) a TARGET_BLOCK_SIZE s' = Inl NullDeref"
proof -
  obtain s where s: "pt_init (sample_maps 0) (\<lambda>_. True) = Inr s" "pool_ok (sample_maps 0) s" using sample_pool_exists by blast
  have "maps_ok (sample_maps 0)" using sample_maps_ok by (simp add: all_maps_ok_def)
  then obtain a s' where a: "pt_Allocate (sample_maps 0) TARGET_BLOCK_SIZE s = Inr (a, s')" "pool_ok (sample_maps 0) s'"
    using pool_allocate_fresh [OF _ s(2)] by blast
  have "pt_free (Suc 4) (sample_maps 0) a TARGET_BLOCK_SIZE s' = Inl NullDeref" by (rule first_free_faults [OF a(2)])
  then show ?thesis using s(1) a(1) by auto
qed

section \<open>The queue of freed blocks\<close>

text \<open>What the queue holds, oldest first: the blocks below the current one are full.\<close>

definition fb_contents :: "fixed_block \<Rightarrow> int list" where
  "fb_contents f = map the (take (nat (fb_cur f + 1)) (fb_blockArr f))"

definition slot_contents :: "fixed_block option \<Rightarrow> int list" where
  "slot_contents x = (case x of None \<Rightarrow> [] | Some f \<Rightarrow> fb_contents f)"

definition tq_contents :: "two_level_queue \<Rightarrow> int list" where
  "tq_contents q = (case tq_indr q of None \<Rightarrow> [] | Some (a, arr) \<Rightarrow> concat (map slot_contents (take (nat (tq_curIndex q + 1)) arr)))"

definition fb_ok :: "fixed_block \<Rightarrow> bool" where
  "fb_ok f \<longleftrightarrow> length (fb_blockArr f) = MEMORY_QUEUE_SIZE \<and> - 1 \<le> fb_cur f \<and> fb_cur f < int MEMORY_QUEUE_SIZE \<and>
     (\<forall>i \<le> nat (fb_cur f). 0 \<le> fb_cur f \<longrightarrow> fb_blockArr f ! i \<noteq> None)"

definition tq_ok :: "two_level_queue \<Rightarrow> bool" where
  "tq_ok q \<longleftrightarrow> (\<exists>a arr. tq_indr q = Some (a, arr) \<and> 0 \<le> tq_curIndex q \<and> tq_curIndex q < int (length arr) \<and>
     (\<forall>i \<le> nat (tq_curIndex q). \<exists>f. arr ! i = Some f \<and> fb_ok f \<and> (i < nat (tq_curIndex q) \<longrightarrow> fb_full f)))"

lemma fb_push_ok:
  assumes "fb_ok f" "\<not> fb_full f"
  shows "\<exists>f'. fb_push x f = Inr f' \<and> fb_ok f' \<and> fb_contents f' = fb_contents f @ [x]"
proof -
  let ?n = "nat (fb_cur f + 1)"
  have n: "0 \<le> fb_cur f + 1" "?n < length (fb_blockArr f)" using assms by (auto simp: fb_ok_def fb_full_def)
  let ?f = "f\<lparr>fb_cur := fb_cur f + 1, fb_blockArr := (fb_blockArr f)[?n := Some x]\<rparr>"
  have "fb_push x f = Inr ?f" using n by (simp add: fb_push_def Let_def nat_less_iff)
  moreover have "fb_ok ?f" using assms n by (auto simp: fb_ok_def fb_full_def nth_list_update)
  moreover have "nat (fb_cur f + 1 + 1) = Suc ?n" using n(1) by simp
  then have "fb_contents ?f = fb_contents f @ [x]" using n by (simp add: fb_contents_def take_Suc_conv_app_nth)
  ultimately show ?thesis by blast
qed

lemma fb_pop_ok:
  assumes "fb_ok f" "0 \<le> fb_cur f"
  shows "\<exists>x f'. fb_pop f = Inr (x, f') \<and> fb_ok f' \<and> fb_contents f = fb_contents f' @ [x]"
proof -
  let ?n = "nat (fb_cur f)"
  have n: "?n < length (fb_blockArr f)" using assms by (simp add: fb_ok_def nat_less_iff)
  obtain x where x: "fb_blockArr f ! ?n = Some x" using assms unfolding fb_ok_def by blast
  let ?f = "f\<lparr>fb_cur := fb_cur f - 1\<rparr>"
  have "fb_pop f = Inr (x, ?f)" using assms x n by (simp add: fb_pop_def fb_ok_def)
  moreover have "fb_ok ?f" using assms by (auto simp: fb_ok_def)
  moreover have "nat (fb_cur f + 1) = Suc ?n" using assms(2) by simp
  then have "fb_contents f = fb_contents ?f @ [x]" using n x by (simp add: fb_contents_def take_Suc_conv_app_nth)
  ultimately show ?thesis by blast
qed

lemma fb_contents_empty: "fb_ok f \<Longrightarrow> fb_contents f = [] \<longleftrightarrow> fb_cur f = - 1"
  by (auto simp: fb_ok_def fb_contents_def MEMORY_QUEUE_SIZE_def)

lemma tq_split:
  assumes "tq_ok q"
  obtains a arr f where "tq_indr q = Some (a, arr)" "nat (tq_curIndex q) < length arr" "arr ! nat (tq_curIndex q) = Some f" "fb_ok f"
    "tq_block q (tq_curIndex q) = Inr f"
    "tq_contents q = concat (map slot_contents (take (nat (tq_curIndex q)) arr)) @ fb_contents f"
proof -
  let ?n = "nat (tq_curIndex q)"
  obtain a arr where q: "tq_indr q = Some (a, arr)" "0 \<le> tq_curIndex q" "tq_curIndex q < int (length arr)"
    "\<forall>i \<le> ?n. \<exists>f. arr ! i = Some f \<and> fb_ok f \<and> (i < ?n \<longrightarrow> fb_full f)" using assms by (auto simp: tq_ok_def)
  then obtain f where f: "arr ! ?n = Some f" "fb_ok f" by blast
  have n: "?n < length arr" using q(2,3) by (simp add: nat_less_iff)
  have "nat (tq_curIndex q + 1) = Suc ?n" using q(2) by simp
  then have "tq_contents q = concat (map slot_contents (take ?n arr)) @ fb_contents f"
    using q(1) n f(1) by (simp add: tq_contents_def take_Suc_conv_app_nth slot_contents_def)
  then show ?thesis using that [of a arr f] q f n by (simp add: tq_block_def)
qed

text \<open>Writing the current block changes the end of the contents.\<close>

lemma tq_put_ok:
  assumes ok: "tq_ok q" and f: "fb_ok f'"
    and q: "tq_indr q = Some (a, arr)" "tq_contents q = pre @ c" "pre = concat (map slot_contents (take (nat (tq_curIndex q)) arr))"
  shows "tq_ok (tq_put (tq_curIndex q) f' q)" "tq_contents (tq_put (tq_curIndex q) f' q) = pre @ fb_contents f'"
proof -
  let ?n = "nat (tq_curIndex q)" and ?q = "tq_put (tq_curIndex q) f' q"
  have n: "0 \<le> tq_curIndex q" "?n < length arr" using ok q(1) by (auto simp: tq_ok_def nat_less_iff)
  show "tq_ok ?q" using ok q(1) f n unfolding tq_ok_def by (auto simp: tq_put_def nth_list_update)
  have "nat (tq_curIndex q + 1) = Suc ?n" using n(1) by simp
  then show "tq_contents ?q = pre @ fb_contents f'"
    using q(1,3) n(2) by (simp add: tq_put_def tq_contents_def take_Suc_conv_app_nth slot_contents_def)
qed

lemma tq_pop_ok:
  assumes ok: "tq_ok q" and f: "tq_block q (tq_curIndex q) = Inr f" "0 \<le> fb_cur f"
  shows "\<exists>x q'. tq_pop q = Inr (x, q') \<and> tq_ok q' \<and> tq_contents q = tq_contents q' @ [x]"
proof -
  obtain a arr f1 where q: "tq_indr q = Some (a, arr)" "nat (tq_curIndex q) < length arr" "arr ! nat (tq_curIndex q) = Some f1" "fb_ok f1"
    "tq_block q (tq_curIndex q) = Inr f1" "tq_contents q = concat (map slot_contents (take (nat (tq_curIndex q)) arr)) @ fb_contents f1"
    using tq_split [OF ok] by blast
  then have "f1 = f" using f(1) by simp
  then obtain x f' where pop: "fb_pop f = Inr (x, f')" "fb_ok f'" "fb_contents f = fb_contents f' @ [x]"
    using fb_pop_ok q(4) f(2) by blast
  have "tq_pop q = Inr (x, tq_put (tq_curIndex q) f' q)" using f(1) pop(1) by (simp add: tq_pop_def)
  then show ?thesis using tq_put_ok [OF ok pop(2) q(1,6) refl] q(6) pop(3) \<open>f1 = f\<close> by auto
qed

lemma tq_step_down:
  assumes ok: "tq_ok q" and n: "tq_curIndex q \<noteq> 0" and f: "tq_block q (tq_curIndex q) = Inr f" "fb_cur f = - 1"
  shows "tq_ok (q\<lparr>tq_curIndex := tq_curIndex q - 1\<rparr>)" "tq_contents (q\<lparr>tq_curIndex := tq_curIndex q - 1\<rparr>) = tq_contents q"
    "\<exists>g. tq_block (q\<lparr>tq_curIndex := tq_curIndex q - 1\<rparr>) (tq_curIndex q - 1) = Inr g \<and> 0 \<le> fb_cur g"
proof -
  let ?q = "q\<lparr>tq_curIndex := tq_curIndex q - 1\<rparr>"
  obtain a arr where q: "tq_indr q = Some (a, arr)" "0 \<le> tq_curIndex q" "tq_curIndex q < int (length arr)"
    "\<And>i. i \<le> nat (tq_curIndex q) \<Longrightarrow> \<exists>f. arr ! i = Some f \<and> fb_ok f \<and> (i < nat (tq_curIndex q) \<longrightarrow> fb_full f)"
    using ok by (auto simp: tq_ok_def)
  define m where "m = nat (tq_curIndex q - 1)"
  then have m: "tq_curIndex q = int (Suc m)" "nat (tq_curIndex q) = Suc m" using q(2) n by simp_all
  have "\<exists>f. arr ! i = Some f \<and> fb_ok f \<and> (i < m \<longrightarrow> fb_full f)" if "i \<le> m" for i
    using q(4) [of i] that unfolding m(2) by auto
  then show "tq_ok ?q" using q(1,3) m by (simp add: tq_ok_def)
  have "arr ! Suc m = Some f" using f(1) q(1) m q(3) by (auto simp: tq_block_def split: option.splits if_splits)
  moreover have "fb_ok f" using q(4) [of "Suc m"] m \<open>arr ! Suc m = Some f\<close> by auto
  ultimately have "slot_contents (arr ! Suc m) = []" using f(2) fb_contents_empty by (simp add: slot_contents_def)
  moreover have "Suc m < length arr" using q(3) m by simp
  ultimately show "tq_contents ?q = tq_contents q"
    using q(1) m by (simp add: tq_contents_def nat_add_distrib take_Suc_conv_app_nth)
  obtain g where "arr ! m = Some g" "fb_full g" using q(4) [of m] m by auto
  then show "\<exists>g. tq_block ?q (tq_curIndex q - 1) = Inr g \<and> 0 \<le> fb_cur g"
    using q(1) m \<open>Suc m < length arr\<close> by (auto simp: tq_block_def fb_full_def MEMORY_QUEUE_SIZE_def)
qed

text \<open>
  C22: Short of growing its array the queue of freed blocks is a stack: \<open>empty\<close> tells whether it holds
  anything, \<open>get_block\<close> removes the block that was put in last, and putting a block into a current
  block that is not full adds it at the end.
\<close>

theorem free_queue_is_a_stack:
  assumes ok: "tq_ok q"
  shows "tq_empty q = Inr (tq_contents q = []) \<and>
    (tq_contents q \<noteq> [] \<longrightarrow> (\<exists>q'. get_block q = Inr (last (tq_contents q), q') \<and> tq_ok q' \<and> tq_contents q' = butlast (tq_contents q))) \<and>
    (\<forall>f. tq_block q (tq_curIndex q) = Inr f \<longrightarrow> \<not> fb_full f \<longrightarrow>
       (\<exists>q'. tq_push x q = Inr q' \<and> tq_ok q' \<and> tq_contents q' = tq_contents q @ [x]))"
proof -
  obtain a arr f where q: "tq_indr q = Some (a, arr)" "nat (tq_curIndex q) < length arr" "arr ! nat (tq_curIndex q) = Some f" "fb_ok f"
    "tq_block q (tq_curIndex q) = Inr f" "tq_contents q = concat (map slot_contents (take (nat (tq_curIndex q)) arr)) @ fb_contents f"
    using tq_split [OF ok] by blast
  have cur: "- 1 \<le> fb_cur f" using q(4) by (simp add: fb_ok_def)
  have pop: "\<exists>q'. tq_pop q1 = Inr (last (tq_contents q1), q') \<and> tq_ok q' \<and> tq_contents q' = butlast (tq_contents q1)"
    if "tq_ok q1" "tq_block q1 (tq_curIndex q1) = Inr g" "0 \<le> fb_cur g" for q1 g
    using tq_pop_ok [OF that] by auto
  have below: "tq_contents q \<noteq> []" if "tq_curIndex q \<noteq> 0"
  proof (cases "fb_cur f = - 1")
    case False
    then show ?thesis using q(4,6) fb_contents_empty by simp
  next
    case True
    then show ?thesis using pop [OF tq_step_down(1) [OF ok that q(5)]] tq_step_down(2,3) [OF ok that q(5)] tq_pop_ok [OF tq_step_down(1) [OF ok that q(5)]]
      by fastforce
  qed
  have zero: "tq_contents q = [] \<longleftrightarrow> fb_cur f = - 1" if "tq_curIndex q = 0"
    using q(4,6) that fb_contents_empty by simp
  have "tq_empty q = Inr (tq_contents q = [])"
    using q(5) below zero by (cases "tq_curIndex q = 0") (simp_all add: tq_empty_def)
  moreover have "\<exists>q'. get_block q = Inr (last (tq_contents q), q') \<and> tq_ok q' \<and> tq_contents q' = butlast (tq_contents q)"
    if some: "tq_contents q \<noteq> []"
  proof (cases "tq_curIndex q \<noteq> 0 \<and> fb_cur f = - 1")
    case True
    then have n: "tq_curIndex q \<noteq> 0" and e: "fb_cur f = - 1" by simp_all
    obtain g where g: "tq_block (q\<lparr>tq_curIndex := tq_curIndex q - 1\<rparr>) (tq_curIndex q - 1) = Inr g" "0 \<le> fb_cur g"
      using tq_step_down(3) [OF ok n q(5) e] by blast
    have "get_block q = tq_pop (q\<lparr>tq_curIndex := tq_curIndex q - 1\<rparr>)" using n e q(5) by (simp add: get_block_def)
    then show ?thesis using pop [OF tq_step_down(1) [OF ok n q(5) e], of g] g tq_step_down(2) [OF ok n q(5) e] by simp
  next
    case False
    then have "get_block q = tq_pop q" using q(5) by (auto simp: get_block_def)
    moreover have "0 \<le> fb_cur f" using False zero some cur by (cases "fb_cur f = - 1") auto
    ultimately show ?thesis using pop [OF ok q(5)] by simp
  qed
  moreover have "\<exists>q'. tq_push x q = Inr q' \<and> tq_ok q' \<and> tq_contents q' = tq_contents q @ [x]" if room: "\<not> fb_full f"
  proof -
    obtain f' where f': "fb_push x f = Inr f'" "fb_ok f'" "fb_contents f' = fb_contents f @ [x]" using fb_push_ok [OF q(4) room] by blast
    then show ?thesis using tq_put_ok [OF ok f'(2) q(1,6) refl] q(5,6) by (simp add: tq_push_def)
  qed
  ultimately show ?thesis using q(5) by auto
qed

text \<open>A queue of two blocks' worth of slots, one block in use.\<close>

definition sample_queue :: two_level_queue where
  "sample_queue =
     \<lparr>tq_indr = Some (4096, [Some \<lparr>fb_blockArr = Some 1 # Some 2 # replicate 1022 None, fb_cur = 1\<rparr>, None]),
      tq_curIndex = 0, tq_curSize = 1, tq_blockSize = 16\<rparr>"

theorem free_queue_is_a_stack_witness:
  "\<exists>q1 q2. tq_push 3 sample_queue = Inr q1 \<and> tq_contents q1 = [1, 2, 3] \<and> get_block q1 = Inr (3, q2) \<and> tq_contents q2 = [1, 2]"
proof -
  have ok: "tq_ok sample_queue" by (auto simp: tq_ok_def sample_queue_def fb_ok_def MEMORY_QUEUE_SIZE_def le_Suc_eq)
  have c: "tq_contents sample_queue = [1, 2]"
    by (simp add: tq_contents_def sample_queue_def slot_contents_def fb_contents_def)
  have "tq_block sample_queue (tq_curIndex sample_queue) = Inr \<lparr>fb_blockArr = Some 1 # Some 2 # replicate 1022 None, fb_cur = 1\<rparr>"
    by (simp add: tq_block_def sample_queue_def)
  moreover have "\<not> fb_full \<lparr>fb_blockArr = Some 1 # Some 2 # replicate 1022 None, fb_cur = 1\<rparr>"
    by (simp add: fb_full_def MEMORY_QUEUE_SIZE_def)
  ultimately obtain q1 where q1: "tq_push 3 sample_queue = Inr q1" "tq_ok q1" "tq_contents q1 = [1, 2] @ [3]"
    using free_queue_is_a_stack [OF ok, of 3] c by auto
  then obtain q2 where "get_block q1 = Inr (3, q2)" "tq_contents q2 = [1, 2]"
    using free_queue_is_a_stack [OF q1(2), of 3] by auto
  then show ?thesis using q1 by auto
qed

end
