(* ===== verification/Algo_Snapshot.thy ===== *)
theory Algo_Snapshot
  imports Graph_Store
begin

text \<open>
  How the graph algorithms read a snapshot: for a vertex they fetch its block, take its lock, run one of
  the reading loops and release the lock. The loops over the vertices are written for OpenMP; the
  model runs them in index order. A vertex id is a natural number, an edge's destination \<open>edge->e\<close>
  without its deletion bit.
\<close>

section \<open>Reading a vertex\<close>

definition edge_dst :: "edge_with_index \<Rightarrow> nat" where
  "edge_dst x = unat (strip_del (ew_e x))"

definition locked_block :: "graph_store \<Rightarrow> nat \<Rightarrow> vertex_edges res" where
  "locked_block g u = bind_res (GetBlockByIndex g u) getReadLock"

definition neighbours_ts :: "graph_store \<Rightarrow> composite \<Rightarrow> nat \<Rightarrow> nat list res" where
  "neighbours_ts g read_ts u =
     bind_res (locked_block g u) (\<lambda>ds. bind_res (for_each_edge Fine read_ts ds) (\<lambda>es. Inr (map edge_dst es)))"

definition neighbours :: "graph_store \<Rightarrow> epoch_t \<Rightarrow> nat \<Rightarrow> nat list res" where
  "neighbours g q = neighbours_ts g (Composite q INTRA_MAX)"

definition neighbours_sorted :: "graph_store \<Rightarrow> epoch_t \<Rightarrow> nat \<Rightarrow> nat list res" where
  "neighbours_sorted g q u = bind_res (locked_block g u) (\<lambda>ds. Inr (map edge_dst (for_each_edge_sorted q ds)))"

text \<open>The destinations the callback is called with until it asks to stop.\<close>

definition neighbours_until :: "graph_store \<Rightarrow> epoch_t \<Rightarrow> (nat \<Rightarrow> bool) \<Rightarrow> nat \<Rightarrow> nat list res" where
  "neighbours_until g q stop u =
     bind_res (locked_block g u) (\<lambda>ds.
     bind_res (for_each_edge_condition Fine (Composite q INTRA_MAX) (\<lambda>x. stop (edge_dst x)) ds) (\<lambda>es.
       Inr (map edge_dst es)))"

text \<open>A read of a vector by index.\<close>

definition vec_at :: "'a list \<Rightarrow> nat \<Rightarrow> 'a res" where
  "vec_at xs i = (if i < length xs then Inr (xs ! i) else Inl OutOfBounds)"

fun mapR :: "('a \<Rightarrow> 'b res) \<Rightarrow> 'a list \<Rightarrow> 'b list res" where
  "mapR f [] = Inr []"
| "mapR f (x # xs) = bind_res (f x) (\<lambda>y. bind_res (mapR f xs) (\<lambda>ys. Inr (y # ys)))"

text \<open>The pairs a result vector is filled with; \<open>MEA\<close> is the store with the external ids, or none.\<close>

definition external_id :: "graph_store option \<Rightarrow> nat \<Rightarrow> dst_t res" where
  "external_id MEA i =
     (case MEA of
        Some h \<Rightarrow> if i < gs_node_num h then vec_at (gs_pmap h) i else Inr (of_nat i)
      | None \<Rightarrow> Inr (of_nat i))"

definition result_pairs :: "graph_store option \<Rightarrow> 'a list \<Rightarrow> (dst_t \<times> 'a) list res" where
  "result_pairs MEA xs = mapR (\<lambda>i. bind_res (external_id MEA i) (\<lambda>k. Inr (k, xs ! i))) [0..<length xs]"

section \<open>The snapshot as a graph\<close>

lemma mapR_ok: "(\<And>x. x \<in> set xs \<Longrightarrow> f x = Inr (h x)) \<Longrightarrow> mapR f xs = Inr (map h xs)"
  by (induction xs) auto

lemma vec_at_Inr [simp]: "i < length xs \<Longrightarrow> vec_at xs i = Inr (xs ! i)"
  by (simp add: vec_at_def)

text \<open>The reading loop gives the neighbours that \<open>adj\<close> lists, in some order.\<close>

definition reads_as :: "graph_store \<Rightarrow> epoch_t \<Rightarrow> nat list list \<Rightarrow> bool" where
  "reads_as g q adj \<longleftrightarrow> length adj = gs_node_num g \<and>
     (\<forall>u < length adj. \<exists>xs. neighbours g q u = Inr xs \<and> mset xs = mset (adj ! u))"

definition edges_of :: "nat list list \<Rightarrow> (nat \<times> nat) set" where
  "edges_of adj = {(u, v). u < length adj \<and> v \<in> set (adj ! u)}"

definition in_range :: "nat list list \<Rightarrow> bool" where
  "in_range adj \<longleftrightarrow> (\<forall>ns \<in> set adj. \<forall>w \<in> set ns. w < length adj)"

definition symmetric :: "nat list list \<Rightarrow> bool" where
  "symmetric adj \<longleftrightarrow> (\<forall>u < length adj. \<forall>w \<in> set (adj ! u). u \<in> set (adj ! w))"

text \<open>Undirected, without loops and parallel edges.\<close>

definition simple_graph :: "nat list list \<Rightarrow> bool" where
  "simple_graph adj \<longleftrightarrow> in_range adj \<and> symmetric adj \<and> (\<forall>u < length adj. distinct (adj ! u) \<and> u \<notin> set (adj ! u))"

section \<open>A small graph\<close>

text \<open>A store bulk-loaded with the given neighbour lists (ascending), and what can be checked of it by evaluation.\<close>

definition load_store :: "nat list list \<Rightarrow> graph_store res" where
  "load_store adj =
     foldR (\<lambda>i. SetBlockByIndex_build sample_pool i (map (\<lambda>w. (of_nat w, 0)) (adj ! i))) [0..<length adj]
       ((GraphStore_new (length adj))\<lparr>gs_node_num := length adj\<rparr>)"

definition sample_adj :: "nat list list" where
  "sample_adj = [[1, 2, 3], [0, 2], [0, 1], [0]]"

definition sample_store :: graph_store where
  "sample_store = (case load_store sample_adj of Inr g \<Rightarrow> g | Inl f \<Rightarrow> GraphStore_new 0)"

lemma sample_reads: "reads_as sample_store 5 sample_adj"
proof -
  have n: "gs_node_num sample_store = 4" "length sample_adj = 4" by code_simp+
  have "neighbours sample_store 5 0 = Inr (sample_adj ! 0)" "neighbours sample_store 5 1 = Inr (sample_adj ! 1)"
    "neighbours sample_store 5 2 = Inr (sample_adj ! 2)" "neighbours sample_store 5 3 = Inr (sample_adj ! 3)" by code_simp+
  moreover have "u = 0 \<or> u = 1 \<or> u = 2 \<or> u = 3" if "u < 4" for u :: nat using that by linarith
  ultimately have "neighbours sample_store 5 u = Inr (sample_adj ! u)" if "u < 4" for u using that by metis
  then show ?thesis using n by (simp add: reads_as_def)
qed

lemma simple_graph_check:
  assumes "list_all (\<lambda>u. list_all (\<lambda>w. w < length adj \<and> u \<in> set (adj ! w)) (adj ! u) \<and> distinct (adj ! u) \<and> u \<notin> set (adj ! u))
    [0..<length adj]"
  shows "simple_graph adj"
proof -
  have u: "(\<forall>w \<in> set (adj ! u). w < length adj \<and> u \<in> set (adj ! w)) \<and> distinct (adj ! u) \<and> u \<notin> set (adj ! u)"
    if "u < length adj" for u
  proof -
    have "u \<in> set [0..<length adj]" using that by simp
    with assms show ?thesis unfolding list_all_iff by blast
  qed
  have "w < length adj" if ns: "ns \<in> set adj" "w \<in> set ns" for ns w
  proof -
    obtain i where "i < length adj" "ns = adj ! i" using ns(1) unfolding in_set_conv_nth by blast
    then show ?thesis using u [of i] ns(2) by blast
  qed
  then have "in_range adj" unfolding in_range_def by blast
  moreover have "symmetric adj" unfolding symmetric_def using u by blast
  ultimately show ?thesis unfolding simple_graph_def using u by blast
qed

lemma sample_simple: "simple_graph sample_adj"
  by (rule simple_graph_check) code_simp

text \<open>
  A store written by transactions: every vertex starts empty and inserts its edges, destinations with
  properties, in epoch 1.
\<close>

definition written_vertex :: "nat \<Rightarrow> (nat \<times> weight_t) list \<Rightarrow> vertex_edges" where
  "written_vertex u es =
     (case bind_res (empty_vertex sample_pool) (\<lambda>v.
             run_epochs u [(1, map (\<lambda>(w, p). sample_write (VInsert (of_nat w) p)) es, \<lambda>t. [0..<version_num t])] (v, [])) of
        Inr (v, _) \<Rightarrow> v
      | Inl _ \<Rightarrow> VertexEdges_new)"

definition store_of :: "(nat \<times> weight_t) list list \<Rightarrow> graph_store" where
  "store_of adj =
     (GraphStore_new 0)\<lparr>gs_blocks := map (\<lambda>u. Some (written_vertex u (adj ! u))) [0..<length adj], gs_node_num := length adj,
        gs_pmap := map of_nat [0..<length adj]\<rparr>"

lemma store_of_block: "u < length adj \<Longrightarrow> GetBlockByIndex (store_of adj) u = Inr (written_vertex u (adj ! u))"
  by (simp add: GetBlockByIndex_def store_of_def)

lemma store_of_node_num [simp]: "gs_node_num (store_of adj) = length adj"
  by (simp add: store_of_def)

end
