(* ===== verification/Algo_LCC.thy ===== *)
theory Algo_LCC
  imports Algo_Snapshot Complex_Main
begin

text \<open>
  \<open>algorithm/LCC\<close>: local clustering coefficients. The neighbour lists are read and sorted once, every edge
  is oriented from its lower end (by degree, then id), and every triangle is found once as the
  intersection of two forward lists. Scores are rational numbers where the code has doubles.
\<close>

section \<open>The algorithm\<close>

definition lcc_neighbors :: "graph_store \<Rightarrow> epoch_t \<Rightarrow> nat list list res" where
  "lcc_neighbors g q = mapR (\<lambda>v. bind_res (neighbours g q v) (\<lambda>ns. Inr (sort ns))) [0..<gs_node_num g]"

definition lcc_forward_of :: "nat list list \<Rightarrow> nat \<Rightarrow> nat list res" where
  "lcc_forward_of all_neighbors u =
     (let du = length (all_neighbors ! u) in
      bind_res (mapR (\<lambda>v. bind_res (vec_at all_neighbors v) (\<lambda>nv.
          let dv = length nv in Inr (if du < dv \<or> du = dv \<and> u < v then [v] else []))) (all_neighbors ! u))
        (\<lambda>vs. Inr (concat vs)))"

definition lcc_forward :: "nat list list \<Rightarrow> nat list list res" where
  "lcc_forward all_neighbors = mapR (lcc_forward_of all_neighbors) [0..<length all_neighbors]"

definition add2 :: "nat \<Rightarrow> nat list \<Rightarrow> nat list" where
  "add2 i tri = tri[i := tri ! i + 2]"

fun lcc_intersect :: "nat \<Rightarrow> nat \<Rightarrow> nat list \<Rightarrow> nat list \<Rightarrow> nat list \<Rightarrow> nat list" where
  "lcc_intersect u v (a # fu) (b # fv) tri =
     (if a < b then lcc_intersect u v fu (b # fv) tri
      else if a > b then lcc_intersect u v (a # fu) fv tri
      else let w = a in lcc_intersect u v fu fv (add2 w (add2 v (add2 u tri))))"
| "lcc_intersect u v fu fv tri = tri"

definition lcc_triangles_of :: "nat list list \<Rightarrow> nat \<Rightarrow> nat list \<Rightarrow> nat list" where
  "lcc_triangles_of forward u tri =
     fold (\<lambda>v tri. lcc_intersect u v (forward ! u) (forward ! v) tri) (forward ! u) tri"

definition lcc_triangles :: "nat list list \<Rightarrow> nat list" where
  "lcc_triangles forward = fold (lcc_triangles_of forward) [0..<length forward] (replicate (length forward) 0)"

definition lcc_score :: "nat \<Rightarrow> nat \<Rightarrow> rat \<Rightarrow> rat" where
  "lcc_score deg tri old = (if deg \<ge> 2 then of_nat tri / (of_nat deg * (of_nat deg - 1)) else old)"

text \<open>\<open>lcc_scores\<close> keeps its contents between runs; \<open>resize\<close> appends zeros or cuts.\<close>

definition compute_lcc :: "graph_store \<Rightarrow> epoch_t \<Rightarrow> rat list \<Rightarrow> rat list res" where
  "compute_lcc g q scores =
     bind_res (lcc_neighbors g q) (\<lambda>all_neighbors.
     bind_res (lcc_forward all_neighbors) (\<lambda>forward.
       let max_vid = gs_node_num g; tri = lcc_triangles forward;
           old = take max_vid scores @ replicate (max_vid - length scores) 0
       in Inr (map (\<lambda>v. lcc_score (length (all_neighbors ! v)) (tri ! v) (old ! v)) [0..<max_vid])))"

definition lcc_result :: "graph_store \<Rightarrow> epoch_t \<Rightarrow> rat list \<Rightarrow> graph_store option \<Rightarrow> (dst_t \<times> rat) list res" where
  "lcc_result g q scores MEA = bind_res (compute_lcc g q scores) (result_pairs MEA)"

section \<open>The forward orientation\<close>

definition below :: "nat list list \<Rightarrow> nat \<Rightarrow> nat \<Rightarrow> bool" where
  "below N u v \<longleftrightarrow> length (N ! u) < length (N ! v) \<or> length (N ! u) = length (N ! v) \<and> u < v"

lemma below_irrefl [simp]: "\<not> below N u u"
  by (simp add: below_def)

lemma below_trans: "below N u v \<Longrightarrow> below N v w \<Longrightarrow> below N u w"
  by (auto simp: below_def)

lemma below_total: "u \<noteq> v \<Longrightarrow> below N u v \<or> below N v u"
  by (auto simp: below_def)

lemma below_asym: "below N u v \<Longrightarrow> \<not> below N v u"
  by (auto simp: below_def)

definition fwd :: "nat list list \<Rightarrow> nat \<Rightarrow> nat list" where
  "fwd N u = filter (below N u) (N ! u)"

lemma concat_if_filter: "concat (map (\<lambda>v. if P v then [v] else []) xs) = filter P xs"
  by (induction xs) auto

lemma lcc_forward_ok:
  assumes "in_range N"
  shows "lcc_forward N = Inr (map (fwd N) [0..<length N])"
proof -
  have "lcc_forward_of N u = Inr (fwd N u)" if "u < length N" for u
  proof -
    have range: "x < length N" if "x \<in> set (N ! u)" for x
      using assms that \<open>u < length N\<close> by (auto simp: in_range_def)
    have "mapR (\<lambda>v. bind_res (vec_at N v) (\<lambda>nv. let dv = length nv in
        Inr (if length (N ! u) < dv \<or> length (N ! u) = dv \<and> u < v then [v] else []))) (N ! u) =
      Inr (map (\<lambda>v. if below N u v then [v] else []) (N ! u))"
      using range by (intro mapR_ok) (auto simp: below_def Let_def)
    then show ?thesis by (simp add: lcc_forward_of_def Let_def concat_if_filter fwd_def)
  qed
  then show ?thesis unfolding lcc_forward_def by (intro mapR_ok) simp
qed

section \<open>The triangles found\<close>

fun common :: "nat list \<Rightarrow> nat list \<Rightarrow> nat list" where
  "common (a # xs) (b # ys) = (if a < b then common xs (b # ys) else if a > b then common (a # xs) ys else a # common xs ys)"
| "common xs ys = []"

lemma common_props:
  "sorted xs \<Longrightarrow> sorted ys \<Longrightarrow> distinct xs \<Longrightarrow> distinct ys \<Longrightarrow>
   set (common xs ys) = set xs \<inter> set ys \<and> distinct (common xs ys)"
  by (induction xs ys rule: common.induct) (auto simp: order.order_iff_strict)

definition bump :: "nat \<times> nat \<times> nat \<Rightarrow> nat list \<Rightarrow> nat list" where
  "bump t tri = (case t of (u, v, w) \<Rightarrow> add2 w (add2 v (add2 u tri)))"

lemma lcc_intersect_bumps: "lcc_intersect u v xs ys = fold bump (map (\<lambda>w. (u, v, w)) (common xs ys))"
proof
  show "lcc_intersect u v xs ys tri = fold bump (map (\<lambda>w. (u, v, w)) (common xs ys)) tri" for tri
    by (induction xs ys arbitrary: tri rule: common.induct) (auto simp: bump_def Let_def)
qed

definition triples :: "nat list list \<Rightarrow> (nat \<times> nat \<times> nat) list" where
  "triples F = concat (map (\<lambda>u. concat (map (\<lambda>v. map (\<lambda>w. (u, v, w)) (common (F ! u) (F ! v))) (F ! u))) [0..<length F])"

lemma fold_concat_map: "fold f (concat (map h xs)) = fold (\<lambda>x. fold f (h x)) xs"
  by (induction xs) auto

lemma lcc_triangles_bumps: "lcc_triangles F = fold bump (triples F) (replicate (length F) 0)"
  by (simp add: lcc_triangles_def lcc_triangles_of_def [abs_def] triples_def fold_concat_map lcc_intersect_bumps)

definition mentions :: "nat \<Rightarrow> nat \<times> nat \<times> nat \<Rightarrow> bool" where
  "mentions t = (\<lambda>(u, v, w). t = u \<or> t = v \<or> t = w)"

lemma fold_bump_count:
  assumes "\<forall>(u, v, w) \<in> set T. u < length tri \<and> v < length tri \<and> w < length tri \<and> u \<noteq> v \<and> v \<noteq> w \<and> u \<noteq> w"
  shows "length (fold bump T tri) = length tri \<and> (t < length tri \<longrightarrow> fold bump T tri ! t = tri ! t + 2 * length (filter (mentions t) T))"
  using assms
proof (induction T arbitrary: tri)
  case (Cons x T)
  obtain u v w where x: "x = (u, v, w)" by (cases x)
  have b: "length (bump x tri) = length tri" by (simp add: x bump_def add2_def)
  have "bump x tri ! t = tri ! t + (if mentions t x then 2 else 0)" if "t < length tri"
    using Cons.prems that by (auto simp: x bump_def add2_def mentions_def nth_list_update)
  then show ?case using Cons.IH [of "bump x tri"] Cons.prems b by auto
qed simp

section \<open>Counting\<close>

definition nb :: "nat list list \<Rightarrow> nat \<Rightarrow> nat set" where
  "nb N v = set (N ! v)"

text \<open>The triangles, each as its vertices in order, and the adjacent pairs of neighbours of a vertex.\<close>

definition ordered_triangles :: "nat list list \<Rightarrow> (nat \<times> nat \<times> nat) set" where
  "ordered_triangles N = {(u, v, w). u < length N \<and> v \<in> nb N u \<and> w \<in> nb N u \<and> w \<in> nb N v \<and> below N u v \<and> below N v w}"

definition linked_pairs :: "nat list list \<Rightarrow> nat \<Rightarrow> (nat \<times> nat) set" where
  "linked_pairs N t = {(a, b). a \<in> nb N t \<and> b \<in> nb N t \<and> b \<in> nb N a}"

lemma triples_member: "(u, v, w) \<in> set (triples F) \<longleftrightarrow> u < length F \<and> v \<in> set (F ! u) \<and> w \<in> set (common (F ! u) (F ! v))"
  by (auto simp: triples_def image_iff)

lemma distinct_concat_map:
  "distinct xs \<Longrightarrow> (\<And>x. x \<in> set xs \<Longrightarrow> distinct (f x)) \<Longrightarrow>
   (\<And>x y z. x \<in> set xs \<Longrightarrow> y \<in> set xs \<Longrightarrow> z \<in> set (f x) \<Longrightarrow> z \<in> set (f y) \<Longrightarrow> x = y) \<Longrightarrow> distinct (concat (map f xs))"
proof (induction xs)
  case (Cons x xs)
  have "set (f x) \<inter> set (concat (map f xs)) = {}"
  proof (rule ccontr)
    assume "set (f x) \<inter> set (concat (map f xs)) \<noteq> {}"
    then obtain y z where "y \<in> set xs" "z \<in> set (f x)" "z \<in> set (f y)" by auto
    then have "x = y" using Cons.prems(3) [of x y z] by simp
    then show False using Cons.prems(1) \<open>y \<in> set xs\<close> by simp
  qed
  then show ?case using Cons by auto
qed simp

lemma triples_ok:
  assumes N: "simple_graph N" "\<forall>u < length N. sorted (N ! u)"
  shows "set (triples (map (fwd N) [0..<length N])) = ordered_triangles N" "distinct (triples (map (fwd N) [0..<length N]))"
proof -
  let ?F = "map (fwd N) [0..<length N]"
  have F: "?F ! u = fwd N u" if "u < length N" for u using that by simp
  have fwd: "set (fwd N u) = {v \<in> nb N u. below N u v}" "sorted (fwd N u)" "distinct (fwd N u)" if "u < length N" for u
    using N that by (auto simp: fwd_def nb_def simple_graph_def sorted_wrt_filter)
  have range: "v < length N" if "v \<in> set (fwd N u)" "u < length N" for u v
    using N that by (auto simp: fwd_def simple_graph_def in_range_def)
  have common: "set (common (fwd N u) (fwd N v)) = set (fwd N u) \<inter> set (fwd N v)" "distinct (common (fwd N u) (fwd N v))"
    if "u < length N" "v < length N" for u v
    using common_props fwd that by auto
  have member: "(u, v, w) \<in> set (triples ?F) \<longleftrightarrow>
      u < length N \<and> v \<in> set (?F ! u) \<and> w \<in> set (common (?F ! u) (?F ! v))" for u v w
    using triples_member [of u v w ?F] by simp
  have "(u, v, w) \<in> set (triples ?F) \<longleftrightarrow> (u, v, w) \<in> ordered_triangles N" for u v w
  proof (cases "u < length N \<and> v \<in> set (fwd N u)")
    case True
    then have uv: "u < length N" "v < length N" "v \<in> set (fwd N u)" using range by auto
    have w: "w \<in> set (common (?F ! u) (?F ! v)) \<longleftrightarrow> w \<in> set (fwd N u) \<and> w \<in> set (fwd N v)"
      using common(1) [OF uv(1,2)] F uv by simp
    have v: "v \<in> nb N u" "below N u v" using uv(3) fwd(1) [OF uv(1)] by simp_all
    have "v \<in> set (?F ! u)" using F [OF uv(1)] uv(3) by (simp only:)
    then have "(u, v, w) \<in> set (triples ?F) \<longleftrightarrow> w \<in> set (fwd N u) \<and> w \<in> set (fwd N v)"
      unfolding member w using uv(1) by blast
    also have "\<dots> \<longleftrightarrow> (w \<in> nb N u \<and> below N u w) \<and> (w \<in> nb N v \<and> below N v w)"
      unfolding fwd(1) [OF uv(1)] fwd(1) [OF uv(2)] by blast
    also have "\<dots> \<longleftrightarrow> w \<in> nb N u \<and> w \<in> nb N v \<and> below N v w"
      using below_trans [OF v(2), of w] by blast
    also have "\<dots> \<longleftrightarrow> (u, v, w) \<in> ordered_triangles N" using uv(1) v by (simp add: ordered_triangles_def)
    finally show ?thesis .
  next
    case False
    have "(u, v, w) \<notin> set (triples ?F)" using False F [of u] unfolding member by metis
    moreover have "(u, v, w) \<notin> ordered_triangles N"
    proof
      assume "(u, v, w) \<in> ordered_triangles N"
      then have "u < length N" "v \<in> nb N u" "below N u v" by (simp_all add: ordered_triangles_def)
      then show False using False fwd(1) [of u] by simp
    qed
    ultimately show ?thesis by simp
  qed
  then show "set (triples ?F) = ordered_triangles N" by auto
  show "distinct (triples ?F)"
    unfolding triples_def
  proof (rule distinct_concat_map)
    fix u assume u: "u \<in> set [0..<length ?F]"
    show "distinct (concat (map (\<lambda>v. map (\<lambda>w. (u, v, w)) (common (?F ! u) (?F ! v))) (?F ! u)))"
    proof (rule distinct_concat_map)
      show "distinct (?F ! u)" using u F fwd(3) by simp
      show "distinct (map (\<lambda>w. (u, v, w)) (common (?F ! u) (?F ! v)))" if "v \<in> set (?F ! u)" for v
        using that u range common(2) [of u v] by (simp add: distinct_map inj_on_def)
    qed auto
  qed auto
qed

lemma linked_pairs_finite: "finite (linked_pairs N t)"
  by (rule finite_subset [of _ "set (N ! t) \<times> set (N ! t)"]) (auto simp: linked_pairs_def nb_def)

definition sort3 :: "nat list list \<Rightarrow> nat \<Rightarrow> nat \<times> nat \<Rightarrow> nat \<times> nat \<times> nat" where
  "sort3 N t p = (case p of (a, b) \<Rightarrow> if below N t a then (t, a, b) else if below N t b then (a, t, b) else (a, b, t))"

definition drop3 :: "nat \<Rightarrow> nat \<times> nat \<times> nat \<Rightarrow> nat \<times> nat" where
  "drop3 t x = (case x of (u, v, w) \<Rightarrow> if t = u then (v, w) else if t = v then (u, w) else (u, v))"

text \<open>Each triangle at \<open>t\<close> is one ordered pair of adjacent neighbours of \<open>t\<close>.\<close>

lemma triangles_at:
  assumes N: "simple_graph N" and t: "t < length N"
  shows "card {x \<in> ordered_triangles N. mentions t x} = card {(a, b). (a, b) \<in> linked_pairs N t \<and> below N a b}"
proof -
  let ?P = "{(a, b). (a, b) \<in> linked_pairs N t \<and> below N a b}" and ?T = "{x \<in> ordered_triangles N. mentions t x}"
  have range: "y < length N" if "y \<in> nb N x" "x < length N" for x y
    using N that by (auto simp: simple_graph_def in_range_def nb_def)
  have sym: "x \<in> nb N y" if "y \<in> nb N x" "x < length N" for x y
    using N that by (auto simp: simple_graph_def symmetric_def nb_def)
  have loop: "x \<notin> nb N x" if "x < length N" for x using N that by (auto simp: simple_graph_def nb_def)
  have "bij_betw (sort3 N t) ?P ?T"
  proof (rule bij_betw_byWitness [where f' = "drop3 t"])
    show "\<forall>p \<in> ?P. drop3 t (sort3 N t p) = p"
      by (auto simp: sort3_def drop3_def linked_pairs_def)
    show "\<forall>x \<in> ?T. sort3 N t (drop3 t x) = x"
      by (auto simp: sort3_def drop3_def mentions_def ordered_triangles_def dest: below_asym below_trans)
    show "sort3 N t ` ?P \<subseteq> ?T"
    proof
      fix x assume "x \<in> sort3 N t ` ?P"
      then obtain a b where ab: "x = sort3 N t (a, b)" "a \<in> nb N t" "b \<in> nb N t" "b \<in> nb N a" "below N a b"
        by (auto simp: linked_pairs_def)
      have less: "a < length N" "b < length N" using ab range t by auto
      have edges: "t \<in> nb N a" "t \<in> nb N b" "a \<in> nb N b" using ab sym t less by auto
      have "a \<noteq> t" "b \<noteq> t" using ab(2,3) loop t by auto
      then show "x \<in> ?T"
        using ab edges less t below_total [of a t N] below_total [of b t N]
        by (auto simp: sort3_def ordered_triangles_def mentions_def)
    qed
    show "drop3 t ` ?T \<subseteq> ?P"
    proof
      fix p assume "p \<in> drop3 t ` ?T"
      then obtain u v w where x: "p = drop3 t (u, v, w)" "u < length N" "v \<in> nb N u" "w \<in> nb N u" "w \<in> nb N v" "below N u v" "below N v w"
        "t = u \<or> t = v \<or> t = w" by (auto simp: ordered_triangles_def mentions_def)
      have less: "v < length N" "w < length N" using x range by auto
      have "u \<in> nb N v" "u \<in> nb N w" "v \<in> nb N w" using x sym less by auto
      moreover have "below N u w" using x(6,7) by (rule below_trans)
      ultimately show "p \<in> ?P" using x by (auto simp: drop3_def linked_pairs_def)
    qed
  qed
  then show ?thesis by (simp add: bij_betw_same_card)
qed

lemma linked_pairs_halves:
  assumes N: "simple_graph N" and t: "t < length N"
  shows "card (linked_pairs N t) = 2 * card {(a, b). (a, b) \<in> linked_pairs N t \<and> below N a b}"
proof -
  let ?P = "{(a, b). (a, b) \<in> linked_pairs N t \<and> below N a b}" and ?Q = "{(a, b). (a, b) \<in> linked_pairs N t \<and> below N b a}"
  have range: "y < length N" if "y \<in> nb N t" for y using N that t by (auto simp: simple_graph_def in_range_def nb_def)
  have sym: "x \<in> nb N y" if "y \<in> nb N x" "x < length N" for x y using N that by (auto simp: simple_graph_def symmetric_def nb_def)
  have loop: "x \<notin> nb N x" if "x < length N" for x using N that by (auto simp: simple_graph_def nb_def)
  have split: "linked_pairs N t = ?P \<union> ?Q"
  proof -
    have "below N a b \<or> below N b a" if "(a, b) \<in> linked_pairs N t" for a b
      using that loop range below_total [of a b N] by (auto simp: linked_pairs_def)
    then show ?thesis by auto
  qed
  have fin: "finite ?P" "finite ?Q" using linked_pairs_finite [of N t] by (auto intro: finite_subset [rotated])
  have "?P \<inter> ?Q = {}" by (auto dest: below_asym)
  then have "card (linked_pairs N t) = card ?P + card ?Q" using card_Un_disjoint [OF fin] split by metis
  moreover have "bij_betw prod.swap ?P ?Q"
    by (rule bij_betw_byWitness [where f' = prod.swap]) (use sym range in \<open>auto simp: linked_pairs_def\<close>)
  then have "card ?P = card ?Q" by (rule bij_betw_same_card)
  ultimately show ?thesis by simp
qed

lemma lcc_triangles_count:
  assumes N: "simple_graph N" "\<forall>u < length N. sorted (N ! u)" and t: "t < length N"
  shows "lcc_triangles (map (fwd N) [0..<length N]) ! t = card (linked_pairs N t)"
proof -
  let ?T = "triples (map (fwd N) [0..<length N])"
  have range: "y < length N" if "y \<in> nb N x" "x < length N" for x y
    using N(1) that by (auto simp: simple_graph_def in_range_def nb_def)
  have "\<forall>(u, v, w) \<in> set ?T. u < length N \<and> v < length N \<and> w < length N \<and> u \<noteq> v \<and> v \<noteq> w \<and> u \<noteq> w"
  proof -
    have "u < length N \<and> v < length N \<and> w < length N \<and> u \<noteq> v \<and> v \<noteq> w \<and> u \<noteq> w" if "(u, v, w) \<in> ordered_triangles N" for u v w
    proof -
      have a: "u < length N" "v \<in> nb N u" "w \<in> nb N u" "below N u v" "below N v w" using that by (simp_all add: ordered_triangles_def)
      have "below N u w" using a(4,5) by (rule below_trans)
      then show ?thesis using range [OF a(2,1)] range [OF a(3,1)] a by (metis below_irrefl)
    qed
    then show ?thesis unfolding triples_ok(1) [OF N] by blast
  qed
  then have "lcc_triangles (map (fwd N) [0..<length N]) ! t = 2 * length (filter (mentions t) ?T)"
    using fold_bump_count [of ?T "replicate (length N) 0" t] t by (simp add: lcc_triangles_bumps)
  also have "length (filter (mentions t) ?T) = card {x \<in> ordered_triangles N. mentions t x}"
    using triples_ok [OF N] by (metis distinct_card distinct_filter set_filter)
  finally show ?thesis using triangles_at [OF N(1) t] linked_pairs_halves [OF N(1) t] by simp
qed

section \<open>Correctness\<close>

lemma lcc_neighbors_ok:
  assumes "reads_as g q adj"
  shows "lcc_neighbors g q = Inr (map sort adj)"
proof -
  have "bind_res (neighbours g q v) (\<lambda>ns. Inr (sort ns)) = Inr (sort (adj ! v))" if v: "v < length adj" for v
  proof -
    obtain xs where xs: "neighbours g q v = Inr xs" "mset xs = mset (adj ! v)" using assms v unfolding reads_as_def by blast
    have "sort xs = sort (adj ! v)" by (rule properties_for_sort) (simp_all add: xs(2))
    then show ?thesis using xs(1) by simp
  qed
  then have "lcc_neighbors g q = Inr (map (\<lambda>v. sort (adj ! v)) [0..<length adj])"
    using assms unfolding lcc_neighbors_def reads_as_def by (metis (no_types, lifting) mapR_ok atLeastLessThan_iff set_upt)
  also have "map (\<lambda>v. sort (adj ! v)) [0..<length adj] = map sort adj"
    by (rule nth_equalityI) simp_all
  finally show ?thesis .
qed

lemma sorted_lists_simple: "simple_graph adj \<Longrightarrow> simple_graph (map sort adj)"
  by (fastforce simp: simple_graph_def in_range_def symmetric_def)

text \<open>
  C29: On an undirected snapshot without loops the local clustering coefficient of a vertex of degree d, as
  \<open>compute_lcc\<close> finds it, is the number of ordered pairs of its neighbours that are joined by an edge over
  \<open>d * (d - 1)\<close>, and 0 when d is below 2.
\<close>

theorem lcc_is_clustering_coefficient:
  assumes g: "reads_as g q adj" and simple: "simple_graph adj"
  shows "\<exists>scores. compute_lcc g q (replicate (gs_node_num g) 0) = Inr scores \<and> length scores = length adj \<and>
    (\<forall>v < length adj. scores ! v =
       (if length (adj ! v) < 2 then 0
        else of_nat (card {(a, b). a \<in> set (adj ! v) \<and> b \<in> set (adj ! v) \<and> b \<in> set (adj ! a)}) /
               (of_nat (length (adj ! v)) * (of_nat (length (adj ! v)) - 1))))"
proof -
  let ?N = "map sort adj" and ?n = "gs_node_num g"
  have n: "length adj = ?n" using g by (simp add: reads_as_def)
  have N: "simple_graph ?N" "\<forall>u < length ?N. sorted (?N ! u)" using sorted_lists_simple [OF simple] by simp_all
  have range: "in_range ?N" using N(1) by (simp add: simple_graph_def)
  have pairs: "linked_pairs ?N v = {(a, b). a \<in> set (adj ! v) \<and> b \<in> set (adj ! v) \<and> b \<in> set (adj ! a)}" if "v < length adj" for v
  proof -
    have "a < length adj" if "a \<in> set (adj ! v)" for a
      using simple that \<open>v < length adj\<close> by (auto simp: simple_graph_def in_range_def)
    then show ?thesis using that by (auto simp: linked_pairs_def nb_def)
  qed
  let ?scores = "map (\<lambda>v. lcc_score (length (?N ! v)) (lcc_triangles (map (fwd ?N) [0..<length ?N]) ! v) 0) [0..<?n]"
  have "(take ?n (replicate ?n 0) @ replicate (?n - length (replicate ?n (0 :: rat))) 0) ! v = 0" if "v < ?n" for v
    using that by simp
  then have "compute_lcc g q (replicate ?n 0) = Inr ?scores"
    unfolding compute_lcc_def lcc_neighbors_ok [OF g] bind_res_simps lcc_forward_ok [OF range] Let_def by simp
  moreover have "?scores ! v = (if length (adj ! v) < 2 then 0
        else of_nat (card {(a, b). a \<in> set (adj ! v) \<and> b \<in> set (adj ! v) \<and> b \<in> set (adj ! a)}) /
               (of_nat (length (adj ! v)) * (of_nat (length (adj ! v)) - 1)))" if v: "v < length adj" for v
    using lcc_triangles_count [OF N, of v] pairs [OF v] v n by (simp add: lcc_score_def)
  ultimately show ?thesis using n by (intro exI [of _ ?scores]) simp
qed

theorem lcc_is_clustering_coefficient_witness:
  "\<exists>scores. compute_lcc sample_store 5 [0, 0, 0, 0] = Inr scores \<and> scores ! 0 = 1 / 3 \<and> scores ! 1 = 1 \<and> scores ! 3 = 0"
proof -
  have l: "length sample_adj = 4" "length (sample_adj ! 0) = 3" "length (sample_adj ! 1) = 2" "length (sample_adj ! 3) = 1"
    "gs_node_num sample_store = 4" by code_simp+
  have a: "sample_adj ! 0 = [1, 2, 3]" "sample_adj ! 1 = [0, 2]" "sample_adj ! 2 = [0, 1]" "sample_adj ! 3 = [0]" "sample_adj ! Suc 0 = [0, 2]"
    by (simp_all add: sample_adj_def)
  have c0: "{(a, b). a \<in> set (sample_adj ! 0) \<and> b \<in> set (sample_adj ! 0) \<and> b \<in> set (sample_adj ! a)} = {(1, 2), (2, 1)}"
    by (auto simp: a)
  have c1: "{(a, b). a \<in> set (sample_adj ! 1) \<and> b \<in> set (sample_adj ! 1) \<and> b \<in> set (sample_adj ! a)} = {(0, 2), (2, 0)}"
    by (auto simp: a)
  obtain scores where s: "compute_lcc sample_store 5 (replicate (gs_node_num sample_store) 0) = Inr scores"
    "\<forall>v < length sample_adj. scores ! v = (if length (sample_adj ! v) < 2 then 0
        else of_nat (card {(a, b). a \<in> set (sample_adj ! v) \<and> b \<in> set (sample_adj ! v) \<and> b \<in> set (sample_adj ! a)}) /
               (of_nat (length (sample_adj ! v)) * (of_nat (length (sample_adj ! v)) - 1)))"
    using lcc_is_clustering_coefficient [OF sample_reads sample_simple] by blast
  have "scores ! 0 = 1 / 3" using s(2) [rule_format, of 0] l c0 by simp
  moreover have "scores ! 1 = 1" using s(2) [rule_format, of 1] l c1 by simp
  moreover have "scores ! 3 = 0" using s(2) [rule_format, of 3] l by simp
  moreover have "replicate (gs_node_num sample_store) 0 = [0, 0, 0, 0 :: rat]" using l(5) by (simp add: numeral_eq_Suc)
  ultimately show ?thesis using s(1) by auto
qed

end
