(* ===== verification/Algo_CDLP.thy ===== *)
theory Algo_CDLP
  imports Algo_Snapshot
begin

text \<open>
  \<open>algorithm/CDLP\<close>: community detection by label propagation. Every vertex starts with its external id and
  takes, in each round, the label most of its neighbours had in the round before; among equally
  frequent labels the smallest.
\<close>

section \<open>The algorithm\<close>

text \<open>The run-length loop over the sorted labels of the neighbours.\<close>

function cdlp_scan :: "dst_t list \<Rightarrow> nat \<Rightarrow> dst_t \<Rightarrow> dst_t" where
  "cdlp_scan [] best_count best_label = best_label"
| "cdlp_scan (l # ls) best_count best_label =
     (let count = Suc (length (takeWhile (\<lambda>x. x = l) ls)); rest = dropWhile (\<lambda>x. x = l) ls in
      if count > best_count then cdlp_scan rest count l else cdlp_scan rest best_count best_label)"
  by pat_completeness auto
termination
  by (relation "measure (\<lambda>(ls, _, _). length ls)") (auto simp: le_imp_less_Suc length_dropWhile_le)

definition cdlp_pick :: "dst_t list \<Rightarrow> dst_t res" where
  "cdlp_pick nbr_labels =
     (let sorted_labels = sort nbr_labels in
      bind_res (vec_at sorted_labels 0) (\<lambda>first. Inr (cdlp_scan sorted_labels 0 first)))"

definition cdlp_vertex :: "graph_store \<Rightarrow> epoch_t \<Rightarrow> dst_t list \<Rightarrow> nat \<Rightarrow> dst_t res" where
  "cdlp_vertex g q labels v =
     bind_res (check_degree g v q) (\<lambda>deg.
       if deg = 0 then vec_at labels v
       else
         bind_res (neighbours_sorted g q v) (\<lambda>ns.
         bind_res (mapR (vec_at labels) ns) cdlp_pick))"

definition cdlp_round :: "graph_store \<Rightarrow> epoch_t \<Rightarrow> dst_t list \<Rightarrow> dst_t list res" where
  "cdlp_round g q labels = mapR (cdlp_vertex g q labels) [0..<gs_node_num g]"

fun cdlp_rounds :: "nat \<Rightarrow> graph_store \<Rightarrow> epoch_t \<Rightarrow> dst_t list \<Rightarrow> dst_t list res" where
  "cdlp_rounds 0 g q labels = Inr labels"
| "cdlp_rounds (Suc k) g q labels =
     bind_res (cdlp_round g q labels) (\<lambda>next_labels.
       if next_labels = labels then Inr next_labels else cdlp_rounds k g q next_labels)"

definition compute_cdlp :: "nat \<Rightarrow> graph_store \<Rightarrow> epoch_t \<Rightarrow> dst_t list res" where
  "compute_cdlp max_iterations g q =
     bind_res (mapR (vec_at (gs_pmap g)) [0..<gs_node_num g]) (cdlp_rounds max_iterations g q)"

definition cdlp_result :: "nat \<Rightarrow> graph_store \<Rightarrow> epoch_t \<Rightarrow> graph_store option \<Rightarrow> (dst_t \<times> dst_t) list res" where
  "cdlp_result max_iterations g q MEA = bind_res (compute_cdlp max_iterations g q) (result_pairs MEA)"

section \<open>The label a vertex takes\<close>

text \<open>\<open>l\<close> is at least as good as \<open>x\<close>: more frequent, or as frequent and not greater.\<close>

definition preferred :: "dst_t list \<Rightarrow> dst_t \<Rightarrow> dst_t \<Rightarrow> bool" where
  "preferred ls l x \<longleftrightarrow> count_list ls x < count_list ls l \<or> count_list ls x = count_list ls l \<and> l \<le> x"

lemma sorted_run:
  fixes ls :: "'a :: linorder list"
  assumes "sorted (l # ls)"
  shows "Suc (length (takeWhile (\<lambda>x. x = l) ls)) = count_list (l # ls) l" "\<forall>x \<in> set (dropWhile (\<lambda>x. x = l) ls). l < x"
    "\<forall>x. x \<noteq> l \<longrightarrow> count_list (dropWhile (\<lambda>x. x = l) ls) x = count_list (l # ls) x"
proof -
  show gt: "\<forall>x \<in> set (dropWhile (\<lambda>x. x = l) ls). l < x" using assms
  proof (induction ls)
    case (Cons y ys)
    then show ?case by (cases "y = l") (auto simp: order.order_iff_strict)
  qed simp
  have run: "count_list (takeWhile (\<lambda>x. x = l) ls) x = (if x = l then length (takeWhile (\<lambda>x. x = l) ls) else 0)" for x
    by (induction ls) auto
  have split: "count_list ls x = count_list (takeWhile (\<lambda>x. x = l) ls) x + count_list (dropWhile (\<lambda>x. x = l) ls) x" for x
    by (metis count_list_append takeWhile_dropWhile_id)
  have "count_list (dropWhile (\<lambda>x. x = l) ls) l = 0" using gt by (auto simp: count_list_0_iff)
  then show "Suc (length (takeWhile (\<lambda>x. x = l) ls)) = count_list (l # ls) l" using split [of l] run [of l] by simp
  show "\<forall>x. x \<noteq> l \<longrightarrow> count_list (dropWhile (\<lambda>x. x = l) ls) x = count_list (l # ls) x" using split run by simp
qed

text \<open>
  The loop keeps the best label of the part it has passed; what is left is sorted and greater than that
  part.
\<close>

lemma cdlp_scan_best:
  assumes "sorted rest" "\<forall>x \<in> set rest. count_list rest x = count_list all x"
    and "\<forall>x. x \<notin> set rest \<longrightarrow> 0 < count_list all x \<longrightarrow> preferred all best x \<and> best_count = count_list all best"
    and "\<forall>x \<in> set rest. best_count > 0 \<longrightarrow> best < x" "best_count > 0 \<longrightarrow> best \<in> set all \<and> best_count = count_list all best"
    and "best_count = 0 \<longrightarrow> rest = [] \<or> (\<forall>x. x \<notin> set rest \<longrightarrow> count_list all x = 0)" "all \<noteq> []" "best_count = 0 \<longrightarrow> rest \<noteq> []"
  shows "cdlp_scan rest best_count best \<in> set all \<and> (\<forall>x \<in> set all. preferred all (cdlp_scan rest best_count best) x)"
  using assms
proof (induction rest best_count best rule: cdlp_scan.induct)
  case (1 best_count best)
  then show ?case by (auto simp: count_list_0_iff)
next
  case (2 l ls best_count best)
  let ?rest = "dropWhile (\<lambda>x. x = l) ls" and ?c = "Suc (length (takeWhile (\<lambda>x. x = l) ls))"
  have c: "?c = count_list all l" using sorted_run(1) [OF "2.prems"(1)] "2.prems"(2) by simp
  have gt: "\<forall>x \<in> set ?rest. l < x" by (rule sorted_run(2) [OF "2.prems"(1)])
  have srt: "sorted ?rest" using "2.prems"(1) by (simp add: sorted_dropWhile)
  have sub: "set ?rest \<subseteq> set (l # ls)" using set_dropWhileD by fastforce
  have cnt: "count_list ?rest x = count_list all x" if "x \<in> set ?rest" for x
  proof -
    have "x \<noteq> l" "x \<in> set (l # ls)" using gt that sub by blast+
    then have "count_list ?rest x = count_list (l # ls) x" "count_list (l # ls) x = count_list all x"
      using sorted_run(3) [OF "2.prems"(1)] "2.prems"(2) by blast+
    then show ?thesis by (rule trans)
  qed
  have gone: "x = l \<or> x \<notin> set (l # ls)" if "x \<notin> set ?rest" for x
  proof (rule ccontr)
    assume n: "\<not> ?thesis"
    then have "count_list ?rest x = count_list (l # ls) x" using sorted_run(3) [OF "2.prems"(1)] by blast
    then show False using n that by (metis count_list_0_iff)
  qed
  have l: "l \<in> set all" using c by (metis count_list_0_iff nat.distinct(1))
  show ?case
  proof (cases "?c > best_count")
    case True
    have "preferred all l x" if "x \<notin> set ?rest" "0 < count_list all x" for x
    proof (cases "x = l")
      case False
      then have "x \<notin> set (l # ls)" using gone that(1) by blast
      then have "preferred all best x \<and> best_count = count_list all best" using "2.prems"(3) that(2) by blast
      then show ?thesis using True c by (auto simp: preferred_def)
    qed (simp add: preferred_def)
    then have "cdlp_scan ?rest ?c l \<in> set all \<and> (\<forall>x \<in> set all. preferred all (cdlp_scan ?rest ?c l) x)"
      using True srt cnt gt l c "2.prems"(7) by (intro "2.IH"(1) [OF refl refl]) auto
    then show ?thesis using True by (simp add: Let_def)
  next
    case False
    then have b: "best_count > 0" "best \<in> set all" "best_count = count_list all best" "best < l" using "2.prems"(4,5) by auto
    have "preferred all best x" if "x \<notin> set ?rest" "0 < count_list all x" for x
    proof (cases "x = l")
      case True
      then show ?thesis using b c False by (auto simp: preferred_def)
    next
      case False
      then show ?thesis using gone [OF that(1)] "2.prems"(3) that(2) by blast
    qed
    then have "cdlp_scan ?rest best_count best \<in> set all \<and> (\<forall>x \<in> set all. preferred all (cdlp_scan ?rest best_count best) x)"
      using False srt cnt b "2.prems"(4,7) sub by (intro "2.IH"(2) [OF refl refl]) auto
    then show ?thesis using False by (simp add: Let_def)
  qed
qed

text \<open>
  C35: A vertex with neighbours takes the label that occurs most often among theirs, and among equally
  frequent ones the smallest.
\<close>

theorem cdlp_picks_smallest_mode:
  assumes "ls \<noteq> []"
  shows "\<exists>l. cdlp_pick ls = Inr l \<and> l \<in> set ls \<and>
    (\<forall>x \<in> set ls. count_list ls x < count_list ls l \<or> count_list ls x = count_list ls l \<and> l \<le> x)"
proof -
  let ?s = "sort ls"
  have s: "?s \<noteq> []" using assms by (metis set_sort set_empty)
  have count: "count_list ?s x = count_list ls x" for x by (metis count_mset mset_sort)
  have "cdlp_scan ?s 0 (?s ! 0) \<in> set ?s \<and> (\<forall>x \<in> set ?s. preferred ?s (cdlp_scan ?s 0 (?s ! 0)) x)"
    using s by (intro cdlp_scan_best) (auto simp: count_list_0_iff)
  moreover have "cdlp_pick ls = Inr (cdlp_scan ?s 0 (?s ! 0))" using assms by (simp add: cdlp_pick_def Let_def)
  ultimately show ?thesis by (auto simp: preferred_def count)
qed

theorem cdlp_picks_smallest_mode_witness:
  "cdlp_pick [7, 3, 9, 3, 7] = Inr 3 \<and> count_list [7, 3, 9, 3, 7 :: dst_t] 3 = 2"
proof -
  have ne: "[7, 3, 9, 3, 7 :: dst_t] \<noteq> []" by simp
  obtain l where l: "cdlp_pick [7, 3, 9, 3, 7] = Inr l" "l \<in> set [7, 3, 9, 3, 7 :: dst_t]"
    "\<forall>x \<in> set [7, 3, 9, 3, 7 :: dst_t]. count_list [7, 3, 9, 3, 7] x < count_list [7, 3, 9, 3, 7] l \<or>
       count_list [7, 3, 9, 3, 7] x = count_list [7, 3, 9, 3, 7] l \<and> l \<le> x"
    using cdlp_picks_smallest_mode [OF ne] by blast
  consider "l = 7" | "l = 3" | "l = 9" using l(2) by auto
  then have "l = 3"
  proof cases
    case 1
    then show ?thesis using l(3) [rule_format, of 3] by simp
  next
    case 3
    then show ?thesis using l(3) [rule_format, of 3] by simp
  qed
  then show ?thesis using l(1) by simp
qed

section \<open>When label propagation fails\<close>

text \<open>A vertex whose degree is not 0 but for which the reading loop visits no edge.\<close>

definition ghost :: "graph_store \<Rightarrow> epoch_t \<Rightarrow> nat \<Rightarrow> bool" where
  "ghost g q v \<longleftrightarrow> check_degree g v q \<noteq> Inr 0 \<and> neighbours_sorted g q v = Inr []"

text \<open>The store can be read at the epoch, and its edges lead to its vertices.\<close>

definition readable :: "graph_store \<Rightarrow> epoch_t \<Rightarrow> bool" where
  "readable g q \<longleftrightarrow> gs_node_num g \<le> length (gs_pmap g) \<and>
     (\<forall>v < gs_node_num g. \<exists>d ns. check_degree g v q = Inr d \<and> neighbours_sorted g q v = Inr ns \<and> (\<forall>w \<in> set ns. w < gs_node_num g))"

lemma mapR_vec_at: "\<forall>i \<in> set is. i < length xs \<Longrightarrow> mapR (vec_at xs) is = Inr (map (\<lambda>i. xs ! i) is)"
  by (rule mapR_ok) simp

lemma mapR_fails:
  assumes "\<forall>x \<in> set xs. f x = Inl e \<or> (\<exists>y. f x = Inr y)" "x \<in> set xs" "f x = Inl e"
  shows "mapR f xs = Inl e"
  using assms by (induction xs) auto

lemma cdlp_pick_mem:
  assumes "ls \<noteq> []"
  shows "\<exists>l \<in> set ls. cdlp_pick ls = Inr l"
proof -
  have s: "sort ls \<noteq> []" using assms by (metis set_sort set_empty)
  have "cdlp_scan (sort ls) 0 (sort ls ! 0) \<in> set (sort ls)"
    using cdlp_scan_best [of "sort ls" "sort ls" "sort ls ! 0" 0] s by (auto simp: count_list_0_iff)
  then show ?thesis using assms by (auto simp: cdlp_pick_def Let_def)
qed

lemma cdlp_vertex_cases:
  assumes "readable g q" "v < gs_node_num g" "length labels = gs_node_num g"
  shows "if ghost g q v then cdlp_vertex g q labels v = Inl OutOfBounds else \<exists>l \<in> set labels. cdlp_vertex g q labels v = Inr l"
proof -
  obtain d ns where r: "check_degree g v q = Inr d" "neighbours_sorted g q v = Inr ns" "\<forall>w \<in> set ns. w < length labels"
    using assms by (auto simp: readable_def)
  have run: "cdlp_vertex g q labels v = (if d = 0 then Inr (labels ! v) else cdlp_pick (map (\<lambda>i. labels ! i) ns))"
    using assms(2,3) r by (simp add: cdlp_vertex_def mapR_vec_at)
  show ?thesis
  proof (cases "ns = []")
    case False
    then obtain l where "l \<in> (\<lambda>i. labels ! i) ` set ns" "cdlp_pick (map (\<lambda>i. labels ! i) ns) = Inr l"
      using cdlp_pick_mem [of "map (\<lambda>i. labels ! i) ns"] by auto
    then show ?thesis using False r assms(2,3) run by (auto simp: ghost_def)
  qed (use r assms(2,3) run in \<open>auto simp: ghost_def cdlp_pick_def vec_at_def\<close>)
qed

lemma cdlp_round_cases:
  assumes ok: "readable g q" "length labels = gs_node_num g"
  shows "if \<exists>v < gs_node_num g. ghost g q v then cdlp_round g q labels = Inl OutOfBounds
    else \<exists>next. cdlp_round g q labels = Inr next \<and> length next = gs_node_num g \<and> set next \<subseteq> set labels"
proof (cases "\<exists>v < gs_node_num g. ghost g q v")
  case True
  then obtain v where v: "v \<in> set [0..<gs_node_num g]" "ghost g q v" by auto
  have "cdlp_vertex g q labels v = Inl OutOfBounds" using cdlp_vertex_cases [OF ok(1) _ ok(2), of v] v by simp
  moreover have "\<forall>u \<in> set [0..<gs_node_num g]. cdlp_vertex g q labels u = Inl OutOfBounds \<or> (\<exists>l. cdlp_vertex g q labels u = Inr l)"
    using cdlp_vertex_cases [OF ok(1) _ ok(2)] by (fastforce split: if_splits)
  ultimately have "cdlp_round g q labels = Inl OutOfBounds" unfolding cdlp_round_def using v(1) by (intro mapR_fails) auto
  then show ?thesis using True by simp
next
  case False
  then have "\<forall>v < gs_node_num g. \<exists>l \<in> set labels. cdlp_vertex g q labels v = Inr l" using cdlp_vertex_cases [OF ok(1) _ ok(2)] by fastforce
  then obtain h where h: "\<And>v. v < gs_node_num g \<Longrightarrow> h v \<in> set labels \<and> cdlp_vertex g q labels v = Inr (h v)" by metis
  then have "cdlp_round g q labels = Inr (map h [0..<gs_node_num g])" unfolding cdlp_round_def by (intro mapR_ok) simp
  then show ?thesis using False h by auto
qed

lemma cdlp_rounds_return:
  assumes "readable g q" "\<not> (\<exists>v < gs_node_num g. ghost g q v)" "length labels = gs_node_num g"
  shows "\<exists>out. cdlp_rounds k g q labels = Inr out \<and> length out = gs_node_num g \<and> set out \<subseteq> set labels"
  using assms(3)
proof (induction k arbitrary: labels)
  case (Suc k)
  then obtain next_labels where n: "cdlp_round g q labels = Inr next_labels" "length next_labels = gs_node_num g" "set next_labels \<subseteq> set labels"
    using cdlp_round_cases [OF assms(1) Suc.prems] assms(2) by auto
  then show ?case using Suc.IH [OF n(2)] by auto
qed simp

text \<open>
  C39: On a store that can be read label propagation fails exactly when some vertex has a degree other than 0
  but no edge to visit: it then reads the first of no labels. Otherwise it returns a label for every
  vertex, each the external id of some vertex.
\<close>

theorem cdlp_fails_at_ghosts:
  assumes ok: "readable g q" and k: "0 < max_iterations"
  shows "if \<exists>v < gs_node_num g. ghost g q v then compute_cdlp max_iterations g q = Inl OutOfBounds
    else \<exists>labels. compute_cdlp max_iterations g q = Inr labels \<and> length labels = gs_node_num g \<and>
      set labels \<subseteq> set (take (gs_node_num g) (gs_pmap g))"
proof -
  let ?init = "map (\<lambda>i. gs_pmap g ! i) [0..<gs_node_num g]"
  have fits: "gs_node_num g \<le> length (gs_pmap g)" using ok by (simp add: readable_def)
  have init: "compute_cdlp max_iterations g q = cdlp_rounds max_iterations g q ?init"
    using fits by (simp add: compute_cdlp_def mapR_vec_at)
  have ids: "?init = take (gs_node_num g) (gs_pmap g)" using fits by (intro nth_equalityI) simp_all
  obtain k' where k': "max_iterations = Suc k'" using k by (cases max_iterations) auto
  show ?thesis
  proof (cases "\<exists>v < gs_node_num g. ghost g q v")
    case True
    have "cdlp_round g q ?init = Inl OutOfBounds" using cdlp_round_cases [OF ok, of ?init] True by simp
    then show ?thesis using True by (simp add: k' init [unfolded k'])
  next
    case False
    have "length ?init = gs_node_num g" by simp
    from cdlp_rounds_return [OF ok False this, of max_iterations] show ?thesis using False unfolding init ids by auto
  qed
qed

text \<open>
  Such a vertex arises from writes: an edge is inserted, inserted again and deleted, in three epochs. The
  versioned degree then counts one edge where a reader sees none.
\<close>

definition updated_edge_store :: "graph_store res" where
  "updated_edge_store =
     bind_res (load_store [[], []]) (\<lambda>g.
     bind_res (GetBlockByIndex g 0) (\<lambda>v.
     bind_res (run_epochs 0
       [(1, [sample_write (VInsert 1 0)], \<lambda>t. [0..<version_num t]), (2, [sample_write (VInsert 1 0)], \<lambda>t. [0..<version_num t]),
        (3, [sample_write (VDelete 1 0)], \<lambda>t. [0..<version_num t])] (v, [])) (\<lambda>(v', _). SetBlockByIndex 0 v' g)))"

theorem cdlp_fails_at_ghosts_witness:
  "\<exists>g. updated_edge_store = Inr g \<and> check_degree g 0 3 = Inr 1 \<and> neighbours_sorted g 3 0 = Inr [] \<and> compute_cdlp 5 g 3 = Inl OutOfBounds"
proof -
  define g where "g = projr updated_edge_store"
  have "isl updated_edge_store = False" by code_simp
  then have g: "updated_edge_store = Inr g" by (simp add: g_def)
  have n: "gs_node_num g = 2" "2 \<le> length (gs_pmap g)" unfolding g_def by code_simp+
  have deg: "check_degree g 0 3 = Inr 1" "check_degree g 1 3 = Inr 0" unfolding g_def by code_simp+
  have nbr: "neighbours_sorted g 3 0 = Inr []" "neighbours_sorted g 3 1 = Inr []" unfolding g_def by code_simp+
  have two: "v = 0 \<or> v = 1" if "v < 2" for v :: nat using that by linarith
  have "\<exists>d. check_degree g v 3 = Inr d" "neighbours_sorted g 3 v = Inr []" if "v < 2" for v using two [OF that] deg nbr by auto
  then have "readable g 3" by (simp add: readable_def n)
  moreover have "ghost g 3 0" by (simp add: ghost_def deg(1) nbr(1))
  then have "\<exists>v < gs_node_num g. ghost g 3 v" using n(1) by (intro exI [of _ 0]) simp
  ultimately have "compute_cdlp 5 g 3 = Inl OutOfBounds" using cdlp_fails_at_ghosts [of g 3 5] by simp
  then show ?thesis using g deg(1) nbr(1) by blast
qed

end
