(* ===== verification/Algo_WCC.thy ===== *)
theory Algo_WCC
  imports Algo_Snapshot
begin

text \<open>
  \<open>algorithm/WCC\<close>: weakly connected components. Labels start as the vertex ids and minima are pushed along
  the edges, first forwards, then in both directions, until a round changes nothing, for at most 100
  rounds; then the labels are followed to their roots.
\<close>

section \<open>The algorithm\<close>

type_synonym labels = "nat list \<times> bool"

definition wcc_push :: "nat \<Rightarrow> nat \<Rightarrow> labels \<Rightarrow> labels res" where
  "wcc_push my v s =
     (case s of (components, changed) \<Rightarrow>
        bind_res (vec_at components v) (\<lambda>other.
          if my < other then Inr (components[v := my], True) else Inr (components, changed)))"

definition wcc_forward :: "graph_store \<Rightarrow> epoch_t \<Rightarrow> nat \<Rightarrow> labels \<Rightarrow> labels res" where
  "wcc_forward g q u s =
     bind_res (check_degree g u q) (\<lambda>deg.
       if deg = 0 then Inr s
       else
         bind_res (vec_at (fst s) u) (\<lambda>my.
         bind_res (neighbours g q u) (\<lambda>ns. foldR (wcc_push my) ns s)))"

definition wcc_both :: "nat \<Rightarrow> nat \<Rightarrow> labels \<Rightarrow> labels res" where
  "wcc_both u v s =
     (case s of (components, changed) \<Rightarrow>
        bind_res (vec_at components u) (\<lambda>a.
        bind_res (vec_at components v) (\<lambda>b.
          let m = min a b;
              (components, changed) = (if a \<noteq> m then (components[u := m], True) else (components, changed))
          in Inr (if b \<noteq> m then (components[v := m], True) else (components, changed)))))"

definition wcc_backward :: "graph_store \<Rightarrow> epoch_t \<Rightarrow> nat \<Rightarrow> labels \<Rightarrow> labels res" where
  "wcc_backward g q u s = bind_res (neighbours g q u) (\<lambda>ns. foldR (wcc_both u) ns s)"

definition wcc_round :: "graph_store \<Rightarrow> epoch_t \<Rightarrow> nat list \<Rightarrow> labels res" where
  "wcc_round g q components =
     bind_res (foldR (wcc_forward g q) [0..<gs_node_num g] (components, False)) (\<lambda>s.
       foldR (wcc_backward g q) [0..<gs_node_num g] s)"

text \<open>The loop, with the number of rounds it may still make.\<close>

fun wcc_rounds :: "nat \<Rightarrow> graph_store \<Rightarrow> epoch_t \<Rightarrow> nat list \<Rightarrow> nat list res" where
  "wcc_rounds 0 g q components = Inr components"
| "wcc_rounds (Suc k) g q components =
     bind_res (wcc_round g q components) (\<lambda>(components', changed).
       if changed then wcc_rounds k g q components' else Inr components')"

text \<open>A walk along the labels that has not stopped after as many reads as there are labels never stops.\<close>

fun wcc_root :: "nat \<Rightarrow> nat list \<Rightarrow> nat \<Rightarrow> nat res" where
  "wcc_root 0 components cur = Inl LoopsForever"
| "wcc_root (Suc reads) components cur =
     bind_res (vec_at components cur) (\<lambda>c. if c \<noteq> cur then wcc_root reads components c else Inr cur)"

definition compute_wcc :: "graph_store \<Rightarrow> epoch_t \<Rightarrow> nat list res" where
  "compute_wcc g q =
     bind_res (wcc_rounds 100 g q [0..<gs_node_num g]) (\<lambda>components.
       mapR (wcc_root (length components) components) [0..<gs_node_num g])"

definition wcc_result :: "graph_store \<Rightarrow> epoch_t \<Rightarrow> graph_store option \<Rightarrow> (dst_t \<times> nat) list res" where
  "wcc_result g q MEA = bind_res (compute_wcc g q) (result_pairs MEA)"

section \<open>Components of a graph\<close>

definition links :: "nat list list \<Rightarrow> (nat \<times> nat) set" where
  "links adj = edges_of adj \<union> (edges_of adj)\<inverse>"

definition leader :: "nat list list \<Rightarrow> nat \<Rightarrow> nat" where
  "leader adj v = (LEAST w. (v, w) \<in> (links adj)\<^sup>*)"

lemma links_sym: "(u, v) \<in> links adj \<Longrightarrow> (v, u) \<in> links adj"
  by (auto simp: links_def)

lemma linked_sym: "(u, v) \<in> (links adj)\<^sup>* \<Longrightarrow> (v, u) \<in> (links adj)\<^sup>*"
  by (metis links_def sym_Un_converse sym_rtrancl symD)

lemma linked_range: "(u, v) \<in> (links adj)\<^sup>* \<Longrightarrow> in_range adj \<Longrightarrow> u < length adj \<Longrightarrow> v < length adj"
proof (induction rule: rtrancl_induct)
  case (step y z)
  then show ?case by (auto simp: links_def edges_of_def in_range_def)
qed simp

lemma leader_linked: "(v, leader adj v) \<in> (links adj)\<^sup>*"
  unfolding leader_def by (rule LeastI [of _ v]) simp

lemma leader_least: "(v, w) \<in> (links adj)\<^sup>* \<Longrightarrow> leader adj v \<le> w"
  unfolding leader_def by (rule Least_le)

lemma leader_eq:
  assumes "(u, v) \<in> (links adj)\<^sup>*"
  shows "leader adj u = leader adj v"
proof -
  have "(u, w) \<in> (links adj)\<^sup>* \<longleftrightarrow> (v, w) \<in> (links adj)\<^sup>*" for w
    using assms linked_sym [OF assms] by (meson rtrancl_trans)
  then show ?thesis by (simp add: leader_def)
qed

section \<open>What a pass does to the labels\<close>

text \<open>Every label is a vertex of the same component, and not above its vertex.\<close>

definition labels_ok :: "nat list list \<Rightarrow> nat list \<Rightarrow> bool" where
  "labels_ok adj c \<longleftrightarrow> length c = length adj \<and> (\<forall>v < length adj. (v, c ! v) \<in> (links adj)\<^sup>* \<and> c ! v \<le> v)"

definition settled :: "nat list list \<Rightarrow> nat list \<Rightarrow> nat \<Rightarrow> bool" where
  "settled adj c v \<longleftrightarrow> c ! v = leader adj v"

text \<open>
  The effect of a pass over the edges in \<open>K\<close>: labels only fall; an edge of \<open>K\<close> carries the leader from one
  end to the other; and if the pass reports no change, it made none and the ends of each edge agree.
\<close>

definition pass_effect :: "nat list list \<Rightarrow> (nat \<times> nat) set \<Rightarrow> labels \<Rightarrow> labels \<Rightarrow> bool" where
  "pass_effect adj K s s' \<longleftrightarrow> labels_ok adj (fst s') \<and> (\<forall>v < length adj. fst s' ! v \<le> fst s ! v) \<and>
     (\<forall>(u, v) \<in> K. settled adj (fst s) u \<or> settled adj (fst s) v \<longrightarrow> settled adj (fst s') u \<and> settled adj (fst s') v) \<and>
     (\<not> snd s' \<longrightarrow> \<not> snd s \<and> fst s' = fst s \<and> (\<forall>(u, v) \<in> K. fst s ! u = fst s ! v))"

lemma settled_mono:
  assumes "labels_ok adj c'" "c' ! v \<le> c ! v" "v < length adj" "settled adj c v"
  shows "settled adj c' v"
  using assms leader_least [of v "c' ! v" adj] by (auto simp: settled_def labels_ok_def)

lemma pass_effect_refl: "labels_ok adj (fst s) \<Longrightarrow> pass_effect adj {} s s"
  by (simp add: pass_effect_def)

lemma pass_effect_trans:
  assumes A: "pass_effect adj A s s1" and B: "pass_effect adj B s1 s2"
    and range: "\<forall>(u, v) \<in> A \<union> B. u < length adj \<and> v < length adj"
  shows "pass_effect adj (A \<union> B) s s2"
proof -
  have ok: "labels_ok adj (fst s1)" "labels_ok adj (fst s2)" using A B by (simp_all add: pass_effect_def)
  have le: "\<forall>v < length adj. fst s1 ! v \<le> fst s ! v" "\<forall>v < length adj. fst s2 ! v \<le> fst s1 ! v"
    using A B by (simp_all add: pass_effect_def)
  have keep: "settled adj (fst s1) v" if "settled adj (fst s) v" "v < length adj" for v
    using settled_mono [OF ok(1) _ that(2,1)] le(1) that(2) by simp
  have keep2: "settled adj (fst s2) v" if "settled adj (fst s1) v" "v < length adj" for v
    using settled_mono [OF ok(2) _ that(2,1)] le(2) that(2) by simp
  have "settled adj (fst s2) u \<and> settled adj (fst s2) v"
    if e: "(u, v) \<in> A \<union> B" and st: "settled adj (fst s) u \<or> settled adj (fst s) v" for u v
  proof -
    have uv: "u < length adj" "v < length adj" using range e by auto
    show ?thesis
    proof (cases "(u, v) \<in> A")
      case True
      then have "settled adj (fst s1) u \<and> settled adj (fst s1) v" using A st by (auto simp: pass_effect_def)
      then show ?thesis using keep2 uv by blast
    next
      case False
      then have "(u, v) \<in> B" using e by blast
      moreover have "settled adj (fst s1) u \<or> settled adj (fst s1) v" using keep st uv by blast
      ultimately show ?thesis using B by (auto simp: pass_effect_def)
    qed
  qed
  moreover have "fst s2 ! v \<le> fst s ! v" if "v < length adj" for v using le that by (meson le_trans)
  moreover have "\<not> snd s \<and> fst s2 = fst s \<and> (\<forall>(u, v) \<in> A \<union> B. fst s ! u = fst s ! v)" if "\<not> snd s2"
    using A B that by (auto simp: pass_effect_def)
  ultimately show ?thesis using ok(2) unfolding pass_effect_def by blast
qed

lemma pass_effect_foldR:
  assumes "labels_ok adj (fst s)" "\<forall>x \<in> set xs. \<forall>(u, v) \<in> K x. u < length adj \<and> v < length adj"
    and "\<And>x s. x \<in> set xs \<Longrightarrow> labels_ok adj (fst s) \<Longrightarrow> \<exists>s'. f x s = Inr s' \<and> pass_effect adj (K x) s s'"
  shows "\<exists>s'. foldR f xs s = Inr s' \<and> pass_effect adj (\<Union>x \<in> set xs. K x) s s'"
  using assms
proof (induction xs arbitrary: s)
  case Nil
  then show ?case by (simp add: pass_effect_refl)
next
  case (Cons x xs)
  obtain s1 where s1: "f x s = Inr s1" "pass_effect adj (K x) s s1" using Cons.prems(1) Cons.prems(3) [of x s] by auto
  then have ok1: "labels_ok adj (fst s1)" by (simp add: pass_effect_def)
  have "\<exists>s'. foldR f xs s1 = Inr s' \<and> pass_effect adj (\<Union>x \<in> set xs. K x) s1 s'"
    using ok1 Cons.prems(2,3) by (intro Cons.IH) auto
  then obtain s2 where s2: "foldR f xs s1 = Inr s2" "pass_effect adj (\<Union>x \<in> set xs. K x) s1 s2" by blast
  have "pass_effect adj (K x \<union> (\<Union>x \<in> set xs. K x)) s s2"
    using Cons.prems(2) by (intro pass_effect_trans [OF s1(2) s2(2)]) auto
  then show ?case using s1(1) s2(1) by auto
qed


lemma labels_ok_write:
  assumes "labels_ok adj c" "v < length adj" "(v, m) \<in> (links adj)\<^sup>*" "m \<le> c ! v"
  shows "labels_ok adj (c[v := m])" "\<forall>w < length adj. c[v := m] ! w \<le> c ! w"
proof -
  have c: "length c = length adj" using assms(1) by (simp add: labels_ok_def)
  have "m \<le> v" using assms by (meson labels_ok_def le_trans)
  then show "labels_ok adj (c[v := m])" using assms c by (auto simp: labels_ok_def nth_list_update)
  show "\<forall>w < length adj. c[v := m] ! w \<le> c ! w" using assms c by (auto simp: nth_list_update)
qed

lemma wcc_push_effect:
  assumes ok: "labels_ok adj (fst s)" and v: "v < length adj" "(v, my) \<in> (links adj)\<^sup>*"
  shows "\<exists>s'. wcc_push my v s = Inr s' \<and> pass_effect adj {} s s'"
proof -
  obtain c ch where s: "s = (c, ch)" by (cases s)
  have c: "length c = length adj" using ok s by (simp add: labels_ok_def)
  show ?thesis
  proof (cases "my < c ! v")
    case True
    then have "pass_effect adj {} s (c[v := my], True)"
      using labels_ok_write [of adj c v my] ok v s by (auto simp: pass_effect_def)
    then show ?thesis using s c v True by (simp add: wcc_push_def)
  next
    case False
    then show ?thesis using s c v ok pass_effect_refl [of adj s] by (simp add: wcc_push_def)
  qed
qed

lemma wcc_both_effect:
  assumes ok: "labels_ok adj (fst s)" and e: "(u, v) \<in> edges_of adj" "in_range adj"
  shows "\<exists>s'. wcc_both u v s = Inr s' \<and> pass_effect adj {(u, v)} s s'"
proof -
  obtain c ch where s: "s = (c, ch)" by (cases s)
  have uv: "u < length adj" "v < length adj" using e by (auto simp: edges_of_def in_range_def)
  have l: "(u, v) \<in> (links adj)\<^sup>*" "(v, u) \<in> (links adj)\<^sup>*" using e by (auto simp: links_def)
  have c: "length c = length adj" using ok s by (simp add: labels_ok_def)
  have cl: "(u, c ! u) \<in> (links adj)\<^sup>*" "(v, c ! v) \<in> (links adj)\<^sup>*" using ok s uv by (simp_all add: labels_ok_def)
  then have cross: "(u, c ! v) \<in> (links adj)\<^sup>*" "(v, c ! u) \<in> (links adj)\<^sup>*" using l by (meson rtrancl_trans)+
  have lead: "leader adj u = leader adj v" by (rule leader_eq [OF l(1)])
  have least: "leader adj u \<le> c ! u" "leader adj u \<le> c ! v" using cl(1) cross(1) by (simp_all add: leader_least)
  consider "c ! u = c ! v" | "c ! u < c ! v" | "c ! v < c ! u" by linarith
  then show ?thesis
  proof cases
    case 1
    then have "pass_effect adj {(u, v)} s s" using ok s lead by (auto simp: pass_effect_def settled_def)
    then show ?thesis using s c uv 1 by (simp add: wcc_both_def Let_def)
  next
    case 2
    have "c[v := c ! u] ! u = c ! u" "c[v := c ! u] ! v = c ! u" using uv c by (simp_all add: nth_list_update)
    then have "settled adj (c[v := c ! u]) u \<and> settled adj (c[v := c ! u]) v" if "settled adj c u \<or> settled adj c v"
      using that 2 lead least unfolding settled_def by linarith
    then have "pass_effect adj {(u, v)} s (c[v := c ! u], True)"
      using labels_ok_write [of adj c v "c ! u"] ok uv s cross(2) 2 by (simp add: pass_effect_def)
    then show ?thesis using s c uv 2 by (simp add: wcc_both_def Let_def min_def)
  next
    case 3
    have "c[u := c ! v] ! u = c ! v" "c[u := c ! v] ! v = c ! v" using uv c by (simp_all add: nth_list_update)
    then have "settled adj (c[u := c ! v]) u \<and> settled adj (c[u := c ! v]) v" if "settled adj c u \<or> settled adj c v"
      using that 3 lead least unfolding settled_def by linarith
    then have "pass_effect adj {(u, v)} s (c[u := c ! v], True)"
      using labels_ok_write [of adj c u "c ! v"] ok uv s cross(1) 3 by (simp add: pass_effect_def)
    then show ?thesis using s c uv 3 by (simp add: wcc_both_def Let_def min_def)
  qed
qed

section \<open>Rounds\<close>

lemma wcc_round_effect:
  assumes g: "reads_as g q adj" and deg: "\<forall>u < length adj. \<exists>d. check_degree g u q = Inr d" and range: "in_range adj"
    and ok: "labels_ok adj c"
  shows "\<exists>s'. wcc_round g q c = Inr s' \<and> pass_effect adj (edges_of adj) (c, False) s'"
proof -
  have n: "gs_node_num g = length adj" using g by (simp add: reads_as_def)
  have reads: "\<exists>ns. neighbours g q u = Inr ns \<and> set ns = set (adj ! u)" if "u < length adj" for u
    using g that unfolding reads_as_def by (metis mset_eq_setD)
  have fwd: "\<exists>s'. wcc_forward g q u s = Inr s' \<and> pass_effect adj {} s s'"
    if u: "u \<in> set [0..<length adj]" and oks: "labels_ok adj (fst s)" for u s
  proof -
    have u': "u < length adj" using u by simp
    obtain d where d: "check_degree g u q = Inr d" using deg u' by blast
    obtain ns where ns: "neighbours g q u = Inr ns" "set ns = set (adj ! u)" using reads u' by blast
    have len: "length (fst s) = length adj" using oks by (simp add: labels_ok_def)
    have "\<exists>s'. wcc_push (fst s ! u) v s1 = Inr s' \<and> pass_effect adj {} s1 s'"
      if v: "v \<in> set ns" and ok1: "labels_ok adj (fst s1)" for v s1
    proof (rule wcc_push_effect [OF ok1])
      have e: "(u, v) \<in> edges_of adj" using u' v ns by (simp add: edges_of_def)
      then show "v < length adj" using range by (auto simp: edges_of_def in_range_def)
      have "(v, u) \<in> (links adj)\<^sup>*" using e by (auto simp: links_def)
      moreover have "(u, fst s ! u) \<in> (links adj)\<^sup>*" using oks u' by (simp add: labels_ok_def)
      ultimately show "(v, fst s ! u) \<in> (links adj)\<^sup>*" by (rule rtrancl_trans)
    qed
    then have "\<exists>s'. foldR (wcc_push (fst s ! u)) ns s = Inr s' \<and> pass_effect adj (\<Union>x \<in> set ns. {}) s s'"
      by (intro pass_effect_foldR [OF oks]) auto
    then have "\<exists>s'. foldR (wcc_push (fst s ! u)) ns s = Inr s' \<and> pass_effect adj {} s s'" by simp
    then show ?thesis using d ns(1) len u' pass_effect_refl [OF oks] by (cases "d = 0") (simp_all add: wcc_forward_def)
  qed
  have bwd: "\<exists>s'. wcc_backward g q u s = Inr s' \<and> pass_effect adj (\<Union>v \<in> set (adj ! u). {(u, v)}) s s'"
    if u: "u \<in> set [0..<length adj]" and oks: "labels_ok adj (fst s)" for u s
  proof -
    have u': "u < length adj" using u by simp
    obtain ns where ns: "neighbours g q u = Inr ns" "set ns = set (adj ! u)" using reads u' by blast
    have e: "(u, v) \<in> edges_of adj" if "v \<in> set ns" for v using u' that ns by (simp add: edges_of_def)
    have r: "u < length adj \<and> v < length adj" if "v \<in> set ns" for v
      using e [OF that] range by (auto simp: edges_of_def in_range_def)
    have "\<exists>s'. foldR (wcc_both u) ns s = Inr s' \<and> pass_effect adj (\<Union>v \<in> set ns. {(u, v)}) s s'"
      using r e wcc_both_effect range by (intro pass_effect_foldR [OF oks]) auto
    then show ?thesis using ns by (simp add: wcc_backward_def)
  qed
  have K: "(\<Union>u \<in> set [0..<length adj]. \<Union>v \<in> set (adj ! u). {(u, v)}) = edges_of adj" by (auto simp: edges_of_def)
  have r: "u < length adj \<and> v < length adj" if "(u, v) \<in> edges_of adj" for u v
    using that range by (auto simp: edges_of_def in_range_def)
  have "\<exists>s1. foldR (wcc_forward g q) [0..<length adj] (c, False) = Inr s1 \<and> pass_effect adj (\<Union>u \<in> set [0..<length adj]. {}) (c, False) s1"
    using ok fwd by (intro pass_effect_foldR) auto
  then obtain s1 where s1: "foldR (wcc_forward g q) [0..<length adj] (c, False) = Inr s1" "pass_effect adj {} (c, False) s1" by auto
  have ok1: "labels_ok adj (fst s1)" using s1(2) by (simp add: pass_effect_def)
  have r2: "\<forall>u \<in> set [0..<length adj]. \<forall>(a, b) \<in> (\<Union>v \<in> set (adj ! u). {(u, v)}). a < length adj \<and> b < length adj"
  proof (intro ballI)
    fix u p assume u: "u \<in> set [0..<length adj]" and p: "p \<in> (\<Union>v \<in> set (adj ! u). {(u, v)})"
    from p obtain v where v: "v \<in> set (adj ! u)" "p = (u, v)" by blast
    then have "(u, v) \<in> edges_of adj" using u by (simp add: edges_of_def)
    then show "case p of (a, b) \<Rightarrow> a < length adj \<and> b < length adj" using r v(2) by simp
  qed
  have "\<exists>s2. foldR (wcc_backward g q) [0..<length adj] s1 = Inr s2 \<and>
      pass_effect adj (\<Union>u \<in> set [0..<length adj]. \<Union>v \<in> set (adj ! u). {(u, v)}) s1 s2"
    by (rule pass_effect_foldR [OF ok1 r2 bwd])
  then obtain s2 where s2: "foldR (wcc_backward g q) [0..<length adj] s1 = Inr s2" "pass_effect adj (edges_of adj) s1 s2"
    unfolding K by blast
  have "pass_effect adj ({} \<union> edges_of adj) (c, False) s2" using r by (intro pass_effect_trans [OF s1(2) s2(2)]) auto
  then show ?thesis using s1(1) s2(1) n by (simp add: wcc_round_def)
qed

text \<open>The vertices within \<open>i\<close> links of the leader of their component have its label.\<close>

definition settled_within :: "nat list list \<Rightarrow> nat list \<Rightarrow> nat \<Rightarrow> bool" where
  "settled_within adj c i \<longleftrightarrow> (\<forall>v < length adj. \<forall>j \<le> i. (leader adj v, v) \<in> links adj ^^ j \<longrightarrow> settled adj c v)"

lemma settled_grows:
  assumes eff: "pass_effect adj (edges_of adj) (c, False) (c', ch)" and w: "settled_within adj c i" and range: "in_range adj"
  shows "settled_within adj c' (Suc i)"
  unfolding settled_within_def
proof (intro allI impI)
  fix v j assume v: "v < length adj" and j: "j \<le> Suc i" "(leader adj v, v) \<in> links adj ^^ j"
  show "settled adj c' v"
  proof (cases j)
    case 0
    then have "(leader adj v, v) \<in> links adj ^^ 0" using j(2) by simp
    then have "settled adj c v" using w v unfolding settled_within_def by blast
    then show ?thesis using eff v settled_mono [of adj c' v c] by (simp add: pass_effect_def)
  next
    case (Suc k)
    then obtain u where u: "(leader adj v, u) \<in> links adj ^^ k" "(u, v) \<in> links adj" using j(2) by auto
    then have lead: "leader adj u = leader adj v" by (intro leader_eq) blast
    have "u < length adj" using u(2) range by (auto simp: links_def edges_of_def in_range_def)
    then have "settled adj c u" using w u(1) lead Suc j(1) by (auto simp: settled_within_def)
    moreover have "(u, v) \<in> edges_of adj \<or> (v, u) \<in> edges_of adj" using u(2) by (auto simp: links_def)
    ultimately show ?thesis using eff unfolding pass_effect_def by fastforce
  qed
qed

lemma agreeing_settled:
  assumes ok: "labels_ok adj c" and agree: "\<forall>(u, v) \<in> edges_of adj. c ! u = c ! v" and range: "in_range adj"
    and v: "v < length adj"
  shows "settled adj c v"
proof -
  have "c ! v = c ! w" if "(v, w) \<in> (links adj)\<^sup>*" for w
    using that
  proof (induction rule: rtrancl_induct)
    case (step y z)
    then show ?case using agree by (auto simp: links_def)
  qed simp
  then have "c ! v = c ! leader adj v" using leader_linked by blast
  moreover have "leader adj v < length adj" using linked_range [OF leader_linked range v] .
  ultimately have "c ! v \<le> leader adj v" using ok by (simp add: labels_ok_def)
  then show ?thesis using leader_least [of v "c ! v" adj] ok v by (simp add: settled_def labels_ok_def)
qed

lemma wcc_rounds_settle:
  assumes g: "reads_as g q adj" "\<forall>u < length adj. \<exists>d. check_degree g u q = Inr d" and range: "in_range adj"
    and near: "\<forall>v < length adj. \<exists>j \<le> i + k. (leader adj v, v) \<in> links adj ^^ j"
  shows "labels_ok adj c \<Longrightarrow> settled_within adj c i \<Longrightarrow>
    \<exists>c'. wcc_rounds k g q c = Inr c' \<and> length c' = length adj \<and> (\<forall>v < length adj. c' ! v = leader adj v)"
  using near
proof (induction k arbitrary: c i)
  case 0
  then have "settled adj c v" if "v < length adj" for v using that unfolding settled_within_def by fastforce
  then show ?case using 0 by (simp add: settled_def labels_ok_def)
next
  case (Suc k)
  obtain c' ch where r: "wcc_round g q c = Inr (c', ch)" "pass_effect adj (edges_of adj) (c, False) (c', ch)"
    using wcc_round_effect [OF g range Suc.prems(1)] by auto
  have ok: "labels_ok adj c'" using r(2) by (simp add: pass_effect_def)
  show ?case
  proof (cases ch)
    case True
    have "settled_within adj c' (Suc i)" by (rule settled_grows [OF r(2) Suc.prems(2) range])
    then obtain c2 where "wcc_rounds k g q c' = Inr c2 \<and> length c2 = length adj \<and> (\<forall>v < length adj. c2 ! v = leader adj v)"
      using Suc.IH [OF ok, of "Suc i"] Suc.prems(3) by auto
    then show ?thesis using r(1) True by auto
  next
    case False
    then have "c' = c" "\<forall>(u, v) \<in> edges_of adj. c ! u = c ! v" using r(2) by (simp_all add: pass_effect_def)
    then have "settled adj c' v" if "v < length adj" for v using agreeing_settled [OF Suc.prems(1) _ range that] by simp
    then show ?thesis using r(1) False ok by (simp add: settled_def labels_ok_def)
  qed
qed

lemma wcc_root_leader:
  assumes "length c = length adj" "\<forall>v < length adj. c ! v = leader adj v" "in_range adj" "v < length adj"
  shows "wcc_root (length c) c v = Inr (leader adj v)"
proof -
  let ?l = "leader adj v"
  have l: "?l < length adj" using linked_range [OF leader_linked assms(3,4)] .
  have root: "c ! ?l = ?l" using assms(2) l leader_eq [OF leader_linked, of adj v] by simp
  obtain n where n: "length c = Suc n" using assms(1,4) by (metis not_less_zero old.nat.exhaust)
  show ?thesis
  proof (cases "?l = v")
    case True
    then show ?thesis using n assms root by simp
  next
    case False
    then obtain m where "n = Suc m" using n assms(1,4) l by (cases n) auto
    then show ?thesis using n assms root l False by simp
  qed
qed

text \<open>
  C34: When every vertex lies within 100 links of the least vertex of its component, edges taken in both
  directions, \<open>compute_wcc\<close> returns, and gives every vertex the least vertex of its component.
\<close>

theorem wcc_finds_components:
  assumes g: "reads_as g q adj" "\<forall>u < length adj. \<exists>d. check_degree g u q = Inr d" and range: "in_range adj"
    and near: "\<forall>v < length adj. \<exists>j \<le> 100. (leader adj v, v) \<in> links adj ^^ j"
  shows "\<exists>parent. compute_wcc g q = Inr parent \<and> length parent = length adj \<and>
    (\<forall>v < length adj. (v, parent ! v) \<in> (links adj)\<^sup>* \<and> (\<forall>w. (v, w) \<in> (links adj)\<^sup>* \<longrightarrow> parent ! v \<le> w))"
proof -
  let ?c = "[0..<length adj]"
  have n: "gs_node_num g = length adj" using g by (simp add: reads_as_def)
  have ok: "labels_ok adj ?c" by (simp add: labels_ok_def)
  have "settled_within adj ?c 0" by (simp add: settled_within_def settled_def)
  then obtain c where c: "wcc_rounds 100 g q ?c = Inr c" "length c = length adj" "\<forall>v < length adj. c ! v = leader adj v"
    using wcc_rounds_settle [OF g range, of 0 100 ?c] near ok by auto
  have "mapR (wcc_root (length c) c) [0..<length adj] = Inr (map (leader adj) [0..<length adj])"
    by (rule mapR_ok) (simp add: wcc_root_leader [OF c(2,3) range])
  then have "compute_wcc g q = Inr (map (leader adj) [0..<length adj])" using c(1) n by (simp add: compute_wcc_def)
  then show ?thesis using leader_linked leader_least by auto
qed

lemma sample_leader: "v < 4 \<Longrightarrow> leader sample_adj v = 0 \<and> (\<exists>j \<le> 100. (0, v) \<in> links sample_adj ^^ j)"
proof -
  assume v: "v < 4"
  have a: "sample_adj ! 0 = [1, 2, 3]" "length sample_adj = 4" by (simp_all add: sample_adj_def)
  have "v = 0 \<or> v = 1 \<or> v = 2 \<or> v = 3" using v by linarith
  then have "v = 0 \<or> (0, v) \<in> edges_of sample_adj" using a by (auto simp: edges_of_def)
  then have r: "v = 0 \<or> (0, v) \<in> links sample_adj" by (auto simp: links_def)
  then have "(v, 0) \<in> (links sample_adj)\<^sup>*" using links_sym by blast
  then have l: "leader sample_adj v = 0" using leader_least by fastforce
  show ?thesis
  proof (cases "v = 0")
    case True
    then have "(0, v) \<in> links sample_adj ^^ 0" by simp
    then show ?thesis using l by blast
  next
    case False
    then have "(0, v) \<in> links sample_adj ^^ 1" using r by simp
    moreover have "(1 :: nat) \<le> 100" by simp
    ultimately show ?thesis using l by blast
  qed
qed

theorem wcc_finds_components_witness:
  "\<exists>parent. compute_wcc sample_store 5 = Inr parent \<and> parent ! 3 = 0"
proof -
  have l: "length sample_adj = 4" by code_simp
  have d: "check_degree sample_store 0 5 = Inr 0" "check_degree sample_store 1 5 = Inr 0"
    "check_degree sample_store 2 5 = Inr 0" "check_degree sample_store 3 5 = Inr 0" by code_simp+
  have "u = 0 \<or> u = 1 \<or> u = 2 \<or> u = 3" if "u < 4" for u :: nat using that by linarith
  then have deg: "\<forall>u < length sample_adj. \<exists>d. check_degree sample_store u 5 = Inr d" using d l by metis
  have range: "in_range sample_adj" using sample_simple by (simp add: simple_graph_def)
  have near: "\<forall>v < length sample_adj. \<exists>j \<le> 100. (leader sample_adj v, v) \<in> links sample_adj ^^ j"
    using sample_leader l by auto
  obtain parent where p: "compute_wcc sample_store 5 = Inr parent"
    "\<forall>v < length sample_adj. (v, parent ! v) \<in> (links sample_adj)\<^sup>* \<and> (\<forall>w. (v, w) \<in> (links sample_adj)\<^sup>* \<longrightarrow> parent ! v \<le> w)"
    using wcc_finds_components [OF sample_reads deg range near] by blast
  have "(3, 0) \<in> (links sample_adj)\<^sup>*" using sample_leader [of 3] leader_linked [of 3 sample_adj] by simp
  moreover have "\<forall>w. (3, w) \<in> (links sample_adj)\<^sup>* \<longrightarrow> parent ! 3 \<le> w" using p(2) l by simp
  ultimately have "parent ! 3 \<le> 0" by blast
  then show ?thesis using p(1) by auto
qed

end
