(* ===== verification/Gap_Containers.thy ===== *)
theory Gap_Containers
  imports Algo_Snapshot
begin

text \<open>
  The containers of \<open>third-party/gapbs.h\<close> that the graph algorithms work on: the bitmap over 64-bit words
  and the sliding queue with its thread-local buffers. Compare-and-swap succeeds where one thread
  runs.
\<close>

section \<open>Loops that collect a set\<close>

lemma foldR_collect:
  assumes "P X s" "\<And>x X s. x \<in> set xs \<Longrightarrow> P X s \<Longrightarrow> \<exists>s'. f x s = Inr s' \<and> P (X \<union> F x) s'"
  shows "\<exists>s'. foldR f xs s = Inr s' \<and> P (X \<union> (\<Union>x \<in> set xs. F x)) s'"
  using assms
proof (induction xs arbitrary: X s)
  case (Cons x xs)
  obtain s1 where s1: "f x s = Inr s1" "P (X \<union> F x) s1" using Cons.prems(1) Cons.prems(2) [of x X s] by auto
  obtain s2 where "foldR f xs s1 = Inr s2" "P (X \<union> F x \<union> (\<Union>x \<in> set xs. F x)) s2"
    using Cons.IH [OF s1(2)] Cons.prems(2) by auto
  then show ?case using s1(1) by (auto simp: Un_assoc)
qed simp

section \<open>Bitmap\<close>

type_synonym bitmap = "64 word list"

definition bm_new :: "nat \<Rightarrow> bitmap" where
  "bm_new n = replicate ((n + 63) div 64) 0"

definition bm_reset :: "bitmap \<Rightarrow> bitmap" where
  "bm_reset b = map (\<lambda>_. 0) b"

definition set_bit_at :: "nat \<Rightarrow> bitmap \<Rightarrow> bitmap res" where
  "set_bit_at pos b =
     bind_res (vec_at b (pos div 64)) (\<lambda>w. Inr (b[pos div 64 := w OR push_bit (pos mod 64) 1]))"

definition get_bit :: "bitmap \<Rightarrow> nat \<Rightarrow> bool res" where
  "get_bit b pos = bind_res (vec_at b (pos div 64)) (\<lambda>w. Inr (drop_bit (pos mod 64) w AND 1 \<noteq> 0))"

text \<open>The positions that are set.\<close>

definition bm_set :: "bitmap \<Rightarrow> nat set" where
  "bm_set b = {pos. get_bit b pos = Inr True}"

definition bm_fits :: "nat \<Rightarrow> bitmap \<Rightarrow> bool" where
  "bm_fits n b \<longleftrightarrow> length b = (n + 63) div 64"

lemma bm_word_less: "bm_fits n b \<Longrightarrow> pos < n \<Longrightarrow> pos div 64 < length b"
  unfolding bm_fits_def by (simp add: less_mult_imp_div_less)

lemma bit_of_word: "drop_bit k (w :: 64 word) AND 1 \<noteq> 0 \<longleftrightarrow> bit w k"
  by (simp add: and_one_eq bit_iff_odd_drop_bit odd_iff_mod_2_eq_one)

lemma get_bit_ok: "bm_fits n b \<Longrightarrow> pos < n \<Longrightarrow> get_bit b pos = Inr (pos \<in> bm_set b)"
  using bm_word_less [of n b pos] by (auto simp: bm_set_def get_bit_def)

lemma bm_new_fits [simp]: "bm_fits n (bm_new n)" "bm_set (bm_new n) = {}"
  by (auto simp: bm_fits_def bm_new_def bm_set_def get_bit_def vec_at_def)

lemma bm_reset_fits [simp]: "bm_fits n (bm_reset b) \<longleftrightarrow> bm_fits n b" "bm_set (bm_reset b) = {}"
  by (auto simp: bm_fits_def bm_reset_def bm_set_def get_bit_def vec_at_def)

lemma set_bit_at_ok:
  assumes "bm_fits n b" "pos < n"
  shows "\<exists>b'. set_bit_at pos b = Inr b' \<and> bm_fits n b' \<and> bm_set b' = insert pos (bm_set b)"
proof -
  let ?i = "pos div 64" and ?b = "b[pos div 64 := b ! (pos div 64) OR push_bit (pos mod 64) 1]"
  have i: "?i < length b" by (rule bm_word_less [OF assms])
  have "get_bit ?b q = Inr True \<longleftrightarrow> q = pos \<or> get_bit b q = Inr True" for q
  proof (cases "q div 64 = ?i")
    case True
    have "bit (b ! ?i OR push_bit (pos mod 64) 1) (q mod 64) \<longleftrightarrow> bit (b ! ?i) (q mod 64) \<or> q mod 64 = pos mod 64"
      by (auto simp: bit_or_iff bit_exp_iff push_bit_of_1)
    moreover have "q mod 64 = pos mod 64 \<longleftrightarrow> q = pos" using True by (metis div_mult_mod_eq)
    ultimately show ?thesis using i True by (auto simp: get_bit_def bit_of_word nth_list_update)
  next
    case False
    then have "q \<noteq> pos" by auto
    then show ?thesis using False i by (auto simp: get_bit_def vec_at_def nth_list_update)
  qed
  then have "bm_set ?b = insert pos (bm_set b)" by (auto simp: bm_set_def)
  then show ?thesis using i assms(1) by (simp add: set_bit_at_def bm_fits_def)
qed

section \<open>SlidingQueue and QueueBuffer\<close>

text \<open>\<open>sq_shared\<close>: the elements below \<open>shared_in\<close>.\<close>

record sliding_queue =
  sq_size :: nat
  sq_shared :: "nat list"
  shared_out_start :: nat
  shared_out_end :: nat

definition SlidingQueue_new :: "nat \<Rightarrow> sliding_queue" where
  "SlidingQueue_new n = \<lparr>sq_size = n, sq_shared = [], shared_out_start = 0, shared_out_end = 0\<rparr>"

definition sq_push_back :: "nat \<Rightarrow> sliding_queue \<Rightarrow> sliding_queue res" where
  "sq_push_back x q =
     (if length (sq_shared q) < sq_size q then Inr (q\<lparr>sq_shared := sq_shared q @ [x]\<rparr>) else Inl OutOfBounds)"

definition sq_empty :: "sliding_queue \<Rightarrow> bool" where
  "sq_empty q \<longleftrightarrow> shared_out_start q = shared_out_end q"

definition slide_window :: "sliding_queue \<Rightarrow> sliding_queue" where
  "slide_window q = q\<lparr>shared_out_start := shared_out_end q, shared_out_end := length (sq_shared q)\<rparr>"

text \<open>What is iterated over from \<open>begin()\<close> to \<open>end()\<close>.\<close>

definition sq_window :: "sliding_queue \<Rightarrow> nat list" where
  "sq_window q = drop (shared_out_start q) (take (shared_out_end q) (sq_shared q))"

definition sq_count :: "sliding_queue \<Rightarrow> nat" where
  "sq_count q = shared_out_end q - shared_out_start q"

text \<open>
  A thread's buffer is copied behind the shared elements when it is full and at the end; nothing else
  reads the queue in between, so its elements are copied at once.
\<close>

definition qb_flush :: "nat list \<Rightarrow> sliding_queue \<Rightarrow> sliding_queue res" where
  "qb_flush local_queue q =
     (if length (sq_shared q) + length local_queue \<le> sq_size q
      then Inr (q\<lparr>sq_shared := sq_shared q @ local_queue\<rparr>) else Inl OutOfBounds)"

definition sq_ok :: "sliding_queue \<Rightarrow> bool" where
  "sq_ok q \<longleftrightarrow> shared_out_start q \<le> shared_out_end q \<and> shared_out_end q = length (sq_shared q) \<and>
     distinct (sq_shared q) \<and> (\<forall>x \<in> set (sq_shared q). x < sq_size q)"

lemma sq_empty_iff: "sq_ok q \<Longrightarrow> sq_empty q \<longleftrightarrow> sq_window q = []"
  by (auto simp: sq_ok_def sq_empty_def sq_window_def)

lemma sq_count_window: "sq_ok q \<Longrightarrow> sq_count q = length (sq_window q)"
  by (auto simp: sq_ok_def sq_count_def sq_window_def)

lemma sq_window_subset: "set (sq_window q) \<subseteq> set (sq_shared q)"
  by (auto simp: sq_window_def dest: in_set_dropD in_set_takeD)

text \<open>New elements that were not in the queue fit, and become the window.\<close>

lemma flush_window:
  assumes "sq_ok q" "distinct xs" "set xs \<inter> set (sq_shared q) = {}" "\<forall>x \<in> set xs. x < sq_size q"
  shows "\<exists>q'. qb_flush xs q = Inr q' \<and> sq_ok (slide_window q') \<and> sq_window (slide_window q') = xs \<and>
    set (sq_shared (slide_window q')) = set (sq_shared q) \<union> set xs \<and> sq_size (slide_window q') = sq_size q"
proof -
  have d: "distinct (sq_shared q @ xs)" "set (sq_shared q @ xs) \<subseteq> {..<sq_size q}"
    using assms by (auto simp: sq_ok_def)
  have "length (sq_shared q @ xs) \<le> sq_size q"
    using card_mono [OF _ d(2)] distinct_card [OF d(1)] by simp
  then show ?thesis using assms by (auto simp: qb_flush_def sq_ok_def slide_window_def sq_window_def)
qed

lemma slide_empties: "sq_ok q \<Longrightarrow> sq_ok (slide_window q) \<and> sq_window (slide_window q) = [] \<and>
    sq_shared (slide_window q) = sq_shared q \<and> sq_size (slide_window q) = sq_size q"
  by (auto simp: sq_ok_def slide_window_def sq_window_def)

section \<open>Reading until a neighbour is found\<close>

lemma call_until_spec:
  "snd (call_until stop xs) \<longleftrightarrow> (\<exists>x \<in> set xs. stop x)"
  "set (fst (call_until stop xs)) \<subseteq> set xs"
  "(\<exists>x \<in> set (fst (call_until stop xs)). stop x) \<longleftrightarrow> (\<exists>x \<in> set xs. stop x)"
  by (induction xs) (auto split: prod.splits)

text \<open>The search among the neighbours sees only neighbours, and finds one exactly if there is one.\<close>

lemma neighbours_until_finds:
  assumes "neighbours g q u = Inr ns"
  shows "\<exists>ys. neighbours_until g q stop u = Inr ys \<and> set ys \<subseteq> set ns \<and> ((\<exists>y \<in> set ys. stop y) \<longleftrightarrow> (\<exists>x \<in> set ns. stop x))"
proof -
  let ?ts = "Composite q INTRA_MAX" and ?stop = "\<lambda>x. stop (edge_dst x)"
  obtain ds es where ds: "locked_block g u = Inr ds" "for_each_edge Fine ?ts ds = Inr es" "ns = map edge_dst es"
    using assms by (auto simp: neighbours_def neighbours_ts_def bind_res_Inr_iff)
  define xs where "xs = map fst (filter (live_at Fine ?ts) (tb_cells ds)) @ map fst (filter (live_at Fine ?ts) (pa_cells ds)) @
      map fst (scan_pending Fine ?ts ds)"
  define vb where "vb = (if needs_iterator Fine ?ts ds then Some (vbm_end (VBM ds)) else None)"
  obtain ys where ys: "chain_reads Fine ?ts vb = Inr ys" "es = xs @ map fst ys"
    using ds(2) by (auto simp: for_each_edge_def iterate_edges_def xs_def vb_def bind_res_Inr_iff)
  obtain called stopped where c: "call_until ?stop xs = (called, stopped)" by fastforce
  have cs: "stopped \<longleftrightarrow> (\<exists>x \<in> set xs. ?stop x)" "set called \<subseteq> set xs" "(\<exists>x \<in> set called. ?stop x) \<longleftrightarrow> (\<exists>x \<in> set xs. ?stop x)"
    using call_until_spec [of ?stop xs] c by simp_all
  have it: "iterate_edges_condition Fine ?ts ?stop ds = (called, if \<not> stopped then vb else None)"
    using c by (simp add: iterate_edges_condition_def xs_def vb_def)
  define rest where "rest = fst (call_until ?stop (map fst ys))"
  define read where "read = (if stopped then called else called @ rest)"
  have "for_each_edge_condition Fine ?ts ?stop ds = Inr read"
    using it ys(1) by (simp add: for_each_edge_condition_def chain_reads_def read_def rest_def)
  then have u: "neighbours_until g q stop u = Inr (map edge_dst read)" using ds(1) by (simp add: neighbours_until_def)
  have r: "set rest \<subseteq> set (map fst ys)" "(\<exists>x \<in> set rest. ?stop x) \<longleftrightarrow> (\<exists>x \<in> set (map fst ys). ?stop x)"
    unfolding rest_def by (rule call_until_spec)+
  have es: "set es = set xs \<union> set (map fst ys)" using ys(2) by simp
  have sub: "set read \<subseteq> set es" using cs(2) r(1) es unfolding read_def by (cases stopped) auto
  have finds: "(\<exists>x \<in> set read. ?stop x) \<longleftrightarrow> (\<exists>x \<in> set es. ?stop x)"
  proof (cases stopped)
    case True
    then show ?thesis using cs(1,3) es unfolding read_def by auto
  next
    case False
    then have "set read = set called \<union> set rest" by (simp add: read_def)
    then show ?thesis using cs(3) r(2) es by (metis Un_iff)
  qed
  have "set (map edge_dst read) \<subseteq> set ns" using sub ds(3) by auto
  moreover have "(\<exists>y \<in> set (map edge_dst read). stop y) \<longleftrightarrow> (\<exists>x \<in> set ns. stop x)" using finds ds(3) by simp
  ultimately show ?thesis using u by blast
qed

end
