(* ===== verification/Algo_BFS.thy ===== *)
theory Algo_BFS
  imports Gap_Containers "HOL-Library.Signed_Division"
begin

text \<open>
  \<open>algorithm/BFS\<close>: direction-optimising breadth-first search. A level is found either top-down, by
  scanning the neighbours of the frontier, or bottom-up, by letting every unvisited vertex look for a
  neighbour in the frontier; \<open>alpha\<close> and \<open>beta\<close> steer the choice. Unvisited vertices have negative
  distances. The counters of \<open>stats_\<close> are left out.
\<close>

section \<open>The algorithm\<close>

definition int64_max :: int where
  "int64_max = 2 ^ 63 - 1"

definition degree_of :: "graph_store \<Rightarrow> epoch_t \<Rightarrow> nat \<Rightarrow> int res" where
  "degree_of g q n = bind_res (check_degree g n q) (\<lambda>d. Inr (uint d))"

definition init_distance :: "graph_store \<Rightarrow> epoch_t \<Rightarrow> (int list \<times> int) res" where
  "init_distance g q =
     bind_res (mapR (degree_of g q) [0..<gs_node_num g]) (\<lambda>degrees.
       Inr (map (\<lambda>d. if d = int64_max then d else if d \<noteq> 0 then - d else - 1) degrees,
            sum_list (filter (\<lambda>d. d \<noteq> int64_max) degrees) div 2))"

text \<open>The callback of the top-down step; the state is \<open>distances\<close>, the local queue and \<open>scout_count\<close>.\<close>

type_synonym td_state = "int list \<times> nat list \<times> int"

definition td_visit :: "int \<Rightarrow> nat \<Rightarrow> td_state \<Rightarrow> td_state res" where
  "td_visit distance dst s =
     (case s of (distances, lqueue, scout_count) \<Rightarrow>
        bind_res (vec_at distances dst) (\<lambda>curr_val.
          if curr_val < 0 then Inr (distances[dst := distance], lqueue @ [dst], scout_count + - curr_val)
          else Inr (distances, lqueue, scout_count)))"

definition td_vertex :: "graph_store \<Rightarrow> epoch_t \<Rightarrow> int \<Rightarrow> nat \<Rightarrow> td_state \<Rightarrow> td_state res" where
  "td_vertex g q distance u s = bind_res (neighbours g q u) (\<lambda>ns. foldR (td_visit distance) ns s)"

definition do_bfs_TDStep :: "graph_store \<Rightarrow> epoch_t \<Rightarrow> int \<Rightarrow> int list \<times> sliding_queue \<Rightarrow> (int list \<times> sliding_queue \<times> int) res" where
  "do_bfs_TDStep g q distance s =
     (case s of (distances, queue) \<Rightarrow>
        bind_res (foldR (td_vertex g q distance) (sq_window queue) (distances, [], 0)) (\<lambda>(distances, lqueue, scout_count).
        bind_res (qb_flush lqueue queue) (\<lambda>queue. Inr (distances, queue, scout_count))))"

text \<open>The loop body of the bottom-up step; the state is \<open>distances\<close>, \<open>next\<close> and \<open>awake_count\<close>.\<close>

type_synonym bu_state = "int list \<times> bitmap \<times> int"

definition in_front :: "bitmap \<Rightarrow> nat \<Rightarrow> bool" where
  "in_front front w \<longleftrightarrow> get_bit front w = Inr True"

definition bu_vertex :: "graph_store \<Rightarrow> epoch_t \<Rightarrow> int \<Rightarrow> bitmap \<Rightarrow> nat \<Rightarrow> bu_state \<Rightarrow> bu_state res" where
  "bu_vertex g q distance front u s =
     (case s of (distances, next_bits, awake_count) \<Rightarrow>
        bind_res (vec_at distances u) (\<lambda>du.
          if du = int64_max then Inr s
          else if du < 0 then
            bind_res (neighbours_until g q (in_front front) u) (\<lambda>ws.
            bind_res (mapR (get_bit front) ws) (\<lambda>found.
              if True \<in> set found then
                bind_res (set_bit_at u next_bits) (\<lambda>next_bits. Inr (distances[u := distance], next_bits, awake_count + 1))
              else Inr s))
          else Inr s))"

definition do_bfs_BUStep :: "graph_store \<Rightarrow> epoch_t \<Rightarrow> int \<Rightarrow> bitmap \<Rightarrow> bitmap \<Rightarrow> int list \<Rightarrow> bu_state res" where
  "do_bfs_BUStep g q distance front next_bits distances =
     foldR (bu_vertex g q distance front) [0..<gs_node_num g] (distances, bm_reset next_bits, 0)"

definition c_div :: "int \<Rightarrow> int \<Rightarrow> int res" where
  "c_div a b = (if b = 0 then Inl DivByZero else Inr (a sdiv b))"

text \<open>
  The \<open>do\<close> loop over bottom-up steps. \<open>None\<close> means that it never ends. The state is \<open>distances\<close>, the two
  bitmaps and \<open>distance\<close>.
\<close>

type_synonym bu_loop_state = "int list \<times> bitmap \<times> bitmap \<times> int"

partial_function (option) bu_loop :: "graph_store \<Rightarrow> epoch_t \<Rightarrow> int \<Rightarrow> int \<Rightarrow> int \<Rightarrow> bu_loop_state \<Rightarrow> bu_loop_state res option" where
  "bu_loop g q num_vertices beta awake_count s =
     (case s of (distances, front, next_bits, distance) \<Rightarrow>
        (case do_bfs_BUStep g q distance front next_bits distances of
           Inl f \<Rightarrow> Some (Inl f)
         | Inr (distances', next_bits', awake') \<Rightarrow>
             (case if awake' \<ge> awake_count then Inr True else bind_res (c_div num_vertices beta) (\<lambda>limit. Inr (awake' > limit)) of
                Inl f \<Rightarrow> Some (Inl f)
              | Inr again \<Rightarrow>
                  if again then bu_loop g q num_vertices beta awake' (distances', next_bits', front, distance + 1)
                  else Some (Inr (distances', next_bits', front, distance + 1)))))"

text \<open>The variables of the main loop.\<close>

record bfs_vars =
  bv_distances :: "int list"
  bv_queue :: sliding_queue
  bv_front :: bitmap
  bv_curr :: bitmap
  bv_distance :: int
  bv_scout :: int
  bv_edges :: int

definition queue_to_bitmap :: "sliding_queue \<Rightarrow> bitmap \<Rightarrow> bitmap res" where
  "queue_to_bitmap queue front = foldR set_bit_at (sq_window queue) front"

definition bitmap_to_queue :: "graph_store \<Rightarrow> bitmap \<Rightarrow> sliding_queue \<Rightarrow> sliding_queue res" where
  "bitmap_to_queue g front queue =
     bind_res (mapR (get_bit front) [0..<gs_node_num g]) (\<lambda>bits.
       qb_flush (map fst (filter snd (zip [0..<gs_node_num g] bits))) queue)"

definition top_down :: "graph_store \<Rightarrow> epoch_t \<Rightarrow> bfs_vars \<Rightarrow> bfs_vars res" where
  "top_down g q x =
     bind_res (do_bfs_TDStep g q (bv_distance x) (bv_distances x, bv_queue x)) (\<lambda>(distances, queue, scout_count).
       Inr (x\<lparr>bv_distances := distances, bv_queue := slide_window queue, bv_distance := bv_distance x + 1,
              bv_scout := scout_count, bv_edges := bv_edges x - bv_scout x\<rparr>))"

definition bottom_up :: "graph_store \<Rightarrow> epoch_t \<Rightarrow> int \<Rightarrow> int \<Rightarrow> bfs_vars \<Rightarrow> bfs_vars res option" where
  "bottom_up g q num_vertices beta x =
     (case queue_to_bitmap (bv_queue x) (bv_front x) of
        Inl f \<Rightarrow> Some (Inl f)
      | Inr front \<Rightarrow>
          (case bu_loop g q num_vertices beta (int (sq_count (bv_queue x))) (bv_distances x, front, bv_curr x, bv_distance x) of
             None \<Rightarrow> None
           | Some r \<Rightarrow> Some (bind_res r (\<lambda>(distances, front, next_bits, distance).
               bind_res (bitmap_to_queue g front (slide_window (bv_queue x))) (\<lambda>queue.
                 Inr (x\<lparr>bv_distances := distances, bv_queue := slide_window queue, bv_front := front,
                        bv_curr := next_bits, bv_distance := distance, bv_scout := 1\<rparr>))))))"

partial_function (option) bfs_loop :: "graph_store \<Rightarrow> epoch_t \<Rightarrow> int \<Rightarrow> int \<Rightarrow> int \<Rightarrow> bfs_vars \<Rightarrow> bfs_vars res option" where
  "bfs_loop g q num_vertices alpha beta x =
     (if sq_empty (bv_queue x) then Some (Inr x)
      else case c_div (bv_edges x) alpha of
        Inl f \<Rightarrow> Some (Inl f)
      | Inr limit \<Rightarrow>
          if bv_scout x > limit then
            (case bottom_up g q num_vertices beta x of
               None \<Rightarrow> None
             | Some (Inl f) \<Rightarrow> Some (Inl f)
             | Some (Inr y) \<Rightarrow> bfs_loop g q num_vertices alpha beta y)
          else
            (case top_down g q x of
               Inl f \<Rightarrow> Some (Inl f)
             | Inr y \<Rightarrow> bfs_loop g q num_vertices alpha beta y))"

declare bu_loop.simps [code] bfs_loop.simps [code]

text \<open>\<open>num_vertices\<close> is the number of vertices when the \<open>BFS\<close> object was made.\<close>

definition bfs_start :: "graph_store \<Rightarrow> epoch_t \<Rightarrow> nat \<Rightarrow> bfs_vars res" where
  "bfs_start g q root =
     bind_res (sq_push_back root (SlidingQueue_new (gs_node_num g))) (\<lambda>queue.
     bind_res (init_distance g q) (\<lambda>(distances, edges_to_check).
     bind_res (degree_of g q root) (\<lambda>scout_count.
     bind_res (vec_at distances root) (\<lambda>_.
       Inr \<lparr>bv_distances = distances[root := 0], bv_queue = slide_window queue, bv_front = bm_reset (bm_new (gs_node_num g)),
            bv_curr = bm_reset (bm_new (gs_node_num g)), bv_distance = 1, bv_scout = scout_count, bv_edges = edges_to_check\<rparr>))))"

definition bfs :: "graph_store \<Rightarrow> epoch_t \<Rightarrow> nat \<Rightarrow> nat \<Rightarrow> int \<Rightarrow> int \<Rightarrow> int list res option" where
  "bfs g q num_vertices root alpha beta =
     (case bfs_start g q root of
        Inl f \<Rightarrow> Some (Inl f)
      | Inr x \<Rightarrow> map_option (\<lambda>r. bind_res r (\<lambda>y. Inr (bv_distances y))) (bfs_loop g q (int num_vertices) alpha beta x))"

definition bfs_pair :: "graph_store option \<Rightarrow> int list \<Rightarrow> nat \<Rightarrow> (dst_t \<times> int) res" where
  "bfs_pair MEA distances i =
     (case MEA of
        Some h \<Rightarrow>
          if i < gs_node_num h then bind_res (vec_at (gs_pmap h) i) (\<lambda>k. Inr (k, distances ! i))
          else if distances ! i = int64_max then Inr (- 1, int64_max) else Inr (of_nat i, distances ! i)
      | None \<Rightarrow> if distances ! i = int64_max then Inr (- 1, int64_max) else Inr (of_nat i, distances ! i))"

definition bfs_result :: "graph_store option \<Rightarrow> int list \<Rightarrow> (dst_t \<times> int) list res" where
  "bfs_result MEA distances = mapR (bfs_pair MEA distances) [0..<length distances]"

section \<open>Levels\<close>

definition level :: "nat list list \<Rightarrow> nat \<Rightarrow> nat \<Rightarrow> nat set" where
  "level adj r k = {v. (r, v) \<in> edges_of adj ^^ k \<and> (\<forall>j < k. (r, v) \<notin> edges_of adj ^^ j)}"

definition known :: "nat list list \<Rightarrow> nat \<Rightarrow> nat \<Rightarrow> nat set" where
  "known adj r k = {v. \<exists>j \<le> k. (r, v) \<in> edges_of adj ^^ j}"

definition hops :: "nat list list \<Rightarrow> nat \<Rightarrow> nat \<Rightarrow> nat" where
  "hops adj r v = (LEAST j. (r, v) \<in> edges_of adj ^^ j)"

lemma level_known: "level adj r k \<subseteq> known adj r k"
  by (auto simp: level_def known_def)

lemma level_hops: "v \<in> level adj r k \<Longrightarrow> hops adj r v = k"
  unfolding level_def hops_def mem_Collect_eq by (rule Least_equality) (blast intro: leI)+

lemma known_mono: "j \<le> k \<Longrightarrow> known adj r j \<subseteq> known adj r k"
  unfolding known_def using le_trans by blast

lemma known_Suc: "known adj r (Suc k) = known adj r k \<union> level adj r (Suc k)"
proof (rule set_eqI)
  fix v
  have "v \<in> known adj r (Suc k) \<longleftrightarrow> v \<in> known adj r k \<or> (r, v) \<in> edges_of adj ^^ Suc k"
    unfolding known_def mem_Collect_eq le_Suc_eq by blast
  then show "v \<in> known adj r (Suc k) \<longleftrightarrow> v \<in> known adj r k \<union> level adj r (Suc k)"
    unfolding known_def level_def Un_iff mem_Collect_eq less_Suc_eq_le by blast
qed

lemma known_disjoint: "level adj r (Suc k) \<inter> known adj r k = {}"
  unfolding known_def level_def less_Suc_eq_le by blast

lemma known_step: "u \<in> known adj r k \<Longrightarrow> (u, v) \<in> edges_of adj \<Longrightarrow> v \<in> known adj r (Suc k)"
  unfolding known_def mem_Collect_eq by (meson Suc_le_mono relpow_Suc_I)

lemma level_Suc: "level adj r (Suc k) = (edges_of adj `` level adj r k) - known adj r k"
proof (rule set_eqI)
  fix v
  show "v \<in> level adj r (Suc k) \<longleftrightarrow> v \<in> (edges_of adj `` level adj r k) - known adj r k"
  proof
    assume v: "v \<in> level adj r (Suc k)"
    then obtain u where u: "(r, u) \<in> edges_of adj ^^ k" "(u, v) \<in> edges_of adj" by (auto simp: level_def elim: relpow_Suc_E)
    have "(r, u) \<notin> edges_of adj ^^ j" if "j < k" for j
      using v u(2) that relpow_Suc_I [of r u j "edges_of adj" v] by (auto simp: level_def)
    then have "u \<in> level adj r k" using u(1) by (simp add: level_def)
    then show "v \<in> (edges_of adj `` level adj r k) - known adj r k" using u(2) v known_disjoint by blast
  next
    assume v: "v \<in> (edges_of adj `` level adj r k) - known adj r k"
    then obtain u where u: "u \<in> level adj r k" "(u, v) \<in> edges_of adj" by blast
    have "v \<in> known adj r (Suc k)" using known_step [of u adj r k v] u level_known by blast
    then show "v \<in> level adj r (Suc k)" using v known_Suc by blast
  qed
qed

lemma level_0: "level adj r 0 = {r}" "known adj r 0 = {r}"
  by (auto simp: level_def known_def)

lemma level_range: "in_range adj \<Longrightarrow> r < length adj \<Longrightarrow> level adj r k \<subseteq> {..<length adj}"
proof (cases k)
  case (Suc j)
  assume "in_range adj"
  then show ?thesis unfolding Suc level_Suc by (auto simp: edges_of_def in_range_def)
qed (simp add: level_0)

lemma closed_when_empty:
  assumes "level adj r k = {}" "(r, v) \<in> (edges_of adj)\<^sup>*"
  shows "v \<in> known adj r k"
  using assms(2)
proof (induction rule: rtrancl_induct)
  case base
  have "(r, r) \<in> edges_of adj ^^ 0" by simp
  then show ?case unfolding known_def by blast
next
  case (step y z)
  have "level adj r (Suc k) = {}" using assms(1) by (simp add: level_Suc)
  then show ?case using known_step [OF step.IH step.hyps(2)] by (simp add: known_Suc)
qed

section \<open>The distances after \<open>k\<close> levels\<close>

definition labelled :: "nat list list \<Rightarrow> nat \<Rightarrow> nat \<Rightarrow> int list \<Rightarrow> bool" where
  "labelled adj r k d \<longleftrightarrow> length d = length adj \<and>
     (\<forall>v < length adj. if v \<in> known adj r k then d ! v = int (hops adj r v) else d ! v < 0)"

text \<open>The distances \<open>d0\<close> with those of the vertices in \<open>X\<close> set to \<open>k + 1\<close>.\<close>

definition relabelled :: "nat list list \<Rightarrow> nat \<Rightarrow> int list \<Rightarrow> nat set \<Rightarrow> int list \<Rightarrow> bool" where
  "relabelled adj k d0 X d \<longleftrightarrow> length d = length adj \<and>
     (\<forall>v < length adj. d ! v = (if v \<in> X then int (Suc k) else d0 ! v))"

lemma relabelled_level:
  assumes "labelled adj r k d0" "relabelled adj k d0 (level adj r (Suc k)) d"
  shows "labelled adj r (Suc k) d"
  using assms level_hops [of _ adj r "Suc k"] known_disjoint [of adj r k]
  by (auto simp: labelled_def relabelled_def known_Suc)

lemma relabelled_refl: "labelled adj r k d0 \<Longrightarrow> relabelled adj k d0 {} d0"
  by (simp add: labelled_def relabelled_def)

lemma relabelled_negative:
  assumes "labelled adj r k d0" "relabelled adj k d0 X d" "v < length adj"
  shows "d ! v < 0 \<longleftrightarrow> v \<notin> X \<and> v \<notin> known adj r k"
  using assms by (auto simp: labelled_def relabelled_def)

lemma relabelled_write:
  "relabelled adj k d0 X d \<Longrightarrow> v < length adj \<Longrightarrow> relabelled adj k d0 (insert v X) (d[v := int (Suc k)])"
  by (auto simp: relabelled_def nth_list_update)

section \<open>A top-down step\<close>

definition td_inv :: "nat list list \<Rightarrow> nat \<Rightarrow> nat \<Rightarrow> int list \<Rightarrow> nat set \<Rightarrow> td_state \<Rightarrow> bool" where
  "td_inv adj r k d0 X s \<longleftrightarrow> (case s of (d, lq, sc) \<Rightarrow> relabelled adj k d0 X d \<and> distinct lq \<and> set lq = X)"

lemma td_visit_inv:
  assumes lab: "labelled adj r k d0" and s: "td_inv adj r k d0 X s" and v: "v < length adj"
  shows "\<exists>s'. td_visit (int (Suc k)) v s = Inr s' \<and> td_inv adj r k d0 (X \<union> ({v} - known adj r k)) s'"
proof -
  obtain d lq sc where d: "s = (d, lq, sc)" by (cases s)
  have rel: "relabelled adj k d0 X d" "distinct lq" "set lq = X" using s d by (simp_all add: td_inv_def)
  have len: "length d = length adj" using rel(1) by (simp add: relabelled_def)
  show ?thesis
  proof (cases "d ! v < 0")
    case True
    then have n: "v \<notin> X" "v \<notin> known adj r k" using relabelled_negative [OF lab rel(1) v] by simp_all
    then have "X \<union> ({v} - known adj r k) = insert v X" by blast
    then show ?thesis using True d len v rel(2,3) n relabelled_write [OF rel(1) v] by (simp add: td_visit_def td_inv_def)
  next
    case False
    then have "v \<in> X \<or> v \<in> known adj r k" using relabelled_negative [OF lab rel(1) v] by simp
    then have "X \<union> ({v} - known adj r k) = X" by blast
    then show ?thesis using False d len v s by (simp add: td_visit_def)
  qed
qed

lemma reads_set:
  assumes "reads_as g q adj" "u < length adj"
  shows "\<exists>ns. neighbours g q u = Inr ns \<and> set ns = set (adj ! u)"
  using assms unfolding reads_as_def by (metis mset_eq_setD)

lemma td_vertex_inv:
  assumes g: "reads_as g q adj" and range: "in_range adj" and lab: "labelled adj r k d0"
    and s: "td_inv adj r k d0 X s" and u: "u < length adj"
  shows "\<exists>s'. td_vertex g q (int (Suc k)) u s = Inr s' \<and> td_inv adj r k d0 (X \<union> (set (adj ! u) - known adj r k)) s'"
proof -
  obtain ns where ns: "neighbours g q u = Inr ns" "set ns = set (adj ! u)" using reads_set [OF g u] by blast
  have "v < length adj" if "v \<in> set ns" for v using that ns(2) u range by (auto simp: in_range_def)
  then have "\<exists>s'. foldR (td_visit (int (Suc k))) ns s = Inr s' \<and>
      td_inv adj r k d0 (X \<union> (\<Union>v \<in> set ns. {v} - known adj r k)) s'"
    using s td_visit_inv [OF lab] by (intro foldR_collect [where P = "td_inv adj r k d0" and F = "\<lambda>v. {v} - known adj r k"]) blast+
  moreover have "(\<Union>v \<in> set ns. {v} - known adj r k) = set (adj ! u) - known adj r k" using ns(2) by blast
  ultimately show ?thesis using ns(1) by (simp add: td_vertex_def)
qed

text \<open>The frontier of the queue and what else the queue holds.\<close>

definition frontier_queue :: "nat list list \<Rightarrow> nat \<Rightarrow> nat \<Rightarrow> sliding_queue \<Rightarrow> bool" where
  "frontier_queue adj r k queue \<longleftrightarrow> sq_ok queue \<and> sq_size queue = length adj \<and> set (sq_window queue) = level adj r k \<and>
     set (sq_shared queue) \<subseteq> known adj r k"

lemma frontier_flush:
  assumes q: "sq_ok queue" "sq_size queue = length adj" "set (sq_shared queue) \<subseteq> known adj r j"
    and xs: "distinct xs" "set xs = level adj r k" "j < k" and range: "in_range adj" "r < length adj"
  shows "\<exists>queue'. qb_flush xs queue = Inr queue' \<and> frontier_queue adj r k (slide_window queue')"
proof -
  obtain i where i: "k = Suc i" "j \<le> i" using xs(3) by (cases k) auto
  have "set xs \<inter> set (sq_shared queue) = {}"
    using q(3) xs(2) known_mono [OF i(2), of adj r] known_disjoint [of adj r i] unfolding i(1) by blast
  moreover have "\<forall>x \<in> set xs. x < sq_size queue" using level_range [OF range, of k] xs(2) q(2) by auto
  ultimately obtain queue' where q': "qb_flush xs queue = Inr queue'" "sq_ok (slide_window queue')"
    "sq_window (slide_window queue') = xs" "set (sq_shared (slide_window queue')) = set (sq_shared queue) \<union> set xs"
    "sq_size (slide_window queue') = sq_size queue"
    using flush_window [OF q(1) xs(1)] by blast
  have "known adj r j \<subseteq> known adj r k" using xs(3) by (intro known_mono) simp
  then have "set (sq_shared (slide_window queue')) \<subseteq> known adj r k" using q'(4) q(3) xs(2) level_known [of adj r k] by blast
  then show ?thesis using q' q(2) xs(2) unfolding frontier_queue_def by auto
qed

lemma TDStep_level:
  assumes g: "reads_as g q adj" and range: "in_range adj" "r < length adj" and lab: "labelled adj r k d0"
    and fq: "frontier_queue adj r k queue"
  shows "\<exists>d queue' sc. do_bfs_TDStep g q (int (Suc k)) (d0, queue) = Inr (d, queue', sc) \<and>
    labelled adj r (Suc k) d \<and> frontier_queue adj r (Suc k) (slide_window queue')"
proof -
  have w: "set (sq_window queue) = level adj r k" using fq by (simp add: frontier_queue_def)
  have s0: "td_inv adj r k d0 {} (d0, [], 0)" using relabelled_refl [OF lab] by (simp add: td_inv_def)
  have u: "u < length adj" if "u \<in> set (sq_window queue)" for u using that w level_range [OF range, of k] by auto
  obtain s where s: "foldR (td_vertex g q (int (Suc k))) (sq_window queue) (d0, [], 0) = Inr s"
    "td_inv adj r k d0 ({} \<union> (\<Union>u \<in> set (sq_window queue). set (adj ! u) - known adj r k)) s"
    using foldR_collect [where P = "td_inv adj r k d0" and F = "\<lambda>u. set (adj ! u) - known adj r k" and
        f = "td_vertex g q (int (Suc k))" and xs = "sq_window queue", OF s0] td_vertex_inv [OF g range(1) lab] u by blast
  have X: "(\<Union>u \<in> set (sq_window queue). set (adj ! u) - known adj r k) = level adj r (Suc k)"
    using w u by (auto simp: level_Suc edges_of_def)
  obtain d lq sc where d: "s = (d, lq, sc)" by (cases s)
  have rel: "relabelled adj k d0 (level adj r (Suc k)) d" "distinct lq" "set lq = level adj r (Suc k)"
    using s(2) d X by (simp_all add: td_inv_def)
  obtain queue' where q': "qb_flush lq queue = Inr queue'" "frontier_queue adj r (Suc k) (slide_window queue')"
    using frontier_flush [of queue adj r k lq "Suc k"] fq rel(2,3) range by (auto simp: frontier_queue_def)
  then have "do_bfs_TDStep g q (int (Suc k)) (d0, queue) = Inr (d, queue', sc)" using s(1) d by (simp add: do_bfs_TDStep_def)
  then show ?thesis using relabelled_level [OF lab rel(1)] q'(2) by blast
qed

section \<open>A bottom-up step\<close>

definition bu_inv :: "nat list list \<Rightarrow> nat \<Rightarrow> int list \<Rightarrow> nat set \<Rightarrow> bu_state \<Rightarrow> bool" where
  "bu_inv adj k d0 X s \<longleftrightarrow>
     (case s of (d, nb, aw) \<Rightarrow> relabelled adj k d0 X d \<and> bm_fits (length adj) nb \<and> bm_set nb = X \<and> finite X \<and> aw = int (card X))"

text \<open>The bits a bottom-up step starts from: the frontier, and perhaps vertices of earlier levels.\<close>

definition front_ok :: "nat list list \<Rightarrow> nat \<Rightarrow> nat \<Rightarrow> bitmap \<Rightarrow> bool" where
  "front_ok adj r k front \<longleftrightarrow> bm_fits (length adj) front \<and> level adj r k \<subseteq> bm_set front \<and> bm_set front \<subseteq> known adj r k"

lemma front_neighbour:
  assumes sym: "symmetric adj" and u: "u < length adj" "u \<notin> known adj r k" and range: "in_range adj" and f: "front_ok adj r k front"
  shows "(\<exists>w \<in> set (adj ! u). w \<in> bm_set front) \<longleftrightarrow> u \<in> level adj r (Suc k)"
proof
  assume "\<exists>w \<in> set (adj ! u). w \<in> bm_set front"
  then obtain w where w: "w \<in> set (adj ! u)" "w \<in> bm_set front" by blast
  have "w < length adj" using w(1) u(1) range by (auto simp: in_range_def)
  then have "(w, u) \<in> edges_of adj" using w(1) u(1) sym by (simp add: edges_of_def symmetric_def)
  moreover have "w \<in> known adj r k" using w(2) f by (auto simp: front_ok_def)
  ultimately have "u \<in> known adj r (Suc k)" using known_step by blast
  then show "u \<in> level adj r (Suc k)" using u(2) by (simp add: known_Suc)
next
  assume "u \<in> level adj r (Suc k)"
  then obtain w where w: "w \<in> level adj r k" "(w, u) \<in> edges_of adj" by (auto simp: level_Suc)
  then have "w \<in> set (adj ! u)" using sym by (simp add: edges_of_def symmetric_def)
  then show "\<exists>w \<in> set (adj ! u). w \<in> bm_set front" using w(1) f by (auto simp: front_ok_def)
qed

lemma mapR_get_bit: "bm_fits n b \<Longrightarrow> \<forall>x \<in> set xs. x < n \<Longrightarrow> mapR (get_bit b) xs = Inr (map (\<lambda>x. x \<in> bm_set b) xs)"
  by (rule mapR_ok) (simp add: get_bit_ok)

lemma bu_vertex_inv:
  assumes g: "reads_as g q adj" and range: "in_range adj" and sym: "symmetric adj" and lab: "labelled adj r k d0"
    and f: "front_ok adj r k front" and s: "bu_inv adj k d0 X s" and u: "u < length adj"
  shows "\<exists>s'. bu_vertex g q (int (Suc k)) front u s = Inr s' \<and> bu_inv adj k d0 (X \<union> ({u} \<inter> level adj r (Suc k))) s'"
proof -
  obtain d nb aw where d: "s = (d, nb, aw)" by (cases s)
  have rel: "relabelled adj k d0 X d" "bm_fits (length adj) nb" "bm_set nb = X" "finite X" "aw = int (card X)"
    using s d by (simp_all add: bu_inv_def)
  have len: "length d = length adj" using rel(1) by (simp add: relabelled_def)
  have neg: "d ! u < 0 \<longleftrightarrow> u \<notin> X \<and> u \<notin> known adj r k" by (rule relabelled_negative [OF lab rel(1) u])
  show ?thesis
  proof (cases "d ! u < 0")
    case False
    then have "X \<union> ({u} \<inter> level adj r (Suc k)) = X" using neg known_disjoint [of adj r k] by blast
    then show ?thesis using False d len u s by (simp add: bu_vertex_def)
  next
    case True
    then have n: "u \<notin> X" "u \<notin> known adj r k" using neg by simp_all
    obtain ns where ns: "neighbours g q u = Inr ns" "set ns = set (adj ! u)" using reads_set [OF g u] by blast
    obtain ys where ys: "neighbours_until g q (in_front front) u = Inr ys" "set ys \<subseteq> set ns"
      "(\<exists>y \<in> set ys. in_front front y) \<longleftrightarrow> (\<exists>x \<in> set ns. in_front front x)"
      using neighbours_until_finds [OF ns(1), of "in_front front"] by blast
    have fits: "bm_fits (length adj) front" using f by (simp add: front_ok_def)
    have "x < length adj" if "x \<in> set (adj ! u)" for x using that u range by (auto simp: in_range_def)
    then have "\<forall>y \<in> set ys. y < length adj" using ys(2) ns(2) by blast
    then have bits: "mapR (get_bit front) ys = Inr (map (\<lambda>x. x \<in> bm_set front) ys)" by (rule mapR_get_bit [OF fits])
    have infr: "in_front front x \<longleftrightarrow> x \<in> bm_set front" for x by (simp add: in_front_def bm_set_def)
    have hit: "True \<in> set (map (\<lambda>x. x \<in> bm_set front) ys) \<longleftrightarrow> u \<in> level adj r (Suc k)"
      using ys(3) ns(2) front_neighbour [OF sym u n(2) range f] unfolding infr by auto
    have i64: "d ! u \<noteq> int64_max" using True by (simp add: int64_max_def)
    show ?thesis
    proof (cases "u \<in> level adj r (Suc k)")
      case False
      then have "X \<union> ({u} \<inter> level adj r (Suc k)) = X" by blast
      then show ?thesis using False True d len u s i64 ys(1) bits hit by (simp add: bu_vertex_def)
    next
      case lev: True
      then have X: "X \<union> ({u} \<inter> level adj r (Suc k)) = insert u X" by blast
      obtain nb' where nb': "set_bit_at u nb = Inr nb'" "bm_fits (length adj) nb'" "bm_set nb' = insert u X"
        using set_bit_at_ok [OF rel(2) u] rel(3) by auto
      have "bu_vertex g q (int (Suc k)) front u s = Inr (d[u := int (Suc k)], nb', aw + 1)"
        using lev True d len u i64 ys(1) bits hit nb'(1) by (simp add: bu_vertex_def)
      moreover have "bu_inv adj k d0 (insert u X) (d[u := int (Suc k)], nb', aw + 1)"
        using nb' rel(4,5) n(1) relabelled_write [OF rel(1) u] by (simp add: bu_inv_def)
      ultimately show ?thesis using X by auto
    qed
  qed
qed

lemma BUStep_level:
  assumes g: "reads_as g q adj" and range: "in_range adj" "r < length adj" and sym: "symmetric adj"
    and lab: "labelled adj r k d0" and f: "front_ok adj r k front" and nb: "bm_fits (length adj) nb0"
  shows "\<exists>d nb aw. do_bfs_BUStep g q (int (Suc k)) front nb0 d0 = Inr (d, nb, aw) \<and> labelled adj r (Suc k) d \<and>
    bm_fits (length adj) nb \<and> bm_set nb = level adj r (Suc k) \<and> aw = int (card (level adj r (Suc k)))"
proof -
  have n: "gs_node_num g = length adj" using g by (simp add: reads_as_def)
  have s0: "bu_inv adj k d0 {} (d0, bm_reset nb0, 0)" using relabelled_refl [OF lab] nb by (simp add: bu_inv_def)
  have "\<exists>s. foldR (bu_vertex g q (int (Suc k)) front) [0..<length adj] (d0, bm_reset nb0, 0) = Inr s \<and>
      bu_inv adj k d0 ({} \<union> (\<Union>u \<in> set [0..<length adj]. {u} \<inter> level adj r (Suc k))) s"
    using bu_vertex_inv [OF g range(1) sym lab f]
    by (intro foldR_collect [where P = "bu_inv adj k d0" and F = "\<lambda>u. {u} \<inter> level adj r (Suc k)", OF s0]) simp
  moreover have "(\<Union>u \<in> set [0..<length adj]. {u} \<inter> level adj r (Suc k)) = level adj r (Suc k)"
    using level_range [OF range, of "Suc k"] by auto
  ultimately obtain s where s: "foldR (bu_vertex g q (int (Suc k)) front) [0..<length adj] (d0, bm_reset nb0, 0) = Inr s"
    "bu_inv adj k d0 (level adj r (Suc k)) s" by auto
  obtain d nb aw where d: "s = (d, nb, aw)" by (cases s)
  have "labelled adj r (Suc k) d" using s(2) d relabelled_level [OF lab] by (simp add: bu_inv_def)
  then show ?thesis using s d n by (simp add: do_bfs_BUStep_def bu_inv_def)
qed

section \<open>The loops\<close>

text \<open>The number of vertices not yet visited after \<open>k\<close> levels.\<close>

definition unvisited :: "nat list list \<Rightarrow> nat \<Rightarrow> nat \<Rightarrow> nat" where
  "unvisited adj r k = card ({..<length adj} - known adj r k)"

lemma unvisited_less:
  assumes "in_range adj" "r < length adj" "level adj r k \<noteq> {}" "j < k"
  shows "unvisited adj r k < unvisited adj r j"
proof -
  obtain i where i: "k = Suc i" "j \<le> i" using assms(4) by (cases k) auto
  have k: "known adj r j \<subseteq> known adj r i" by (rule known_mono [OF i(2)])
  obtain v where v: "v \<in> level adj r k" using assms(3) by blast
  then have "v < length adj" "v \<notin> known adj r i" "v \<in> known adj r k"
    using level_range [OF assms(1,2), of k] known_disjoint [of adj r i] level_known [of adj r k] i(1) by auto
  moreover have "known adj r i \<subseteq> known adj r k" using known_mono [of i k] i(1) by simp
  ultimately have "{..<length adj} - known adj r k \<subset> {..<length adj} - known adj r j" using k by blast
  then show ?thesis unfolding unvisited_def by (intro psubset_card_mono) simp_all
qed

lemma c_div_pos: "0 < b \<Longrightarrow> 0 \<le> a \<Longrightarrow> \<exists>c. c_div a b = Inr c \<and> 0 \<le> c"
  by (cases "a = 0") (simp_all add: c_div_def signed_divide_int_def pos_imp_zdiv_nonneg_iff)

lemma bu_loop_levels:
  assumes g: "reads_as g q adj" and range: "in_range adj" "r < length adj" and sym: "symmetric adj" and pos: "0 < beta" "0 \<le> nv"
  shows "labelled adj r k d \<Longrightarrow> front_ok adj r k front \<Longrightarrow> bm_fits (length adj) nb \<Longrightarrow> 1 \<le> aw \<Longrightarrow>
    \<exists>k' d' front' nb'. bu_loop g q nv beta aw (d, front, nb, int (Suc k)) = Some (Inr (d', front', nb', int (Suc k'))) \<and>
      k < k' \<and> labelled adj r k' d' \<and> bm_fits (length adj) front' \<and> bm_set front' = level adj r k' \<and> bm_fits (length adj) nb'"
proof (induction "unvisited adj r k" arbitrary: k d front nb aw rule: less_induct)
  case less
  obtain d1 nb1 aw1 where s1: "do_bfs_BUStep g q (int (Suc k)) front nb d = Inr (d1, nb1, aw1)" "labelled adj r (Suc k) d1"
    "bm_fits (length adj) nb1" "bm_set nb1 = level adj r (Suc k)" "aw1 = int (card (level adj r (Suc k)))"
    using BUStep_level [OF g range sym less.prems(1-3)] by blast
  have fits: "bm_fits (length adj) front" using less.prems(2) by (simp add: front_ok_def)
  obtain limit where lim: "c_div nv beta = Inr limit" "0 \<le> limit" using c_div_pos [OF pos] by blast
  have ds: "int (Suc k) + 1 = int (Suc (Suc k))" by simp
  have unfold: "bu_loop g q nv beta aw (d, front, nb, int (Suc k)) =
    (if aw1 \<ge> aw \<or> aw1 > limit then bu_loop g q nv beta aw1 (d1, nb1, front, int (Suc (Suc k)))
     else Some (Inr (d1, nb1, front, int (Suc (Suc k)))))"
    by (subst bu_loop.simps) (simp add: s1(1) lim(1) ds del: of_nat_Suc)
  show ?case
  proof (cases "aw1 \<ge> aw \<or> aw1 > limit")
    case True
    then have "1 \<le> aw1" using less.prems(4) lim(2) by linarith
    moreover from this have "level adj r (Suc k) \<noteq> {}" using s1(5) by auto
    then have "unvisited adj r (Suc k) < unvisited adj r k" by (intro unvisited_less [OF range]) simp_all
    moreover have "front_ok adj r (Suc k) nb1" using s1(3,4) level_known by (simp add: front_ok_def)
    ultimately obtain k' d' front' nb' where IH: "bu_loop g q nv beta aw1 (d1, nb1, front, int (Suc (Suc k))) =
        Some (Inr (d', front', nb', int (Suc k')))"
      "Suc k < k'" "labelled adj r k' d'" "bm_fits (length adj) front'" "bm_set front' = level adj r k'" "bm_fits (length adj) nb'"
      using less.hyps [of "Suc k" d1 nb1 front aw1] s1(2) fits by blast
    then show ?thesis using unfold True Suc_lessD [OF IH(2)] by auto
  next
    case False
    then have "bu_loop g q nv beta aw (d, front, nb, int (Suc k)) = Some (Inr (d1, nb1, front, int (Suc (Suc k))))"
      using unfold by simp
    then show ?thesis using s1(2-4) fits by blast
  qed
qed

definition bfs_inv :: "nat list list \<Rightarrow> nat \<Rightarrow> nat \<Rightarrow> bfs_vars \<Rightarrow> bool" where
  "bfs_inv adj r k x \<longleftrightarrow> labelled adj r k (bv_distances x) \<and> frontier_queue adj r k (bv_queue x) \<and>
     bm_fits (length adj) (bv_front x) \<and> bm_set (bv_front x) \<subseteq> known adj r k \<and> bm_fits (length adj) (bv_curr x) \<and>
     bv_distance x = int (Suc k)"

lemma top_down_level:
  assumes g: "reads_as g q adj" and range: "in_range adj" "r < length adj" and x: "bfs_inv adj r k x"
  shows "\<exists>y. top_down g q x = Inr y \<and> bfs_inv adj r (Suc k) y"
proof -
  obtain d queue sc where st: "do_bfs_TDStep g q (int (Suc k)) (bv_distances x, bv_queue x) = Inr (d, queue, sc)"
    "labelled adj r (Suc k) d" "frontier_queue adj r (Suc k) (slide_window queue)"
    using TDStep_level [OF g range, of k "bv_distances x" "bv_queue x"] x by (auto simp: bfs_inv_def)
  have "bm_set (bv_front x) \<subseteq> known adj r (Suc k)" using x known_mono [of k "Suc k" adj r] by (auto simp: bfs_inv_def)
  then show ?thesis using st x by (simp add: top_down_def bfs_inv_def)
qed

lemma queue_to_bitmap_ok:
  assumes "bm_fits n b" "\<forall>x \<in> set (sq_window queue). x < n"
  shows "\<exists>b'. queue_to_bitmap queue b = Inr b' \<and> bm_fits n b' \<and> bm_set b' = bm_set b \<union> set (sq_window queue)"
proof -
  let ?P = "\<lambda>X b'. bm_fits n b' \<and> bm_set b' = bm_set b \<union> X"
  have "\<exists>s'. set_bit_at x s = Inr s' \<and> ?P (X \<union> {x}) s'" if "x \<in> set (sq_window queue)" "?P X s" for x X s
    using set_bit_at_ok [of n s x] that assms(2) by auto
  then have "\<exists>b'. foldR set_bit_at (sq_window queue) b = Inr b' \<and> ?P ({} \<union> (\<Union>x \<in> set (sq_window queue). {x})) b'"
    using assms(1) by (intro foldR_collect [where P = ?P]) auto
  then show ?thesis by (simp add: queue_to_bitmap_def)
qed

lemma filter_zip_map: "map fst (filter snd (zip xs (map P xs))) = filter P xs"
  by (induction xs) auto

lemma bottom_up_levels:
  assumes g: "reads_as g q adj" and range: "in_range adj" "r < length adj" and sym: "symmetric adj" and pos: "0 < beta" "0 \<le> nv"
    and x: "bfs_inv adj r k x" and ne: "\<not> sq_empty (bv_queue x)"
  shows "\<exists>y k'. bottom_up g q nv beta x = Some (Inr y) \<and> k < k' \<and> bfs_inv adj r k' y"
proof -
  have n: "gs_node_num g = length adj" using g by (simp add: reads_as_def)
  have fq: "sq_ok (bv_queue x)" "sq_size (bv_queue x) = length adj" "set (sq_window (bv_queue x)) = level adj r k"
    "set (sq_shared (bv_queue x)) \<subseteq> known adj r k"
    using x by (simp_all add: bfs_inv_def frontier_queue_def)
  have w: "\<forall>v \<in> set (sq_window (bv_queue x)). v < length adj" using level_range [OF range, of k] fq(3) by auto
  obtain front where fr: "queue_to_bitmap (bv_queue x) (bv_front x) = Inr front" "bm_fits (length adj) front"
    "bm_set front = bm_set (bv_front x) \<union> level adj r k"
    using queue_to_bitmap_ok [OF _ w, of "bv_front x"] x fq(3) by (auto simp: bfs_inv_def)
  have fok: "front_ok adj r k front" using fr(2,3) x level_known [of adj r k] by (auto simp: front_ok_def bfs_inv_def)
  have "1 \<le> int (sq_count (bv_queue x))"
    using ne sq_empty_iff [OF fq(1)] sq_count_window [OF fq(1)] by (cases "sq_window (bv_queue x)") auto
  then obtain k' d' front' nb' where lp: "bu_loop g q nv beta (int (sq_count (bv_queue x))) (bv_distances x, front, bv_curr x, int (Suc k)) =
      Some (Inr (d', front', nb', int (Suc k')))" "k < k'" "labelled adj r k' d'" "bm_fits (length adj) front'"
    "bm_set front' = level adj r k'" "bm_fits (length adj) nb'"
    using bu_loop_levels [OF g range sym pos _ fok] x unfolding bfs_inv_def by blast
  let ?xs = "filter (\<lambda>v. v \<in> level adj r k') [0..<length adj]"
  have xs: "distinct ?xs" "set ?xs = level adj r k'" using level_range [OF range, of k'] by auto
  obtain queue where q: "qb_flush ?xs (slide_window (bv_queue x)) = Inr queue" "frontier_queue adj r k' (slide_window queue)"
    using frontier_flush [of "slide_window (bv_queue x)" adj r k ?xs k'] slide_empties [OF fq(1)] fq(2,4) xs lp(2) range by auto
  have "mapR (get_bit front') [0..<length adj] = Inr (map (\<lambda>v. v \<in> level adj r k') [0..<length adj])"
    using mapR_get_bit [OF lp(4), of "[0..<length adj]"] lp(5) by simp
  then have bq: "bitmap_to_queue g front' (slide_window (bv_queue x)) = Inr queue"
    using q(1) n by (simp add: bitmap_to_queue_def filter_zip_map)
  have dist: "bv_distance x = int (Suc k)" using x by (simp add: bfs_inv_def)
  let ?y = "x\<lparr>bv_distances := d', bv_queue := slide_window queue, bv_front := front', bv_curr := nb',
      bv_distance := int (Suc k'), bv_scout := 1\<rparr>"
  have "bottom_up g q nv beta x = Some (Inr ?y)" using fr(1) lp(1) bq dist by (simp add: bottom_up_def del: of_nat_Suc)
  moreover have "bfs_inv adj r k' ?y" using lp q(2) level_known [of adj r k'] by (simp add: bfs_inv_def)
  ultimately show ?thesis using lp(2) by blast
qed

lemma bfs_loop_levels:
  assumes g: "reads_as g q adj" and range: "in_range adj" "r < length adj" and sym: "symmetric adj" and pos: "0 < beta" "0 \<le> nv" "alpha \<noteq> 0"
  shows "bfs_inv adj r k x \<Longrightarrow> \<exists>y k'. bfs_loop g q nv alpha beta x = Some (Inr y) \<and> level adj r k' = {} \<and> bfs_inv adj r k' y"
proof (induction "unvisited adj r k" arbitrary: k x rule: less_induct)
  case less
  have lev: "sq_empty (bv_queue y) \<longleftrightarrow> level adj r j = {}" if "bfs_inv adj r j y" for j y
    using that sq_empty_iff [of "bv_queue y"] by (auto simp: bfs_inv_def frontier_queue_def)
  have stop: "\<exists>z k'. bfs_loop g q nv alpha beta y = Some (Inr z) \<and> level adj r k' = {} \<and> bfs_inv adj r k' z"
    if "bfs_inv adj r j y" "level adj r j = {}" for j y
    using that lev [OF that(1)] by (subst bfs_loop.simps) auto
  have go: "\<exists>z k'. bfs_loop g q nv alpha beta y = Some (Inr z) \<and> level adj r k' = {} \<and> bfs_inv adj r k' z"
    if y: "bfs_inv adj r j y" "k < j" for j y
  proof (cases "level adj r j = {}")
    case True
    then show ?thesis using stop y(1) by blast
  next
    case False
    then show ?thesis using less.hyps [OF unvisited_less [OF range False y(2)] y(1)] by blast
  qed
  obtain limit where limit: "c_div (bv_edges x) alpha = Inr limit" using pos(3) by (simp add: c_div_def)
  show ?case
  proof (cases "sq_empty (bv_queue x)")
    case True
    then show ?thesis using stop less.prems lev [OF less.prems] by blast
  next
    case ne: False
    show ?thesis
    proof (cases "bv_scout x > limit")
      case True
      obtain y k' where y: "bottom_up g q nv beta x = Some (Inr y)" "k < k'" "bfs_inv adj r k' y"
        using bottom_up_levels [OF g range sym pos(1,2) less.prems ne] by blast
      then have "bfs_loop g q nv alpha beta x = bfs_loop g q nv alpha beta y"
        using True ne limit by (subst bfs_loop.simps) simp
      then show ?thesis using go [OF y(3,2)] by simp
    next
      case False
      obtain y where y: "top_down g q x = Inr y" "bfs_inv adj r (Suc k) y" using top_down_level [OF g range less.prems] by blast
      then have "bfs_loop g q nv alpha beta x = bfs_loop g q nv alpha beta y"
        using False ne limit by (subst bfs_loop.simps) simp
      then show ?thesis using go [OF y(2)] by simp
    qed
  qed
qed

lemma bfs_start_inv:
  assumes g: "reads_as g q adj" and deg: "\<forall>u < length adj. \<exists>d. check_degree g u q = Inr d" and r: "r < length adj"
  shows "\<exists>x. bfs_start g q r = Inr x \<and> bfs_inv adj r 0 x"
proof -
  let ?n = "length adj"
  have n: "gs_node_num g = ?n" using g by (simp add: reads_as_def)
  define deg_of where "deg_of u = (case check_degree g u q of Inr d \<Rightarrow> uint d | Inl _ \<Rightarrow> 0)" for u
  have dg: "degree_of g q u = Inr (deg_of u)" if "u < ?n" for u
    using deg that by (auto simp: degree_of_def deg_of_def)
  have bound: "0 \<le> deg_of u" "deg_of u < 2 ^ 32" for u
    using uint_bounded [where 'a = 32] by (auto simp: deg_of_def split: sum.split)
  define d where "d = map (\<lambda>d. if d = int64_max then d else if d \<noteq> 0 then - d else - 1) (map deg_of [0..<?n])"
  have "mapR (degree_of g q) [0..<?n] = Inr (map deg_of [0..<?n])" by (rule mapR_ok) (simp add: dg)
  then obtain e where init: "init_distance g q = Inr (d, e)" by (simp add: init_distance_def n d_def)
  have neg: "d ! v < 0" if "v < ?n" for v
    using that bound [of v] by (auto simp: d_def int64_max_def)
  have len: "length d = ?n" by (simp add: d_def)
  let ?q = "slide_window (SlidingQueue_new ?n\<lparr>sq_shared := [r]\<rparr>)"
  let ?x = "\<lparr>bv_distances = d[r := 0], bv_queue = ?q, bv_front = bm_reset (bm_new ?n), bv_curr = bm_reset (bm_new ?n),
      bv_distance = 1, bv_scout = deg_of r, bv_edges = e\<rparr>"
  have "bfs_start g q r = Inr ?x"
    using init dg [OF r] r len n by (auto simp: bfs_start_def sq_push_back_def SlidingQueue_new_def)
  moreover have "hops adj r r = 0" using level_hops [of r adj r 0] by (simp add: level_0)
  then have "labelled adj r 0 (d[r := 0])" using neg len r by (auto simp: labelled_def level_0 nth_list_update)
  then have "bfs_inv adj r 0 ?x"
    using r by (simp add: bfs_inv_def frontier_queue_def level_0 sq_ok_def slide_window_def sq_window_def SlidingQueue_new_def)
  ultimately show ?thesis by blast
qed

text \<open>
  C30: On an undirected snapshot, for every \<open>alpha\<close> other than 0 and every positive \<open>beta\<close>, the
  direction-optimising search ends, and the distance of a vertex is the least number of edges on a
  path from the root if there is a path, and negative if there is none.
\<close>

theorem bfs_finds_hop_distances:
  assumes "reads_as g q adj" "\<forall>u < length adj. \<exists>d. check_degree g u q = Inr d" "in_range adj" "symmetric adj" "root < length adj"
    and "alpha \<noteq> 0" "0 < beta"
  shows "\<exists>distances. bfs g q num_vertices root alpha beta = Some (Inr distances) \<and> length distances = length adj \<and>
    (\<forall>v < length adj. if (root, v) \<in> (edges_of adj)\<^sup>* then distances ! v = int (LEAST j. (root, v) \<in> edges_of adj ^^ j)
       else distances ! v < 0)"
proof -
  obtain x where x: "bfs_start g q root = Inr x" "bfs_inv adj root 0 x" using bfs_start_inv [OF assms(1,2,5)] by blast
  obtain y k where y: "bfs_loop g q (int num_vertices) alpha beta x = Some (Inr y)" "level adj root k = {}" "bfs_inv adj root k y"
    using bfs_loop_levels [OF assms(1,3,5,4,7) _ assms(6) x(2), of "int num_vertices"] by auto
  have lab: "labelled adj root k (bv_distances y)" using y(3) by (simp add: bfs_inv_def)
  have "v \<in> known adj root k \<longleftrightarrow> (root, v) \<in> (edges_of adj)\<^sup>*" for v
    using closed_when_empty [OF y(2)] by (auto simp: known_def relpow_imp_rtrancl)
  then have "\<forall>v < length adj. if (root, v) \<in> (edges_of adj)\<^sup>* then bv_distances y ! v = int (LEAST j. (root, v) \<in> edges_of adj ^^ j)
      else bv_distances y ! v < 0"
    using lab by (simp add: labelled_def hops_def)
  moreover have "bfs g q num_vertices root alpha beta = Some (Inr (bv_distances y))" using x(1) y(1) by (simp add: bfs_def)
  moreover have "length (bv_distances y) = length adj" using lab by (simp add: labelled_def)
  ultimately show ?thesis by blast
qed

theorem bfs_finds_hop_distances_witness:
  "\<exists>distances. bfs sample_store 5 4 3 15 18 = Some (Inr distances) \<and> distances ! 3 = 0 \<and> distances ! 0 = 1 \<and> distances ! 1 = 2"
proof -
  have l: "length sample_adj = 4" by code_simp
  have d: "check_degree sample_store 0 5 = Inr 0" "check_degree sample_store 1 5 = Inr 0"
    "check_degree sample_store 2 5 = Inr 0" "check_degree sample_store 3 5 = Inr 0" by code_simp+
  have "u = 0 \<or> u = 1 \<or> u = 2 \<or> u = 3" if "u < 4" for u :: nat using that by linarith
  then have deg: "\<forall>u < length sample_adj. \<exists>d. check_degree sample_store u 5 = Inr d" using d l by metis
  have simple: "in_range sample_adj" "symmetric sample_adj" using sample_simple by (simp_all add: simple_graph_def)
  have root: "3 < length sample_adj" using l by simp
  let ?E = "edges_of sample_adj"
  have E: "(3, v) \<in> ?E \<longleftrightarrow> v = 0" "(0, v) \<in> ?E \<longleftrightarrow> v = 1 \<or> v = 2 \<or> v = 3" for v
    by (auto simp: edges_of_def sample_adj_def)
  obtain dist where dist: "bfs sample_store 5 4 3 15 18 = Some (Inr dist)"
    "\<forall>v < length sample_adj. if (3, v) \<in> ?E\<^sup>* then dist ! v = int (LEAST j. (3, v) \<in> ?E ^^ j) else dist ! v < 0"
    using bfs_finds_hop_distances [OF sample_reads deg simple root, of 15 18 4] by auto
  have lv: "level sample_adj 3 0 = {3}" "known sample_adj 3 0 = {3}" by (simp_all add: level_0)
  have l1: "level sample_adj 3 1 = {0}" using E unfolding One_nat_def level_Suc lv by auto
  have k1: "known sample_adj 3 1 = {3, 0}" using l1 lv(2) known_Suc [of sample_adj 3 0] by auto
  have "1 \<in> level sample_adj 3 (Suc 1)" using E unfolding level_Suc l1 k1 by auto
  then have h: "hops sample_adj 3 1 = 2" using level_hops [of 1 sample_adj 3 "Suc 1"] by simp
  have h0: "hops sample_adj 3 3 = 0" "hops sample_adj 3 0 = 1"
    using level_hops [of 3 sample_adj 3 0] level_hops [of 0 sample_adj 3 1] lv(1) l1 by simp_all
  have "(3, 0) \<in> ?E" "(0, 1) \<in> ?E" using E by simp_all
  then have "(3, 3) \<in> ?E\<^sup>*" "(3, 0) \<in> ?E\<^sup>*" "(3, 1) \<in> ?E\<^sup>*" by (auto intro: rtrancl_into_rtrancl)
  then have "dist ! 3 = int (hops sample_adj 3 3)" "dist ! 0 = int (hops sample_adj 3 0)" "dist ! 1 = int (hops sample_adj 3 1)"
    using dist(2) l by (simp_all add: hops_def)
  then show ?thesis using dist(1) h h0 by simp
qed

end
