(* ===== verification/Algo_PageRank.thy ===== *)
theory Algo_PageRank
  imports Algo_Snapshot Complex_Main
begin

text \<open>
  \<open>algorithm/PageRank\<close>, with rational numbers for doubles. Every vertex collects the shares of its
  neighbours; vertices without edges hand their score to all. The number of vertices is taken when the
  object is made and is assumed to be positive (the code divides doubles by it). The degrees are
  those of the read epoch, the neighbours those of the reader's composite timestamp.
\<close>

section \<open>The algorithm\<close>

definition pr_degrees :: "graph_store \<Rightarrow> epoch_t \<Rightarrow> nat list res" where
  "pr_degrees g read_ts = mapR (\<lambda>v. bind_res (check_degree g v read_ts) (\<lambda>d. Inr (unat d))) [0..<gs_node_num g]"

definition pr_contrib :: "nat list \<Rightarrow> rat list \<Rightarrow> nat \<Rightarrow> rat \<times> rat list \<Rightarrow> rat \<times> rat list" where
  "pr_contrib degrees scores v s =
     (case s of (dangling_sum, outgoing_contrib) \<Rightarrow>
        if degrees ! v = 0 then (dangling_sum + scores ! v, outgoing_contrib)
        else (dangling_sum, outgoing_contrib[v := scores ! v / of_nat (degrees ! v)]))"

definition pr_incoming :: "graph_store \<Rightarrow> composite \<Rightarrow> nat list \<Rightarrow> rat list \<Rightarrow> nat \<Rightarrow> rat res" where
  "pr_incoming g fg_read_ts degrees outgoing_contrib v =
     (if degrees ! v \<noteq> 0 then
        bind_res (neighbours_ts g fg_read_ts v) (\<lambda>ns.
        bind_res (mapR (vec_at outgoing_contrib) ns) (\<lambda>cs. Inr (sum_list cs)))
      else Inr 0)"

type_synonym pr_state = "rat list \<times> rat list"

definition pr_iteration :: "graph_store \<Rightarrow> composite \<Rightarrow> nat \<Rightarrow> rat \<Rightarrow> nat list \<Rightarrow> pr_state \<Rightarrow> pr_state res" where
  "pr_iteration g fg_read_ts num_vertices damping_factor degrees s =
     (case s of (scores, outgoing_contrib) \<Rightarrow>
        let base_score = (1 - damping_factor) / of_nat num_vertices;
            (dangling_sum, outgoing_contrib) = fold (pr_contrib degrees scores) [0..<gs_node_num g] (0, outgoing_contrib);
            dangling_sum = dangling_sum / of_nat num_vertices
        in bind_res (mapR (pr_incoming g fg_read_ts degrees outgoing_contrib) [0..<gs_node_num g]) (\<lambda>incoming.
             Inr (map (\<lambda>incoming_total. base_score + damping_factor * (incoming_total + dangling_sum)) incoming,
                  outgoing_contrib)))"

fun pr_iterations :: "nat \<Rightarrow> graph_store \<Rightarrow> composite \<Rightarrow> nat \<Rightarrow> rat \<Rightarrow> nat list \<Rightarrow> pr_state \<Rightarrow> pr_state res" where
  "pr_iterations 0 g fg_read_ts num_vertices damping_factor degrees s = Inr s"
| "pr_iterations (Suc k) g fg_read_ts num_vertices damping_factor degrees s =
     bind_res (pr_iteration g fg_read_ts num_vertices damping_factor degrees s)
       (pr_iterations k g fg_read_ts num_vertices damping_factor degrees)"

definition compute_pagerank :: "graph_store \<Rightarrow> epoch_t \<Rightarrow> composite \<Rightarrow> nat \<Rightarrow> nat \<Rightarrow> rat \<Rightarrow> rat list res" where
  "compute_pagerank g read_ts fg_read_ts num_vertices num_iterations damping_factor =
     bind_res (pr_degrees g read_ts) (\<lambda>degrees.
       let scores = replicate (gs_node_num g) (1 / of_nat num_vertices);
           outgoing_contrib = replicate (gs_node_num g) 0
       in bind_res (pr_iterations num_iterations g fg_read_ts num_vertices damping_factor degrees (scores, outgoing_contrib))
            (\<lambda>s. Inr (fst s)))"

text \<open>The largest 64-bit integer, which marks a missing vertex, is \<open>2 ^ 63\<close> as a double.\<close>

definition pr_pair :: "graph_store option \<Rightarrow> rat list \<Rightarrow> nat \<Rightarrow> (dst_t \<times> rat) res" where
  "pr_pair MEA scores i =
     (case MEA of
        Some h \<Rightarrow>
          if i < gs_node_num h then bind_res (vec_at (gs_pmap h) i) (\<lambda>k. Inr (k, scores ! i))
          else if scores ! i = 2 ^ 63 then Inr (- 1, 2 ^ 63) else Inr (of_nat i, scores ! i)
      | None \<Rightarrow> if scores ! i = 2 ^ 63 then Inr (- 1, 2 ^ 63) else Inr (of_nat i, scores ! i))"

definition pr_result :: "graph_store option \<Rightarrow> rat list \<Rightarrow> (dst_t \<times> rat) list res" where
  "pr_result MEA scores = mapR (pr_pair MEA scores) [0..<length scores]"

section \<open>One iteration\<close>

lemma pr_contrib_fold:
  assumes "length c = n" "length deg = n" "k \<le> n"
  shows "fold (pr_contrib deg s) [0..<k] (0, c) =
    ((\<Sum>v \<in> {v. v < k \<and> deg ! v = 0}. s ! v), map (\<lambda>v. if v < k \<and> deg ! v \<noteq> 0 then s ! v / of_nat (deg ! v) else c ! v) [0..<n])"
  using assms(3)
proof (induction k)
  case 0
  then show ?case using assms(1) by (auto intro: nth_equalityI)
next
  case (Suc k)
  let ?f = "\<lambda>k v. if v < k \<and> deg ! v \<noteq> 0 then s ! v / of_nat (deg ! v) else c ! v"
  have IH: "fold (pr_contrib deg s) [0..<Suc k] (0, c) =
      pr_contrib deg s k ((\<Sum>v \<in> {v. v < k \<and> deg ! v = 0}. s ! v), map (?f k) [0..<n])"
    using Suc by simp
  show ?case
  proof (cases "deg ! k = 0")
    case True
    then have "{v. v < Suc k \<and> deg ! v = 0} = insert k {v. v < k \<and> deg ! v = 0}" by (auto simp: less_Suc_eq)
    moreover have "map (?f (Suc k)) [0..<n] = map (?f k) [0..<n]" using True by (auto simp: less_Suc_eq)
    ultimately show ?thesis unfolding IH using True by (simp add: pr_contrib_def add.commute)
  next
    case False
    then have "{v. v < Suc k \<and> deg ! v = 0} = {v. v < k \<and> deg ! v = 0}" by (auto simp: less_Suc_eq)
    moreover have "(map (?f k) [0..<n])[k := s ! k / of_nat (deg ! k)] = map (?f (Suc k)) [0..<n]"
      using False Suc.prems by (intro nth_equalityI) (auto simp: nth_list_update)
    ultimately show ?thesis unfolding IH using False by (simp add: pr_contrib_def)
  qed
qed

text \<open>Every neighbour's share arrives: summed over all vertices, each vertex sends its share once per edge.\<close>

lemma shares_arrive:
  fixes c :: "nat \<Rightarrow> rat"
  assumes "simple_graph adj"
  shows "(\<Sum>v < length adj. \<Sum>w \<leftarrow> adj ! v. c w) = (\<Sum>w < length adj. of_nat (length (adj ! w)) * c w)"
proof -
  let ?n = "length adj"
  have nbs: "set (adj ! v) = {w \<in> {..<?n}. w \<in> set (adj ! v)}" if "v < ?n" for v
    using assms that by (auto simp: simple_graph_def in_range_def)
  have sym: "w \<in> set (adj ! v) \<longleftrightarrow> v \<in> set (adj ! w)" if "v < ?n" "w < ?n" for v w
    using assms that by (auto simp: simple_graph_def symmetric_def)
  have dst: "distinct (adj ! v)" if "v < ?n" for v using assms that by (simp add: simple_graph_def)
  have "(\<Sum>v < ?n. \<Sum>w \<leftarrow> adj ! v. c w) = (\<Sum>v < ?n. \<Sum>w \<in> {w \<in> {..<?n}. w \<in> set (adj ! v)}. c w)"
    using nbs dst by (intro sum.cong) (auto simp: sum_list_distinct_conv_sum_set)
  also have "\<dots> = (\<Sum>w < ?n. \<Sum>v \<in> {v \<in> {..<?n}. w \<in> set (adj ! v)}. c w)"
    by (rule sum.swap_restrict) simp_all
  also have "\<dots> = (\<Sum>w < ?n. of_nat (length (adj ! w)) * c w)"
  proof (rule sum.cong [OF refl])
    fix w assume w: "w \<in> {..<?n}"
    then have "{v \<in> {..<?n}. w \<in> set (adj ! v)} = set (adj ! w)" using sym nbs [of w] by auto
    then show "(\<Sum>v \<in> {v \<in> {..<?n}. w \<in> set (adj ! v)}. c w) = of_nat (length (adj ! w)) * c w"
      using dst w by (simp add: distinct_card)
  qed
  finally show ?thesis .
qed

definition pr_inv :: "nat \<Rightarrow> rat \<Rightarrow> pr_state \<Rightarrow> bool" where
  "pr_inv n d s \<longleftrightarrow> length (fst s) = n \<and> length (snd s) = n \<and> sum_list (fst s) = 1 \<and>
     (\<forall>v < n. (1 - d) / of_nat n \<le> fst s ! v \<and> 0 \<le> snd s ! v)"

text \<open>The snapshot: its reads, and degrees that agree with them.\<close>

definition ranked_graph :: "graph_store \<Rightarrow> composite \<Rightarrow> nat list list \<Rightarrow> bool" where
  "ranked_graph g ts adj \<longleftrightarrow> length adj = gs_node_num g \<and> simple_graph adj \<and> adj \<noteq> [] \<and>
     (\<forall>u < length adj. \<exists>xs. neighbours_ts g ts u = Inr xs \<and> mset xs = mset (adj ! u))"

lemma pr_iteration_inv:
  assumes g: "ranked_graph g ts adj" and d: "0 \<le> d" "d \<le> 1" and s: "pr_inv (length adj) d s"
    and deg: "deg = map length adj"
  shows "\<exists>s'. pr_iteration g ts (length adj) d deg s = Inr s' \<and> pr_inv (length adj) d s'"
proof -
  let ?n = "length adj"
  obtain sc c0 where sc: "s = (sc, c0)" by (cases s)
  have n: "gs_node_num g = ?n" "simple_graph adj" "0 < ?n"
    using g by (simp_all add: ranked_graph_def) (metis length_greater_0_conv)
  have len: "length sc = ?n" "length c0 = ?n" "length deg = ?n" and mass: "sum_list sc = 1"
    using s sc deg by (simp_all add: pr_inv_def)
  have base0: "0 \<le> (1 - d) / of_nat ?n" using d(2) by simp
  then have pos: "0 \<le> sc ! v" "0 \<le> c0 ! v" if "v < ?n" for v using s sc that unfolding pr_inv_def by (fastforce intro: order_trans)+
  define c where "c v = (if deg ! v \<noteq> 0 then sc ! v / of_nat (deg ! v) else c0 ! v)" for v
  define dang where "dang = (\<Sum>v \<in> {v. v < ?n \<and> deg ! v = 0}. sc ! v)"
  have "fold (pr_contrib deg sc) [0..<?n] (0, c0) =
      (dang, map (\<lambda>v. if v < ?n \<and> deg ! v \<noteq> 0 then sc ! v / of_nat (deg ! v) else c0 ! v) [0..<?n])"
    using pr_contrib_fold [OF len(2,3), of ?n sc] by (simp add: dang_def)
  also have "map (\<lambda>v. if v < ?n \<and> deg ! v \<noteq> 0 then sc ! v / of_nat (deg ! v) else c0 ! v) [0..<?n] = map c [0..<?n]"
    by (rule map_cong [OF refl]) (simp add: c_def)
  finally have fold: "fold (pr_contrib deg sc) [0..<?n] (0, c0) = (dang, map c [0..<?n])" .
  have cpos: "0 \<le> c v" if "v < ?n" for v using pos [OF that] by (simp add: c_def)
  have range: "w < ?n" if "v < ?n" "w \<in> set (adj ! v)" for v w using n(2) that by (auto simp: simple_graph_def in_range_def)
  define inc where "inc v = (\<Sum>w \<leftarrow> adj ! v. c w)" for v
  have "pr_incoming g ts deg (map c [0..<?n]) v = Inr (inc v)" if v: "v < ?n" for v
  proof -
    obtain xs where xs: "neighbours_ts g ts v = Inr xs" "mset xs = mset (adj ! v)" using g v by (auto simp: ranked_graph_def)
    then have sx: "set xs = set (adj ! v)" by (metis mset_eq_setD)
    have "mapR (vec_at (map c [0..<?n])) xs = Inr (map c xs)"
      using range [OF v] sx by (intro mapR_ok) (auto simp: vec_at_def)
    moreover have "sum_list (map c xs) = sum_list (map c (adj ! v))"
      using xs(2) by (metis mset_map sum_mset_sum_list)
    moreover have "deg ! v = 0 \<longleftrightarrow> adj ! v = []" using v by (simp add: deg)
    ultimately show ?thesis using xs(1) by (simp add: pr_incoming_def inc_def)
  qed
  then have mp: "mapR (pr_incoming g ts deg (map c [0..<?n])) [0..<?n] = Inr (map inc [0..<?n])" by (intro mapR_ok) simp
  define new where "new v = (1 - d) / of_nat ?n + d * (inc v + dang / of_nat ?n)" for v
  have it: "pr_iteration g ts ?n d deg s = Inr (map new [0..<?n], map c [0..<?n])"
    by (simp add: pr_iteration_def sc n(1) fold mp new_def comp_def)
  have "(\<Sum>v < ?n. inc v) = (\<Sum>w < ?n. of_nat (deg ! w) * c w)"
    unfolding inc_def shares_arrive [OF n(2)] by (simp add: deg)
  also have "\<dots> = (\<Sum>w < ?n. if deg ! w = 0 then 0 else sc ! w)" by (rule sum.cong) (simp_all add: c_def)
  also have "\<dots> = (\<Sum>w < ?n. sc ! w) - dang"
  proof -
    have "{v. v < ?n \<and> deg ! v = 0} = {v \<in> {..<?n}. deg ! v = 0}" by auto
    then have "dang = (\<Sum>w \<in> {w \<in> {..<?n}. deg ! w = 0}. sc ! w)" unfolding dang_def by simp
    also have "\<dots> = (\<Sum>w < ?n. if deg ! w = 0 then sc ! w else 0)" by (rule sum.inter_filter) simp
    finally have "dang = (\<Sum>w < ?n. if deg ! w = 0 then sc ! w else 0)" .
    then show ?thesis by (simp add: sum_subtractf [symmetric] if_distrib cong: if_cong)
  qed
  also have "(\<Sum>w < ?n. sc ! w) = 1" using mass len(1) by (metis atLeast0LessThan sum_list_sum_nth)
  finally have sum_inc: "(\<Sum>v < ?n. inc v) = 1 - dang" .
  have "(\<Sum>v < ?n. new v) = of_nat ?n * ((1 - d) / of_nat ?n) + d * ((\<Sum>v < ?n. inc v) + of_nat ?n * (dang / of_nat ?n))"
    unfolding new_def sum.distrib sum_distrib_left [symmetric] by simp
  also have "\<dots> = 1" unfolding sum_inc using n(3) by (simp add: field_simps)
  finally have total: "(\<Sum>v < ?n. new v) = 1" .
  have low: "(1 - d) / of_nat ?n \<le> new v" if "v < ?n" for v
  proof -
    have "0 \<le> inc v" unfolding inc_def using cpos range [OF that] by (intro sum_list_nonneg) auto
    moreover have "0 \<le> dang" unfolding dang_def using pos(1) by (intro sum_nonneg) auto
    ultimately show ?thesis using d(1) by (simp add: new_def)
  qed
  have "sum_list (map new [0..<?n]) = 1" using total by (simp add: interv_sum_list_conv_sum_set_nat atLeast0LessThan)
  then have "pr_inv ?n d (map new [0..<?n], map c [0..<?n])" using low cpos by (simp add: pr_inv_def)
  then show ?thesis using it by blast
qed

lemma pr_iterations_inv:
  assumes "ranked_graph g ts adj" "0 \<le> d" "d \<le> 1"
  shows "pr_inv (length adj) d s \<Longrightarrow>
    \<exists>s'. pr_iterations k g ts (length adj) d (map length adj) s = Inr s' \<and> pr_inv (length adj) d s'"
proof (induction k arbitrary: s)
  case (Suc k)
  obtain s1 where "pr_iteration g ts (length adj) d (map length adj) s = Inr s1" "pr_inv (length adj) d s1"
    using pr_iteration_inv [OF assms Suc.prems refl] by blast
  then show ?case using Suc.IH by simp
qed simp

text \<open>
  C33: On an undirected snapshot whose versioned degrees agree with its edges, every iteration of
  \<open>compute_pagerank\<close> returns and keeps the total score at 1, and no score falls below the share
  \<open>(1 - d) / n\<close> that every vertex is given.
\<close>

theorem pagerank_keeps_total:
  assumes g: "ranked_graph g ts adj" and d: "0 \<le> d" "d \<le> 1"
    and deg: "\<forall>u < length adj. check_degree g u q = Inr (of_nat (length (adj ! u))) \<and> length (adj ! u) < 2 ^ 32"
  shows "\<exists>scores. compute_pagerank g q ts (gs_node_num g) k d = Inr scores \<and> length scores = length adj \<and>
    sum_list scores = 1 \<and> (\<forall>v < length adj. (1 - d) / of_nat (length adj) \<le> scores ! v)"
proof -
  let ?n = "length adj"
  have n: "gs_node_num g = ?n" "0 < ?n" using g by (simp_all add: ranked_graph_def) (metis length_greater_0_conv)
  have "mapR (\<lambda>v. bind_res (check_degree g v q) (\<lambda>d. Inr (unat d))) [0..<?n] = Inr (map (\<lambda>v. length (adj ! v)) [0..<?n])"
    using deg by (intro mapR_ok) (simp add: unat_of_nat take_bit_nat_eq_self)
  moreover have "map (\<lambda>v. length (adj ! v)) [0..<?n] = map length adj" by (rule nth_equalityI) simp_all
  ultimately have degrees: "pr_degrees g q = Inr (map length adj)" by (simp add: pr_degrees_def n(1))
  have "(1 - d) / of_nat ?n \<le> 1 / of_nat ?n" using d(1) by (simp add: divide_right_mono)
  then have "pr_inv ?n d (replicate ?n (1 / of_nat ?n), replicate ?n 0)" using n(2) by (simp add: pr_inv_def sum_list_replicate)
  then obtain s where s: "pr_iterations k g ts ?n d (map length adj) (replicate ?n (1 / of_nat ?n), replicate ?n 0) = Inr s"
    "pr_inv ?n d s" using pr_iterations_inv [OF g d] by blast
  then have "compute_pagerank g q ts (gs_node_num g) k d = Inr (fst s)" using degrees by (simp add: compute_pagerank_def n(1))
  then show ?thesis using s(2) by (auto simp: pr_inv_def)
qed

text \<open>A path of three vertices, written in epoch 1.\<close>

definition path_adj :: "nat list list" where
  "path_adj = [[1], [0, 2], [1]]"

definition write_all :: "nat \<Rightarrow> graph_store \<Rightarrow> graph_store res" where
  "write_all u g =
     bind_res (GetBlockByIndex g u) (\<lambda>v.
     bind_res (run_epochs u [(1, map (\<lambda>w. sample_write (VInsert (of_nat w) 0)) (path_adj ! u), \<lambda>t. [0..<version_num t])] (v, []))
       (\<lambda>(v', _). SetBlockByIndex u v' g))"

definition path_store :: graph_store where
  "path_store = (case bind_res (load_store [[], [], []]) (foldR write_all [0..<3]) of Inr g \<Rightarrow> g | Inl _ \<Rightarrow> GraphStore_new 0)"

lemma path_reads:
  "gs_node_num path_store = 3" "length path_adj = 3"
  "neighbours_ts path_store (Composite 1 INTRA_MAX) 0 = Inr (path_adj ! 0)"
  "neighbours_ts path_store (Composite 1 INTRA_MAX) 1 = Inr (path_adj ! 1)"
  "neighbours_ts path_store (Composite 1 INTRA_MAX) 2 = Inr (path_adj ! 2)"
  "check_degree path_store 0 1 = Inr 1" "check_degree path_store 1 1 = Inr 2" "check_degree path_store 2 1 = Inr 1"
  by code_simp+

theorem pagerank_keeps_total_witness:
  "\<exists>scores. compute_pagerank path_store 1 (Composite 1 INTRA_MAX) 3 20 (17 / 20) = Inr scores \<and> sum_list scores = 1"
proof -
  have three: "u = 0 \<or> u = 1 \<or> u = 2" if "u < 3" for u :: nat using that by linarith
  have "neighbours_ts path_store (Composite 1 INTRA_MAX) u = Inr (path_adj ! u)" if "u < 3" for u
    using path_reads three [OF that] by metis
  moreover have "simple_graph path_adj" by (rule simple_graph_check) code_simp
  moreover have "path_adj \<noteq> []" by (simp add: path_adj_def)
  ultimately have g: "ranked_graph path_store (Composite 1 INTRA_MAX) path_adj"
    using path_reads(1,2) by (simp add: ranked_graph_def)
  have "check_degree path_store u 1 = Inr (of_nat (length (path_adj ! u))) \<and> length (path_adj ! u) < 2 ^ 32" if "u < 3" for u
    using three [OF that] path_reads by (auto simp: path_adj_def)
  then have deg: "\<forall>u < length path_adj. check_degree path_store u 1 = Inr (of_nat (length (path_adj ! u))) \<and> length (path_adj ! u) < 2 ^ 32"
    using path_reads(2) by simp
  have d: "0 \<le> (17 / 20 :: rat)" "(17 / 20 :: rat) \<le> 1" by simp_all
  obtain scores where "compute_pagerank path_store 1 (Composite 1 INTRA_MAX) (gs_node_num path_store) 20 (17 / 20) = Inr scores"
    "sum_list scores = 1"
    using pagerank_keeps_total [OF g d deg] by blast
  then show ?thesis using path_reads(1) by auto
qed

end
