(* ===== verification/Algo_SSSP.thy ===== *)
theory Algo_SSSP
  imports Algo_Snapshot Complex_Main
begin

text \<open>
  \<open>algorithm/SSSP\<close>: shortest paths by delta-stepping, as a team of one thread runs it. Vertices wait in
  bins by \<open>distance / delta\<close>; the lowest bin that is not empty is copied to the frontier array, which was
  allocated with one element per edge. Doubles are rational numbers and infinity; \<open>delta\<close> is assumed to
  be positive. A shared index of \<open>max / 2\<close>, no bin, is \<open>None\<close>.
\<close>

section \<open>Distances\<close>

datatype dist = Dist rat | Infinity

fun closer :: "dist \<Rightarrow> dist \<Rightarrow> bool" where
  "closer (Dist a) (Dist b) = (a < b)"
| "closer (Dist a) Infinity = True"
| "closer Infinity d = False"

fun at_least :: "dist \<Rightarrow> rat \<Rightarrow> bool" where
  "at_least (Dist a) x = (a \<ge> x)"
| "at_least Infinity x = True"

text \<open>The value of a finite double with the given bits.\<close>

definition double_value :: "64 word \<Rightarrow> rat" where
  "double_value w =
     (let e = uint (take_bit 11 (drop_bit 52 w)); m = uint (take_bit 52 w);
          v = (if e = 0 then of_int m / 2 ^ 1074 else of_int (2 ^ 52 + m) * 2 ^ nat e / 2 ^ 1075)
      in if bit w 63 then - v else v)"

section \<open>The algorithm\<close>

definition weighted_neighbours :: "graph_store \<Rightarrow> composite \<Rightarrow> nat \<Rightarrow> (nat \<times> rat) list res" where
  "weighted_neighbours g read_ts u =
     bind_res (locked_block g u) (\<lambda>ds.
     bind_res (for_each_edge_with_property Fine read_ts ds) (\<lambda>es.
       Inr (map (\<lambda>(e, p). (edge_dst e, double_value (ew_e p))) es)))"

type_synonym sssp_state = "dist list \<times> nat list list"

definition push_bin :: "nat \<Rightarrow> nat \<Rightarrow> nat list list \<Rightarrow> nat list list" where
  "push_bin dest_bin v local_bins =
     (let bins = (if dest_bin \<ge> length local_bins then local_bins @ replicate (dest_bin + 1 - length local_bins) [] else local_bins)
      in bins[dest_bin := bins ! dest_bin @ [v]])"

definition bin_of :: "rat \<Rightarrow> rat \<Rightarrow> nat" where
  "bin_of delta d = nat \<lfloor>d / delta\<rfloor>"

definition relax :: "rat \<Rightarrow> nat \<Rightarrow> nat \<times> rat \<Rightarrow> sssp_state \<Rightarrow> sssp_state res" where
  "relax delta u e s =
     (case e of (v, w) \<Rightarrow> case s of (distances, local_bins) \<Rightarrow>
        bind_res (vec_at distances v) (\<lambda>old_dist.
        bind_res (vec_at distances u) (\<lambda>du.
          case du of
            Infinity \<Rightarrow> Inr s
          | Dist d \<Rightarrow>
              let new_dist = d + w in
              if closer (Dist new_dist) old_dist
              then Inr (distances[v := Dist new_dist], push_bin (bin_of delta new_dist) v local_bins)
              else Inr s)))"

definition sssp_vertex :: "graph_store \<Rightarrow> composite \<Rightarrow> rat \<Rightarrow> nat \<Rightarrow> nat \<Rightarrow> sssp_state \<Rightarrow> sssp_state res" where
  "sssp_vertex g ts delta curr_bin_index u s =
     bind_res (vec_at (fst s) u) (\<lambda>du.
       if at_least du (delta * of_nat curr_bin_index)
       then bind_res (weighted_neighbours g ts u) (\<lambda>es. foldR (relax delta u) es s)
       else Inr s)"

definition next_bin :: "nat \<Rightarrow> nat list list \<Rightarrow> nat option" where
  "next_bin curr_bin_index local_bins = List.find (\<lambda>i. local_bins ! i \<noteq> []) [curr_bin_index..<length local_bins]"

text \<open>One turn of the loop: the frontier, then the choice of the next bin and its copy.\<close>

definition sssp_round :: "graph_store \<Rightarrow> composite \<Rightarrow> rat \<Rightarrow> nat \<Rightarrow> nat \<Rightarrow> nat list \<Rightarrow> sssp_state \<Rightarrow>
    (sssp_state \<times> nat list \<times> nat option) res" where
  "sssp_round g ts delta num_edges curr_bin_index frontier s =
     bind_res (foldR (sssp_vertex g ts delta curr_bin_index) frontier s) (\<lambda>(distances, local_bins).
       case next_bin curr_bin_index local_bins of
         None \<Rightarrow> Inr ((distances, local_bins), [], None)
       | Some i \<Rightarrow>
           if length (local_bins ! i) > num_edges then Inl OutOfBounds
           else Inr ((distances, local_bins[i := []]), local_bins ! i, Some i))"

text \<open>\<open>None\<close>: the loop never ends.\<close>

partial_function (option) sssp_loop :: "graph_store \<Rightarrow> composite \<Rightarrow> rat \<Rightarrow> nat \<Rightarrow> nat option \<Rightarrow> nat list \<Rightarrow> sssp_state \<Rightarrow>
    dist list res option" where
  "sssp_loop g ts delta num_edges bin frontier s =
     (case bin of
        None \<Rightarrow> Some (Inr (fst s))
      | Some b \<Rightarrow>
          (case sssp_round g ts delta num_edges b frontier s of
             Inl f \<Rightarrow> Some (Inl f)
           | Inr (s', frontier', bin') \<Rightarrow> sssp_loop g ts delta num_edges bin' frontier' s'))"

declare sssp_loop.simps [code]

definition compute_sssp :: "graph_store \<Rightarrow> epoch_t \<Rightarrow> composite \<Rightarrow> nat \<Rightarrow> rat \<Rightarrow> dist list res option" where
  "compute_sssp g read_ts fg_read_ts source delta =
     (if source \<ge> gs_node_num g then Some (Inl OutOfBounds)
      else
        case mapR (\<lambda>v. bind_res (check_degree g v read_ts) (\<lambda>d. Inr (unat d))) [0..<gs_node_num g] of
          Inl f \<Rightarrow> Some (Inl f)
        | Inr degrees \<Rightarrow>
            if sum_list degrees = 0 then Some (Inl OutOfBounds)
            else sssp_loop g fg_read_ts delta (sum_list degrees) (Some 0) [source]
                   ((replicate (gs_node_num g) Infinity)[source := Dist 0], []))"

definition sssp_pair :: "graph_store option \<Rightarrow> dist list \<Rightarrow> nat \<Rightarrow> (dst_t \<times> dist) res" where
  "sssp_pair MEA distances i =
     (case MEA of
        Some h \<Rightarrow>
          if i < gs_node_num h then bind_res (vec_at (gs_pmap h) i) (\<lambda>k. Inr (k, distances ! i))
          else if distances ! i = Dist (2 ^ 63) then Inr (- 1, Dist (2 ^ 63)) else Inr (of_nat i, distances ! i)
      | None \<Rightarrow> if distances ! i = Dist (2 ^ 63) then Inr (- 1, Dist (2 ^ 63)) else Inr (of_nat i, distances ! i))"

definition sssp_result :: "graph_store option \<Rightarrow> dist list \<Rightarrow> (dst_t \<times> dist) list res" where
  "sssp_result MEA distances = mapR (sssp_pair MEA distances) [0..<length distances]"

section \<open>The frontier array can be too small\<close>

text \<open>
  Seven vertices: 0 leads to 1 directly (0.75) and through 2 (0.25 + 0.25), 1 leads to 3, 4, 5 and 6
  (1 each).
\<close>

definition detour_edges :: "(nat \<times> 64 word) list list" where
  "detour_edges = [[(1, 0x3FE8000000000000), (2, 0x3FD0000000000000)],
     [(3, 0x3FF0000000000000), (4, 0x3FF0000000000000), (5, 0x3FF0000000000000), (6, 0x3FF0000000000000)],
     [(1, 0x3FD0000000000000)], [], [], [], []]"

definition detour_store :: graph_store where
  "detour_store = store_of detour_edges"

definition raw_neighbours :: "vertex_edges \<Rightarrow> (nat \<times> 64 word) list res" where
  "raw_neighbours v =
     bind_res (getReadLock v) (\<lambda>ds. bind_res (for_each_edge_with_property Fine (Composite 1 INTRA_MAX) ds) (\<lambda>es.
       Inr (map (\<lambda>(e, p). (edge_dst e, ew_e p)) es)))"

lemma weighted_neighbours_raw:
  assumes "u < length adj" "raw_neighbours (written_vertex u (adj ! u)) = Inr es"
  shows "weighted_neighbours (store_of adj) (Composite 1 INTRA_MAX) u = Inr (map (\<lambda>(v, p). (v, double_value p)) es)"
proof -
  obtain ds xs where d: "getReadLock (written_vertex u (adj ! u)) = Inr ds"
    "for_each_edge_with_property Fine (Composite 1 INTRA_MAX) ds = Inr xs" "es = map (\<lambda>(e, p). (edge_dst e, ew_e p)) xs"
    using assms(2) by (auto simp: raw_neighbours_def bind_res_Inr_iff)
  then show ?thesis by (simp add: weighted_neighbours_def locked_block_def store_of_block [OF assms(1)] comp_def split_def)
qed

lemma detour_raw:
  "raw_neighbours (written_vertex 0 (detour_edges ! 0)) = Inr (detour_edges ! 0)"
  "raw_neighbours (written_vertex 1 (detour_edges ! 1)) = Inr (detour_edges ! 1)"
  "raw_neighbours (written_vertex 2 (detour_edges ! 2)) = Inr (detour_edges ! 2)"
  by code_simp+

lemma detour_values:
  "double_value 0x3FE8000000000000 = 3 / 4" "double_value 0x3FD0000000000000 = 1 / 4" "double_value 0x3FF0000000000000 = 1"
  by (simp_all add: double_value_def Let_def)

lemma degree_raw:
  assumes "u < length adj" "bind_res (getReadLock (written_vertex u (adj ! u))) (\<lambda>v. get_degree v 1) = Inr d"
  shows "check_degree (store_of adj) u 1 = Inr d"
  using assms by (simp add: check_degree_def store_of_block)

lemma detour_degrees:
  "check_degree detour_store 0 1 = Inr 2" "check_degree detour_store 1 1 = Inr 4" "check_degree detour_store 2 1 = Inr 1"
  "check_degree detour_store 3 1 = Inr 0" "check_degree detour_store 4 1 = Inr 0" "check_degree detour_store 5 1 = Inr 0"
  "check_degree detour_store 6 1 = Inr 0"
  unfolding detour_store_def by (rule degree_raw; code_simp)+

lemma detour_neighbours:
  "weighted_neighbours detour_store (Composite 1 INTRA_MAX) 0 = Inr [(1, 3 / 4), (2, 1 / 4)]"
  "weighted_neighbours detour_store (Composite 1 INTRA_MAX) 1 = Inr [(3, 1), (4, 1), (5, 1), (6, 1)]"
  "weighted_neighbours detour_store (Composite 1 INTRA_MAX) 2 = Inr [(1, 1 / 4)]"
proof -
  have l: "length detour_edges = 7" by (simp add: detour_edges_def)
  show "weighted_neighbours detour_store (Composite 1 INTRA_MAX) 0 = Inr [(1, 3 / 4), (2, 1 / 4)]"
    using weighted_neighbours_raw [OF _ detour_raw(1)] detour_values l by (simp add: detour_store_def) (simp add: detour_edges_def)
  show "weighted_neighbours detour_store (Composite 1 INTRA_MAX) 1 = Inr [(3, 1), (4, 1), (5, 1), (6, 1)]"
    using weighted_neighbours_raw [OF _ detour_raw(2)] detour_values l by (simp add: detour_store_def) (simp add: detour_edges_def)
  show "weighted_neighbours detour_store (Composite 1 INTRA_MAX) 2 = Inr [(1, 1 / 4)]"
    using weighted_neighbours_raw [OF _ detour_raw(3)] detour_values l by (simp add: detour_store_def) (simp add: detour_edges_def)
qed

text \<open>The three rounds of the run below.\<close>

lemma sssp_vertex_relaxes:
  assumes "weighted_neighbours g ts u = Inr es" "u < length (fst s)" "at_least (fst s ! u) (delta * rat_of_nat i)"
  shows "sssp_vertex g ts delta i u s = foldR (relax delta u) es s"
  using assms by (simp add: sssp_vertex_def vec_at_def)

lemma detour_round_1:
  "sssp_round detour_store (Composite 1 INTRA_MAX) 1 7 0 [0] ([Dist 0, Infinity, Infinity, Infinity, Infinity, Infinity, Infinity], []) =
     Inr (([Dist 0, Dist (3 / 4), Dist (1 / 4), Infinity, Infinity, Infinity, Infinity], [[]]), [1, 2], Some 0)"
proof -
  have relaxed: "foldR (relax 1 0) [(1, 3 / 4), (2, 1 / 4)] ([Dist 0, Infinity, Infinity, Infinity, Infinity, Infinity, Infinity], []) =
      Inr ([Dist 0, Dist (3 / 4), Dist (1 / 4), Infinity, Infinity, Infinity, Infinity], [[1, 2]])" by code_simp
  have bin: "next_bin 0 [[1, 2]] = Some 0" by code_simp
  have "foldR (sssp_vertex detour_store (Composite 1 INTRA_MAX) 1 0) [0] ([Dist 0, Infinity, Infinity, Infinity, Infinity, Infinity, Infinity], []) =
      Inr ([Dist 0, Dist (3 / 4), Dist (1 / 4), Infinity, Infinity, Infinity, Infinity], [[1, 2]])"
    unfolding foldR.simps by (subst sssp_vertex_relaxes [OF detour_neighbours(1)]) (simp_all only: relaxed bind_res_simps, simp_all)
  then show ?thesis unfolding sssp_round_def by (simp only: bind_res_simps prod.case bin option.case) simp
qed

lemma detour_round_2:
  "sssp_round detour_store (Composite 1 INTRA_MAX) 1 7 0 [1, 2] ([Dist 0, Dist (3 / 4), Dist (1 / 4), Infinity, Infinity, Infinity, Infinity], [[]]) =
     Inr (([Dist 0, Dist (1 / 2), Dist (1 / 4), Dist (7 / 4), Dist (7 / 4), Dist (7 / 4), Dist (7 / 4)], [[], [3, 4, 5, 6]]), [1], Some 0)"
proof -
  let ?later = "[Dist (7 / 4), Dist (7 / 4), Dist (7 / 4), Dist (7 / 4)]"
  have relaxed: "foldR (relax 1 1) [(3, 1), (4, 1), (5, 1), (6, 1)] ([Dist 0, Dist (3 / 4), Dist (1 / 4), Infinity, Infinity, Infinity, Infinity], [[]]) =
      Inr (Dist 0 # Dist (3 / 4) # Dist (1 / 4) # ?later, [[], [3, 4, 5, 6]])"
    "foldR (relax 1 2) [(1, 1 / 4)] (Dist 0 # Dist (3 / 4) # Dist (1 / 4) # ?later, [[], [3, 4, 5, 6]]) =
      Inr (Dist 0 # Dist (1 / 2) # Dist (1 / 4) # ?later, [[1], [3, 4, 5, 6]])" by code_simp+
  have bin: "next_bin 0 [[1], [3, 4, 5, 6]] = Some 0" by code_simp
  have "foldR (sssp_vertex detour_store (Composite 1 INTRA_MAX) 1 0) [1, 2]
        ([Dist 0, Dist (3 / 4), Dist (1 / 4), Infinity, Infinity, Infinity, Infinity], [[]]) =
      Inr (Dist 0 # Dist (1 / 2) # Dist (1 / 4) # ?later, [[1], [3, 4, 5, 6]])"
    unfolding foldR.simps
    by (subst sssp_vertex_relaxes [OF detour_neighbours(2)], simp, simp, simp only: relaxed bind_res_simps,
        subst sssp_vertex_relaxes [OF detour_neighbours(3)]) (simp_all only: relaxed bind_res_simps, simp_all)
  then show ?thesis unfolding sssp_round_def by (simp only: bind_res_simps prod.case bin option.case) simp
qed

lemma detour_round_3:
  "sssp_round detour_store (Composite 1 INTRA_MAX) 1 7 0 [1]
     ([Dist 0, Dist (1 / 2), Dist (1 / 4), Dist (7 / 4), Dist (7 / 4), Dist (7 / 4), Dist (7 / 4)], [[], [3, 4, 5, 6]]) = Inl OutOfBounds"
proof -
  have relaxed: "foldR (relax 1 1) [(3, 1), (4, 1), (5, 1), (6, 1)]
        ([Dist 0, Dist (1 / 2), Dist (1 / 4), Dist (7 / 4), Dist (7 / 4), Dist (7 / 4), Dist (7 / 4)], [[], [3, 4, 5, 6]]) =
      Inr ([Dist 0, Dist (1 / 2), Dist (1 / 4), Dist (3 / 2), Dist (3 / 2), Dist (3 / 2), Dist (3 / 2)], [[], [3, 4, 5, 6, 3, 4, 5, 6]])" by code_simp
  have bin: "next_bin 0 [[], [3, 4, 5, 6, 3, 4, 5, 6]] = Some 1" by code_simp
  have "foldR (sssp_vertex detour_store (Composite 1 INTRA_MAX) 1 0) [1]
        ([Dist 0, Dist (1 / 2), Dist (1 / 4), Dist (7 / 4), Dist (7 / 4), Dist (7 / 4), Dist (7 / 4)], [[], [3, 4, 5, 6]]) =
      Inr ([Dist 0, Dist (1 / 2), Dist (1 / 4), Dist (3 / 2), Dist (3 / 2), Dist (3 / 2), Dist (3 / 2)], [[], [3, 4, 5, 6, 3, 4, 5, 6]])"
    unfolding foldR.simps by (subst sssp_vertex_relaxes [OF detour_neighbours(2)]) (simp_all only: relaxed bind_res_simps, simp_all)
  then show ?thesis unfolding sssp_round_def by (simp only: bind_res_simps prod.case bin option.case) simp
qed


end
