(* ===== verification/Shortest_Paths.thy ===== *)
theory Shortest_Paths
  imports Algo_SSSP
begin

text \<open>
  Delta-stepping computes shortest distances: the loop ends, and unless the frontier array overflows, the
  distance of a vertex is the least length of a walk from the source, or infinite if there is none.
\<close>

section \<open>Walks\<close>

type_synonym wgraph = "(nat \<times> rat) list list"

inductive walk :: "wgraph \<Rightarrow> nat \<Rightarrow> nat \<Rightarrow> rat \<Rightarrow> bool" for adj s where
  walk_start: "walk adj s s 0"
| walk_step: "walk adj s v l \<Longrightarrow> v < length adj \<Longrightarrow> (w, c) \<in> set (adj ! v) \<Longrightarrow> walk adj s w (l + c)"

text \<open>Edges lead to vertices and have weights that are natural multiples of \<open>1 / Q\<close>.\<close>

definition weights_ok :: "nat \<Rightarrow> wgraph \<Rightarrow> bool" where
  "weights_ok Q adj \<longleftrightarrow> 0 < Q \<and> (\<forall>es \<in> set adj. \<forall>(w, c) \<in> set es. w < length adj \<and> (\<exists>k :: nat. c * of_nat Q = of_nat k))"

definition nonneg_graph :: "wgraph \<Rightarrow> bool" where
  "nonneg_graph adj \<longleftrightarrow> (\<forall>es \<in> set adj. \<forall>(w, c) \<in> set es. w < length adj \<and> 0 \<le> c)"

lemma common_denominator:
  "\<forall>c \<in> set cs. 0 \<le> c \<Longrightarrow> \<exists>Q > 0. \<forall>c \<in> set cs. \<exists>k :: nat. (c :: rat) * of_nat Q = of_nat k"
proof (induction cs)
  case (Cons c cs)
  obtain Q where Q: "Q > 0" "\<forall>c \<in> set cs. \<exists>k :: nat. c * of_nat Q = of_nat k" using Cons by auto
  obtain a b where ab: "c = of_int a / of_int b" "0 < b" using quotient_of_div [of c] quotient_of_denom_pos [of c] by (metis prod.collapse)
  have a: "0 \<le> a" using Cons.prems ab by (simp add: zero_le_divide_iff)
  let ?Q = "Q * nat b"
  have "c * of_nat ?Q = of_nat (nat a * Q)" using ab a by (simp add: field_simps)
  moreover have "\<exists>k :: nat. x * of_nat ?Q = of_nat k" if x: "x \<in> set cs" for x
  proof -
    obtain k :: nat where "x * of_nat Q = of_nat k" using Q(2) x by blast
    then have "x * of_nat Q * of_nat (nat b) = of_nat k * of_nat (nat b)" by simp
    then have "x * of_nat ?Q = of_nat (k * nat b)" by (simp only: of_nat_mult mult.assoc)
    then show ?thesis by (rule exI)
  qed
  moreover have "0 < ?Q" using Q(1) ab(2) by simp
  ultimately have "0 < ?Q \<and> (\<forall>x \<in> set (c # cs). \<exists>k :: nat. x * of_nat ?Q = of_nat k)"
    by (auto simp del: of_nat_mult)
  then show ?case by (rule exI)
qed (auto intro: exI [of _ 1])

lemma weights_ok_exists: "nonneg_graph adj \<Longrightarrow> \<exists>Q. weights_ok Q adj"
proof -
  assume g: "nonneg_graph adj"
  have "\<forall>c \<in> set (map snd (concat adj)). 0 \<le> c" using g by (force simp: nonneg_graph_def)
  from common_denominator [OF this]
  obtain Q where "Q > 0" "\<forall>c \<in> set (map snd (concat adj)). \<exists>k :: nat. c * of_nat Q = of_nat k" by blast
  then have "weights_ok Q adj" using g by (fastforce simp: weights_ok_def nonneg_graph_def)
  then show ?thesis by blast
qed

lemma weights_edge:
  assumes "weights_ok Q adj" "v < length adj" "(w, c) \<in> set (adj ! v)"
  shows "w < length adj" "\<exists>k :: nat. c * of_nat Q = of_nat k" "0 \<le> c"
proof -
  have "adj ! v \<in> set adj" using assms(2) by simp
  then show "w < length adj" and k: "\<exists>k :: nat. c * of_nat Q = of_nat k" using assms(1,3) by (fastforce simp: weights_ok_def)+
  have "0 < (of_nat Q :: rat)" using assms(1) by (simp add: weights_ok_def)
  then show "0 \<le> c" using k by (metis mult_le_0_iff not_le of_nat_0_le_iff order_less_imp_le mult_neg_pos)
qed

lemma walk_scaled: "walk adj s v l \<Longrightarrow> weights_ok Q adj \<Longrightarrow> \<exists>k :: nat. l * of_nat Q = of_nat k"
proof (induction rule: walk.induct)
  case (walk_step v l w c)
  then obtain k m :: nat where "l * of_nat Q = of_nat k" "c * of_nat Q = of_nat m" using weights_edge(2) by meson
  then have "(l + c) * of_nat Q = of_nat (k + m)" by (simp add: distrib_right)
  then show ?case by blast
qed (auto intro: exI [of _ 0])

lemma walk_nonneg: "walk adj s v l \<Longrightarrow> weights_ok Q adj \<Longrightarrow> 0 \<le> l"
proof (induction rule: walk.induct)
  case (walk_step v l w c)
  then show ?case using weights_edge(3) by fastforce
qed simp

section \<open>The bins\<close>

lemma bin_of_mono: "0 < delta \<Longrightarrow> a \<le> b \<Longrightarrow> bin_of delta a \<le> bin_of delta b"
  by (simp add: bin_of_def divide_right_mono floor_mono nat_mono)

lemma bin_of_at_least: "0 < delta \<Longrightarrow> delta * of_nat b \<le> a \<Longrightarrow> b \<le> bin_of delta a"
proof -
  assume d: "0 < delta" and a: "delta * of_nat b \<le> a"
  have "of_nat b \<le> a / delta" using d a by (simp add: field_simps)
  then have "int b \<le> \<lfloor>a / delta\<rfloor>" by (simp add: le_floor_iff)
  then show ?thesis by (simp add: bin_of_def)
qed

lemma bin_of_below: "0 < delta \<Longrightarrow> 0 \<le> a \<Longrightarrow> delta * of_nat (bin_of delta a) \<le> a"
proof -
  assume d: "0 < delta" and a: "0 \<le> a"
  have "of_int \<lfloor>a / delta\<rfloor> * delta \<le> a" by (rule iffD1 [OF pos_le_divide_eq [OF d]]) simp
  then have "delta * of_int \<lfloor>a / delta\<rfloor> \<le> a" by (simp only: mult.commute)
  moreover have "(of_nat (nat \<lfloor>a / delta\<rfloor>) :: rat) = of_int \<lfloor>a / delta\<rfloor>" using d a by simp
  ultimately show ?thesis by (simp add: bin_of_def)
qed

definition in_bin :: "nat list list \<Rightarrow> nat \<Rightarrow> nat \<Rightarrow> bool" where
  "in_bin bins i v \<longleftrightarrow> i < length bins \<and> v \<in> set (bins ! i)"

lemma in_push_bin: "in_bin (push_bin b v bins) i x \<longleftrightarrow> in_bin bins i x \<or> (i = b \<and> x = v)"
  unfolding in_bin_def push_bin_def Let_def by (auto simp: nth_list_update nth_append split: if_splits)

text \<open>The number of waiting entries.\<close>

definition waiting :: "nat list list \<Rightarrow> nat" where
  "waiting bins = (\<Sum>b \<leftarrow> bins. length b)"

lemma waiting_pop: "i < length bins \<Longrightarrow> bins ! i \<noteq> [] \<Longrightarrow> waiting (bins[i := []]) < waiting bins"
proof -
  assume i: "i < length bins" "bins ! i \<noteq> []"
  then have "waiting bins = waiting (take i bins) + length (bins ! i) + waiting (drop (Suc i) bins)"
    by (subst id_take_nth_drop [OF i(1)]) (simp add: waiting_def)
  moreover have "waiting (bins[i := []]) = waiting (take i bins) + waiting (drop (Suc i) bins)"
    using i(1) by (simp add: upd_conv_take_nth_drop waiting_def)
  ultimately show ?thesis using i(2) by simp
qed

section \<open>What a round keeps\<close>

definition settled :: "wgraph \<Rightarrow> dist list \<Rightarrow> rat \<Rightarrow> (nat \<times> rat) set \<Rightarrow> bool" where
  "settled adj ds a es \<longleftrightarrow> (\<forall>(w, c) \<in> es. \<exists>x. ds ! w = Dist x \<and> x \<le> a + c)"

text \<open>
  A finite vertex waits in the bin of its distance, or is still to be read in the frontier \<open>X\<close> of bin
  \<open>b\<close>, or no edge of it can improve anything.
\<close>

definition delta_inv :: "wgraph \<Rightarrow> nat \<Rightarrow> rat \<Rightarrow> nat \<Rightarrow> nat set \<Rightarrow> sssp_state \<Rightarrow> bool" where
  "delta_inv adj s delta b X = (\<lambda>(ds, bins).
     length ds = length adj \<and> ds ! s = Dist 0 \<and>
     (\<forall>v a. v < length adj \<longrightarrow> ds ! v = Dist a \<longrightarrow> walk adj s v a) \<and>
     (\<forall>i v. in_bin bins i v \<longrightarrow> b \<le> i \<and> v < length adj) \<and>
     (\<forall>v a. v < length adj \<longrightarrow> ds ! v = Dist a \<longrightarrow>
        settled adj ds a (set (adj ! v)) \<or> in_bin bins (bin_of delta a) v \<or> v \<in> X \<and> delta * of_nat b \<le> a))"

lemma delta_invI:
  assumes "length ds = length adj" "ds ! s = Dist 0"
    "\<And>v a. v < length adj \<Longrightarrow> ds ! v = Dist a \<Longrightarrow> walk adj s v a"
    "\<And>i v. in_bin bins i v \<Longrightarrow> b \<le> i \<and> v < length adj"
    "\<And>v a. v < length adj \<Longrightarrow> ds ! v = Dist a \<Longrightarrow>
        settled adj ds a (set (adj ! v)) \<or> in_bin bins (bin_of delta a) v \<or> v \<in> X \<and> delta * of_nat b \<le> a"
  shows "delta_inv adj s delta b X (ds, bins)"
  unfolding delta_inv_def prod.case using assms by blast

lemma delta_invD:
  assumes "delta_inv adj s delta b X (ds, bins)"
  shows "length ds = length adj" "ds ! s = Dist 0"
    "v < length adj \<Longrightarrow> ds ! v = Dist a \<Longrightarrow> walk adj s v a"
    "in_bin bins i v \<Longrightarrow> b \<le> i" "in_bin bins i v \<Longrightarrow> v < length adj"
    "v < length adj \<Longrightarrow> ds ! v = Dist a \<Longrightarrow>
        settled adj ds a (set (adj ! v)) \<or> in_bin bins (bin_of delta a) v \<or> v \<in> X \<and> delta * of_nat b \<le> a"
  using assms unfolding delta_inv_def prod.case by blast+

text \<open>Distances only fall; each fall lowers the pair of the two sums below.\<close>

definition infinite_sum :: "dist list \<Rightarrow> nat" where
  "infinite_sum ds = (\<Sum>d \<leftarrow> ds. case d of Infinity \<Rightarrow> 1 | Dist a \<Rightarrow> 0)"

definition finite_sum :: "nat \<Rightarrow> dist list \<Rightarrow> nat" where
  "finite_sum Q ds = (\<Sum>d \<leftarrow> ds. case d of Infinity \<Rightarrow> 0 | Dist a \<Rightarrow> nat \<lfloor>a * of_nat Q\<rfloor>)"

definition better :: "nat \<Rightarrow> dist list \<Rightarrow> dist list \<Rightarrow> bool" where
  "better Q ds' ds \<longleftrightarrow> infinite_sum ds' < infinite_sum ds \<or> infinite_sum ds' = infinite_sum ds \<and> finite_sum Q ds' < finite_sum Q ds"

definition advances :: "nat \<Rightarrow> sssp_state \<Rightarrow> sssp_state \<Rightarrow> bool" where
  "advances Q t t' \<longleftrightarrow> t' = t \<or> better Q (fst t') (fst t)"

lemma advances_refl [simp]: "advances Q t t"
  by (simp add: advances_def)

lemma advances_trans: "advances Q t t' \<Longrightarrow> advances Q t' t'' \<Longrightarrow> advances Q t t''"
  by (auto simp: advances_def better_def)

lemma sum_list_list_update: "v < length xs \<Longrightarrow> (\<Sum>x \<leftarrow> xs[v := y]. f x) + (f (xs ! v) :: nat) = (\<Sum>x \<leftarrow> xs. f x) + f y"
  by (induction xs arbitrary: v) (auto split: nat.split)

lemma better_update:
  assumes "v < length ds" "closer (Dist x) (ds ! v)" "x * of_nat Q = of_nat k" "\<And>a. ds ! v = Dist a \<Longrightarrow> \<exists>m :: nat. a * of_nat Q = of_nat m"
    "0 < Q"
  shows "better Q (ds[v := Dist x]) ds"
proof (cases "ds ! v")
  case Infinity
  then show ?thesis
    using sum_list_list_update [OF assms(1), of "\<lambda>d. case d of Infinity \<Rightarrow> 1 | Dist a \<Rightarrow> 0" "Dist x"]
    by (simp add: better_def infinite_sum_def)
next
  case (Dist a)
  obtain m :: nat where m: "a * of_nat Q = of_nat m" using assms(4) Dist by blast
  have "x * of_nat Q < a * of_nat Q" using assms(2,5) Dist by simp
  then have "k < m" using m assms(3) by simp
  then show ?thesis
    using sum_list_list_update [OF assms(1), of "\<lambda>d. case d of Infinity \<Rightarrow> 1 | Dist a \<Rightarrow> 0" "Dist x"]
      sum_list_list_update [OF assms(1), of "\<lambda>d. case d of Infinity \<Rightarrow> 0 | Dist a \<Rightarrow> nat \<lfloor>a * of_nat Q\<rfloor>" "Dist x"] Dist m assms(3)
    by (simp add: better_def infinite_sum_def finite_sum_def del: One_nat_def)
qed

definition lowered :: "dist list \<Rightarrow> dist list \<Rightarrow> bool" where
  "lowered ds ds' \<longleftrightarrow> (\<forall>v. ds' ! v = ds ! v \<or> closer (ds' ! v) (ds ! v))"

lemma settled_lowered:
  assumes "settled adj ds a es" "lowered ds ds'"
  shows "settled adj ds' a es"
  unfolding settled_def
proof (intro ballI, clarify)
  fix w c assume "(w, c) \<in> es"
  then obtain x where x: "ds ! w = Dist x" "x \<le> a + c" using assms(1) by (auto simp: settled_def)
  consider "ds' ! w = Dist x" | "closer (ds' ! w) (Dist x)" using assms(2) x(1) by (metis lowered_def)
  then show "\<exists>x. ds' ! w = Dist x \<and> x \<le> a + c"
    using x(2) by cases (auto elim!: closer.elims)
qed

lemma relax_step:
  assumes inv: "delta_inv adj s delta b X (ds, bins)" and X: "u \<in> X" and u: "u < length adj" "ds ! u = Dist d" "delta * of_nat b \<le> d"
    and e: "(w, c) \<in> set (adj ! u)" and Q: "weights_ok Q adj" and delta: "0 < delta"
  shows "\<exists>ds' bins'. relax delta u (w, c) (ds, bins) = Inr (ds', bins') \<and> delta_inv adj s delta b X (ds', bins') \<and>
    ds' ! u = Dist d \<and> lowered ds ds' \<and> settled adj ds' d {(w, c)} \<and> advances Q (ds, bins) (ds', bins')"
proof -
  note D = delta_invD [OF inv]
  note E = weights_edge [OF Q u(1) e]
  have wl: "w < length ds" "u < length ds" using E(1) u(1) D(1) by auto
  show ?thesis
  proof (cases "closer (Dist (d + c)) (ds ! w)")
    case False
    then have "settled adj ds d {(w, c)}" by (cases "ds ! w") (auto simp: settled_def)
    then show ?thesis using False wl u(2) inv by (simp add: relax_def Let_def lowered_def)
  next
    case True
    let ?ds = "ds[w := Dist (d + c)]" and ?bins = "push_bin (bin_of delta (d + c)) w bins"
    have dw: "walk adj s w (d + c)" using walk_step [OF D(3) [OF u(1,2)] u(1) e] .
    have d0: "0 \<le> d" using walk_nonneg [OF D(3) [OF u(1,2)] Q] .
    have ne: "w \<noteq> u" "w \<noteq> s" using True u(2) D(2) E(3) d0 by auto
    have low: "lowered ds ?ds" using True wl by (auto simp: lowered_def nth_list_update)
    have "b \<le> bin_of delta (d + c)" by (rule bin_of_at_least [OF delta]) (use u(3) E(3) in simp)
    then have bins: "in_bin ?bins i v \<Longrightarrow> b \<le> i \<and> v < length adj" for i v
      using D(4,5) E(1) by (auto simp: in_push_bin)
    have "delta_inv adj s delta b X (?ds, ?bins)"
    proof (rule delta_invI)
      show "length ?ds = length adj" "?ds ! s = Dist 0" using D(1,2) ne(2) by auto
      show "walk adj s v a" if "v < length adj" "?ds ! v = Dist a" for v a
        using that dw D(3) wl by (cases "v = w") auto
      show "settled adj ?ds a (set (adj ! v)) \<or> in_bin ?bins (bin_of delta a) v \<or> v \<in> X \<and> delta * of_nat b \<le> a"
        if v: "v < length adj" "?ds ! v = Dist a" for v a
      proof (cases "v = w")
        case True
        then show ?thesis using v(2) wl by (simp add: in_push_bin)
      next
        case False
        then have "ds ! v = Dist a" using v(2) by simp
        then show ?thesis using D(6) [OF v(1)] settled_lowered [OF _ low] in_push_bin by blast
      qed
    qed (use bins in blast)
    moreover have "advances Q (ds, bins) (?ds, ?bins)"
    proof -
      obtain k :: nat where "(d + c) * of_nat Q = of_nat k" using walk_scaled [OF dw Q] by blast
      then have "better Q ?ds ds"
        using better_update [OF wl(1) True] walk_scaled [OF D(3) [OF E(1)] Q] Q by (auto simp: weights_ok_def)
      then show ?thesis by (simp add: advances_def)
    qed
    ultimately show ?thesis using True wl u(2) ne(1) low by (simp add: relax_def Let_def settled_def)
  qed
qed

lemma lowered_refl: "lowered ds ds"
  by (simp add: lowered_def)

lemma lowered_trans: "lowered ds ds' \<Longrightarrow> lowered ds' ds'' \<Longrightarrow> lowered ds ds''"
proof -
  assume l: "lowered ds ds'" "lowered ds' ds''"
  have c: "closer x y \<Longrightarrow> closer y z \<Longrightarrow> closer x z" for x y z by (cases x; cases y; cases z) auto
  show ?thesis using l unfolding lowered_def by (metis c)
qed

lemma relax_all:
  assumes "delta_inv adj s delta b X (ds, bins)" "u \<in> X" "u < length adj" "ds ! u = Dist d" "delta * of_nat b \<le> d"
    "set es \<subseteq> set (adj ! u)" "weights_ok Q adj" "0 < delta"
  shows "\<exists>ds' bins'. foldR (relax delta u) es (ds, bins) = Inr (ds', bins') \<and> delta_inv adj s delta b X (ds', bins') \<and>
    ds' ! u = Dist d \<and> lowered ds ds' \<and> settled adj ds' d (set es) \<and> advances Q (ds, bins) (ds', bins')"
  using assms
proof (induction es arbitrary: ds bins)
  case Nil
  then show ?case by (simp add: lowered_refl settled_def)
next
  case (Cons e es)
  obtain w c where e: "e = (w, c)" by (cases e)
  have we: "(w, c) \<in> set (adj ! u)" using Cons.prems(6) e by simp
  obtain ds1 bins1 where r: "relax delta u (w, c) (ds, bins) = Inr (ds1, bins1)" and i: "delta_inv adj s delta b X (ds1, bins1)"
    "ds1 ! u = Dist d" "lowered ds ds1" "settled adj ds1 d {(w, c)}" "advances Q (ds, bins) (ds1, bins1)"
    using relax_step [OF Cons.prems(1-5) we Cons.prems(7,8)] by blast
  obtain ds2 bins2 where f: "foldR (relax delta u) es (ds1, bins1) = Inr (ds2, bins2)" and j: "delta_inv adj s delta b X (ds2, bins2)"
    "ds2 ! u = Dist d" "lowered ds1 ds2" "settled adj ds2 d (set es)" "advances Q (ds1, bins1) (ds2, bins2)"
    using Cons.IH [OF i(1) Cons.prems(2,3) i(2) Cons.prems(5) _ Cons.prems(7,8)] Cons.prems(6) by auto
  have "settled adj ds2 d {(w, c)}" using settled_lowered [OF i(4) j(3)] .
  then have "settled adj ds2 d (set (e # es))" using j(4) e by (simp add: settled_def)
  then show ?case
    using r f e j(1,2) lowered_trans [OF i(3) j(3)] advances_trans [OF i(5) j(5)] by auto
qed

section \<open>A round\<close>

definition reads_graph :: "graph_store \<Rightarrow> composite \<Rightarrow> wgraph \<Rightarrow> bool" where
  "reads_graph g ts adj \<longleftrightarrow> (\<forall>u < length adj. weighted_neighbours g ts u = Inr (adj ! u))"

lemma delta_inv_drop:
  assumes "delta_inv adj s delta b (insert u X) (ds, bins)"
    "\<And>a. ds ! u = Dist a \<Longrightarrow> delta * of_nat b \<le> a \<Longrightarrow> settled adj ds a (set (adj ! u))"
  shows "delta_inv adj s delta b X (ds, bins)"
proof (rule delta_invI)
  note D = delta_invD [OF assms(1)]
  show "settled adj ds a (set (adj ! v)) \<or> in_bin bins (bin_of delta a) v \<or> v \<in> X \<and> delta * of_nat b \<le> a"
    if "v < length adj" "ds ! v = Dist a" for v a using D(6) [OF that] assms(2) that(2) by blast
qed (use delta_invD [OF assms(1)] in blast)+

lemma sssp_vertex_step:
  assumes inv: "delta_inv adj s delta b (insert u X) (ds, bins)" and u: "u < length adj"
    and g: "reads_graph g ts adj" and Q: "weights_ok Q adj" and delta: "0 < delta"
  shows "\<exists>ds' bins'. sssp_vertex g ts delta b u (ds, bins) = Inr (ds', bins') \<and> delta_inv adj s delta b X (ds', bins') \<and>
    advances Q (ds, bins) (ds', bins')"
proof -
  have ul: "u < length ds" using u delta_invD(1) [OF inv] by simp
  have xs: "weighted_neighbours g ts u = Inr (adj ! u)" using g u by (simp add: reads_graph_def)
  consider (no) "\<not> at_least (ds ! u) (delta * of_nat b)" | (inf) "ds ! u = Infinity" | (fin) d where "ds ! u = Dist d" "delta * of_nat b \<le> d"
    by (cases "ds ! u") auto
  then show ?thesis
  proof cases
    case no
    have "delta_inv adj s delta b X (ds, bins)" by (rule delta_inv_drop [OF inv]) (use no in auto)
    then show ?thesis using no ul by (simp add: sssp_vertex_def)
  next
    case inf
    have "foldR (relax delta u) es (ds, bins) = Inr (ds, bins)" if "set es \<subseteq> set (adj ! u)" for es
      using that
    proof (induction es)
      case (Cons e es)
      then have "fst e < length ds" using weights_edge(1) [OF Q u, of "fst e" "snd e"] delta_invD(1) [OF inv] by simp
      then show ?case using Cons inf ul by (simp add: relax_def split_def)
    qed simp
    moreover have "delta_inv adj s delta b X (ds, bins)" using delta_inv_drop [OF inv] inf by auto
    ultimately show ?thesis using inf ul xs by (simp add: sssp_vertex_def)
  next
    case fin
    obtain ds' bins' where r: "foldR (relax delta u) (adj ! u) (ds, bins) = Inr (ds', bins')" "delta_inv adj s delta b (insert u X) (ds', bins')"
      "ds' ! u = Dist d" "settled adj ds' d (set (adj ! u))" "advances Q (ds, bins) (ds', bins')"
      using relax_all [OF inv _ u fin _ Q delta] by blast
    have "delta_inv adj s delta b X (ds', bins')" using delta_inv_drop [OF r(2)] r(3,4) by simp
    then show ?thesis using fin ul xs r by (simp add: sssp_vertex_def)
  qed
qed

lemma frontier_step:
  assumes "delta_inv adj s delta b (set F) (ds, bins)" "set F \<subseteq> {..<length adj}"
    "reads_graph g ts adj" "weights_ok Q adj" "0 < delta"
  shows "\<exists>ds' bins'. foldR (sssp_vertex g ts delta b) F (ds, bins) = Inr (ds', bins') \<and> delta_inv adj s delta b {} (ds', bins') \<and>
    advances Q (ds, bins) (ds', bins')"
  using assms
proof (induction F arbitrary: ds bins)
  case (Cons u F)
  obtain ds1 bins1 where r: "sssp_vertex g ts delta b u (ds, bins) = Inr (ds1, bins1)" "delta_inv adj s delta b (set F) (ds1, bins1)"
    "advances Q (ds, bins) (ds1, bins1)"
    using sssp_vertex_step [of adj s delta b u "set F" ds bins g ts Q] Cons.prems by auto
  obtain ds2 bins2 where "foldR (sssp_vertex g ts delta b) F (ds1, bins1) = Inr (ds2, bins2)" "delta_inv adj s delta b {} (ds2, bins2)"
    "advances Q (ds1, bins1) (ds2, bins2)"
    using Cons.IH [OF r(2)] Cons.prems by auto
  then show ?case using r advances_trans by auto
qed simp

lemma next_bin_Some:
  "next_bin b bins = Some i \<Longrightarrow> b \<le> i \<and> i < length bins \<and> bins ! i \<noteq> [] \<and> (\<forall>j. b \<le> j \<and> j < i \<longrightarrow> bins ! j = [])"
  unfolding next_bin_def find_Some_iff
  by (auto simp: less_diff_conv) (metis add.commute le_add_diff_inverse less_diff_conv2)

lemma next_bin_None: "next_bin b bins = None \<Longrightarrow> b \<le> i \<Longrightarrow> \<not> in_bin bins i v"
  by (auto simp: next_bin_def find_None_iff in_bin_def)

lemma pop_bin:
  assumes inv: "delta_inv adj s delta b {} (ds, bins)" and i: "next_bin b bins = Some i" and Q: "weights_ok Q adj" and delta: "0 < delta"
  shows "delta_inv adj s delta i (set (bins ! i)) (ds, bins[i := []])" "set (bins ! i) \<subseteq> {..<length adj}"
    "waiting (bins[i := []]) < waiting bins"
proof -
  note D = delta_invD [OF inv] and I = next_bin_Some [OF i]
  have pop: "in_bin (bins[i := []]) j v \<longleftrightarrow> in_bin bins j v \<and> j \<noteq> i" for j v
    using I by (cases "j = i") (auto simp: in_bin_def)
  show "delta_inv adj s delta i (set (bins ! i)) (ds, bins[i := []])"
  proof (rule delta_invI)
    show "i \<le> j \<and> v < length adj" if "in_bin (bins[i := []]) j v" for j v
    proof -
      have "in_bin bins j v" using that pop by simp
      then have "b \<le> j" "v < length adj" "bins ! j \<noteq> []" using D(4,5) by (auto simp: in_bin_def)
      then show ?thesis using I by (meson not_le)
    qed
    show "settled adj ds a (set (adj ! v)) \<or> in_bin (bins[i := []]) (bin_of delta a) v \<or> v \<in> set (bins ! i) \<and> delta * of_nat i \<le> a"
      if v: "v < length adj" "ds ! v = Dist a" for v a
    proof (cases "in_bin bins i v \<and> bin_of delta a = i")
      case True
      then show ?thesis using bin_of_below [OF delta walk_nonneg [OF D(3) [OF v] Q]] by (auto simp: in_bin_def)
    next
      case False
      then show ?thesis using D(6) [OF v] pop by auto
    qed
  qed (use D in blast)+
  show "set (bins ! i) \<subseteq> {..<length adj}" using D(5) I by (auto simp: in_bin_def)
  show "waiting (bins[i := []]) < waiting bins" using waiting_pop I by blast
qed

section \<open>When the frontier array is large enough\<close>

text \<open>
  If \<open>delta\<close> is at most every weight, a vertex read in bin \<open>b\<close> is final, so each edge lowers a distance at
  most once. \<open>S\<close> are the vertices read so far: what waits is at most the number of their edges.
\<close>

definition binned :: "rat \<Rightarrow> sssp_state \<Rightarrow> bool" where
  "binned delta = (\<lambda>(ds, bins). \<forall>i v. in_bin bins i v \<longrightarrow> (\<exists>a. ds ! v = Dist a \<and> bin_of delta a \<le> i))"

definition near :: "rat \<Rightarrow> nat \<Rightarrow> dist list \<Rightarrow> nat \<Rightarrow> bool" where
  "near delta b ds v \<longleftrightarrow> (\<exists>a. ds ! v = Dist a \<and> bin_of delta a \<le> b)"

definition few_waiting :: "wgraph \<Rightarrow> rat \<Rightarrow> nat \<Rightarrow> nat set \<Rightarrow> sssp_state \<Rightarrow> bool" where
  "few_waiting adj delta b S = (\<lambda>(ds, bins). S \<subseteq> {..<length adj} \<and> binned delta (ds, bins) \<and>
     (\<forall>u \<in> S. near delta b ds u \<and> (\<forall>a. ds ! u = Dist a \<longrightarrow> settled adj ds a (set (adj ! u)))) \<and>
     waiting bins \<le> (\<Sum>u \<in> S. length (adj ! u)))"

lemma waiting_push: "waiting (push_bin b v bins) = Suc (waiting bins)"
proof -
  have u: "waiting (xs[b := xs ! b @ [v]]) = Suc (waiting xs)" if "b < length xs" for xs
    using sum_list_list_update [OF that, of length "xs ! b @ [v]"] by (simp add: waiting_def)
  have "waiting (bins @ replicate k []) = waiting bins" for k by (simp add: waiting_def sum_list_replicate)
  then show ?thesis by (simp add: push_bin_def Let_def u)
qed

lemma few_relax:
  assumes r: "relax delta u (w, c) (ds, bins) = Inr (ds', bins')" and d: "ds ! u = Dist d" "delta * of_nat b \<le> d" "delta \<le> c"
    and w: "w < length ds" and delta: "0 < delta" and bn: "binned delta (ds, bins)"
  shows "waiting bins' \<le> Suc (waiting bins)" "binned delta (ds', bins')" "near delta b ds x \<Longrightarrow> ds' ! x = ds ! x"
    "ds' ! u = Dist d \<or> \<not> near delta b ds u" "length ds' = length ds"
proof -
  have "delta * of_nat (Suc b) \<le> d + c" using d(2,3) by (simp add: distrib_left)
  then have far: "Suc b \<le> bin_of delta (d + c)" by (rule bin_of_at_least [OF delta])
  have res: "(ds', bins') = (ds, bins) \<or>
      closer (Dist (d + c)) (ds ! w) \<and> (ds', bins') = (ds[w := Dist (d + c)], push_bin (bin_of delta (d + c)) w bins)"
    using r d(1) by (auto simp: relax_def vec_at_def Let_def split: if_splits)
  show "waiting bins' \<le> Suc (waiting bins)" "length ds' = length ds" using res by (auto simp: waiting_push)
  have keep: "ds' ! x = ds ! x" if nx: "near delta b ds x" for x
  proof (cases "closer (Dist (d + c)) (ds ! w) \<and> x = w")
    case True
    then obtain a where a: "ds ! x = Dist a" "bin_of delta a \<le> b" "d + c < a" using nx by (auto simp: near_def)
    then show ?thesis using far bin_of_mono [OF delta, of "d + c" a] by simp
  next
    case False
    then show ?thesis using res by auto
  qed
  show "ds' ! x = ds ! x" if "near delta b ds x" using keep that .
  show "ds' ! u = Dist d \<or> \<not> near delta b ds u" using keep d(1) by auto
  show "binned delta (ds', bins')"
  proof (cases "(ds', bins') = (ds, bins)")
    case False
    then have n: "closer (Dist (d + c)) (ds ! w)" "ds' = ds[w := Dist (d + c)]" "bins' = push_bin (bin_of delta (d + c)) w bins" using res by auto
    show ?thesis unfolding binned_def prod.case
    proof (intro allI impI)
      fix i v assume "in_bin bins' i v"
      then consider "i = bin_of delta (d + c)" "v = w" | "in_bin bins i v" by (auto simp: n(3) in_push_bin)
      then show "\<exists>a. ds' ! v = Dist a \<and> bin_of delta a \<le> i"
      proof cases
        case 2
        then obtain a where a: "ds ! v = Dist a" "bin_of delta a \<le> i" using bn by (auto simp: binned_def)
        then show ?thesis using n(1,2) w bin_of_mono [OF delta, of "d + c" a] by (cases "v = w") auto
      qed (use n(2) w in simp)
    qed
  qed (use bn in simp)
qed

lemma few_relax_all:
  assumes "foldR (relax delta u) es (ds, bins) = Inr (ds', bins')" "ds ! u = Dist d" "delta * of_nat b \<le> d" "near delta b ds u"
    "\<forall>(w, c) \<in> set es. delta \<le> c \<and> w < length ds" "0 < delta" "binned delta (ds, bins)"
  shows "waiting bins' \<le> waiting bins + length es \<and> binned delta (ds', bins') \<and> (\<forall>x. near delta b ds x \<longrightarrow> ds' ! x = ds ! x)"
  using assms
proof (induction es arbitrary: ds bins)
  case (Cons e es)
  obtain w c where e: "e = (w, c)" by (cases e)
  obtain ds1 bins1 where r: "relax delta u (w, c) (ds, bins) = Inr (ds1, bins1)" "foldR (relax delta u) es (ds1, bins1) = Inr (ds', bins')"
    using Cons.prems(1) e by (auto simp: bind_res_Inr_iff)
  have c: "delta \<le> c" "w < length ds" using Cons.prems(5) e by auto
  note F = few_relax [OF r(1) Cons.prems(2,3) c(1,2) Cons.prems(6,7)]
  have u: "ds1 ! u = Dist d" using F(4) Cons.prems(4) by blast
  have "near delta b ds1 x" if "near delta b ds x" for x using F(3) [OF that] that by (simp add: near_def)
  then show ?case
    using Cons.IH [OF r(2) u Cons.prems(3) _ _ Cons.prems(6) F(2)] Cons.prems(4,5) F(1,3,5) by auto
qed simp

lemma settled_relax:
  assumes "settled adj ds d (set es)" "ds ! u = Dist d" "u < length ds" "\<forall>(w, c) \<in> set es. w < length ds"
  shows "foldR (relax delta u) es (ds, bins) = Inr (ds, bins)"
  using assms
proof (induction es)
  case (Cons e es)
  then obtain x where "ds ! fst e = Dist x" "x \<le> d + snd e" by (auto simp: settled_def)
  then have "relax delta u e (ds, bins) = Inr (ds, bins)" using Cons.prems by (simp add: relax_def Let_def split_def)
  then show ?case using Cons by (simp add: settled_def)
qed simp

lemma few_vertex:
  assumes inv: "delta_inv adj s delta b (insert u X) (ds, bins)" and few: "few_waiting adj delta b S (ds, bins)"
    and r: "sssp_vertex g ts delta b u (ds, bins) = Inr (ds', bins')" and u: "u < length adj" "near delta b ds u"
    and g: "reads_graph g ts adj" and Q: "weights_ok Q adj" and delta: "0 < delta" "\<forall>es \<in> set adj. \<forall>(w, c) \<in> set es. delta \<le> c"
  shows "\<exists>S'. few_waiting adj delta b S' (ds', bins') \<and> (\<forall>x. near delta b ds x \<longrightarrow> near delta b ds' x)"
proof -
  have l: "length ds = length adj" "u < length ds" using u delta_invD(1) [OF inv] by auto
  have es: "\<forall>(w, c) \<in> set (adj ! u). delta \<le> c \<and> w < length ds" using delta(2) u(1) weights_edge(1) [OF Q u(1)] l by (auto simp: nth_mem)
  obtain d where d: "ds ! u = Dist d" using u(2) by (auto simp: near_def)
  have fold: "foldR (relax delta u) (adj ! u) (ds, bins) = Inr (ds', bins')" if "delta * of_nat b \<le> d"
    using that r l d g u(1) by (simp add: sssp_vertex_def reads_graph_def)
  have F: "S \<subseteq> {..<length adj}" "binned delta (ds, bins)" "waiting bins \<le> (\<Sum>u \<in> S. length (adj ! u))"
    "\<And>x. x \<in> S \<Longrightarrow> near delta b ds x" "\<And>x a. x \<in> S \<Longrightarrow> ds ! x = Dist a \<Longrightarrow> settled adj ds a (set (adj ! x))"
    using few by (auto simp: few_waiting_def)
  consider "\<not> delta * of_nat b \<le> d" | "delta * of_nat b \<le> d" "u \<in> S" | (new) "delta * of_nat b \<le> d" "u \<notin> S" by blast
  then show ?thesis
  proof cases
    case 1
    then have "(ds', bins') = (ds, bins)" using r l d by (simp add: sssp_vertex_def)
    then show ?thesis using few by auto
  next
    case 2
    have "\<forall>(w, c) \<in> set (adj ! u). w < length ds" using es by auto
    then have "(ds', bins') = (ds, bins)" using fold [OF 2(1)] settled_relax [OF F(5) [OF 2(2) d] d l(2)] by simp
    then show ?thesis using few by auto
  next
    case new
    note A = few_relax_all [OF fold [OF new(1)] d new(1) u(2) es delta(1) F(2)]
    obtain ds2 bins2 where "foldR (relax delta u) (adj ! u) (ds, bins) = Inr (ds2, bins2)" "lowered ds ds2" "settled adj ds2 d (set (adj ! u))"
      using relax_all [OF inv _ u(1) d new(1) _ Q delta(1)] by blast
    then have L: "lowered ds ds'" "settled adj ds' d (set (adj ! u))" using fold [OF new(1)] by auto
    have near: "near delta b ds' x" if "near delta b ds x" for x using A that by (auto simp: near_def)
    have "settled adj ds' a (set (adj ! x))" if x: "x \<in> S" "ds' ! x = Dist a" for x a
      using A F(4,5) [OF x(1)] x(2) settled_lowered [OF _ L(1)] by auto
    moreover have "settled adj ds' a (set (adj ! u))" if "ds' ! u = Dist a" for a using A u(2) d L(2) that by auto
    moreover have "waiting bins' \<le> (\<Sum>u \<in> insert u S. length (adj ! u))"
      using A F(1,3) new(2) finite_subset [OF F(1)] by simp
    ultimately have "few_waiting adj delta b (insert u S) (ds', bins')"
      using A F(1,4) u near by (auto simp: few_waiting_def)
    then show ?thesis using near by blast
  qed
qed

lemma few_frontier:
  assumes "delta_inv adj s delta b (set F) (ds, bins)" "set F \<subseteq> {..<length adj}" "few_waiting adj delta b S (ds, bins)"
    "\<forall>v \<in> set F. near delta b ds v" "foldR (sssp_vertex g ts delta b) F (ds, bins) = Inr (ds', bins')"
    "reads_graph g ts adj" "weights_ok Q adj" "0 < delta" "\<forall>es \<in> set adj. \<forall>(w, c) \<in> set es. delta \<le> c"
  shows "\<exists>S'. few_waiting adj delta b S' (ds', bins')"
  using assms
proof (induction F arbitrary: ds bins S)
  case (Cons u F)
  obtain ds1 bins1 where r: "sssp_vertex g ts delta b u (ds, bins) = Inr (ds1, bins1)" "delta_inv adj s delta b (set F) (ds1, bins1)"
    using sssp_vertex_step [of adj s delta b u "set F" ds bins g ts Q] Cons.prems by auto
  obtain S1 where S1: "few_waiting adj delta b S1 (ds1, bins1)" "\<forall>x. near delta b ds x \<longrightarrow> near delta b ds1 x"
    using few_vertex [OF _ Cons.prems(3) r(1) _ _ Cons.prems(6-9)] Cons.prems(1,2,4) by fastforce
  show ?case using Cons.IH [OF r(2) _ S1(1) _ _ Cons.prems(6-9)] Cons.prems(2,4,5) r(1) S1(2) by auto
qed auto

lemma few_pop:
  assumes few: "few_waiting adj delta b S (ds, bins)" and i: "next_bin b bins = Some i"
  shows "few_waiting adj delta i S (ds, bins[i := []])" "\<forall>v \<in> set (bins ! i). near delta i ds v"
    "length (bins ! i) \<le> (\<Sum>es \<leftarrow> adj. length es)"
proof -
  note I = next_bin_Some [OF i]
  have F: "S \<subseteq> {..<length adj}" "binned delta (ds, bins)" "waiting bins \<le> (\<Sum>u \<in> S. length (adj ! u))"
    "\<forall>x \<in> S. near delta b ds x \<and> (\<forall>a. ds ! x = Dist a \<longrightarrow> settled adj ds a (set (adj ! x)))"
    using few by (auto simp: few_waiting_def)
  have "in_bin bins j v" if "in_bin (bins[i := []]) j v" for j v using that I by (cases "j = i") (auto simp: in_bin_def)
  then have "binned delta (ds, bins[i := []])" using F(2) by (auto simp: binned_def)
  moreover have "near delta i ds x" if "near delta b ds x" for x using that I by (auto simp: near_def)
  moreover have "waiting (bins[i := []]) \<le> waiting bins" using waiting_pop I by (metis less_imp_le)
  ultimately show "few_waiting adj delta i S (ds, bins[i := []])" using F by (auto simp: few_waiting_def)
  show "\<forall>v \<in> set (bins ! i). near delta i ds v" using F(2) I by (auto simp: binned_def near_def in_bin_def)
  have "length (bins ! i) \<le> waiting bins"
    using member_le_sum_list [of "length (bins ! i)" "map length bins"] I by (simp add: waiting_def)
  also have "\<dots> \<le> (\<Sum>u \<in> {..<length adj}. length (adj ! u))" using F(1,3) sum_mono2 [of "{..<length adj}" S "\<lambda>u. length (adj ! u)"] by simp
  also have "\<dots> = (\<Sum>es \<leftarrow> adj. length es)" by (simp add: sum_list_sum_nth lessThan_atLeast0)
  finally show "length (bins ! i) \<le> (\<Sum>es \<leftarrow> adj. length es)" .
qed

section \<open>The whole run\<close>

text \<open>Finite distances are least lengths of walks, infinite ones mark the vertices without a walk.\<close>

definition shortest :: "wgraph \<Rightarrow> nat \<Rightarrow> dist list \<Rightarrow> bool" where
  "shortest adj s ds \<longleftrightarrow> length ds = length adj \<and>
     (\<forall>v < length adj. case ds ! v of Infinity \<Rightarrow> \<forall>l. \<not> walk adj s v l
        | Dist x \<Rightarrow> walk adj s v x \<and> (\<forall>l. walk adj s v l \<longrightarrow> x \<le> l))"

lemma shortest_if_settled:
  assumes inv: "delta_inv adj s delta b {} (ds, bins)" and bins: "\<And>i v. \<not> in_bin bins i v"
  shows "shortest adj s ds"
proof -
  note D = delta_invD [OF inv]
  have reach: "\<exists>x. ds ! v = Dist x \<and> x \<le> l" if "walk adj s v l" for v l
    using that
  proof (induction rule: walk.induct)
    case (walk_step v l w c)
    then obtain x where x: "ds ! v = Dist x" "x \<le> l" by blast
    then have "settled adj ds x (set (adj ! v))" using D(6) [OF walk_step.hyps(2) x(1)] bins by blast
    then obtain y where "ds ! w = Dist y" "y \<le> x + c" using walk_step.hyps(3) by (auto simp: settled_def)
    then show ?case using x(2) by auto
  qed (use D(2) in simp)
  show ?thesis unfolding shortest_def
  proof (intro conjI allI impI)
    fix v assume v: "v < length adj"
    show "case ds ! v of Infinity \<Rightarrow> \<forall>l. \<not> walk adj s v l | Dist x \<Rightarrow> walk adj s v x \<and> (\<forall>l. walk adj s v l \<longrightarrow> x \<le> l)"
      using D(3) [OF v] reach by (cases "ds ! v") fastforce+
  qed (rule D(1))
qed

definition loop_order :: "nat \<Rightarrow> (sssp_state \<times> sssp_state) set" where
  "loop_order Q = measures [\<lambda>t. infinite_sum (fst t), \<lambda>t. finite_sum Q (fst t), \<lambda>t. waiting (snd t)]"

definition roomy :: "wgraph \<Rightarrow> rat \<Rightarrow> nat \<Rightarrow> bool" where
  "roomy adj delta num_edges \<longleftrightarrow> (\<Sum>es \<leftarrow> adj. length es) \<le> num_edges \<and> (\<forall>es \<in> set adj. \<forall>(w, c) \<in> set es. delta \<le> c)"

lemma sssp_loop_ends:
  assumes "delta_inv adj s delta b (set F) t" "set F \<subseteq> {..<length adj}"
    "roomy adj delta m \<Longrightarrow> (\<exists>S. few_waiting adj delta b S t) \<and> (\<forall>v \<in> set F. near delta b (fst t) v)"
    and g: "reads_graph g ts adj" and Q: "weights_ok Q adj" and delta: "0 < delta"
  shows "\<exists>r. sssp_loop g ts delta m (Some b) F t = Some r \<and>
    (r = Inl OutOfBounds \<and> \<not> roomy adj delta m \<or> (\<exists>ds'. r = Inr ds' \<and> shortest adj s ds'))"
  using assms(1-3)
proof (induction t arbitrary: b F rule: wf_induct_rule [OF wf_measures [of "[\<lambda>t. infinite_sum (fst t), \<lambda>t. finite_sum Q (fst t), \<lambda>t. waiting (snd t)]",
      folded loop_order_def]])
  case (1 t)
  obtain ds bins where t: "t = (ds, bins)" by (cases t)
  note IH = 1(1) [unfolded t] and prems = 1(2) [unfolded t] 1(3) and few = 1(4) [unfolded t fst_conv]
  obtain ds1 bins1 where r: "foldR (sssp_vertex g ts delta b) F (ds, bins) = Inr (ds1, bins1)" "delta_inv adj s delta b {} (ds1, bins1)"
    "advances Q (ds, bins) (ds1, bins1)"
    using frontier_step [OF prems g Q delta] by blast
  have few1: "\<exists>S. few_waiting adj delta b S (ds1, bins1)" if ok: "roomy adj delta m"
  proof -
    obtain S where "few_waiting adj delta b S (ds, bins)" using few [OF ok] by blast
    then show ?thesis using few_frontier [OF prems _ _ r(1) g Q delta] few [OF ok] ok by (auto simp: roomy_def)
  qed
  show ?case
  proof (cases "next_bin b bins1")
    case None
    have "\<not> in_bin bins1 i v" for i v using next_bin_None [OF None] delta_invD(4) [OF r(2)] by blast
    then have "shortest adj s ds1" using shortest_if_settled [OF r(2)] by blast
    then show ?thesis using r(1) None t
      by (subst sssp_loop.simps) (simp add: sssp_round_def sssp_loop.simps [of g ts delta m None])
  next
    case (Some i)
    note P = pop_bin [OF r(2) Some Q delta]
    have "((ds1, bins1[i := []]), (ds, bins)) \<in> loop_order Q"
      using r(3) P(3) by (auto simp: loop_order_def advances_def better_def)
    note IH = IH [OF this P(1,2)]
    show ?thesis
    proof (cases "length (bins1 ! i) > m")
      case True
      then have "\<not> roomy adj delta m" using few1 few_pop(3) [OF _ Some] by (fastforce simp: roomy_def)
      then show ?thesis using r(1) Some True t by (subst sssp_loop.simps) (simp add: sssp_round_def)
    next
      case False
      have "(\<exists>S. few_waiting adj delta i S (ds1, bins1[i := []])) \<and> (\<forall>v \<in> set (bins1 ! i). near delta i ds1 v)" if "roomy adj delta m"
        using few1 [OF that] few_pop(1,2) [OF _ Some] by blast
      then show ?thesis using r(1) Some IH False t by (subst sssp_loop.simps) (simp add: sssp_round_def)
    qed
  qed
qed

lemma start_inv:
  assumes "source < length adj" "0 < delta"
  defines "t \<equiv> ((replicate (length adj) Infinity)[source := Dist 0], [])"
  shows "delta_inv adj source delta 0 (set [source]) t" "few_waiting adj delta 0 {} t" "near delta 0 (fst t) source"
proof -
  show "delta_inv adj source delta 0 (set [source]) t"
    unfolding t_def using assms(1)
    by (intro delta_invI) (auto simp: in_bin_def nth_list_update split: if_splits intro: walk_start)
  show "few_waiting adj delta 0 {} t" by (simp add: few_waiting_def binned_def in_bin_def t_def waiting_def)
  show "near delta 0 (fst t) source" using assms(1) by (simp add: near_def t_def bin_of_def)
qed

text \<open>
  C31: On a snapshot whose weights are not negative, with a positive \<open>delta\<close> and a source in range, the search
  ends. What it returns are the least lengths of walks from the source, infinite where there is no walk.
  It fails, writing past the frontier array, only if the versioned degrees sum to 0 or to less than the
  number of edges read, or some weight is below \<open>delta\<close>.
\<close>

theorem sssp_finds_shortest_paths:
  assumes "gs_node_num g = length adj" "\<And>u. u < length adj \<Longrightarrow> weighted_neighbours g ts u = Inr (adj ! u)"
    and "\<And>v. v < length adj \<Longrightarrow> check_degree g v e = Inr (deg v)"
    and "nonneg_graph adj" "0 < delta" "source < length adj"
  defines "num_edges \<equiv> (\<Sum>v < length adj. unat (deg v))"
  shows "\<exists>r. compute_sssp g e ts source delta = Some r \<and>
    (r = Inl OutOfBounds \<and> (num_edges = 0 \<or> num_edges < (\<Sum>es \<leftarrow> adj. length es) \<or> (\<exists>es \<in> set adj. \<exists>(w, c) \<in> set es. c < delta)) \<or>
     (\<exists>ds. r = Inr ds \<and> length ds = length adj \<and>
       (\<forall>v < length adj. case ds ! v of Infinity \<Rightarrow> \<forall>l. \<not> walk adj source v l
          | Dist x \<Rightarrow> walk adj source v x \<and> (\<forall>l. walk adj source v l \<longrightarrow> x \<le> l))))"
proof -
  have deg: "mapR (\<lambda>v. bind_res (check_degree g v e) (\<lambda>d. Inr (unat d))) [0..<gs_node_num g] = Inr (map (\<lambda>v. unat (deg v)) [0..<length adj])"
    using assms(1,3) by (intro mapR_ok [THEN trans]) auto
  have sum: "sum_list (map (\<lambda>v. unat (deg v)) [0..<length adj]) = num_edges"
    by (simp add: num_edges_def interv_sum_list_conv_sum_set_nat lessThan_atLeast0)
  show ?thesis
  proof (cases "num_edges = 0")
    case True
    then show ?thesis using assms(1,6) deg sum by (simp add: compute_sssp_def)
  next
    case False
    obtain Q where Q: "weights_ok Q adj" using weights_ok_exists assms(4) by blast
    let ?t = "((replicate (length adj) Infinity)[source := Dist 0], [])"
    note S = start_inv [OF assms(6,5)]
    have "reads_graph g ts adj" using assms(2) by (simp add: reads_graph_def)
    then obtain r where r: "sssp_loop g ts delta num_edges (Some 0) [source] ?t = Some r"
      "r = Inl OutOfBounds \<and> \<not> roomy adj delta num_edges \<or> (\<exists>ds. r = Inr ds \<and> shortest adj source ds)"
      using sssp_loop_ends [OF S(1) _ _ _ Q assms(5), where g = g and ts = ts and m = num_edges] S(2,3) assms(6) by auto
    have "compute_sssp g e ts source delta = Some r" using False assms(1,6) deg sum r(1) by (simp add: compute_sssp_def)
    moreover have "num_edges < (\<Sum>es \<leftarrow> adj. length es) \<or> (\<exists>es \<in> set adj. \<exists>(w, c) \<in> set es. c < delta)" if "\<not> roomy adj delta num_edges"
      using that by (force simp: roomy_def not_le)
    ultimately show ?thesis using r(2) unfolding shortest_def by blast
  qed
qed

definition detour_graph :: wgraph where
  "detour_graph = [[(1, 3 / 4), (2, 1 / 4)], [(3, 1), (4, 1), (5, 1), (6, 1)], [(1, 1 / 4)], [], [], [], []]"

lemma detour_sinks:
  assumes "u \<in> {3, 4, 5, 6}"
  shows "weighted_neighbours detour_store (Composite 1 INTRA_MAX) u = Inr []"
proof -
  have "raw_neighbours (written_vertex u (detour_edges ! u)) = Inr []" using assms by (elim insertE; hypsubst?; (code_simp | simp))
  then show ?thesis using weighted_neighbours_raw [of u detour_edges "[]"] assms by (simp add: detour_store_def) (auto simp: detour_edges_def)
qed

lemma seven_cases: "P 0 \<Longrightarrow> P 1 \<Longrightarrow> P 2 \<Longrightarrow> P 3 \<Longrightarrow> P 4 \<Longrightarrow> P 5 \<Longrightarrow> P 6 \<Longrightarrow> u < 7 \<Longrightarrow> P (u :: nat)"
  by (cases "u \<in> {0, 1, 2, 3, 4, 5, 6}") auto

theorem sssp_finds_shortest_paths_witness:
  "\<exists>ds. compute_sssp detour_store 1 (Composite 1 INTRA_MAX) 0 (1 / 4) = Some (Inr ds) \<and> ds ! 0 = Dist 0"
proof -
  let ?deg = "\<lambda>v. [2, 4, 1, 0, 0, 0, 0] ! v :: 32 word"
  have l: "length detour_graph = 7" by (simp add: detour_graph_def)
  have n: "gs_node_num detour_store = length detour_graph" by (simp add: detour_store_def detour_edges_def detour_graph_def)
  have reads: "weighted_neighbours detour_store (Composite 1 INTRA_MAX) u = Inr (detour_graph ! u)" if "u < length detour_graph" for u
    using that unfolding l by (rule seven_cases [rotated -1]) (simp_all add: detour_neighbours detour_sinks detour_graph_def del: One_nat_def)
  have deg: "check_degree detour_store v 1 = Inr (?deg v)" if "v < length detour_graph" for v
    using that unfolding l by (rule seven_cases [rotated -1]) (simp_all add: detour_degrees del: One_nat_def)
  have g: "nonneg_graph detour_graph" by (simp add: nonneg_graph_def detour_graph_def)
  have lt: "{..<length detour_graph} = {0, 1, 2, 3, 4, 5, 6}" unfolding l by auto
  have roomy: "(\<Sum>v < length detour_graph. unat (?deg v)) = 7" "(\<Sum>es \<leftarrow> detour_graph. length es) = 7"
    "\<not> (\<exists>es \<in> set detour_graph. \<exists>(w, c) \<in> set es. c < 1 / 4)"
    unfolding lt by (simp_all add: detour_graph_def)
  obtain ds where ds: "compute_sssp detour_store 1 (Composite 1 INTRA_MAX) 0 (1 / 4) = Some (Inr ds)"
    "case ds ! 0 of Infinity \<Rightarrow> \<forall>l. \<not> walk detour_graph 0 0 l
       | Dist x \<Rightarrow> walk detour_graph 0 0 x \<and> (\<forall>l. walk detour_graph 0 0 l \<longrightarrow> x \<le> l)"
    using sssp_finds_shortest_paths [OF n reads deg g, of "1 / 4" 0] roomy l by auto
  obtain Q where "weights_ok Q detour_graph" using weights_ok_exists [OF g] ..
  then have "ds ! 0 = Dist 0" using ds(2) walk_start [of detour_graph 0] walk_nonneg by (cases "ds ! 0") (auto intro: antisym)
  then show ?thesis using ds(1) by blast
qed

end
