(* ===== verification/Vertex_Degree.thy ===== *)
theory Vertex_Degree
  imports Vertex_History
begin

text \<open>
  The versioned degree \<open>get_degree\<close>: \<open>edge_num_\<close> less what the blocks after the epoch added. It counts the
  writes of the history, one up for a successful insertion and one down for a deletion, so it is the
  number of edges a reader sees as long as no insertion updates a live edge.
\<close>

section \<open>The pending count\<close>

definition pend_change :: "nat \<Rightarrow> vb_manager \<Rightarrow> int" where
  "pend_change k m = (\<Sum>x\<leftarrow>tvb_live (vbm_tvb_array m ! k). degree_change x)"

definition op_sign :: "vop \<Rightarrow> int" where
  "op_sign op = (case op of VInsert _ _ \<Rightarrow> 1 | VDelete _ _ \<Rightarrow> - 1)"

lemma degree_change_relink: "degree_change (x\<lparr>ent_link := l\<rparr>) = degree_change x"
  by (simp add: degree_change_def)

lemma sum_update_same: "f y = f (xs ! i) \<Longrightarrow> (\<Sum>x\<leftarrow>xs[i := y]. f x) = (\<Sum>x\<leftarrow>xs. (f x :: int))"
  by (metis list_update_beyond list_update_id map_update not_le)

lemma change_next_sum:
  assumes "ChangeNextIndex t i ep ni = Inr t'"
  shows "(\<Sum>x\<leftarrow>tvb_live t'. degree_change x) = (\<Sum>x\<leftarrow>tvb_live t. degree_change x)"
proof -
  have "map degree_change (tmp_entry t') = map degree_change (tmp_entry t)" "version_num t' = version_num t"
    using assms by (auto simp: ChangeNextIndex_def Let_def map_update degree_change_relink split: if_splits)
      (metis list_update_id map_update)
  then show ?thesis by (metis take_map tvb_live_def)
qed

text \<open>What the steps of a write do to the published chain, to \<open>edge_num_\<close> and to the pending count.\<close>

definition same_chain :: "vertex_edges \<Rightarrow> vertex_edges \<Rightarrow> bool" where
  "same_chain v v' \<longleftrightarrow> vbm_end (VBM v') = vbm_end (VBM v) \<and> edge_num v' = edge_num v"

lemma set_item_VBM [simp]:
  "VBM (set_item_e s x v) = VBM v" "VBM (set_item_p s x v) = VBM v"
  "edge_num (set_item_e s x v) = edge_num v" "edge_num (set_item_p s x v) = edge_num v"
  by (cases s; simp)+

lemma locate_or_add_VBM:
  "locate_or_add e w v = Inr (v', s, b) \<Longrightarrow> VBM v' = VBM v \<and> edge_num v' = edge_num v"
  by (auto simp: locate_or_add_def bind_res_def Let_def split: option.splits bool.splits if_splits sum.splits)

lemma mark_pending_VBM [simp]:
  "VBM (mark_pending s E i e p v) = VBM v" "edge_num (mark_pending s E i e p v) = edge_num v"
  by (simp_all add: mark_pending_def Let_def)

definition counted :: "nat \<Rightarrow> int \<Rightarrow> vertex_edges \<Rightarrow> vertex_edges \<Rightarrow> bool" where
  "counted k n v v' \<longleftrightarrow> same_chain v v' \<and> pend_change k (VBM v') = pend_change k (VBM v) + n"

lemma counted_trans: "counted k m v v1 \<Longrightarrow> counted k n v1 v2 \<Longrightarrow> counted k (m + n) v v2"
  by (simp add: counted_def same_chain_def)

lemma counted_frame: "VBM v' = VBM v \<Longrightarrow> edge_num v' = edge_num v \<Longrightarrow> counted k 0 v v'"
  by (simp add: counted_def same_chain_def)

lemma record_version_counts:
  assumes tv: "tvb_ok (tvb_at v (ring_slot E))" "ring_slot E < length (vbm_tvb_array (VBM v))"
    and r: "record_version e E s is_tmp old txn v d = Inr (v', idx, intra, txn', d')"
  shows "counted (ring_slot E) (if is_delete (fst e) then - 1 else 1) v v'"
proof -
  let ?k = "ring_slot E"
  obtain le li oi where old: "old = (le, li, oi)" by (cases old)
  obtain ic t1 d1 where gi: "get_intra_c txn d = (ic, t1, d1)" by (cases "get_intra_c txn d")
  obtain t n where ins: "InsertVersion (tvb_at v ?k) e le li (push_bit 32 (ucast le) OR ucast li) (tx_addr txn) (tx_write_only txn)
      (offset_of s) (merge_times v) le oi ic = (t, n)" by fastforce
  define v1 where "v1 = set_tvb ?k t v"
  have sum: "(\<Sum>x\<leftarrow>tvb_live t. degree_change x) = pend_change ?k (VBM v) + (if is_delete (fst e) then - 1 else 1)"
    using InsertVersion_spec(5) [OF tv(1) ins] by (simp add: pend_change_def tvb_at_def degree_change_def)
  have c1: "counted ?k (if is_delete (fst e) then - 1 else 1) v v1"
    using sum tv(2) by (simp add: counted_def same_chain_def v1_def set_tvb_def pend_change_def)
  show ?thesis
  proof (cases "is_tmp \<and> le \<noteq> 0")
    case False
    then have "v' = v1" using r gi ins by (auto simp: record_version_def old Let_def v1_def)
    then show ?thesis using c1 by simp
  next
    case True
    then obtain t' where t': "ChangeNextIndex (tvb_at v1 (ring_slot le)) (unat li) E (word_of_nat n) = Inr t'"
      "v' = set_tvb (ring_slot le) t' v1"
      using r gi ins by (auto simp: record_version_def old Let_def v1_def bind_res_def split: sum.splits)
    have "pend_change ?k (VBM v') = pend_change ?k (VBM v1)"
      using change_next_sum [OF t'(1)] tv(2) unfolding t'(2)
      by (cases "ring_slot le = ?k") (simp_all add: pend_change_def set_tvb_def v1_def tvb_at_def)
    moreover have "same_chain v1 v'" by (simp add: t'(2) same_chain_def)
    ultimately have "counted ?k 0 v1 v'" by (simp add: counted_def)
    then show ?thesis using counted_trans [OF c1] by fastforce
  qed
qed

lemma touch_counts:
  assumes tv: "tvbs_ok E N v" and tid: "tx_threadid txn < length (vd_vb_vector d)" and r: "touch_tvb self E txn v d = Inr (v', d')"
  shows "counted (ring_slot E) 0 v v'" "tvbs_ok E N v'"
proof -
  obtain m where m: "v' = v\<lparr>VBM := m\<rparr>" "touched E v m" "tvbs_ok E N (v\<lparr>VBM := m\<rparr>)"
    using touch_tvb_spec [OF tv tid, of self] r by auto
  then show "counted (ring_slot E) 0 v v'" by (auto simp: counted_def same_chain_def touched_def pend_change_def tvb_at_def)
  show "tvbs_ok E N v'" using m by simp
qed

lemma tvbs_ok_VBM: "VBM v' = VBM v \<Longrightarrow> tvbs_ok E N v' = tvbs_ok E N v"
  by (simp add: tvbs_ok_def tvb_at_def)

lemma tvbs_slot: "tvbs_ok E N v \<Longrightarrow> tvb_ok (tvb_at v (ring_slot E)) \<and> ring_slot E < length (vbm_tvb_array (VBM v))"
  by (simp add: tvbs_ok_def Let_def)

section \<open>A write counts one\<close>

lemma merge_if_full_counts:
  assumes "pend_inv E N v" "\<not> has_tmp oldest" "N + 1 < 2 ^ 31" "merge_if_full junk oldest v = Inr v1"
  shows "VBM v1 = VBM v \<and> edge_num v1 = edge_num v"
proof (cases "tmp_ev v = TMPNUM")
  case True
  then show ?thesis using merge_pend_inv [OF assms(1) True assms(2), of junk] assms(3,4) by (auto simp: merge_if_full_def)
qed (use assms(4) in \<open>simp add: merge_if_full_def\<close>)

lemma insert_counts:
  assumes inva: "pend_inv E N v" and N: "N + 1 < 2 ^ 31" and oldest: "\<not> has_tmp oldest" and dst: "\<not> is_delete dst"
    and tid: "tx_threadid txn < length (vd_vb_vector d)"
    and r: "insert_edge_block junk oldest self (dst, w) E txn v d = Inr (v', txn', d', ok)"
  shows "counted (ring_slot E) (if ok then 1 else 0) v v'"
proof -
  let ?k = "ring_slot E"
  obtain v1 where m: "merge_if_full junk oldest v = Inr v1" using r by (auto simp: insert_edge_block_def merge_if_full_def bind_res_def split: sum.splits if_splits)
  then have merge: "bind_res (if tmp_ev v = TMPNUM then merge_tmpev_with_eb junk oldest v else Inr v) f = f v1" for f :: "_ \<Rightarrow> write_result"
    by (simp add: merge_if_full_def)
  obtain v2 s b where l: "locate_or_add dst w v1 = Inr (v2, s, b)"
    using r merge by (auto simp: insert_edge_block_def bind_res_def split: sum.splits if_splits)
  have V: "VBM v2 = VBM v" "edge_num v2 = edge_num v"
    using merge_if_full_counts [OF inva oldest N m] locate_or_add_VBM [OF l] by simp_all
  have tv: "tvbs_ok E N v2" using inva tvbs_ok_VBM [OF V(1)] by (simp add: pend_inv_def)
  obtain v3 d3 where t: "touch_tvb self E txn v2 d = Inr (v3, d3)"
    using r merge l by (auto simp: insert_edge_block_def bind_res_def split: sum.splits if_splits)
  note t3 = touch_counts [OF tv tid t]
  have c3: "counted ?k 0 v v3" using counted_trans [OF counted_frame [OF V] t3(1)] by simp
  let ?old = "if b then (0, 0, 0) else read_old v3 s"
  show ?thesis
  proof (cases "write_conflict txn E (fst ?old)")
    case True
    then have "v' = v3\<lparr>ve_locked := False\<rparr>" "\<not> ok" using r merge l t by (auto simp: insert_edge_block_def Let_def split: if_splits)
    then show ?thesis using c3 by (simp add: counted_def same_chain_def)
  next
    case False
    then obtain v4 idx ic txn4 d4 where rv: "record_version (dst, w) E s (has_tmp (ew_block (item_e v3 s))) ?old txn v3 d3 = Inr (v4, idx, ic, txn4, d4)"
      and v': "v' = (mark_pending s E ic (ew_e (item_e v4 s)) (word_of_nat idx) v4)\<lparr>ve_locked := True\<rparr>" "ok"
      using r merge l t by (auto simp: insert_edge_block_def Let_def bind_res_def split: sum.splits if_splits)
    have "counted ?k 1 v3 v4" using record_version_counts [OF _ _ rv] tvbs_slot [OF t3(2)] dst by simp
    then show ?thesis using counted_trans [OF c3] v' by (fastforce simp: counted_def same_chain_def)
  qed
qed

lemma delete_counts:
  assumes inva: "pend_inv E N v" and N: "N + 1 < 2 ^ 31" and oldest: "\<not> has_tmp oldest"
    and tid: "tx_threadid txn < length (vd_vb_vector d)"
    and r: "delete_edge_block junk oldest self (dst, w) E txn v d = Inr (v', txn', d', ok)"
  shows "counted (ring_slot E) (if ok then - 1 else 0) v v'"
proof -
  let ?k = "ring_slot E"
  obtain v1 where m: "merge_if_full junk oldest v = Inr v1" using r by (auto simp: delete_edge_block_def merge_if_full_def bind_res_def split: sum.splits if_splits)
  then have merge: "bind_res (if tmp_ev v = TMPNUM then merge_tmpev_with_eb junk oldest v else Inr v) f = f v1" for f :: "_ \<Rightarrow> write_result"
    by (simp add: merge_if_full_def)
  note V = merge_if_full_counts [OF inva oldest N m]
  have tv: "tvbs_ok E N v1" using inva tvbs_ok_VBM [of v1 v] V by (simp add: pend_inv_def)
  have c1: "counted ?k 0 v v1" using V by (intro counted_frame) simp_all
  show ?thesis
  proof (cases "getDestHashTableVal2 (ve_M v1) dst = Some True")
    case False
    then have "v' = v1\<lparr>ve_locked := False\<rparr>" "\<not> ok" using r merge by (auto simp: delete_edge_block_def split: if_splits option.splits bool.splits)
    then show ?thesis using c1 by (simp add: counted_def same_chain_def)
  next
    case found: True
    obtain s y where l: "get_edge_index v1 dst = Inr (Some (s, y))"
      using r merge found by (auto simp: delete_edge_block_def bind_res_def split: sum.splits if_splits option.splits)
    obtain v3 d3 where t: "touch_tvb self E txn v1 d = Inr (v3, d3)"
      using r merge found l by (auto simp: delete_edge_block_def bind_res_def split: sum.splits if_splits)
    note t3 = touch_counts [OF tv tid t]
    have c3: "counted ?k 0 v v3" using counted_trans [OF c1 t3(1)] by simp
    show ?thesis
    proof (cases "write_conflict txn E (fst (read_old v3 s))")
      case True
      then have "v' = v3\<lparr>ve_locked := False\<rparr>" "\<not> ok" using r merge found l t by (auto simp: delete_edge_block_def Let_def split: if_splits)
      then show ?thesis using c3 by (simp add: counted_def same_chain_def)
    next
      case False
      then obtain v4 idx ic txn4 d4 where rv: "record_version (dst OR DELETION_MASK, w) E s (has_tmp (ew_block (item_e v3 s))) (read_old v3 s) txn v3 d3 = Inr (v4, idx, ic, txn4, d4)"
        and v': "v' = (mark_pending s E ic (ew_e (item_e v4 s) OR DELETION_MASK) 0 v4)\<lparr>ve_locked := True\<rparr>" "ok"
        using r merge found l t by (auto simp: delete_edge_block_def Let_def bind_res_def split: sum.splits if_splits)
      have "is_delete (dst OR DELETION_MASK)" by (simp add: is_delete_bit bit_or_iff DELETION_MASK_def bit_numeral_rec)
      then have "counted ?k (- 1) v3 v4" using record_version_counts [OF _ _ rv] tvbs_slot [OF t3(2)] by simp
      then show ?thesis using counted_trans [OF c3] v' by (fastforce simp: counted_def same_chain_def)
    qed
  qed
qed

section \<open>A history\<close>

definition net_insertions :: "log \<Rightarrow> epoch_t \<Rightarrow> int" where
  "net_insertions lg q = (\<Sum>e\<leftarrow>filter (\<lambda>e. fst e \<le> q) lg. op_sign (snd e))"

definition published_change :: "vertex_edges \<Rightarrow> epoch_t \<Rightarrow> int" where
  "published_change v q = (\<Sum>vb\<leftarrow>filter (\<lambda>vb. vb_timestamp vb \<le> q) (vbm_end (VBM v)). vb_edge_num vb)"

definition chain_total :: "vertex_edges \<Rightarrow> int" where
  "chain_total v = (\<Sum>vb\<leftarrow>vbm_end (VBM v). vb_edge_num vb)"

text \<open>While epoch \<open>E\<close> is written: what is published and what is pending add up to the log.\<close>

definition degree_inv :: "epoch_t \<Rightarrow> vertex_edges \<Rightarrow> log \<Rightarrow> bool" where
  "degree_inv E v lg \<longleftrightarrow> edge_num v = chain_total v \<and>
     (\<forall>q. published_change v q + (if E \<le> q then pend_change (ring_slot E) (VBM v) else 0) = net_insertions lg q)"

definition degree_rest :: "vertex_edges \<Rightarrow> log \<Rightarrow> bool" where
  "degree_rest v lg \<longleftrightarrow> edge_num v = chain_total v \<and> (\<forall>q. published_change v q = net_insertions lg q)"

lemma net_insertions_snoc: "net_insertions (lg @ [(E, op)]) q = net_insertions lg q + (if E \<le> q then op_sign op else 0)"
  by (simp add: net_insertions_def)

lemma counted_degree_inv:
  assumes "degree_inv E v lg" "counted (ring_slot E) (if ok then op_sign op else 0) v v'"
  shows "degree_inv E v' (if ok then lg @ [(E, op)] else lg)"
proof -
  let ?k = "ring_slot E" and ?lg = "if ok then lg @ [(E, op)] else lg"
  have c: "vbm_end (VBM v') = vbm_end (VBM v)" "edge_num v' = edge_num v"
    "pend_change ?k (VBM v') = pend_change ?k (VBM v) + (if ok then op_sign op else 0)"
    using assms(2) by (simp_all add: counted_def same_chain_def)
  have "published_change v' q + (if E \<le> q then pend_change ?k (VBM v') else 0) = net_insertions ?lg q" for q
  proof -
    have "published_change v q + (if E \<le> q then pend_change ?k (VBM v) else 0) = net_insertions lg q"
      using assms(1) by (simp add: degree_inv_def)
    then show ?thesis using c by (cases ok) (simp_all add: published_change_def net_insertions_snoc split: if_splits)
  qed
  then show ?thesis using assms(1) c by (simp add: degree_inv_def chain_total_def)
qed

lemma run_write_counts:
  assumes inva: "hist_inv E N v lg" and legal: "legal_write wr v d lg" and N: "N + 2 < 2 ^ 31" and deg: "degree_inv E v lg"
    and r: "run_write self E wr v d = Inr (v', d', ok)"
  shows "degree_inv E v' (if ok then lg @ [(E, fst wr)] else lg)"
proof -
  obtain op txn oldest junk where wr: "wr = (op, txn, oldest, junk)" by (cases wr) auto
  have p: "pend_inv E N v" using inva by (simp add: hist_inv_def)
  have l: "\<not> is_delete (vop_dst op)" "\<not> has_tmp oldest" "tx_threadid txn < length (vd_vb_vector d)"
    using legal by (auto simp: legal_write_def wr)
  obtain v1 txn1 d1 where a: "apply_op self E wr v d = Inr (v1, txn1, d1, ok)" "v' = v1 \<or> v' = unleashReadLock v1"
    using r by (auto simp: run_write_def bind_res_def Let_def split: sum.splits prod.splits if_splits)
  have "counted (ring_slot E) (if ok then op_sign op else 0) v v1"
  proof (cases op)
    case (VInsert dst w)
    then show ?thesis using insert_counts [OF p _ l(2) _ l(3), of dst junk self w v1 txn1 d1 ok] a(1) l(1) N
      by (cases ok) (simp_all add: apply_op_def wr op_sign_def)
  next
    case (VDelete dst w)
    then show ?thesis using delete_counts [OF p _ l(2,3), of junk self dst w v1 txn1 d1 ok] a(1) N
      by (cases ok) (simp_all add: apply_op_def wr op_sign_def)
  qed
  moreover have "counted (ring_slot E) 0 v1 v'" using a(2) by (auto simp: unleashReadLock_def intro!: counted_frame)
  ultimately have "counted (ring_slot E) (if ok then op_sign op else 0) v v'" using counted_trans by fastforce
  then show ?thesis using counted_degree_inv [OF deg, of ok op v'] unfolding wr fst_conv by blast
qed

lemma run_writes_count:
  assumes "hist_inv E N v lg" "legal_writes self E wrs (v, d, lg)" "N + 2 * length wrs < 2 ^ 31" "degree_inv E v lg"
    and "run_writes self E wrs (v, d, lg) = Inr (v', d', lg')"
  shows "degree_inv E v' lg'"
  using assms
proof (induction wrs arbitrary: N v d lg)
  case (Cons wr wrs)
  obtain v1 d1 ok where r: "run_write self E wr v d = Inr (v1, d1, ok)"
    "hist_inv E (N + 2) v1 (if ok then lg @ [(E, fst wr)] else lg)"
    using run_write_inv [OF Cons.prems(1), of wr d self] Cons.prems(2,3) by auto
  have "degree_inv E v1 (if ok then lg @ [(E, fst wr)] else lg)"
    using run_write_counts [OF Cons.prems(1) _ _ Cons.prems(4) r(1)] Cons.prems(2,3) by simp
  then show ?case using Cons.IH [OF r(2), of d1] Cons.prems(2,3,5) r(1) by auto
qed simp

lemma publish_counts:
  assumes p: "pend_inv E N v" "\<not> ve_locked v" "transform_order (tvb_at v (ring_slot E)) indices" and deg: "degree_inv E v lg"
    and t: "transform_pending indices (ring_slot E) v = Inr v'"
  shows "degree_rest v' lg"
proof (cases "version_num (tvb_at v (ring_slot E)) = 0")
  case True
  then have "v' = v" using t by (simp add: transform_pending_def Transform_def)
  moreover have "pend_change (ring_slot E) (VBM v) = 0" using True by (simp add: pend_change_def tvb_live_def tvb_at_def)
  ultimately have "published_change v' q = net_insertions lg q" for q
    using deg by (cases "E \<le> q") (auto simp: degree_inv_def dest: spec [of _ q])
  then show ?thesis using deg \<open>v' = v\<close> by (simp add: degree_inv_def degree_rest_def)
next
  case False
  obtain vb where vb: "vbm_end (VBM v') = vb # vbm_end (VBM v)" "vb_timestamp vb = E"
    "vb_edge_num vb = pend_change (ring_slot E) (VBM v)" "edge_num v' = edge_num v + vb_edge_num vb"
    using transform_correct [OF p(1,2) False p(3)] t by (auto simp: pend_change_def tvb_at_def)
  have "published_change v' q = net_insertions lg q" for q
  proof -
    have "published_change v q + (if E \<le> q then pend_change (ring_slot E) (VBM v) else 0) = net_insertions lg q"
      using deg by (simp add: degree_inv_def)
    then show ?thesis using vb by (simp add: published_change_def split: if_splits)
  qed
  then show ?thesis using deg vb by (simp add: degree_inv_def degree_rest_def chain_total_def)
qed

lemma degree_rest_inv:
  assumes "quiet_inv E0 N v" "degree_rest v lg"
  shows "degree_inv E v lg"
proof -
  have "tvb_ok (tvb_at v (ring_slot E))" "tmp_entry (tvb_at v (ring_slot E)) = []"
    using assms(1) ring_slot_less by (auto simp: quiet_inv_def)
  then have "version_num (tvb_at v (ring_slot E)) = 0" by (simp add: tvb_ok_def)
  then show ?thesis using assms(2) by (simp add: degree_rest_def degree_inv_def pend_change_def tvb_live_def tvb_at_def del: if_split)
qed

lemma run_epochs_count:
  assumes "rest_inv E0 N v lg" "legal_epochs self E0 eps (v, lg)" "N + 2 * count_writes eps < 2 ^ 31" "degree_rest v lg"
    and "run_epochs self eps (v, lg) = Inr (v', lg')"
  shows "degree_rest v' lg'"
  using assms
proof (induction eps arbitrary: E0 N v lg)
  case (Cons ep eps)
  obtain E wrs order where ep: "ep = (E, wrs, order)" by (cases ep) auto
  have lg: "E0 < E" "\<not> has_tmp E" "legal_writes self E wrs (v, VBData_new E, lg)" using Cons.prems(2) by (simp_all add: ep)
  have bound: "N + 2 * length wrs < 2 ^ 31" using Cons.prems(3) by (simp add: ep)
  have h: "hist_inv E N v lg" by (rule rest_hist [OF Cons.prems(1) lg(1,2)])
  obtain v1 d1 lg1 where w: "run_writes self E wrs (v, VBData_new E, lg) = Inr (v1, d1, lg1)" "hist_inv E (N + 2 * length wrs) v1 lg1"
    using run_writes_inv [OF h lg(3) bound] by blast
  have "degree_inv E v lg" using degree_rest_inv Cons.prems(1,4) by (auto simp: rest_inv_def)
  then have d1: "degree_inv E v1 lg1" by (rule run_writes_count [OF h lg(3) bound _ w(1)])
  let ?o = "order (tvb_at v1 (ring_slot E))"
  have o: "transform_order (tvb_at v1 (ring_slot E)) ?o" using Cons.prems(2) w(1) by (simp add: ep)
  have p1: "pend_inv E (N + 2 * length wrs) v1" "\<not> ve_locked v1" using w(2) by (simp_all add: hist_inv_def)
  obtain v2 where t: "transform_pending ?o (ring_slot E) v1 = Inr v2" "quiet_inv E (N + 2 * length wrs) v2"
    "quiet_intervals v2 = intervals E v1" "\<not> ve_locked v2"
    using publish_epoch [OF p1 o] by blast
  have rest: "rest_inv E (N + 2 * length wrs) v2 lg1" using t w(2) by (simp add: rest_inv_def hist_inv_def)
  have d2: "degree_rest v2 lg1" by (rule publish_counts [OF p1 o d1 t(1)])
  have "legal_epochs self E eps (v2, lg1)" using Cons.prems(2) w(1) t(1) by (simp add: ep)
  moreover have "run_epochs self eps (v2, lg1) = Inr (v', lg')" using Cons.prems(5) w(1) t(1) by (simp add: ep)
  moreover have "N + 2 * length wrs + 2 * count_writes eps < 2 ^ 31" using Cons.prems(3) by (simp add: ep)
  ultimately show ?case using Cons.IH [OF rest _ _ d2] by blast
qed simp

section \<open>The degree a reader sees\<close>

text \<open>No insertion of an edge that is there, no deletion of one that is not.\<close>

fun proper :: "vop list \<Rightarrow> dst_t set \<Rightarrow> bool" where
  "proper [] S = True"
| "proper (VInsert d w # ops) S = (d \<notin> S \<and> proper ops (insert d S))"
| "proper (VDelete d w # ops) S = (d \<in> S \<and> proper ops (S - {d}))"

lemma proper_count: "finite S \<Longrightarrow> proper ops S \<Longrightarrow> int (card (replay ops S)) = int (card S) + (\<Sum>op\<leftarrow>ops. op_sign op)"
proof (induction ops S rule: proper.induct)
  case (3 d w ops S)
  then have "int (card (S - {d})) = int (card S) - 1"
    by (metis card_Suc_Diff1 diff_add_cancel of_nat_Suc add.commute proper.simps(3) add_diff_cancel_left')
  then show ?case using 3 by (simp add: op_sign_def)
qed (simp_all add: op_sign_def)

lemma degree_rest_read:
  assumes "quiet_inv E N v" "degree_rest v lg"
  shows "get_degree v q = Inr (word_of_int (net_insertions lg q))"
proof -
  have "chain_wf (vbm_end_epoch (VBM v)) (vbm_end (VBM v))" using assms(1) by (simp add: quiet_inv_def vbm_ok_def)
  then have "getDegreeVersioned (VBM v) q = Inr (published_change v q - chain_total v)"
    by (simp add: degree_telescopes published_change_def chain_total_def)
  then show ?thesis using assms(2) by (simp add: get_degree_def degree_rest_def)
qed

text \<open>
  C32: After any legal history of an empty vertex its versioned degree at an epoch is the number of
  successful insertions less that of successful deletions up to the epoch. It is the number of edges a
  reader of the epoch sees, if no insertion among them updated an edge that was there.
\<close>

theorem degree_counts_writes:
  assumes "length pool = 2 * TMPNUM" "empty_vertex pool = Inr v0"
    and "legal_epochs self 0 eps (v0, [])" "2 * count_writes eps < 2 ^ 31"
  shows "\<exists>v lg. run_epochs self eps (v0, []) = Inr (v, lg) \<and> (blind_history eps \<longrightarrow> lg = full_log eps) \<and>
    (\<forall>q. get_degree v q = Inr (word_of_int (net_insertions lg q))) \<and>
    (\<forall>q. proper (map snd (filter (\<lambda>e. fst e \<le> q) lg)) {} \<longrightarrow> get_degree v q = Inr (of_nat (card (edges_at lg q))))"
proof -
  have r0: "rest_inv 0 0 v0 []" using empty_vertex_rests [OF assms(1)] assms(2) by auto
  have v0: "v0 = VertexEdges_new\<lparr>tmp_item := pool\<rparr>" using assms(2) by (simp add: empty_vertex_def build_def VertexEdges_new_def)
  then have d0: "degree_rest v0 []"
    by (simp add: degree_rest_def chain_total_def published_change_def net_insertions_def VertexEdges_new_def VersionBlockManager_new_def)
  obtain v lg E where run: "run_epochs self eps (v0, []) = Inr (v, lg)" "rest_inv E (2 * count_writes eps) v lg"
    "blind_history eps \<longrightarrow> lg = full_log eps"
    using run_epochs_inv [OF r0 assms(3)] assms(4) by auto
  have "degree_rest v lg" using run_epochs_count [OF r0 assms(3) _ d0 run(1)] assms(4) by simp
  then have deg: "get_degree v q = Inr (word_of_int (net_insertions lg q))" for q
    using degree_rest_read run(2) by (auto simp: rest_inv_def)
  have "net_insertions lg q = int (card (edges_at lg q))" if "proper (map snd (filter (\<lambda>e. fst e \<le> q) lg)) {}" for q
    using proper_count [OF _ that] by (simp add: net_insertions_def edges_at_def comp_def)
  then show ?thesis using run(1,3) deg by (intro exI [of _ v] exI [of _ lg]) simp
qed

theorem degree_counts_writes_witness:
  "\<exists>v. run_epochs 0 sample_history (VertexEdges_new\<lparr>tmp_item := sample_pool\<rparr>, []) = Inr (v, full_log sample_history) \<and>
    get_degree v 0 = Inr 0 \<and> get_degree v 1 = Inr 2 \<and> get_degree v 2 = Inr 2"
proof -
  have fits: "length sample_pool = 2 * TMPNUM" "2 * count_writes sample_history < 2 ^ 31"
    by (simp_all add: sample_pool_def TMPNUM_def sample_history_def)
  have l: "full_log sample_history = [(1, VInsert 5 50), (1, VInsert 3 30), (2, VDelete 5 0), (2, VInsert 9 90)]"
    by (simp add: sample_history_def epoch_log_def sample_write_def)
  from degree_counts_writes [OF fits(1) sample_start sample_legal fits(2)] sample_blind
  obtain v where v: "run_epochs 0 sample_history (VertexEdges_new\<lparr>tmp_item := sample_pool\<rparr>, []) = Inr (v, full_log sample_history)"
    "\<forall>q. get_degree v q = Inr (word_of_int (net_insertions (full_log sample_history) q))" by blast
  have "net_insertions (full_log sample_history) 0 = 0" "net_insertions (full_log sample_history) 1 = 2"
    "net_insertions (full_log sample_history) 2 = 2"
    unfolding l net_insertions_def by (simp_all add: op_sign_def)
  then show ?thesis using v by auto
qed

text \<open>
  A bulk load sets the number of stored edges but not \<open>edge_num_\<close>: at every epoch the versioned degree is 0.
\<close>

lemma bulk_load_degree_zero:
  assumes "build pool es VertexEdges_new = Inr v"
  shows "ve_num v = length es \<and> get_degree v q = Inr 0"
  using assms by (auto simp: build_def get_degree_def getDegreeVersioned_def VertexEdges_new_def VersionBlockManager_new_def
      split: option.splits)

end
