(* ===== verification/Store_History.thy ===== *)
theory Store_History
  imports Epoch_Manager Vertex_Degree Algo_Snapshot
begin

text \<open>
  End to end, for the whole store: write transactions with any number of edges go through \<open>GraphStore\<close>,
  register the vertices they touch with the epoch's \<open>VBData\<close> and release them at commit;
  \<open>VBData::commitVersionBlock\<close> then publishes what is registered. Every reading of every vertex shows
  the replay of the writes at that vertex. The history of one vertex is in \<open>Vertex_History\<close>.
\<close>

section \<open>Running a history\<close>

text \<open>A write at a source vertex, with the watermark it reads and what fresh memory holds.\<close>

type_synonym swrite = "nat \<times> vop \<times> epoch_t \<times> edge_with_index"

fun store_write :: "swrite \<Rightarrow> graph_store \<times> transaction \<times> vb_data \<Rightarrow> (graph_store \<times> transaction \<times> vb_data) res" where
  "store_write (u, VInsert dst w, oldest, junk) s = insertedge (junk, oldest) (u, dst, w) s"
| "store_write (u, VDelete dst w, oldest, junk) s = deletedge (junk, oldest) (u, dst, w) s"

type_synonym stxn = "transaction \<times> swrite list"

definition run_txn :: "stxn \<Rightarrow> graph_store \<times> vb_data \<Rightarrow> (graph_store \<times> vb_data) res" where
  "run_txn t s =
     bind_res (foldR store_write (snd t) (fst s, fst t, snd s)) (\<lambda>s1.
     bind_res (commit_on_store s1) (\<lambda>(g, _, d). Inr (g, d)))"

type_synonym sepoch = "epoch_t \<times> stxn list"

fun run_store :: "(tmp_version_block \<Rightarrow> nat list) \<Rightarrow> sepoch list \<Rightarrow> graph_store \<Rightarrow> graph_store res" where
  "run_store order [] g = Inr g"
| "run_store order ((E, txns) # eps) g =
     bind_res (foldR run_txn txns (g, VBData_new E)) (\<lambda>(g1, d1).
     bind_res (VBData_commitVersionBlock order d1 g1) (\<lambda>(_, g2). run_store order eps g2))"

section \<open>The specification\<close>

text \<open>The writes at one vertex, in the order the transactions commit.\<close>

type_synonym logs = "nat \<Rightarrow> log"

definition add_log :: "epoch_t \<Rightarrow> swrite \<Rightarrow> logs \<Rightarrow> logs" where
  "add_log E w L = L(fst w := L (fst w) @ [(E, fst (snd w))])"

definition txn_log :: "epoch_t \<Rightarrow> stxn \<Rightarrow> logs \<Rightarrow> logs" where
  "txn_log E t L = fold (add_log E) (snd t) L"

definition epoch_logs :: "sepoch \<Rightarrow> logs \<Rightarrow> logs" where
  "epoch_logs ep L = fold (txn_log (fst ep)) (snd ep) L"

definition store_logs :: "sepoch list \<Rightarrow> logs" where
  "store_logs eps = fold epoch_logs eps (\<lambda>_. [])"

text \<open>
  What the callers owe: transactions that only write, with a thread id below 64 and no two writes at one
  source; each write as \<open>legal_write\<close> asks.
\<close>

definition legal_swrite :: "swrite \<Rightarrow> graph_store \<times> transaction \<times> vb_data \<Rightarrow> logs \<Rightarrow> bool" where
  "legal_swrite w s L =
     (case w of (u, op, oldest, junk) \<Rightarrow> case s of (g, txn, d) \<Rightarrow>
        u < gs_node_num g \<and>
        (case GetBlockByIndex g u of Inl _ \<Rightarrow> False | Inr v \<Rightarrow> legal_write (op, txn, oldest, junk) v d (L u)))"

fun legal_swrites :: "epoch_t \<Rightarrow> swrite list \<Rightarrow> graph_store \<times> transaction \<times> vb_data \<Rightarrow> logs \<Rightarrow> bool" where
  "legal_swrites E [] s L = True"
| "legal_swrites E (w # ws) s L =
     (legal_swrite w s L \<and> (case store_write w s of Inl _ \<Rightarrow> True | Inr s' \<Rightarrow> legal_swrites E ws s' (add_log E w L)))"

definition legal_txn :: "epoch_t \<Rightarrow> stxn \<Rightarrow> graph_store \<times> vb_data \<Rightarrow> logs \<Rightarrow> bool" where
  "legal_txn E t s L \<longleftrightarrow>
     tx_write_only (fst t) \<and> tx_epoch (fst t) = E \<and> tx_EB_vec (fst t) = [] \<and> tx_threadid (fst t) < WRITE_THREAD \<and>
     distinct (map fst (snd t)) \<and> legal_swrites E (snd t) (fst s, fst t, snd s) L"

fun legal_txns :: "epoch_t \<Rightarrow> stxn list \<Rightarrow> graph_store \<times> vb_data \<Rightarrow> logs \<Rightarrow> bool" where
  "legal_txns E [] s L = True"
| "legal_txns E (t # ts) s L =
     (legal_txn E t s L \<and> (case run_txn t s of Inl _ \<Rightarrow> True | Inr s' \<Rightarrow> legal_txns E ts s' (txn_log E t L)))"

fun legal_store :: "(tmp_version_block \<Rightarrow> nat list) \<Rightarrow> epoch_t \<Rightarrow> sepoch list \<Rightarrow> graph_store \<Rightarrow> logs \<Rightarrow> bool" where
  "legal_store order E0 [] g L = True"
| "legal_store order E0 ((E, txns) # eps) g L =
     (E0 < E \<and> \<not> has_tmp E \<and> legal_txns E txns (g, VBData_new E) L \<and>
      (case run_store order [(E, txns)] g of Inl _ \<Rightarrow> True | Inr g' \<Rightarrow> legal_store order E eps g' (epoch_logs (E, txns) L)))"

section \<open>What a write does around its vertex\<close>

lemma set_item_stamps [simp]: "stamps (set_item_e s x v) = stamps v" "stamps (set_item_p s x v) = stamps v"
  by (simp_all add: stamps_def)

lemma stamps_VBM: "VBM v' = VBM v \<Longrightarrow> stamps v' = stamps v"
  by (simp add: stamps_def)

lemma stamps_set_tvb: "tvb_timestamp t = tvb_timestamp (tvb_at v k) \<Longrightarrow> stamps (set_tvb k t v) = stamps v"
proof (cases "k < length (vbm_tvb_array (VBM v))")
  case True
  moreover assume "tvb_timestamp t = tvb_timestamp (tvb_at v k)"
  ultimately have "tvb_timestamp t = map tvb_timestamp (vbm_tvb_array (VBM v)) ! k" by (simp add: tvb_at_def)
  then show ?thesis by (simp add: stamps_def set_tvb_def map_update)
qed (simp add: stamps_def set_tvb_def list_update_beyond)

lemma ChangeNextIndex_stamp: "ChangeNextIndex t i ep ni = Inr t' \<Longrightarrow> tvb_timestamp t' = tvb_timestamp t"
  by (auto simp: ChangeNextIndex_def Let_def split: if_splits)

text \<open>The block registered by the first write of an epoch.\<close>

definition enlist :: "nat \<Rightarrow> epoch_t \<Rightarrow> nat \<Rightarrow> vertex_edges \<Rightarrow> tvb_ptr list list \<Rightarrow> tvb_ptr list list" where
  "enlist self E tid v vec =
     (if stamps v ! ring_slot E = E then vec else vec[tid := vec ! tid @ [(self, ring_slot E)]])"

text \<open>The block of an epoch that was written is one that the readers scan.\<close>

definition active_ok :: "epoch_t \<Rightarrow> vertex_edges \<Rightarrow> bool" where
  "active_ok E v \<longleftrightarrow> (stamps v ! ring_slot E = E \<longrightarrow> bit (vbm_active_mask (VBM v)) (ring_slot E))"

lemma active_ok_VBM: "VBM v' = VBM v \<Longrightarrow> active_ok E v' = active_ok E v"
  by (simp add: active_ok_def stamps_def)

definition write_frame :: "nat \<Rightarrow> epoch_t \<Rightarrow> transaction \<Rightarrow> transaction \<Rightarrow> vertex_edges \<Rightarrow> vertex_edges \<Rightarrow> vb_data \<Rightarrow> vb_data \<Rightarrow> bool" where
  "write_frame self E txn txn' v v' d d' \<longleftrightarrow>
     tx_EB_vec txn' = tx_EB_vec txn @ [self] \<and> tx_threadid txn' = tx_threadid txn \<and>
     tx_write_only txn' = tx_write_only txn \<and> tx_epoch txn' = tx_epoch txn \<and>
     stamps v' = (stamps v)[ring_slot E := E] \<and> (active_ok E v \<longrightarrow> active_ok E v') \<and> vd_this_vb_vector d' = vd_this_vb_vector d \<and>
     vd_vb_vector d' = enlist self E (tx_threadid txn) v (vd_vb_vector d)"

lemma set_tvb_mask [simp]: "vbm_active_mask (VBM (set_tvb k t v)) = vbm_active_mask (VBM v)"
  by (simp add: set_tvb_def)

lemma record_version_frame:
  assumes "record_version e E s is_tmp old txn v d = Inr (v', idx, intra, txn', d')" "tvb_ok (tvb_at v (ring_slot E))"
  shows "stamps v' = stamps v" "tx_EB_vec txn' = tx_EB_vec txn" "tx_threadid txn' = tx_threadid txn"
    "tx_write_only txn' = tx_write_only txn" "tx_epoch txn' = tx_epoch txn" "vd_vb_vector d' = vd_vb_vector d"
    "vd_this_vb_vector d' = vd_this_vb_vector d" "vbm_active_mask (VBM v') = vbm_active_mask (VBM v)"
proof -
  obtain le li oi where old: "old = (le, li, oi)" by (cases old)
  obtain ic t1 d1 where gi: "get_intra_c txn d = (ic, t1, d1)" by (cases "get_intra_c txn d")
  obtain t n where ins: "InsertVersion (tvb_at v (ring_slot E)) e le li (push_bit 32 (ucast le) OR ucast li) (tx_addr txn) (tx_write_only txn)
      (offset_of s) (merge_times v) le oi ic = (t, n)" by fastforce
  have st: "stamps (set_tvb (ring_slot E) t v) = stamps v" by (rule stamps_set_tvb) (rule InsertVersion_spec(3) [OF assms(2) ins])
  have all: "stamps v' = stamps v \<and> txn' = t1 \<and> d' = d1 \<and> vbm_active_mask (VBM v') = vbm_active_mask (VBM v)"
    using assms(1) gi ins st
    by (auto simp: record_version_def old Let_def bind_res_def stamps_set_tvb ChangeNextIndex_stamp split: sum.splits if_splits)
  from all show "stamps v' = stamps v" "tx_EB_vec txn' = tx_EB_vec txn" "tx_threadid txn' = tx_threadid txn"
    "tx_write_only txn' = tx_write_only txn" "tx_epoch txn' = tx_epoch txn" "vd_vb_vector d' = vd_vb_vector d"
    "vbm_active_mask (VBM v') = vbm_active_mask (VBM v)"
    using get_intra_c_spec [OF gi] by auto
  show "vd_this_vb_vector d' = vd_this_vb_vector d"
    using all gi by (auto simp: get_intra_c_def fetch_add_intra_def split: if_splits)
qed

lemma touch_frame:
  assumes "touch_tvb self E txn v d = Inr (v', d')" "length (vbm_tvb_array (VBM v)) = MAXSIMULBATCH"
  shows "stamps v' = (stamps v)[ring_slot E := E]" "vd_vb_vector d' = enlist self E (tx_threadid txn) v (vd_vb_vector d)"
    "vd_this_vb_vector d' = vd_this_vb_vector d" "active_ok E v \<Longrightarrow> active_ok E v'"
proof -
  have st: "stamps v ! ring_slot E = tvb_timestamp (tvb_at v (ring_slot E))" using assms(2) by (simp add: stamps_def tvb_at_def)
  moreover have "bit (2 ^ ring_slot E :: 16 word) (ring_slot E)"
    using ring_slot_less [of E] by (simp add: bit_exp_iff MAXSIMULBATCH_def)
  then have "active_ok E v \<Longrightarrow> active_ok E v'"
    using assms(1) st
    by (auto simp: touch_tvb_def Let_def bind_res_def active_ok_def MarkTvbActive_def bit_or_iff
        write_lock_pushback_def VB_pushback_def split: sum.splits if_splits)
  moreover from st have "stamps v ! ring_slot E = E \<Longrightarrow> (stamps v)[ring_slot E := E] = stamps v" by (metis list_update_id)
  ultimately show "stamps v' = (stamps v)[ring_slot E := E]" "vd_vb_vector d' = enlist self E (tx_threadid txn) v (vd_vb_vector d)"
    "vd_this_vb_vector d' = vd_this_vb_vector d" "active_ok E v \<Longrightarrow> active_ok E v'"
    using assms(1)
    by (auto simp: touch_tvb_def Let_def bind_res_def write_lock_pushback_def VB_pushback_def enlist_def stamps_def
        set_tvb_def MarkTvbActive_def map_update split: sum.splits if_splits)
qed

text \<open>The stages of a successful write.\<close>

lemma insert_stages:
  assumes r: "insert_edge_block junk oldest self (dst, w) E txn v d = Inr (v', txn', d', True)"
  obtains v1 v2 s b v3 d3 v4 idx ic txn4 where "merge_if_full junk oldest v = Inr v1" "locate_or_add dst w v1 = Inr (v2, s, b)"
    "touch_tvb self E txn v2 d = Inr (v3, d3)"
    "record_version (dst, w) E s (has_tmp (ew_block (item_e v3 s))) (if b then (0, 0, 0) else read_old v3 s) txn v3 d3 =
       Inr (v4, idx, ic, txn4, d')"
    "txn' = AddEB txn4 self" "v' = (mark_pending s E ic (ew_e (item_e v4 s)) (word_of_nat idx) v4)\<lparr>ve_locked := True\<rparr>"
proof -
  obtain v1 where m: "merge_if_full junk oldest v = Inr v1" using r by (auto simp: insert_edge_block_def merge_if_full_def bind_res_def split: sum.splits if_splits)
  then have merge: "bind_res (if tmp_ev v = TMPNUM then merge_tmpev_with_eb junk oldest v else Inr v) f = f v1" for f :: "_ \<Rightarrow> write_result"
    by (simp add: merge_if_full_def)
  obtain v2 s b where l: "locate_or_add dst w v1 = Inr (v2, s, b)"
    using r merge by (auto simp: insert_edge_block_def bind_res_def split: sum.splits if_splits)
  obtain v3 d3 where t: "touch_tvb self E txn v2 d = Inr (v3, d3)"
    using r merge l by (auto simp: insert_edge_block_def bind_res_def split: sum.splits if_splits)
  let ?old = "if b then (0, 0, 0) else read_old v3 s"
  obtain v4 idx ic txn4 d4 where rv: "record_version (dst, w) E s (has_tmp (ew_block (item_e v3 s))) ?old txn v3 d3 = Inr (v4, idx, ic, txn4, d4)"
    and "v' = (mark_pending s E ic (ew_e (item_e v4 s)) (word_of_nat idx) v4)\<lparr>ve_locked := True\<rparr>" "txn' = AddEB txn4 self" "d' = d4"
    using r merge l t by (auto simp: insert_edge_block_def Let_def bind_res_def split: sum.splits if_splits)
  then show thesis using that [OF m l t] by blast
qed

lemma delete_stages:
  assumes r: "delete_edge_block junk oldest self (dst, w) E txn v d = Inr (v', txn', d', True)"
  obtains v1 s y v3 d3 v4 idx ic txn4 where "merge_if_full junk oldest v = Inr v1" "getDestHashTableVal2 (ve_M v1) dst = Some True"
    "get_edge_index v1 dst = Inr (Some (s, y))" "touch_tvb self E txn v1 d = Inr (v3, d3)"
    "record_version (dst OR DELETION_MASK, w) E s (has_tmp (ew_block (item_e v3 s))) (read_old v3 s) txn v3 d3 = Inr (v4, idx, ic, txn4, d')"
    "txn' = AddEB txn4 self" "v' = (mark_pending s E ic (ew_e (item_e v4 s) OR DELETION_MASK) 0 v4)\<lparr>ve_locked := True\<rparr>"
proof -
  obtain v1 where m: "merge_if_full junk oldest v = Inr v1" using r by (auto simp: delete_edge_block_def merge_if_full_def bind_res_def split: sum.splits if_splits)
  then have merge: "bind_res (if tmp_ev v = TMPNUM then merge_tmpev_with_eb junk oldest v else Inr v) f = f v1" for f :: "_ \<Rightarrow> write_result"
    by (simp add: merge_if_full_def)
  have found: "getDestHashTableVal2 (ve_M v1) dst = Some True"
    using r merge by (auto simp: delete_edge_block_def split: if_splits option.splits bool.splits)
  obtain s y where l: "get_edge_index v1 dst = Inr (Some (s, y))"
    using r merge found by (auto simp: delete_edge_block_def bind_res_def split: sum.splits if_splits option.splits)
  obtain v3 d3 where t: "touch_tvb self E txn v1 d = Inr (v3, d3)"
    using r merge found l by (auto simp: delete_edge_block_def bind_res_def split: sum.splits if_splits)
  obtain v4 idx ic txn4 d4 where rv: "record_version (dst OR DELETION_MASK, w) E s (has_tmp (ew_block (item_e v3 s))) (read_old v3 s) txn v3 d3 = Inr (v4, idx, ic, txn4, d4)"
    and "v' = (mark_pending s E ic (ew_e (item_e v4 s) OR DELETION_MASK) 0 v4)\<lparr>ve_locked := True\<rparr>" "txn' = AddEB txn4 self" "d' = d4"
    using r merge found l t by (auto simp: delete_edge_block_def Let_def bind_res_def split: sum.splits if_splits)
  then show thesis using that [OF m found l t] by blast
qed

lemma stages_frame:
  assumes p: "pend_inv E N v" and V: "VBM v2 = VBM v" and tid: "tx_threadid txn < length (vd_vb_vector d)"
    and t: "touch_tvb self E txn v2 d = Inr (v3, d3)" and rv: "record_version e E s is_tmp old txn v3 d3 = Inr (v4, idx, ic, txn4, d')"
    and end_eqs: "txn' = AddEB txn4 self" "VBM v' = VBM v4"
  shows "write_frame self E txn txn' v v' d d'"
proof -
  have v2: "tvbs_ok E N v2" "stamps v2 = stamps v" "length (vbm_tvb_array (VBM v2)) = MAXSIMULBATCH"
    using p tvbs_ok_VBM [OF V] stamps_VBM [OF V] V by (auto simp: pend_inv_def tvbs_ok_def)
  have v3: "tvb_ok (tvb_at v3 (ring_slot E))" using tvbs_slot touch_counts(2) [OF v2(1) tid t] by blast
  show ?thesis
    using touch_frame [OF t v2(3)] record_version_frame [OF rv v3] end_eqs v2(2) active_ok_VBM [OF V, of E] stamps_VBM [OF end_eqs(2)]
    by (simp add: write_frame_def AddEB_def enlist_def) (simp add: active_ok_def stamps_def)
qed

lemma insert_frame:
  assumes p: "pend_inv E N v" and N: "N + 1 < 2 ^ 31" and oldest: "\<not> has_tmp oldest" and tid: "tx_threadid txn < length (vd_vb_vector d)"
    and r: "insert_edge_block junk oldest self (dst, w) E txn v d = Inr (v', txn', d', True)"
  shows "write_frame self E txn txn' v v' d d'"
  using r
proof (rule insert_stages)
  fix v1 v2 s b v3 d3 v4 idx ic txn4
  assume st: "merge_if_full junk oldest v = Inr v1" "locate_or_add dst w v1 = Inr (v2, s, b)" "touch_tvb self E txn v2 d = Inr (v3, d3)"
    "record_version (dst, w) E s (has_tmp (ew_block (item_e v3 s))) (if b then (0, 0, 0) else read_old v3 s) txn v3 d3 =
       Inr (v4, idx, ic, txn4, d')"
    "txn' = AddEB txn4 self" "v' = (mark_pending s E ic (ew_e (item_e v4 s)) (word_of_nat idx) v4)\<lparr>ve_locked := True\<rparr>"
  have "VBM v2 = VBM v" using merge_if_full_counts [OF p oldest N st(1)] locate_or_add_VBM [OF st(2)] by simp
  then show ?thesis using stages_frame [OF p _ tid st(3-5)] st(6) by simp
qed

lemma delete_frame:
  assumes p: "pend_inv E N v" and N: "N + 1 < 2 ^ 31" and oldest: "\<not> has_tmp oldest" and tid: "tx_threadid txn < length (vd_vb_vector d)"
    and r: "delete_edge_block junk oldest self (dst, w) E txn v d = Inr (v', txn', d', True)"
  shows "write_frame self E txn txn' v v' d d'"
  using r
proof (rule delete_stages)
  fix v1 s y v3 d3 v4 idx ic txn4
  assume st: "merge_if_full junk oldest v = Inr v1" "touch_tvb self E txn v1 d = Inr (v3, d3)"
    "record_version (dst OR DELETION_MASK, w) E s (has_tmp (ew_block (item_e v3 s))) (read_old v3 s) txn v3 d3 = Inr (v4, idx, ic, txn4, d')"
    "txn' = AddEB txn4 self" "v' = (mark_pending s E ic (ew_e (item_e v4 s) OR DELETION_MASK) 0 v4)\<lparr>ve_locked := True\<rparr>"
  have "VBM v1 = VBM v" using merge_if_full_counts [OF p oldest N st(1)] by simp
  then show ?thesis using stages_frame [OF p _ tid st(2-4)] st(5) by simp
qed

lemma apply_op_frame:
  assumes h: "hist_inv E N v lg" and legal: "legal_write (op, txn, oldest, junk) v d lg" and N: "N + 2 < 2 ^ 31"
    and r: "apply_op self E (op, txn, oldest, junk) v d = Inr (v', txn', d', True)"
  shows "write_frame self E txn txn' v v' d d'"
proof -
  have p: "pend_inv E N v" "N + 1 < 2 ^ 31" "\<not> has_tmp oldest" "tx_threadid txn < length (vd_vb_vector d)"
    using h legal N by (auto simp: hist_inv_def legal_write_def)
  show ?thesis
    using r insert_frame [OF p] delete_frame [OF p] by (cases op) (simp_all add: apply_op_def)
qed

section \<open>A store within an epoch\<close>

definition registered :: "vb_data \<Rightarrow> tvb_ptr list" where
  "registered d = concat (take WRITE_THREAD (vd_vb_vector d))"

lemma registered_push:
  assumes "tid < WRITE_THREAD" "length vec = WRITE_THREADS_MAX"
  shows "set (concat (take WRITE_THREAD (vec[tid := vec ! tid @ [p]]))) = insert p (set (concat (take WRITE_THREAD vec)))"
proof -
  have "take WRITE_THREAD (vec[tid := vec ! tid @ [p]]) = (take WRITE_THREAD vec)[tid := take WRITE_THREAD vec ! tid @ [p]]"
    using assms(1) by (simp add: take_update_swap)
  moreover have "tid < length (take WRITE_THREAD vec)" using assms by (simp add: WRITE_THREAD_def WRITE_THREADS_MAX_def)
  moreover have "set (concat (xs[i := xs ! i @ [p]])) = insert p (set (concat xs))" if "i < length xs" for i xs
    using that by (induction xs arbitrary: i) (auto split: nat.split)
  ultimately show ?thesis by metis
qed

definition vertex_at :: "epoch_t \<Rightarrow> nat \<Rightarrow> vertex_edges \<Rightarrow> log \<Rightarrow> bool" where
  "vertex_at E B v lg \<longleftrightarrow> (\<exists>N \<le> B. hist_inv E N (unleashReadLock v) lg) \<and> (\<forall>x \<in> set (stamps v). x \<le> E) \<and> active_ok E v"

text \<open>\<open>H\<close> are the vertices the running transaction holds; \<open>B\<close> bounds the counters of every vertex.\<close>

definition store_inv :: "epoch_t \<Rightarrow> nat \<Rightarrow> nat set \<Rightarrow> graph_store \<Rightarrow> vb_data \<Rightarrow> logs \<Rightarrow> bool" where
  "store_inv E B H g d L \<longleftrightarrow>
     gs_ok g \<and> length (vd_vb_vector d) = WRITE_THREADS_MAX \<and> vd_this_vb_vector d = [] \<and>
     (\<forall>p \<in> set (registered d). fst p < gs_node_num g \<and> snd p = ring_slot E) \<and>
     (\<forall>u < gs_node_num g. \<exists>v. GetBlockByIndex g u = Inr v \<and> vertex_at E B v (L u) \<and> ve_locked v = (u \<in> H) \<and>
        (stamps v ! ring_slot E = E \<longrightarrow> (u, ring_slot E) \<in> set (registered d)))"

lemma store_invD:
  assumes "store_inv E B H g d L"
  shows "gs_ok g" "length (vd_vb_vector d) = WRITE_THREADS_MAX" "vd_this_vb_vector d = []"
    "p \<in> set (registered d) \<Longrightarrow> fst p < gs_node_num g \<and> snd p = ring_slot E"
    "u < gs_node_num g \<Longrightarrow> GetBlockByIndex g u = Inr v \<Longrightarrow> vertex_at E B v (L u) \<and> ve_locked v = (u \<in> H) \<and>
        (stamps v ! ring_slot E = E \<longrightarrow> (u, ring_slot E) \<in> set (registered d))"
    "u < gs_node_num g \<Longrightarrow> \<exists>v. GetBlockByIndex g u = Inr v"
  using assms unfolding store_inv_def by fastforce+

lemma vertex_at_mono: "vertex_at E B v lg \<Longrightarrow> B \<le> B' \<Longrightarrow> vertex_at E B' v lg"
  by (auto simp: vertex_at_def) (meson le_trans)

lemma store_write_apply:
  "store_write (u, op, oldest, junk) (g, txn, d) =
     bind_res (GetBlockByIndex g u) (\<lambda>v. bind_res (apply_op u (tx_epoch txn) (op, txn, oldest, junk) v d) (\<lambda>(v', txn', d', _).
     bind_res (SetBlockByIndex u v' g) (\<lambda>g'. Inr (g', txn', d'))))"
  by (cases op)
    (auto simp: insertedge_def deletedge_def gs_insert_edge_block_def gs_delete_edge_block_def apply_op_def bind_res_def
      split: sum.splits)

lemma unleash_unlocked [simp]: "\<not> ve_locked v \<Longrightarrow> unleashReadLock v = v"
  by (simp add: unleashReadLock_def)

lemma unleash_stamps [simp]: "stamps (unleashReadLock v) = stamps v"
  by (simp add: unleashReadLock_def stamps_def)

definition writer_kept :: "transaction \<Rightarrow> transaction \<Rightarrow> bool" where
  "writer_kept txn txn' \<longleftrightarrow> tx_threadid txn' = tx_threadid txn \<and> tx_write_only txn' = tx_write_only txn \<and> tx_epoch txn' = tx_epoch txn"

lemma store_write_step:
  assumes inva: "store_inv E B H g d L" and legal: "legal_swrite w (g, txn, d) L" and free: "fst w \<notin> H" and B: "B + 2 < 2 ^ 31"
    and txn: "tx_write_only txn" "tx_epoch txn = E" "tx_threadid txn < WRITE_THREAD"
  shows "\<exists>g' txn' d'. store_write w (g, txn, d) = Inr (g', txn', d') \<and> store_inv E (B + 2) (insert (fst w) H) g' d' (add_log E w L) \<and>
    tx_EB_vec txn' = tx_EB_vec txn @ [fst w] \<and> writer_kept txn txn' \<and> gs_node_num g' = gs_node_num g"
proof -
  obtain u op oldest junk where w: "w = (u, op, oldest, junk)" by (cases w) auto
  obtain v where u: "u < gs_node_num g" and v: "GetBlockByIndex g u = Inr v" and lw: "legal_write (op, txn, oldest, junk) v d (L u)"
    using legal by (auto simp: legal_swrite_def w split: sum.splits)
  note D = store_invD [OF inva]
  have unl: "\<not> ve_locked v" and act: "active_ok E v" and st: "\<forall>x \<in> set (stamps v). x \<le> E" "stamps v ! ring_slot E = E \<longrightarrow> (u, ring_slot E) \<in> set (registered d)"
    using D(5) [OF u v] free by (auto simp: w vertex_at_def)
  obtain N where N: "N \<le> B" "hist_inv E N v (L u)" using D(5) [OF u v] unl by (auto simp: vertex_at_def)
  have N2: "N + 2 < 2 ^ 31" using N(1) B by simp
  obtain v' txn' d' where r: "apply_op u E (op, txn, oldest, junk) v d = Inr (v', txn', d', True)"
    "pend_inv E (N + 2) v'" "ve_locked v'" "iv_bounded E (intervals E v')" "snapshots (intervals E v') (L u @ [(E, op)])"
    using apply_op_inv [OF N(2) lw N2, of u] txn(1) by (fastforce simp: blind_write_def)
  have fr: "write_frame u E txn txn' v v' d d'" by (rule apply_op_frame [OF N(2) lw N2 r(1)])
  obtain g' where g': "SetBlockByIndex u v' g = Inr g'" using SetBlock_total [OF v] by blast
  note G = SetBlock_Get [OF g']
  have "log_bounded E (L u @ [(E, op)])" using N(2) by (auto simp: hist_inv_def log_bounded_def)
  then have "hist_inv E (N + 2) (unleashReadLock v') (L u @ [(E, op)])" using r by (simp add: hist_inv_def unleashReadLock_def)
  moreover have "length (stamps v) = MAXSIMULBATCH" using N(2) by (simp add: hist_inv_def pend_inv_def tvbs_ok_def stamps_def)
  then have slot: "ring_slot E < length (stamps v)" by simp
  have stamps: "stamps v' = (stamps v)[ring_slot E := E]" using fr by (simp add: write_frame_def)
  then have "\<forall>x \<in> set (stamps v'). x \<le> E" using st(1) by (auto dest!: subsetD [OF set_update_subset_insert])
  moreover have "active_ok E v'" using fr act by (simp add: write_frame_def)
  ultimately have va: "vertex_at E (B + 2) v' (L u @ [(E, op)])" using N(1) by (force simp: vertex_at_def)
  have reg: "set (registered d') = insert (u, ring_slot E) (set (registered d))"
    using fr registered_push [OF txn(3) D(2)] st(2) by (auto simp: write_frame_def enlist_def registered_def insert_absorb)
  have len: "length (vd_vb_vector d') = WRITE_THREADS_MAX" "vd_this_vb_vector d' = []"
    using fr D(2,3) by (auto simp: write_frame_def enlist_def)
  have others: "\<exists>x. GetBlockByIndex g' i = Inr x \<and> vertex_at E (B + 2) x (add_log E w L i) \<and> ve_locked x = (i \<in> insert u H) \<and>
      (stamps x ! ring_slot E = E \<longrightarrow> (i, ring_slot E) \<in> set (registered d'))" if i: "i < gs_node_num g" for i
  proof (cases "i = u")
    case True
    then show ?thesis using G(1) va r(3) reg by (simp add: add_log_def w)
  next
    case False
    obtain x where x: "GetBlockByIndex g i = Inr x" using D(6) [OF i] by blast
    then show ?thesis using D(5) [OF i x] False G(2) [OF False] reg vertex_at_mono [of E B x "L i" "B + 2"] by (auto simp: add_log_def w)
  qed
  have "store_inv E (B + 2) (insert u H) g' d' (add_log E w L)"
    using others len reg u SetBlock_ok [OF D(1) g'] D(4) G(3) by (auto simp: store_inv_def)
  moreover have "store_write w (g, txn, d) = Inr (g', txn', d')" using v r(1) g' txn(2) by (simp add: w store_write_apply)
  ultimately show ?thesis using fr G(3) by (auto simp: w write_frame_def writer_kept_def)
qed

lemma writer_kept_trans: "writer_kept a b \<Longrightarrow> writer_kept b c \<Longrightarrow> writer_kept a c"
  by (simp add: writer_kept_def)

lemma store_writes:
  assumes "store_inv E B H g d L" "legal_swrites E ws (g, txn, d) L" "distinct (map fst ws)" "fst ` set ws \<inter> H = {}"
    "B + 2 * length ws < 2 ^ 31" "tx_write_only txn" "tx_epoch txn = E" "tx_threadid txn < WRITE_THREAD"
  shows "\<exists>g' txn' d'. foldR store_write ws (g, txn, d) = Inr (g', txn', d') \<and>
    store_inv E (B + 2 * length ws) (fst ` set ws \<union> H) g' d' (fold (add_log E) ws L) \<and>
    tx_EB_vec txn' = tx_EB_vec txn @ map fst ws \<and> gs_node_num g' = gs_node_num g \<and> fst ` set ws \<subseteq> {..<gs_node_num g}"
  using assms
proof (induction ws arbitrary: B H g txn d L)
  case (Cons w ws)
  have in_store: "fst w < gs_node_num g" using Cons.prems(2) by (auto simp: legal_swrite_def)
  obtain g1 txn1 d1 where r: "store_write w (g, txn, d) = Inr (g1, txn1, d1)" "store_inv E (B + 2) (insert (fst w) H) g1 d1 (add_log E w L)"
    "tx_EB_vec txn1 = tx_EB_vec txn @ [fst w]" "writer_kept txn txn1" "gs_node_num g1 = gs_node_num g"
    using store_write_step [OF Cons.prems(1), of w txn] Cons.prems by auto
  have "\<exists>g' txn' d'. foldR store_write ws (g1, txn1, d1) = Inr (g', txn', d') \<and>
    store_inv E (B + 2 + 2 * length ws) (fst ` set ws \<union> insert (fst w) H) g' d' (fold (add_log E) ws (add_log E w L)) \<and>
    tx_EB_vec txn' = tx_EB_vec txn1 @ map fst ws \<and> gs_node_num g' = gs_node_num g1 \<and> fst ` set ws \<subseteq> {..<gs_node_num g1}"
    using Cons.prems r by (intro Cons.IH) (auto simp: writer_kept_def)
  then show ?case using r in_store by (auto simp: add.assoc)
qed auto

lemma unlock_step:
  assumes inva: "store_inv E B H g d L" and u: "u < gs_node_num g"
  shows "\<exists>g'. unlock_block u g = Inr g' \<and> store_inv E B (H - {u}) g' d L \<and> gs_node_num g' = gs_node_num g"
proof -
  note D = store_invD [OF inva]
  obtain v where v: "GetBlockByIndex g u = Inr v" using D(6) [OF u] by blast
  obtain g' where g': "SetBlockByIndex u (unleashReadLock v) g = Inr g'" using SetBlock_total [OF v] by blast
  note G = SetBlock_Get [OF g']
  have "\<exists>x. GetBlockByIndex g' i = Inr x \<and> vertex_at E B x (L i) \<and> ve_locked x = (i \<in> H - {u}) \<and>
      (stamps x ! ring_slot E = E \<longrightarrow> (i, ring_slot E) \<in> set (registered d))" if i: "i < gs_node_num g" for i
  proof (cases "i = u")
    case True
    have "VBM (unleashReadLock v) = VBM v" by (simp add: unleashReadLock_def)
    then have "vertex_at E B (unleashReadLock v) (L u)" using D(5) [OF u v] active_ok_VBM [of "unleashReadLock v" v E]
      by (simp add: vertex_at_def) (simp add: unleashReadLock_def)
    then show ?thesis using True G(1) D(5) [OF u v] by (simp add: unleashReadLock_def stamps_def)
  next
    case False
    then show ?thesis using D(5,6) [OF i] G(2) by fastforce
  qed
  then have "store_inv E B (H - {u}) g' d L"
    using SetBlock_ok [OF D(1) g'] D(2,3,4) G(3) by (auto simp: store_inv_def)
  then show ?thesis using v g' G(3) by (simp add: unlock_block_def)
qed

lemma unlock_all:
  assumes "store_inv E B H g d L" "set us \<subseteq> {..<gs_node_num g}"
  shows "\<exists>g'. foldR unlock_block us g = Inr g' \<and> store_inv E B (H - set us) g' d L \<and> gs_node_num g' = gs_node_num g"
  using assms
proof (induction us arbitrary: H g)
  case (Cons u us)
  obtain g1 where g1: "unlock_block u g = Inr g1" "store_inv E B (H - {u}) g1 d L" "gs_node_num g1 = gs_node_num g"
    using unlock_step [OF Cons.prems(1), of u] Cons.prems(2) by auto
  have "H - {u} - set us = H - set (u # us)" by auto
  then show ?case using Cons.IH [OF g1(2)] Cons.prems(2) g1 by auto
qed auto

lemma run_txn_step:
  assumes inva: "store_inv E B {} g d L" and legal: "legal_txn E t (g, d) L" and B: "B + 2 * length (snd t) < 2 ^ 31"
  shows "\<exists>g' d'. run_txn t (g, d) = Inr (g', d') \<and> store_inv E (B + 2 * length (snd t)) {} g' d' (txn_log E t L) \<and>
    gs_node_num g' = gs_node_num g"
proof -
  obtain txn ws where t: "t = (txn, ws)" by (cases t)
  have l: "tx_write_only txn" "tx_epoch txn = E" "tx_EB_vec txn = []" "tx_threadid txn < WRITE_THREAD" "distinct (map fst ws)"
    "legal_swrites E ws (g, txn, d) L" using legal by (auto simp: legal_txn_def t)
  obtain g1 txn1 d1 where w: "foldR store_write ws (g, txn, d) = Inr (g1, txn1, d1)"
    "store_inv E (B + 2 * length ws) (fst ` set ws) g1 d1 (fold (add_log E) ws L)" "tx_EB_vec txn1 = map fst ws" "gs_node_num g1 = gs_node_num g"
    "set (map fst ws) \<subseteq> {..<gs_node_num g1}"
    using store_writes [OF inva l(6,5)] l B by (auto simp: t)
  obtain txn2 d2 where c: "Transaction_commit txn1 d1 = (txn2, d2, map fst ws)"
    using commit_EBs [of txn1 d1] w(3) by (metis prod.collapse)
  have d2: "vd_vb_vector d2 = vd_vb_vector d1" "vd_this_vb_vector d2 = vd_this_vb_vector d1"
    using c by (auto simp: Transaction_commit_def get_intra_c_def fetch_add_intra_def split: if_splits)
  have inv2: "store_inv E (B + 2 * length ws) (fst ` set ws) g1 d2 (fold (add_log E) ws L)"
    using w(2) d2 by (simp add: store_inv_def registered_def)
  from unlock_all [OF inv2 w(5)] obtain g2 where "foldR unlock_block (map fst ws) g1 = Inr g2"
    "store_inv E (B + 2 * length ws) {} g2 d2 (fold (add_log E) ws L)" "gs_node_num g2 = gs_node_num g" using w(4) by auto
  then show ?thesis using w(1) c by (simp add: t run_txn_def commit_on_store_def txn_log_def)
qed

definition txn_writes :: "stxn list \<Rightarrow> nat" where
  "txn_writes txns = (\<Sum>t \<leftarrow> txns. length (snd t))"

lemma run_txns_step:
  assumes "store_inv E B {} g d L" "legal_txns E txns (g, d) L" "B + 2 * txn_writes txns < 2 ^ 31"
  shows "\<exists>g' d'. foldR run_txn txns (g, d) = Inr (g', d') \<and> store_inv E (B + 2 * txn_writes txns) {} g' d' (fold (txn_log E) txns L) \<and>
    gs_node_num g' = gs_node_num g"
  using assms
proof (induction txns arbitrary: B g d L)
  case (Cons t txns)
  obtain g1 d1 where r: "run_txn t (g, d) = Inr (g1, d1)" "store_inv E (B + 2 * length (snd t)) {} g1 d1 (txn_log E t L)"
    "gs_node_num g1 = gs_node_num g"
    using run_txn_step [OF Cons.prems(1), of t] Cons.prems(2,3) by (auto simp: txn_writes_def)
  have "\<exists>g' d'. foldR run_txn txns (g1, d1) = Inr (g', d') \<and>
    store_inv E (B + 2 * length (snd t) + 2 * txn_writes txns) {} g' d' (fold (txn_log E) txns (txn_log E t L)) \<and> gs_node_num g' = gs_node_num g1"
    using Cons.prems r by (intro Cons.IH) (auto simp: txn_writes_def)
  then show ?case using r by (auto simp: txn_writes_def add.assoc)
qed (simp add: txn_writes_def)

section \<open>Publication\<close>

text \<open>The vertices in \<open>P\<close> are published.\<close>

definition publishing :: "epoch_t \<Rightarrow> nat \<Rightarrow> nat set \<Rightarrow> graph_store \<Rightarrow> logs \<Rightarrow> bool" where
  "publishing E B P g L \<longleftrightarrow> gs_ok g \<and>
     (\<forall>u < gs_node_num g. \<exists>v. GetBlockByIndex g u = Inr v \<and> (\<forall>x \<in> set (stamps v). x \<le> E) \<and>
        (\<exists>N \<le> B. if u \<in> P then rest_inv E N v (L u) else hist_inv E N v (L u)))"

lemma publish_vertex:
  assumes "if u \<in> P then rest_inv E N v lg else hist_inv E N v lg" "transform_order (tvb_at v (ring_slot E)) indices"
  shows "\<exists>v'. transform_pending indices (ring_slot E) v = Inr v' \<and> rest_inv E N v' lg \<and> stamps v' = stamps v"
proof (cases "u \<in> P")
  case True
  then have r: "rest_inv E N v lg" using assms(1) by simp
  then have "version_num (tvb_at v j) = 0" if "j < MAXSIMULBATCH" for j using that by (auto simp: rest_inv_def quiet_inv_def tvb_ok_def)
  then have "version_num (tvb_at v (ring_slot E)) = 0" using ring_slot_less by blast
  then show ?thesis using r by (simp add: transform_pending_def Transform_def)
next
  case False
  then have h: "hist_inv E N v lg" using assms(1) by simp
  then obtain v' where "transform_pending indices (ring_slot E) v = Inr v'" "quiet_inv E N v'"
    "quiet_intervals v' = intervals E v" "\<not> ve_locked v'" "stamps v' = stamps v"
    using publish_epoch [OF _ _ assms(2)] by (auto simp: hist_inv_def)
  then show ?thesis using h by (auto simp: rest_inv_def hist_inv_def)
qed

lemma publish_step:
  assumes pub: "publishing E B P g L" and u: "u < gs_node_num g" and order: "\<And>t. transform_order t (order t)"
  shows "\<exists>g'. transform_tvb order (u, ring_slot E) g = Inr g' \<and> publishing E B (insert u P) g' L \<and> gs_node_num g' = gs_node_num g"
proof -
  obtain v N where v: "GetBlockByIndex g u = Inr v" "\<forall>x \<in> set (stamps v). x \<le> E" "N \<le> B"
    "if u \<in> P then rest_inv E N v (L u) else hist_inv E N v (L u)"
    using pub u unfolding publishing_def by blast
  obtain v' where v': "transform_pending (order (tvb_at v (ring_slot E))) (ring_slot E) v = Inr v'" "rest_inv E N v' (L u)" "stamps v' = stamps v"
    using publish_vertex [OF v(4) order] by blast
  obtain g' where g': "SetBlockByIndex u v' g = Inr g'" using SetBlock_total [OF v(1)] by blast
  note G = SetBlock_Get [OF g']
  have "\<exists>x. GetBlockByIndex g' i = Inr x \<and> (\<forall>y \<in> set (stamps x). y \<le> E) \<and>
      (\<exists>N \<le> B. if i \<in> insert u P then rest_inv E N x (L i) else hist_inv E N x (L i))" if i: "i < gs_node_num g" for i
  proof (cases "i = u")
    case True
    then show ?thesis using G(1) v(2,3) v'(2,3) by auto
  next
    case False
    then show ?thesis using pub i G(2) [OF False] unfolding publishing_def by simp
  qed
  then have "publishing E B (insert u P) g' L"
    using pub SetBlock_ok [OF _ g'] G(3) unfolding publishing_def by simp
  then show ?thesis using v(1) v'(1) g' G(3) by (simp add: transform_tvb_def)
qed

lemma publish_all:
  assumes "publishing E B P g L" "\<forall>p \<in> set ps. fst p < gs_node_num g \<and> snd p = ring_slot E" "\<And>t. transform_order t (order t)"
  shows "\<exists>g'. foldR (transform_tvb order) ps g = Inr g' \<and> publishing E B (fst ` set ps \<union> P) g' L \<and> gs_node_num g' = gs_node_num g"
  using assms(1,2)
proof (induction ps arbitrary: P g)
  case (Cons p ps)
  obtain g1 where g1: "transform_tvb order p g = Inr g1" "publishing E B (insert (fst p) P) g1 L" "gs_node_num g1 = gs_node_num g"
    using publish_step [OF Cons.prems(1) _ assms(3), of "fst p"] Cons.prems(2) by (metis list.set_intros(1) prod.collapse)
  then show ?case using Cons.IH [OF g1(2)] Cons.prems(2) by auto
qed auto

definition store_rest :: "epoch_t \<Rightarrow> nat \<Rightarrow> graph_store \<Rightarrow> logs \<Rightarrow> bool" where
  "store_rest E B g L \<longleftrightarrow> gs_ok g \<and>
     (\<forall>u < gs_node_num g. \<exists>v. GetBlockByIndex g u = Inr v \<and> (\<forall>x \<in> set (stamps v). x \<le> E) \<and> (\<exists>N \<le> B. rest_inv E N v (L u)))"

lemma hist_idle_rests:
  assumes "hist_inv E N v lg" "version_num (tvb_at v (ring_slot E)) = 0"
  shows "rest_inv E N v lg"
  using assms pend_idle [of E N v] by (simp add: hist_inv_def rest_inv_def)

lemma commit_epoch:
  assumes inva: "store_inv E B {} g d L" and order: "\<And>t. transform_order t (order t)"
  shows "\<exists>d' g'. VBData_commitVersionBlock order d g = Inr (d', g') \<and> store_rest E B g' L \<and> gs_node_num g' = gs_node_num g"
proof -
  note D = store_invD [OF inva]
  let ?P = "{u. u < gs_node_num g \<and> stamps (projr (GetBlockByIndex g u)) ! ring_slot E \<noteq> E}"
  have "publishing E B ?P g L"
    unfolding publishing_def
  proof (intro conjI allI impI)
    fix u assume u: "u < gs_node_num g"
    obtain v where v: "GetBlockByIndex g u = Inr v" using D(6) [OF u] by blast
    have va: "vertex_at E B v (L u)" "\<not> ve_locked v" using D(5) [OF u v] by auto
    then obtain N where N: "N \<le> B" "hist_inv E N v (L u)" by (auto simp: vertex_at_def)
    have "rest_inv E N v (L u)" if ts: "stamps v ! ring_slot E \<noteq> E"
    proof -
      have t: "tvbs_ok E N v" using N(2) by (simp add: hist_inv_def pend_inv_def)
      then have "tvb_timestamp (tvb_at v (ring_slot E)) \<noteq> E" using ts by (simp add: tvbs_ok_def stamps_def tvb_at_def)
      then have "version_num (tvb_at v (ring_slot E)) = 0" using t by (auto simp: tvbs_ok_def Let_def tvb_ok_def)
      then show ?thesis by (rule hist_idle_rests [OF N(2)])
    qed
    then show "\<exists>v. GetBlockByIndex g u = Inr v \<and> (\<forall>x \<in> set (stamps v). x \<le> E) \<and>
        (\<exists>N \<le> B. if u \<in> ?P then rest_inv E N v (L u) else hist_inv E N v (L u))"
      using u v va(1) N by (auto simp: vertex_at_def)
  qed (rule D(1))
  from publish_all [OF this _ order, of "registered d"] obtain g' where g': "foldR (transform_tvb order) (registered d) g = Inr g'"
    "publishing E B (fst ` set (registered d) \<union> ?P) g' L" "gs_node_num g' = gs_node_num g"
    using D(4) by auto
  have all: "u \<in> fst ` set (registered d) \<union> ?P" if u: "u < gs_node_num g" for u
  proof -
    obtain v where v: "GetBlockByIndex g u = Inr v" using D(6) [OF u] by blast
    then show ?thesis using D(5) [OF u v] u by force
  qed
  have "store_rest E B g' L" unfolding store_rest_def
  proof (intro conjI allI impI)
    show "gs_ok g'" using g'(2) by (simp add: publishing_def)
    fix u assume u: "u < gs_node_num g'"
    let ?Q = "fst ` set (registered d) \<union> ?P"
    have "u \<in> ?Q" by (rule all) (use u g'(3) in simp)
    moreover have "\<exists>v. GetBlockByIndex g' u = Inr v \<and> (\<forall>x \<in> set (stamps v). x \<le> E) \<and>
        (\<exists>N \<le> B. if u \<in> ?Q then rest_inv E N v (L u) else hist_inv E N v (L u))"
      using g'(2) u unfolding publishing_def by blast
    ultimately show "\<exists>v. GetBlockByIndex g' u = Inr v \<and> (\<forall>x \<in> set (stamps v). x \<le> E) \<and> (\<exists>N \<le> B. rest_inv E N v (L u))"
      by (simp only: if_True)
  qed
  moreover have "VBData_commitVersionBlock order d g = Inr (d\<lparr>vd_this_vb_vector := registered d\<rparr>, g')"
    using g'(1) D(3) by (simp add: VBData_commitVersionBlock_def registered_def [symmetric])
  ultimately show ?thesis using g'(3) by blast
qed

lemma rest_next_epoch:
  assumes rest: "store_rest E0 B g L" and E: "E0 < E" "\<not> has_tmp E"
  shows "store_inv E B {} g (VBData_new E) L"
proof -
  have "\<exists>v. GetBlockByIndex g u = Inr v \<and> vertex_at E B v (L u) \<and> \<not> ve_locked v \<and> stamps v ! ring_slot E \<noteq> E"
    if u: "u < gs_node_num g" for u
  proof -
    obtain v N where v: "GetBlockByIndex g u = Inr v" "\<forall>x \<in> set (stamps v). x \<le> E0" "N \<le> B" "rest_inv E0 N v (L u)"
      using rest u unfolding store_rest_def by blast
    have h: "hist_inv E N v (L u)" by (rule rest_hist [OF v(4) E])
    then have "ring_slot E < length (stamps v)" by (simp add: hist_inv_def pend_inv_def tvbs_ok_def stamps_def)
    then have "stamps v ! ring_slot E \<le> E0" using v(2) nth_mem by blast
    moreover from this E(1) have "active_ok E v" by (auto simp: active_ok_def)
    ultimately show ?thesis using v(1-3) h E(1) by (force simp: vertex_at_def hist_inv_def)
  qed
  then have "\<forall>u < gs_node_num g. \<exists>v. GetBlockByIndex g u = Inr v \<and> vertex_at E B v (L u) \<and> ve_locked v = (u \<in> {}) \<and>
      (stamps v ! ring_slot E = E \<longrightarrow> (u, ring_slot E) \<in> set (registered (VBData_new E)))" by blast
  moreover have "registered (VBData_new E) = []" by (simp add: registered_def VBData_new_def)
  moreover have "gs_ok g" using rest by (simp add: store_rest_def)
  ultimately show ?thesis by (simp add: store_inv_def) (simp add: VBData_new_def)
qed

definition store_writes_num :: "sepoch list \<Rightarrow> nat" where
  "store_writes_num eps = (\<Sum>ep \<leftarrow> eps. txn_writes (snd ep))"

lemma run_store_rests:
  assumes "store_rest E0 B g L" "legal_store order E0 eps g L" "B + 2 * store_writes_num eps < 2 ^ 31"
    and order: "\<And>t. transform_order t (order t)"
  shows "\<exists>g'. run_store order eps g = Inr g' \<and>
    store_rest (last (E0 # map fst eps)) (B + 2 * store_writes_num eps) g' (fold epoch_logs eps L) \<and>
    gs_node_num g' = gs_node_num g"
  using assms(1-3)
proof (induction eps arbitrary: E0 B g L)
  case (Cons ep eps)
  obtain E txns where ep: "ep = (E, txns)" by (cases ep)
  have E: "E0 < E" "\<not> has_tmp E" and lt: "legal_txns E txns (g, VBData_new E) L" using Cons.prems(2) by (simp_all add: ep)
  have B: "B + 2 * txn_writes txns < 2 ^ 31" using Cons.prems(3) by (simp add: store_writes_num_def ep)
  obtain g1 d1 where w: "foldR run_txn txns (g, VBData_new E) = Inr (g1, d1)"
    "store_inv E (B + 2 * txn_writes txns) {} g1 d1 (fold (txn_log E) txns L)" "gs_node_num g1 = gs_node_num g"
    using run_txns_step [OF rest_next_epoch [OF Cons.prems(1) E] lt B] by blast
  obtain d2 g2 where p: "VBData_commitVersionBlock order d1 g1 = Inr (d2, g2)" "store_rest E (B + 2 * txn_writes txns) g2 (fold (txn_log E) txns L)"
    "gs_node_num g2 = gs_node_num g1"
    using commit_epoch [OF w(2) order] by blast
  have one: "run_store order [(E, txns)] g = Inr g2" using w(1) p(1) by simp
  have logs: "epoch_logs (E, txns) L = fold (txn_log E) txns L" by (simp add: epoch_logs_def)
  have "legal_store order E eps g2 (fold (txn_log E) txns L)" using Cons.prems(2) one by (simp add: ep logs)
  from Cons.IH [OF p(2) this] obtain g' where "run_store order eps g2 = Inr g'"
    "store_rest (last (E # map fst eps)) (B + 2 * txn_writes txns + 2 * store_writes_num eps) g' (fold epoch_logs eps (fold (txn_log E) txns L))"
    "gs_node_num g' = gs_node_num g2"
    using Cons.prems(3) by (auto simp: store_writes_num_def ep)
  then show ?case using w(1,3) p(1,3) by (auto simp: ep logs store_writes_num_def add.assoc)
qed (auto simp: store_writes_num_def)

section \<open>From creation to reading\<close>

lemma rest_src [simp]: "rest_inv E N (setSrc v i) lg = rest_inv E N v lg"
  by (simp add: rest_inv_def quiet_inv_def setSrc_def ve_wf_def ve_keys_def all_cells_def tb_cells_def pa_cells_def tvb_at_def
      quiet_intervals_def live_ivs_def)

lemma fresh_rests:
  assumes "fresh_block u g"
  shows "\<exists>v. GetBlockByIndex g u = Inr v \<and> (\<forall>x \<in> set (stamps v). x \<le> 0) \<and> rest_inv 0 0 v []"
proof -
  obtain v pool where v: "GetBlockByIndex g u = Inr (setSrc v (of_nat u))" "length pool = 2 * TMPNUM" "empty_vertex pool = Inr v"
    using assms by (auto simp: fresh_block_def)
  have "rest_inv 0 0 v []" using empty_vertex_rests [OF v(2)] v(3) by auto
  moreover have "v = VertexEdges_new\<lparr>tmp_item := pool\<rparr>" using v(3) by (simp add: empty_vertex_def build_def VertexEdges_new_def)
  then have "\<forall>x \<in> set (stamps v). x \<le> 0" by (simp add: stamps_def VertexEdges_new_def VersionBlockManager_new_def tvb_new_def)
  moreover have "stamps (setSrc v x) = stamps v" for x by (simp add: stamps_def setSrc_def)
  ultimately show ?thesis using v(1) by (intro exI [of _ "setSrc v (of_nat u)"]) simp
qed

text \<open>Where a history leaves the store.\<close>

lemma run_store_created:
  assumes "\<forall>pool \<in> set pools. length pool = 2 * TMPNUM" "new_vertices pools (GraphStore_new c) = Inr (g0, ids)"
    and "\<And>t. transform_order t (order t)" "legal_store order 0 eps g0 (\<lambda>_. [])" "2 * store_writes_num eps < 2 ^ 31"
  obtains g where "run_store order eps g0 = Inr g" "gs_node_num g = length pools"
    "store_rest (last (0 # map fst eps)) (2 * store_writes_num eps) g (store_logs eps)"
proof -
  have g0: "gs_ok g0" "gs_node_num g0 = length pools" "\<forall>u < length pools. fresh_block u g0"
    using new_vertices_spec [OF GraphStore_new_ok(1) assms(1), of c] assms(2) by (auto simp: GraphStore_new_ok(2))
  have "store_rest 0 0 g0 (\<lambda>_. [])" using g0 fresh_rests by (fastforce simp: store_rest_def)
  from run_store_rests [OF this assms(4) _ assms(3)] show thesis
    using that assms(5) g0(2) by (auto simp: store_logs_def)
qed

text \<open>
  C2: Vertices are created and transactions of any number of write-only edge writes run and commit, epoch
  after epoch, each epoch being published by \<open>VBData::commitVersionBlock\<close>. Nothing deadlocks or faults, and
  a reader of any past epoch q finds at every vertex exactly the edges that replaying the writes at that
  vertex up to q leaves: every pending write was registered and published.
\<close>

theorem store_readers_see_committed_history:
  assumes "\<forall>pool \<in> set pools. length pool = 2 * TMPNUM" "new_vertices pools (GraphStore_new c) = Inr (g0, ids)"
    and "\<And>t. transform_order t (order t)" "legal_store order 0 eps g0 (\<lambda>_. [])" "2 * store_writes_num eps < 2 ^ 31"
  shows "\<exists>g. run_store order eps g0 = Inr g \<and> gs_node_num g = length pools \<and>
    (\<forall>u < length pools. \<forall>q. \<exists>v xs. locked_block g u = Inr v \<and> for_each_edge Fine (Composite q INTRA_MAX) v = Inr xs \<and>
       mset (map ew_e xs) = mset_set (edges_at (store_logs eps u) q))"
proof -
  obtain g where g: "run_store order eps g0 = Inr g" "gs_node_num g = length pools"
    "store_rest (last (0 # map fst eps)) (2 * store_writes_num eps) g (store_logs eps)"
    by (rule run_store_created [OF assms])
  have "\<exists>v xs. locked_block g u = Inr v \<and> for_each_edge Fine (Composite q INTRA_MAX) v = Inr xs \<and>
      mset (map ew_e xs) = mset_set (edges_at (store_logs eps u) q)" if u: "u < length pools" for u q
  proof -
    obtain v E N where v: "GetBlockByIndex g u = Inr v" "rest_inv E N v (store_logs eps u)" using g(2,3) u unfolding store_rest_def by metis
    then have "locked_block g u = Inr v" by (simp add: locked_block_def getReadLock_def rest_inv_def)
    then show ?thesis using rest_reads [OF v(2), of q] by blast
  qed
  then show ?thesis using g by blast
qed

text \<open>Insertion sort by version is one order that \<open>std::sort\<close> may leave.\<close>

fun insert_version :: "tmp_version_block \<Rightarrow> nat \<Rightarrow> nat list \<Rightarrow> nat list" where
  "insert_version t i [] = [i]"
| "insert_version t i (j # js) =
     (if version_before (tmp_entry t ! j) (tmp_entry t ! i) then j # insert_version t i js else i # j # js)"

definition stable_order :: "tmp_version_block \<Rightarrow> nat list" where
  "stable_order t = foldr (insert_version t) [0..<version_num t] []"

definition version_rank :: "version_entry \<Rightarrow> nat" where
  "version_rank x = unat (ent_last_epoch x) * 2 ^ 32 + unat (ent_old_intra_c x)"

lemma version_before_rank: "version_before x y \<longleftrightarrow> version_rank x < version_rank y"
proof -
  have u: "unat (w :: 32 word) < 2 ^ 32" for w using unsigned_less [of w] by simp
  show ?thesis
    using u [of "ent_old_intra_c x"] u [of "ent_old_intra_c y"] word_unat_eq_iff [of "ent_last_epoch x" "ent_last_epoch y"]
    by (auto simp: version_before_def version_rank_def word_less_nat_alt)
qed

lemma stable_order_ok: "transform_order t (stable_order t)"
proof -
  let ?f = "\<lambda>i. version_rank (tmp_entry t ! i)"
  have "insert_version t i js = insort_key ?f i js" for i js
    by (induction js) (auto simp: version_before_rank)
  then have "insert_version t = insort_key ?f" by (intro ext)
  then have so: "stable_order t = sort_key ?f [0..<version_num t]" by (simp add: stable_order_def sort_key_def)
  have "sorted (map ?f (stable_order t))" by (simp add: so)
  then have "sorted_wrt (\<lambda>i j. ?f i \<le> ?f j) (stable_order t)" by (simp add: sorted_map)
  then have "sorted_wrt (\<lambda>i j. \<not> version_before (tmp_entry t ! j) (tmp_entry t ! i)) (stable_order t)"
    by (rule sorted_wrt_mono_rel [rotated]) (simp add: version_before_rank not_less)
  then show ?thesis by (simp add: transform_order_def so)
qed

definition sample_swrite :: "nat \<Rightarrow> vop \<Rightarrow> swrite" where
  "sample_swrite u op = (u, op, 0, \<lparr>ew_e = 0, ew_block = 0, ew_index = 0\<rparr>)"

definition sample_stxn :: "epoch_t \<Rightarrow> swrite list \<Rightarrow> stxn" where
  "sample_stxn E ws = (sample_txn\<lparr>tx_epoch := E\<rparr>, ws)"

definition sample_store_history :: "sepoch list" where
  "sample_store_history =
     [(1, [sample_stxn 1 [sample_swrite 0 (VInsert 1 5), sample_swrite 1 (VInsert 0 5)], sample_stxn 1 [sample_swrite 0 (VInsert 2 7)]]),
      (2, [sample_stxn 2 [sample_swrite 1 (VInsert 2 1), sample_swrite 0 (VDelete 1 0)]])]"

definition sample_store_start :: graph_store where
  "sample_store_start = (case new_vertices (replicate 3 sample_pool) (GraphStore_new 2) of Inr (g, ids) \<Rightarrow> g | Inl _ \<Rightarrow> GraphStore_new 0)"

lemma sample_store_created: "new_vertices (replicate 3 sample_pool) (GraphStore_new 2) = Inr (sample_store_start, [0, 1, 2])"
proof -
  obtain g where "new_vertices (replicate 3 sample_pool) (GraphStore_new 2) = Inr (g, [0..<3])"
    using new_vertices_spec [OF GraphStore_new_ok(1), of "replicate 3 sample_pool" 2]
    by (auto simp: GraphStore_new_ok(2) sample_pool_def TMPNUM_def)
  moreover have "[0..<3] = [0, 1, 2 :: nat]" by code_simp
  ultimately show ?thesis by (simp add: sample_store_start_def)
qed

lemma sample_store_legal: "legal_store stable_order 0 sample_store_history sample_store_start (\<lambda>_. [])"
  by code_simp

theorem store_readers_see_committed_history_witness:
  "\<exists>g v xs. run_store stable_order sample_store_history sample_store_start = Inr g \<and> locked_block g 0 = Inr v \<and>
     for_each_edge Fine (Composite 2 INTRA_MAX) v = Inr xs \<and> mset (map ew_e xs) = {#2#}"
proof -
  have fits: "\<forall>pool \<in> set (replicate 3 sample_pool). length pool = 2 * TMPNUM" by (simp add: sample_pool_def TMPNUM_def)
  have num: "2 * store_writes_num sample_store_history < 2 ^ 31"
    by (simp add: store_writes_num_def txn_writes_def sample_store_history_def sample_stxn_def)
  have "store_logs sample_store_history 0 = [(1, VInsert 1 5), (1, VInsert 2 7), (2, VDelete 1 0)]"
    by (simp add: store_logs_def epoch_logs_def txn_log_def add_log_def sample_store_history_def sample_stxn_def sample_swrite_def)
  then have at: "edges_at (store_logs sample_store_history 0) 2 = {2}" by (auto simp: edges_at_def word_le_nat_alt)
  from store_readers_see_committed_history [OF fits sample_store_created stable_order_ok sample_store_legal num]
  obtain g v xs where "run_store stable_order sample_store_history sample_store_start = Inr g" "locked_block g 0 = Inr v"
    "for_each_edge Fine (Composite 2 INTRA_MAX) v = Inr xs" "mset (map ew_e xs) = mset_set (edges_at (store_logs sample_store_history 0) 2)"
    by (metis length_replicate zero_less_numeral)
  then show ?thesis unfolding at by auto
qed

end
