(* ===== verification/Edge_Parsing.thy ===== *)
theory Edge_Parsing
  imports AVB_Types
begin

text \<open>
  The text and binary formats of edges in \<open>data_types.h\<close>: \<open>parse_edge\<close> of the three edge structs, the renaming
  of vertices to dense ids, and \<open>write_edge_to_binary_file\<close>. What the standard library's strings do is
  written out: positions are \<open>size_t\<close> and wrap around, \<open>npos\<close> is the largest. Exceptions are values. The
  conversion of a weight (\<open>stod\<close>, then to an integer) is a parameter.
\<close>

section \<open>Strings\<close>

datatype exception = InvalidArgument | OutOfRange

type_synonym 'a thrown = "exception + 'a"

definition and_then :: "'a thrown \<Rightarrow> ('a \<Rightarrow> 'b thrown) \<Rightarrow> 'b thrown" where
  "and_then m f = (case m of Inl x \<Rightarrow> Inl x | Inr y \<Rightarrow> f y)"

lemma and_then_simps [simp]: "and_then (Inr x) f = f x" "and_then (Inl y) f = Inl y"
  by (simp_all add: and_then_def)

lemma and_then_Inr_iff: "and_then m f = Inr y \<longleftrightarrow> (\<exists>x. m = Inr x \<and> f x = Inr y)"
  by (cases m) auto

type_synonym size_t = "64 word"

definition npos :: size_t where
  "npos = - 1"

definition str_find :: "string \<Rightarrow> char \<Rightarrow> size_t \<Rightarrow> size_t" where
  "str_find s c pos =
     (let t = drop (unat pos) s; k = length (takeWhile (\<lambda>x. x \<noteq> c) t)
      in if k < length t then pos + of_nat k else npos)"

definition substr :: "string \<Rightarrow> size_t \<Rightarrow> size_t \<Rightarrow> string thrown" where
  "substr s pos count = (if unat pos > length s then Inl OutOfRange else Inr (take (unat count) (drop (unat pos) s)))"

definition is_space :: "char \<Rightarrow> bool" where
  "is_space c \<longleftrightarrow> of_char c \<in> {32, 9, 10, 11, 12, 13 :: nat}"

definition is_digit :: "char \<Rightarrow> bool" where
  "is_digit c \<longleftrightarrow> 48 \<le> (of_char c :: nat) \<and> (of_char c :: nat) \<le> 57"

definition digits_value :: "string \<Rightarrow> nat" where
  "digits_value = foldl (\<lambda>n c. 10 * n + (of_char c - 48)) 0"

definition stoi :: "string \<Rightarrow> int thrown" where
  "stoi s =
     (let t = dropWhile is_space s;
          (negative, u) = (case t of [] \<Rightarrow> (False, t) | c # cs \<Rightarrow> if c = CHR ''-'' then (True, cs) else if c = CHR ''+'' then (False, cs) else (False, t));
          ds = takeWhile is_digit u;
          v = (if negative then - int (digits_value ds) else int (digits_value ds))
      in if ds = [] then Inl InvalidArgument
         else if - (2 ^ 31) \<le> v \<and> v < 2 ^ 31 then Inr v else Inl OutOfRange)"

section \<open>parse_edge\<close>

text \<open>The strings of source and destination.\<close>

definition edge_strings :: "string \<Rightarrow> char \<Rightarrow> (string \<times> string) thrown" where
  "edge_strings line seperator =
     (let i = str_find line seperator 0; j = str_find line seperator (i + 1)
      in and_then (substr line 0 i) (\<lambda>src. and_then (substr line (i + 1) (j - i - 1)) (\<lambda>dst. Inr (src, dst))))"

record id_state =
  densifyer :: "string \<rightharpoonup> size_t"
  next_vertex_id :: size_t
  vertex_set :: "size_t set"

definition dense_id :: "string \<Rightarrow> id_state \<Rightarrow> size_t \<times> id_state" where
  "dense_id name st =
     (case densifyer st name of
        None \<Rightarrow> (next_vertex_id st,
                 st\<lparr>densifyer := (densifyer st)(name \<mapsto> next_vertex_id st), next_vertex_id := next_vertex_id st + 1\<rparr>)
      | Some v \<Rightarrow> (v, st))"

definition parse_edge_densifying :: "string \<Rightarrow> char \<Rightarrow> id_state \<Rightarrow> (edge_t \<times> id_state) thrown" where
  "parse_edge_densifying line seperator st =
     and_then (edge_strings line seperator) (\<lambda>(a, b).
       let (src, st1) = dense_id a st; (dst, st2) = dense_id b st1
       in Inr (\<lparr>edge_src = src, edge_dst = dst\<rparr>, st2))"

definition parse_edge :: "string \<Rightarrow> char \<Rightarrow> bool \<Rightarrow> id_state \<Rightarrow> (edge_t \<times> id_state) thrown" where
  "parse_edge line seperator densify st =
     (if densify then parse_edge_densifying line seperator st
      else and_then (edge_strings line seperator) (\<lambda>(a, b).
           and_then (stoi a) (\<lambda>src. and_then (stoi b) (\<lambda>dst.
             Inr (\<lparr>edge_src = word_of_int src, edge_dst = word_of_int dst\<rparr>,
                  st\<lparr>vertex_set := vertex_set st \<union> {word_of_int src, word_of_int dst}\<rparr>)))))"

text \<open>The string of the field at a position, counted by separators; the start wraps at \<open>npos\<close>.\<close>

definition field_at :: "string \<Rightarrow> char \<Rightarrow> nat \<Rightarrow> string thrown" where
  "field_at line seperator position =
     (let i = ((\<lambda>i. str_find line seperator (i + 1)) ^^ position) (- 1); j = str_find line seperator (i + 1)
      in substr line (i + 1) (j - i - 1))"

text \<open>A position of \<open>size_t\<close>'s maximum, no such field, is \<open>None\<close>.\<close>

definition weighted_parse_edge :: "(string \<Rightarrow> weight_t thrown) \<Rightarrow> string \<Rightarrow> char \<Rightarrow> nat option \<Rightarrow> bool \<Rightarrow> id_state \<Rightarrow>
    (weighted_edge_t \<times> id_state) thrown" where
  "weighted_parse_edge stod_weight line seperator weight_position densify st =
     and_then (parse_edge line seperator densify st) (\<lambda>(e, st').
       let t_edge = \<lparr>wedge_src = edge_src e, wedge_dst = edge_dst e, wedge_weight = 0\<rparr> in
       case weight_position of
         None \<Rightarrow> Inr (t_edge, st')
       | Some p \<Rightarrow> and_then (field_at line seperator p) (\<lambda>f. and_then (stod_weight f) (\<lambda>w.
                     Inr (t_edge\<lparr>wedge_weight := w\<rparr>, st'))))"

definition temporal_parse_edge :: "string \<Rightarrow> char \<Rightarrow> nat option \<Rightarrow> bool \<Rightarrow> id_state \<Rightarrow> (temporal_edge_t \<times> id_state) thrown" where
  "temporal_parse_edge line seperator temporal_value_position densify st =
     and_then (parse_edge line seperator densify st) (\<lambda>(e, st').
       let t_edge = \<lparr>tedge_src = edge_src e, tedge_dst = edge_dst e, creation_timestamp = 0\<rparr> in
       case temporal_value_position of
         None \<Rightarrow> Inr (t_edge, st')
       | Some p \<Rightarrow> and_then (field_at line seperator p) (\<lambda>f. and_then (stoi f) (\<lambda>t.
                     Inr (t_edge\<lparr>creation_timestamp := word_of_int t\<rparr>, st'))))"

section \<open>Binary files\<close>

text \<open>An integer in the machine's little-endian order.\<close>

definition word_bytes :: "64 word \<Rightarrow> 8 word list" where
  "word_bytes w = map (\<lambda>i. ucast (drop_bit (8 * i) w)) [0..<8]"

definition write_edge_to_binary_file :: "edge_t \<Rightarrow> 8 word list \<Rightarrow> 8 word list" where
  "write_edge_to_binary_file e f = f @ word_bytes (edge_src e) @ word_bytes (edge_dst e)"

definition write_weighted_edge :: "weighted_edge_t \<Rightarrow> 8 word list \<Rightarrow> 8 word list" where
  "write_weighted_edge e f =
     write_edge_to_binary_file \<lparr>edge_src = wedge_src e, edge_dst = wedge_dst e\<rparr> f @ word_bytes (wedge_weight e)"

definition write_temporal_edge :: "temporal_edge_t \<Rightarrow> 8 word list \<Rightarrow> 8 word list" where
  "write_temporal_edge e f =
     write_edge_to_binary_file \<lparr>edge_src = tedge_src e, edge_dst = tedge_dst e\<rparr> f @ word_bytes (creation_timestamp e)"

section \<open>Separators\<close>

lemma unat_size: "n < 2 ^ 64 \<Longrightarrow> unat (of_nat n :: size_t) = n"
  by (simp add: unsigned_of_nat take_bit_nat_eq_self)

lemma str_find_at:
  assumes "unat pos + length xs < length s" "drop (unat pos) s = xs @ c # ys" "c \<notin> set xs" "length s < 2 ^ 63"
  shows "str_find s c pos = pos + of_nat (length xs)"
proof -
  have "takeWhile (\<lambda>x. x \<noteq> c) (drop (unat pos) s) = xs"
    unfolding assms(2) using assms(3) by (subst takeWhile_append2) auto
  then show ?thesis using assms(2) by (simp add: str_find_def Let_def)
qed

lemma str_find_none: "c \<notin> set (drop (unat pos) s) \<Longrightarrow> str_find s c pos = npos"
proof -
  assume "c \<notin> set (drop (unat pos) s)"
  then have "takeWhile (\<lambda>x. x \<noteq> c) (drop (unat pos) s) = drop (unat pos) s" by (auto simp: takeWhile_eq_all_conv)
  then show ?thesis unfolding str_find_def Let_def by (metis less_irrefl)
qed

lemma edge_strings_fields:
  assumes "sep \<notin> set a" "sep \<notin> set b" "rest = [] \<or> hd rest = sep" "length (a @ sep # b @ rest) < 2 ^ 63"
  shows "edge_strings (a @ sep # b @ rest) sep = Inr (a, b)"
proof -
  let ?l = "a @ sep # b @ rest" and ?i = "of_nat (length a) :: size_t"
  have ua: "unat ?i = length a" "unat (?i + 1) = length a + 1" "unat (1 + ?i) = length a + 1"
    using assms(4) by (simp_all add: unat_size unat_word_ariths(1))
  have i: "str_find ?l sep 0 = ?i" using str_find_at [of 0 a ?l sep "b @ rest"] assms(1,4) by simp
  have d: "drop (length a + 1) ?l = b @ rest" by simp
  have j: "unat (str_find ?l sep (?i + 1) - ?i - 1) \<ge> length b \<and> (rest = [] \<or> unat (str_find ?l sep (?i + 1) - ?i - 1) = length b)"
  proof (cases rest)
    case Nil
    then have "str_find ?l sep (?i + 1) = npos" using assms(2) by (intro str_find_none) (simp add: ua)
    moreover have "npos - ?i - 1 = of_nat (2 ^ 64 - 2 - length a)"
    proof -
      have "(of_nat (2 ^ 64 - 2 - length a) :: size_t) = of_nat (2 ^ 64) - 2 - of_nat (length a)"
        using assms(4) by (simp add: of_nat_diff)
      then show ?thesis by (simp add: npos_def)
    qed
    then have "unat (npos - ?i - 1) = 2 ^ 64 - 2 - length a" by (simp add: unat_size)
    ultimately show ?thesis using Nil assms(4) by simp
  next
    case (Cons c cs)
    then have "str_find ?l sep (?i + 1) = ?i + 1 + of_nat (length b)"
      using str_find_at [of "?i + 1" b ?l sep cs] assms(2,3,4) by (simp add: ua)
    then show ?thesis using assms(4) by (simp add: unat_size)
  qed
  have "take (unat (str_find ?l sep (?i + 1) - ?i - 1)) (b @ rest) = b"
    using j by (cases rest) auto
  then show ?thesis using i by (simp add: edge_strings_def Let_def substr_def ua)
qed

section \<open>Printed edges are read back\<close>

fun decimal_digits :: "nat \<Rightarrow> nat list" where
  "decimal_digits n = (if n < 10 then [n] else decimal_digits (n div 10) @ [n mod 10])"

declare decimal_digits.simps [simp del]

definition digit_char :: "nat \<Rightarrow> char" where
  "digit_char k = char_of (48 + k)"

definition decimal :: "nat \<Rightarrow> string" where
  "decimal n = map digit_char (decimal_digits n)"

lemma digit_code: "k < 10 \<Longrightarrow> of_char (digit_char k) = 48 + k"
  by (simp add: digit_char_def)

lemma digits_small: "k \<in> set (decimal_digits n) \<Longrightarrow> k < 10"
  by (induction n rule: decimal_digits.induct) (subst (asm) (2) decimal_digits.simps, auto split: if_splits)

lemma digits_nonempty: "decimal_digits n \<noteq> []"
  by (subst decimal_digits.simps) simp

lemma digits_value_snoc: "digits_value (xs @ [c]) = 10 * digits_value xs + (of_char c - 48)"
  by (simp add: digits_value_def)

lemma digits_value_decimal: "digits_value (decimal n) = n"
proof (induction n rule: decimal_digits.induct)
  case (1 n)
  show ?case
  proof (cases "n < 10")
    case True
    then show ?thesis by (simp add: decimal_def decimal_digits.simps [of n] digits_value_def digit_code)
  next
    case False
    have "decimal n = decimal (n div 10) @ [digit_char (n mod 10)]" using False by (simp add: decimal_def decimal_digits.simps [of n])
    then show ?thesis using 1 [OF False] by (simp add: digits_value_snoc digit_code)
  qed
qed

lemma decimal_chars: "c \<in> set (decimal n) \<Longrightarrow> is_digit c \<and> \<not> is_space c \<and> c \<noteq> CHR ''-'' \<and> c \<noteq> CHR ''+''"
proof -
  assume "c \<in> set (decimal n)"
  then obtain k where k: "k < 10" "c = digit_char k" using digits_small by (auto simp: decimal_def)
  then have code: "of_char c = 48 + k" by (simp add: digit_code)
  then have "c \<noteq> CHR ''-''" "c \<noteq> CHR ''+''" by auto
  then show ?thesis using code k(1) by (simp add: is_digit_def is_space_def)
qed

lemma decimal_length: "length (decimal n) \<le> n + 1"
proof -
  have "length (decimal_digits n) \<le> n + 1"
  proof (induction n rule: decimal_digits.induct)
    case (1 n)
    then show ?case by (subst decimal_digits.simps) auto
  qed
  then show ?thesis by (simp add: decimal_def)
qed

lemma stoi_decimal: "n < 2 ^ 31 \<Longrightarrow> stoi (decimal n) = Inr (int n)"
proof -
  assume n: "n < 2 ^ 31"
  have ne: "decimal n \<noteq> []" by (simp add: decimal_def digits_nonempty)
  then obtain c cs where c: "decimal n = c # cs" by (cases "decimal n") auto
  have first: "is_digit c \<and> \<not> is_space c \<and> c \<noteq> CHR ''-'' \<and> c \<noteq> CHR ''+''" using decimal_chars [of c n] c by simp
  have dw: "dropWhile is_space (decimal n) = decimal n" using first by (simp add: c)
  have tw: "takeWhile is_digit (decimal n) = decimal n" using decimal_chars takeWhile_eq_all_conv by blast
  have sign: "(case decimal n of [] \<Rightarrow> (False, decimal n) | c # cs \<Rightarrow> if c = CHR ''-'' then (True, cs) else if c = CHR ''+'' then (False, cs)
      else (False, decimal n)) = (False, decimal n)" using first by (simp add: c)
  show ?thesis unfolding stoi_def Let_def dw sign prod.case tw using n ne by (simp add: digits_value_decimal)
qed

text \<open>
  C28: A line with two numbers below \<open>2^31\<close> in decimal, a separator that is no digit between them, and nothing
  or another separator and anything behind them is parsed to the edge between these vertices, which
  are added to the vertex set.
\<close>

theorem parse_edge_reads_printed:
  assumes "a < 2 ^ 31" "b < 2 ^ 31" "\<not> is_digit sep" "rest = [] \<or> hd rest = sep" "length rest < 2 ^ 62"
  shows "parse_edge (decimal a @ sep # decimal b @ rest) sep False st =
    Inr (\<lparr>edge_src = of_nat a, edge_dst = of_nat b\<rparr>, st\<lparr>vertex_set := vertex_set st \<union> {of_nat a, of_nat b}\<rparr>)"
proof -
  have sep: "sep \<notin> set (decimal n)" for n using decimal_chars assms(3) by blast
  have "length (decimal a @ sep # decimal b @ rest) < 2 ^ 63"
    using decimal_length [of a] decimal_length [of b] assms(1,2,5) by simp
  then have "edge_strings (decimal a @ sep # decimal b @ rest) sep = Inr (decimal a, decimal b)"
    by (rule edge_strings_fields [OF sep sep assms(4)])
  then show ?thesis by (simp add: parse_edge_def stoi_decimal [OF assms(1)] stoi_decimal [OF assms(2)])
qed

definition no_ids :: id_state where
  "no_ids = \<lparr>densifyer = Map.empty, next_vertex_id = 0, vertex_set = {}\<rparr>"

theorem parse_edge_reads_printed_witness:
  "parse_edge ''42 7 0.5'' (CHR '' '') False no_ids = Inr (\<lparr>edge_src = 42, edge_dst = 7\<rparr>, no_ids\<lparr>vertex_set := {42, 7}\<rparr>)"
proof -
  have d: "decimal 42 = ''42''" "decimal 7 = ''7''"
    by (simp_all add: decimal_def decimal_digits.simps digit_char_def) code_simp+
  have "\<not> is_digit (CHR '' '')" by code_simp
  from parse_edge_reads_printed [of 42 7, OF _ _ this, of "'' 0.5''" no_ids] show ?thesis by (simp add: d no_ids_def)
qed

text \<open>A line without a separator is read as an edge from a vertex to itself.\<close>

lemma edge_strings_no_separator:
  assumes "sep \<notin> set line" "length line < 2 ^ 63"
  shows "edge_strings line sep = Inr (line, line)"
proof -
  have "str_find line sep 0 = npos" using assms(1) by (intro str_find_none) simp
  moreover have "unat npos = 2 ^ 64 - 1" by (simp add: npos_def unsigned_minus_1_eq_mask mask_eq_exp_minus_1)
  ultimately show ?thesis using assms(2) by (simp add: edge_strings_def Let_def substr_def) (simp add: npos_def)
qed

section \<open>Dense ids\<close>

text \<open>The names seen so far are numbered from 0 without gaps.\<close>

definition ids_ok :: "id_state \<Rightarrow> bool" where
  "ids_ok st \<longleftrightarrow> bij_betw (\<lambda>s. unat (the (densifyer st s))) (dom (densifyer st)) {0..<unat (next_vertex_id st)}"

lemma dense_id_step:
  assumes ok: "ids_ok st" and room: "unat (next_vertex_id st) + 1 < 2 ^ 64" and r: "dense_id name st = (v, st')"
  shows "ids_ok st' \<and> densifyer st \<subseteq>\<^sub>m densifyer st' \<and> densifyer st' name = Some v \<and>
    unat (next_vertex_id st') \<le> unat (next_vertex_id st) + 1"
proof (cases "densifyer st name")
  case (Some x)
  then show ?thesis using ok r by (auto simp: dense_id_def)
next
  case None
  let ?n = "next_vertex_id st" and ?d = "densifyer st"
  have st': "st' = st\<lparr>densifyer := ?d(name \<mapsto> ?n), next_vertex_id := ?n + 1\<rparr>" "v = ?n" using r None by (auto simp: dense_id_def)
  have next_id: "unat (?n + 1) = unat ?n + 1" using room by (simp add: unat_word_ariths(1))
  have new: "name \<notin> dom ?d" using None by auto
  have "bij_betw (\<lambda>s. unat (the ((?d(name \<mapsto> ?n)) s))) (dom ?d) {0..<unat ?n}"
    using ok new unfolding ids_ok_def by (subst bij_betw_cong [of _ _ "\<lambda>s. unat (the (?d s))"]) auto
  then have "bij_betw (\<lambda>s. unat (the ((?d(name \<mapsto> ?n)) s))) (insert name (dom ?d)) (insert (unat ?n) {0..<unat ?n})"
    using new notIn_Un_bij_betw [of name "dom ?d" "\<lambda>s. unat (the ((?d(name \<mapsto> ?n)) s))" "{0..<unat ?n}"] by simp
  then have "ids_ok st'" by (simp add: ids_ok_def st' next_id atLeast0_lessThan_Suc)
  moreover have "?d \<subseteq>\<^sub>m densifyer st'" using None by (auto simp: st' map_le_def)
  ultimately show ?thesis by (simp add: st' next_id)
qed

fun parse_lines :: "char \<Rightarrow> string list \<Rightarrow> id_state \<Rightarrow> (edge_t list \<times> id_state) thrown" where
  "parse_lines seperator [] st = Inr ([], st)"
| "parse_lines seperator (l # ls) st =
     and_then (parse_edge l seperator True st) (\<lambda>(e, st1). and_then (parse_lines seperator ls st1) (\<lambda>(es, st2). Inr (e # es, st2)))"

lemma parse_densifying_step:
  assumes ok: "ids_ok st" and room: "unat (next_vertex_id st) + 2 < 2 ^ 64" and r: "parse_edge l seperator True st = Inr (e, st')"
  shows "ids_ok st' \<and> densifyer st \<subseteq>\<^sub>m densifyer st' \<and> unat (next_vertex_id st') \<le> unat (next_vertex_id st) + 2 \<and>
    (\<exists>a b. edge_strings l seperator = Inr (a, b) \<and> densifyer st' a = Some (edge_src e) \<and> densifyer st' b = Some (edge_dst e))"
proof -
  obtain a b where ab: "edge_strings l seperator = Inr (a, b)"
    using r by (auto simp: parse_edge_def parse_edge_densifying_def and_then_Inr_iff)
  obtain src st1 where d1: "dense_id a st = (src, st1)" by (cases "dense_id a st")
  obtain dst st2 where d2: "dense_id b st1 = (dst, st2)" by (cases "dense_id b st1")
  have e: "e = \<lparr>edge_src = src, edge_dst = dst\<rparr>" "st' = st2"
    using r ab d1 d2 by (auto simp: parse_edge_def parse_edge_densifying_def)
  have s1: "ids_ok st1 \<and> densifyer st \<subseteq>\<^sub>m densifyer st1 \<and> densifyer st1 a = Some src \<and> unat (next_vertex_id st1) \<le> unat (next_vertex_id st) + 1"
    using dense_id_step [OF ok _ d1] room by simp
  then have s2: "ids_ok st2 \<and> densifyer st1 \<subseteq>\<^sub>m densifyer st2 \<and> densifyer st2 b = Some dst \<and> unat (next_vertex_id st2) \<le> unat (next_vertex_id st1) + 1"
    using dense_id_step [OF _ _ d2] room by simp
  have "densifyer st2 a = Some src" using s1 s2 by (metis domI map_le_def)
  then show ?thesis using ab e s1 s2 map_le_trans by fastforce
qed

text \<open>
  C27: Parsing lines with \<open>densify\<close> keeps the ids of the names seen so far dense and distinct: after n lines
  from a well-formed state they are exactly the numbers below \<open>next_vertex_id\<close>, one for each name, earlier ids
  are kept, and each parsed edge joins the ids of its line's two names.
\<close>

theorem densified_ids_are_dense:
  assumes "ids_ok st" "unat (next_vertex_id st) + 2 * length ls < 2 ^ 64" "parse_lines seperator ls st = Inr (es, st')"
  shows "ids_ok st' \<and> densifyer st \<subseteq>\<^sub>m densifyer st' \<and> length es = length ls \<and>
    (\<forall>i < length ls. \<exists>a b. edge_strings (ls ! i) seperator = Inr (a, b) \<and>
       densifyer st' a = Some (edge_src (es ! i)) \<and> densifyer st' b = Some (edge_dst (es ! i)))"
  using assms
proof (induction ls arbitrary: st es)
  case (Cons l ls)
  obtain e st1 es1 where r: "parse_edge l seperator True st = Inr (e, st1)" "parse_lines seperator ls st1 = Inr (es1, st')" "es = e # es1"
    using Cons.prems(3) by (auto simp: and_then_Inr_iff)
  obtain a b where s: "ids_ok st1" "densifyer st \<subseteq>\<^sub>m densifyer st1" "unat (next_vertex_id st1) \<le> unat (next_vertex_id st) + 2"
    "edge_strings l seperator = Inr (a, b)" "densifyer st1 a = Some (edge_src e)" "densifyer st1 b = Some (edge_dst e)"
    using parse_densifying_step [OF Cons.prems(1) _ r(1)] Cons.prems(2) by auto
  note IH = Cons.IH [OF s(1) _ r(2)]
  have rest: "ids_ok st'" "densifyer st1 \<subseteq>\<^sub>m densifyer st'" "length es1 = length ls"
    "\<forall>i < length ls. \<exists>a b. edge_strings (ls ! i) seperator = Inr (a, b) \<and>
       densifyer st' a = Some (edge_src (es1 ! i)) \<and> densifyer st' b = Some (edge_dst (es1 ! i))"
    using IH s(3) Cons.prems(2) by auto
  have first: "densifyer st' a = Some (edge_src e)" "densifyer st' b = Some (edge_dst e)" using s(5,6) rest(2) by (metis domI map_le_def)+
  have "\<exists>a b. edge_strings ((l # ls) ! i) seperator = Inr (a, b) \<and>
      densifyer st' a = Some (edge_src (es ! i)) \<and> densifyer st' b = Some (edge_dst (es ! i))" if "i < length (l # ls)" for i
    using that rest(4) s(4) first r(3) by (cases i) auto
  then show ?case using rest(1-3) r(3) map_le_trans [OF s(2) rest(2)] by auto
qed simp

lemma no_ids_ok: "ids_ok no_ids"
  by (simp add: ids_ok_def no_ids_def bij_betw_def)

theorem densified_ids_are_dense_witness:
  "\<exists>es st. parse_lines (CHR '','') [''x,y'', ''y,zz''] no_ids = Inr (es, st) \<and> es = [\<lparr>edge_src = 0, edge_dst = 1\<rparr>, \<lparr>edge_src = 1, edge_dst = 2\<rparr>] \<and> ids_ok st"
proof -
  have f: "edge_strings ''x,y'' (CHR '','') = Inr (''x'', ''y'')" "edge_strings ''y,zz'' (CHR '','') = Inr (''y'', ''zz'')"
    using edge_strings_fields [of "CHR '',''" "''x''" "''y''" "[]"] edge_strings_fields [of "CHR '',''" "''y''" "''zz''" "[]"] by simp_all
  then have "\<exists>st. parse_lines (CHR '','') [''x,y'', ''y,zz''] no_ids =
      Inr ([\<lparr>edge_src = 0, edge_dst = 1\<rparr>, \<lparr>edge_src = 1, edge_dst = 2\<rparr>], st)"
    by (simp add: parse_edge_def parse_edge_densifying_def dense_id_def no_ids_def)
  then obtain es st where r: "parse_lines (CHR '','') [''x,y'', ''y,zz''] no_ids = Inr (es, st)"
    "es = [\<lparr>edge_src = 0, edge_dst = 1\<rparr>, \<lparr>edge_src = 1, edge_dst = 2\<rparr>]" by blast
  have "unat (next_vertex_id no_ids) + 2 * length [''x,y'', ''y,zz''] < 2 ^ 64" by (simp add: no_ids_def)
  from densified_ids_are_dense [OF no_ids_ok this r(1)] r show ?thesis by blast
qed

end
