(* ===== verification/Edge_Reader.thy ===== *)
theory Edge_Reader
  imports AVB_Prelude
begin

text \<open>
  \<open>utils/EdgeReader\<close>: one thread reads the lines of a file in chunks into a queue of at most four, another
  takes the chunks and turns the lines into edges. The two synchronise with a mutex and two condition
  variables. The model cuts both threads at the points where the other can interfere: taking the
  mutex, going to sleep, waking up, and the notifications, which are sent without the mutex. A sleeper may
  also wake up without a notification. \<open>scan\<close> stands for what \<open>sscanf\<close> stores for a line.
\<close>

section \<open>State\<close>

record edge_chunk =
  ch_num :: "32 word"
  ch_edges :: "string list"
  ch_is_last :: bool

definition EdgeChunk_new :: "32 word \<Rightarrow> edge_chunk" where
  "EdgeChunk_new num = \<lparr>ch_num = num, ch_edges = [], ch_is_last = False\<rparr>"

datatype side = Reader | Consumer

datatype reader_pc = R_Test | R_Lock | R_Wait | R_Asleep | R_Fill | R_Notify | R_NotifyAll | R_Done

datatype consumer_pc = C_Lock | C_Wait | C_Asleep | C_Take | is_C_Notify: C_Notify edge_chunk | C_Done

type_synonym input_edge = "32 word \<times> 32 word \<times> 64 word"

text \<open>
  The file is the list of the lines not yet read; \<open>er_newline\<close> says that the last one ends in a newline,
  so that reading it does not reach the end of the file.
\<close>

record edge_reader =
  er_file :: "string list"
  er_newline :: bool
  er_chunk_size :: nat
  er_chunk_num :: "32 word"
  er_queue :: "edge_chunk list"
  er_finished :: bool
  er_owner :: "side option"
  er_reader :: reader_pc
  er_reader_woken :: bool
  er_consumer :: consumer_pc
  er_consumer_woken :: bool
  er_edges :: "input_edge list"

definition MAX_BUFFER_SIZE :: nat where
  "MAX_BUFFER_SIZE = 4"

definition UpdateDataConcurrent_start :: "nat \<Rightarrow> string list \<Rightarrow> bool \<Rightarrow> edge_reader" where
  "UpdateDataConcurrent_start c_size lines newline =
     \<lparr>er_file = lines, er_newline = newline, er_chunk_size = c_size, er_chunk_num = 0, er_queue = [], er_finished = False,
      er_owner = None, er_reader = R_Test, er_reader_woken = False, er_consumer = C_Lock, er_consumer_woken = False,
      er_edges = []\<rparr>"

section \<open>The reading thread\<close>

text \<open>The inner loop: lines until the chunk is full or \<open>getline\<close> fails.\<close>

definition fill_chunk :: "edge_reader \<Rightarrow> edge_chunk" where
  "fill_chunk s =
     (let es = take (er_chunk_size s) (er_file s);
          at_eof = (length es < er_chunk_size s \<or> drop (er_chunk_size s) (er_file s) = [] \<and> \<not> er_newline s)
      in (EdgeChunk_new (er_chunk_num s))\<lparr>ch_edges := es, ch_is_last := (length es < er_chunk_size s \<or> at_eof)\<rparr>)"

definition space_or_finished :: "edge_reader \<Rightarrow> bool" where
  "space_or_finished s \<longleftrightarrow> length (er_queue s) < MAX_BUFFER_SIZE \<or> er_finished s"

text \<open>\<open>None\<close>: the thread cannot go on now.\<close>

fun reader_thread :: "edge_reader \<Rightarrow> edge_reader option" where
  "reader_thread s =
     (case er_reader s of
        R_Test \<Rightarrow> Some (s\<lparr>er_reader := if er_finished s then R_NotifyAll else R_Lock\<rparr>)
      | R_Lock \<Rightarrow> if er_owner s = None then Some (s\<lparr>er_owner := Some Reader, er_reader := R_Wait\<rparr>) else None
      | R_Wait \<Rightarrow>
          if \<not> space_or_finished s then Some (s\<lparr>er_owner := None, er_reader := R_Asleep, er_reader_woken := False\<rparr>)
          else if er_finished s then Some (s\<lparr>er_owner := None, er_reader := R_NotifyAll\<rparr>)
          else Some (s\<lparr>er_reader := R_Fill\<rparr>)
      | R_Asleep \<Rightarrow>
          if er_reader_woken s \<and> er_owner s = None then Some (s\<lparr>er_owner := Some Reader, er_reader := R_Wait\<rparr>) else None
      | R_Fill \<Rightarrow>
          let chunk = fill_chunk s;
              s1 = s\<lparr>er_file := drop (er_chunk_size s) (er_file s), er_chunk_num := er_chunk_num s + 1,
                     er_queue := er_queue s @ [chunk], er_owner := None\<rparr>
          in if ch_is_last chunk then Some (s1\<lparr>er_finished := True, er_reader := R_NotifyAll\<rparr>)
             else Some (s1\<lparr>er_reader := R_Notify\<rparr>)
      | R_Notify \<Rightarrow> Some (s\<lparr>er_consumer_woken := True, er_reader := R_Test\<rparr>)
      | R_NotifyAll \<Rightarrow> Some (s\<lparr>er_consumer_woken := True, er_reader := R_Done\<rparr>)
      | R_Done \<Rightarrow> None)"

section \<open>get_next_chunk and its caller\<close>

definition edge_of_line :: "(string \<Rightarrow> 64 word \<times> 64 word \<times> 64 word) \<Rightarrow> string \<Rightarrow> input_edge" where
  "edge_of_line scan l = (case scan l of (src, dst, property) \<Rightarrow> (ucast src, ucast dst, property))"

fun get_next_chunk :: "(string \<Rightarrow> 64 word \<times> 64 word \<times> 64 word) \<Rightarrow> edge_reader \<Rightarrow> edge_reader option" where
  "get_next_chunk scan s =
     (case er_consumer s of
        C_Lock \<Rightarrow> if er_owner s = None then Some (s\<lparr>er_owner := Some Consumer, er_consumer := C_Wait\<rparr>) else None
      | C_Wait \<Rightarrow>
          if er_queue s \<noteq> [] \<or> er_finished s then Some (s\<lparr>er_consumer := C_Take\<rparr>)
          else Some (s\<lparr>er_owner := None, er_consumer := C_Asleep, er_consumer_woken := False\<rparr>)
      | C_Asleep \<Rightarrow>
          if er_consumer_woken s \<and> er_owner s = None then Some (s\<lparr>er_owner := Some Consumer, er_consumer := C_Wait\<rparr>) else None
      | C_Take \<Rightarrow>
          (case er_queue s of
             [] \<Rightarrow> Some (s\<lparr>er_owner := None, er_consumer := C_Done\<rparr>)
           | chunk # queue \<Rightarrow> Some (s\<lparr>er_queue := queue, er_owner := None, er_consumer := C_Notify chunk\<rparr>))
      | C_Notify chunk \<Rightarrow>
          Some (s\<lparr>er_reader_woken := True, er_edges := er_edges s @ map (edge_of_line scan) (ch_edges chunk), er_consumer := C_Lock\<rparr>)
      | C_Done \<Rightarrow> None)"

declare reader_thread.simps [simp del] get_next_chunk.simps [simp del]

inductive reading_step :: "(string \<Rightarrow> 64 word \<times> 64 word \<times> 64 word) \<Rightarrow> edge_reader \<Rightarrow> edge_reader \<Rightarrow> bool" for scan where
  reading: "reader_thread s = Some s' \<Longrightarrow> reading_step scan s s'"
| consuming: "get_next_chunk scan s = Some s' \<Longrightarrow> reading_step scan s s'"

inductive reading_run :: "(string \<Rightarrow> 64 word \<times> 64 word \<times> 64 word) \<Rightarrow> edge_reader \<Rightarrow> edge_reader \<Rightarrow> bool" for scan s0 where
  run_start: "reading_run scan s0 s0"
| run_step: "reading_run scan s0 s \<Longrightarrow> reading_step scan s s' \<Longrightarrow> reading_run scan s0 s'"
| run_wakes_reader: "reading_run scan s0 s \<Longrightarrow> reading_run scan s0 (s\<lparr>er_reader_woken := True\<rparr>)"
| run_wakes_consumer: "reading_run scan s0 s \<Longrightarrow> reading_run scan s0 (s\<lparr>er_consumer_woken := True\<rparr>)"

inductive_cases reading_stepE: "reading_step scan s s'"

section \<open>The invariant\<close>

definition owner_ok :: "edge_reader \<Rightarrow> bool" where
  "owner_ok s \<longleftrightarrow> (er_owner s = Some Reader \<longleftrightarrow> er_reader s \<in> {R_Wait, R_Fill}) \<and>
     (er_owner s = Some Consumer \<longleftrightarrow> er_consumer s \<in> {C_Wait, C_Take})"

text \<open>A sleeper whose condition holds is about to be notified.\<close>

definition sleep_ok :: "edge_reader \<Rightarrow> bool" where
  "sleep_ok s \<longleftrightarrow>
     (er_reader s = R_Asleep \<and> \<not> er_reader_woken s \<longrightarrow> length (er_queue s) = MAX_BUFFER_SIZE \<or> is_C_Notify (er_consumer s)) \<and>
     (er_consumer s = C_Asleep \<and> \<not> er_consumer_woken s \<longrightarrow>
        er_queue s = [] \<and> \<not> er_finished s \<or> er_reader s \<in> {R_Notify, R_NotifyAll})"

definition queue_ok :: "edge_reader \<Rightarrow> bool" where
  "queue_ok s \<longleftrightarrow> 0 < er_chunk_size s \<and> length (er_queue s) \<le> MAX_BUFFER_SIZE \<and>
     (er_reader s = R_Fill \<longrightarrow> length (er_queue s) < MAX_BUFFER_SIZE) \<and>
     (er_finished s \<longleftrightarrow> er_reader s \<in> {R_NotifyAll, R_Done}) \<and> (er_finished s \<longrightarrow> er_file s = []) \<and>
     (er_consumer s = C_Take \<longrightarrow> er_queue s \<noteq> [] \<or> er_finished s) \<and>
     (er_consumer s = C_Done \<longrightarrow> er_queue s = [] \<and> er_finished s)"

definition taken :: "edge_reader \<Rightarrow> string list" where
  "taken s = (case er_consumer s of C_Notify c \<Rightarrow> ch_edges c | _ \<Rightarrow> [])"

definition lines_ok :: "(string \<Rightarrow> 64 word \<times> 64 word \<times> 64 word) \<Rightarrow> string list \<Rightarrow> edge_reader \<Rightarrow> bool" where
  "lines_ok scan lines s \<longleftrightarrow>
     er_edges s @ map (edge_of_line scan) (taken s @ concat (map ch_edges (er_queue s)) @ er_file s) = map (edge_of_line scan) lines"

definition reader_inv :: "(string \<Rightarrow> 64 word \<times> 64 word \<times> 64 word) \<Rightarrow> string list \<Rightarrow> edge_reader \<Rightarrow> bool" where
  "reader_inv scan lines s \<longleftrightarrow> owner_ok s \<and> sleep_ok s \<and> queue_ok s \<and> lines_ok scan lines s"

lemmas reader_inv_defs = reader_inv_def owner_ok_def sleep_ok_def queue_ok_def lines_ok_def taken_def

lemma fill_chunk_edges [simp]: "ch_edges (fill_chunk s) = take (er_chunk_size s) (er_file s)"
  by (simp add: fill_chunk_def Let_def)

lemma fill_chunk_last: "ch_is_last (fill_chunk s) \<Longrightarrow> drop (er_chunk_size s) (er_file s) = []"
  by (auto simp: fill_chunk_def Let_def)

lemma fill_chunk_more: "\<not> ch_is_last (fill_chunk s) \<Longrightarrow> er_chunk_size s \<le> length (er_file s)"
  by (auto simp: fill_chunk_def Let_def)

lemma start_reader_inv: "0 < c_size \<Longrightarrow> reader_inv scan lines (UpdateDataConcurrent_start c_size lines newline)"
  by (simp add: reader_inv_defs UpdateDataConcurrent_start_def)

definition pushed :: "edge_reader \<Rightarrow> edge_reader" where
  "pushed s = s\<lparr>er_file := drop (er_chunk_size s) (er_file s), er_chunk_num := er_chunk_num s + 1,
     er_queue := er_queue s @ [fill_chunk s], er_owner := None\<rparr>"

lemma reader_threadE:
  assumes "reader_thread s = Some s'"
  obtains (test) "er_reader s = R_Test" "s' = s\<lparr>er_reader := if er_finished s then R_NotifyAll else R_Lock\<rparr>"
    | (lock) "er_reader s \<in> {R_Lock, R_Asleep}" "er_owner s = None" "er_reader s = R_Asleep \<longrightarrow> er_reader_woken s"
      "s' = s\<lparr>er_owner := Some Reader, er_reader := R_Wait\<rparr>"
    | (sleep) "er_reader s = R_Wait" "\<not> er_finished s" "length (er_queue s) \<ge> MAX_BUFFER_SIZE"
      "s' = s\<lparr>er_owner := None, er_reader := R_Asleep, er_reader_woken := False\<rparr>"
    | (leave) "er_reader s = R_Wait" "er_finished s" "s' = s\<lparr>er_owner := None, er_reader := R_NotifyAll\<rparr>"
    | (ready) "er_reader s = R_Wait" "length (er_queue s) < MAX_BUFFER_SIZE" "\<not> er_finished s" "s' = s\<lparr>er_reader := R_Fill\<rparr>"
    | (last) "er_reader s = R_Fill" "ch_is_last (fill_chunk s)" "s' = (pushed s)\<lparr>er_finished := True, er_reader := R_NotifyAll\<rparr>"
    | (more) "er_reader s = R_Fill" "\<not> ch_is_last (fill_chunk s)" "s' = (pushed s)\<lparr>er_reader := R_Notify\<rparr>"
    | (notify) "er_reader s = R_Notify" "s' = s\<lparr>er_consumer_woken := True, er_reader := R_Test\<rparr>"
    | (notify_all) "er_reader s = R_NotifyAll" "s' = s\<lparr>er_consumer_woken := True, er_reader := R_Done\<rparr>"
proof (cases "er_reader s")
  case R_Test
  then show ?thesis using assms test by (simp add: reader_thread.simps)
next
  case R_Lock
  then show ?thesis using assms lock by (simp add: reader_thread.simps split: if_splits)
next
  case R_Wait
  then show ?thesis using assms sleep leave ready by (simp add: reader_thread.simps space_or_finished_def split: if_splits)
next
  case R_Asleep
  then show ?thesis using assms lock by (simp add: reader_thread.simps split: if_splits)
next
  case R_Fill
  then show ?thesis using assms last more by (simp add: reader_thread.simps Let_def pushed_def split: if_splits)
next
  case R_Notify
  then show ?thesis using assms notify by (simp add: reader_thread.simps)
next
  case R_NotifyAll
  then show ?thesis using assms notify_all by (simp add: reader_thread.simps)
next
  case R_Done
  then show ?thesis using assms by (simp add: reader_thread.simps)
qed

lemma reader_owner: "owner_ok s \<Longrightarrow> reader_thread s = Some s' \<Longrightarrow> owner_ok s'"
  by (erule reader_threadE) (simp_all add: owner_ok_def pushed_def, auto)

lemma reader_sleep:
  assumes "owner_ok s" "queue_ok s" "sleep_ok s" "reader_thread s = Some s'"
  shows "sleep_ok s'"
proof -
  have "er_reader s = R_Fill \<or> er_reader s = R_Wait \<Longrightarrow> \<not> er_finished s" "length (er_queue s) \<le> MAX_BUFFER_SIZE"
    using assms(2) by (auto simp: queue_ok_def)
  then show ?thesis using assms(4,3)
    by (elim reader_threadE) (simp_all add: sleep_ok_def pushed_def, auto)
qed

lemma reader_queue:
  assumes "owner_ok s" "queue_ok s" "reader_thread s = Some s'"
  shows "queue_ok s'"
  using assms(3,1,2) fill_chunk_last [of s]
  by (elim reader_threadE) (simp_all add: queue_ok_def pushed_def, auto)

lemma reader_lines:
  assumes "lines_ok scan lines s" "reader_thread s = Some s'"
  shows "lines_ok scan lines s'"
proof -
  have "map f (take n xs) @ map f (drop n xs) = map f xs" for f :: "string \<Rightarrow> input_edge" and n xs
    by (metis append_take_drop_id map_append)
  then show ?thesis using assms(2,1)
    by (elim reader_threadE) (simp_all add: lines_ok_def taken_def pushed_def)
qed

lemma get_next_chunkE:
  assumes "get_next_chunk scan s = Some s'"
  obtains (lock) "er_consumer s \<in> {C_Lock, C_Asleep}" "er_owner s = None" "er_consumer s = C_Asleep \<longrightarrow> er_consumer_woken s"
      "s' = s\<lparr>er_owner := Some Consumer, er_consumer := C_Wait\<rparr>"
    | (ready) "er_consumer s = C_Wait" "er_queue s \<noteq> [] \<or> er_finished s" "s' = s\<lparr>er_consumer := C_Take\<rparr>"
    | (sleep) "er_consumer s = C_Wait" "er_queue s = []" "\<not> er_finished s"
      "s' = s\<lparr>er_owner := None, er_consumer := C_Asleep, er_consumer_woken := False\<rparr>"
    | (finish) "er_consumer s = C_Take" "er_queue s = []" "s' = s\<lparr>er_owner := None, er_consumer := C_Done\<rparr>"
    | (pop) chunk queue where "er_consumer s = C_Take" "er_queue s = chunk # queue"
      "s' = s\<lparr>er_queue := queue, er_owner := None, er_consumer := C_Notify chunk\<rparr>"
    | (notify) chunk where "er_consumer s = C_Notify chunk"
      "s' = s\<lparr>er_reader_woken := True, er_edges := er_edges s @ map (edge_of_line scan) (ch_edges chunk), er_consumer := C_Lock\<rparr>"
proof (cases "er_consumer s")
  case C_Lock
  then show ?thesis using assms lock by (simp add: get_next_chunk.simps split: if_splits)
next
  case C_Wait
  then show ?thesis using assms ready sleep by (simp add: get_next_chunk.simps split: if_splits)
next
  case C_Asleep
  then show ?thesis using assms lock by (simp add: get_next_chunk.simps split: if_splits)
next
  case C_Take
  then show ?thesis using assms finish pop by (cases "er_queue s") (simp_all add: get_next_chunk.simps)
next
  case (C_Notify chunk)
  then show ?thesis using assms notify by (simp add: get_next_chunk.simps)
next
  case C_Done
  then show ?thesis using assms by (simp add: get_next_chunk.simps)
qed

lemma consumer_owner: "owner_ok s \<Longrightarrow> get_next_chunk scan s = Some s' \<Longrightarrow> owner_ok s'"
  by (erule get_next_chunkE) (simp_all add: owner_ok_def, auto)

lemma consumer_sleep:
  assumes "owner_ok s" "queue_ok s" "sleep_ok s" "get_next_chunk scan s = Some s'"
  shows "sleep_ok s'"
proof -
  have "er_reader s = R_Asleep \<Longrightarrow> \<not> er_finished s" "er_consumer s = C_Take \<Longrightarrow> er_queue s = [] \<Longrightarrow> er_finished s" "MAX_BUFFER_SIZE \<noteq> 0"
    using assms(2) by (auto simp: queue_ok_def MAX_BUFFER_SIZE_def)
  then show ?thesis using assms(4,3)
    by (elim get_next_chunkE) (simp_all add: sleep_ok_def, auto)
qed

lemma consumer_queue:
  assumes "owner_ok s" "queue_ok s" "get_next_chunk scan s = Some s'"
  shows "queue_ok s'"
  using assms(3,1,2) by (elim get_next_chunkE) (simp_all add: queue_ok_def, auto)

lemma consumer_lines:
  assumes "lines_ok scan lines s" "get_next_chunk scan s = Some s'"
  shows "lines_ok scan lines s'"
  using assms(2,1) by (elim get_next_chunkE) (simp_all add: lines_ok_def taken_def, auto)

lemma woken_inv:
  assumes "reader_inv scan lines s"
  shows "reader_inv scan lines (s\<lparr>er_reader_woken := True\<rparr>)" "reader_inv scan lines (s\<lparr>er_consumer_woken := True\<rparr>)"
proof -
  have "queue_ok (s\<lparr>er_reader_woken := True\<rparr>) = queue_ok s" "queue_ok (s\<lparr>er_consumer_woken := True\<rparr>) = queue_ok s"
    "owner_ok (s\<lparr>er_reader_woken := True\<rparr>) = owner_ok s" "owner_ok (s\<lparr>er_consumer_woken := True\<rparr>) = owner_ok s"
    "lines_ok scan lines (s\<lparr>er_reader_woken := True\<rparr>) = lines_ok scan lines s"
    "lines_ok scan lines (s\<lparr>er_consumer_woken := True\<rparr>) = lines_ok scan lines s"
    by (simp_all add: queue_ok_def owner_ok_def lines_ok_def taken_def)
  moreover have "sleep_ok (s\<lparr>er_reader_woken := True\<rparr>)" "sleep_ok (s\<lparr>er_consumer_woken := True\<rparr>)"
    using assms unfolding reader_inv_def sleep_ok_def by simp_all
  ultimately show "reader_inv scan lines (s\<lparr>er_reader_woken := True\<rparr>)" "reader_inv scan lines (s\<lparr>er_consumer_woken := True\<rparr>)"
    using assms by (simp_all add: reader_inv_def)
qed

lemma reading_run_inv:
  assumes "reading_run scan (UpdateDataConcurrent_start c_size lines newline) s" "0 < c_size"
  shows "reader_inv scan lines s"
  using assms
proof (induction rule: reading_run.induct)
  case run_start
  then show ?case by (rule start_reader_inv)
next
  case (run_step s s')
  then have "owner_ok s" "sleep_ok s" "queue_ok s" "lines_ok scan lines s" by (auto simp: reader_inv_def)
  with run_step.hyps(2) show ?case
    unfolding reader_inv_def
    by (elim reading_stepE) (blast intro: reader_owner reader_sleep reader_queue reader_lines
        consumer_owner consumer_sleep consumer_queue consumer_lines)+
qed (simp_all add: woken_inv)

section \<open>Progress\<close>

definition reader_weight :: "edge_reader \<Rightarrow> nat" where
  "reader_weight s =
     (case er_reader s of R_Test \<Rightarrow> 9 | R_Lock \<Rightarrow> 8 | R_Wait \<Rightarrow> 6 | R_Asleep \<Rightarrow> if er_reader_woken s then 7 else 0
      | R_Fill \<Rightarrow> 5 | R_Notify \<Rightarrow> 13 | R_NotifyAll \<Rightarrow> 4 | R_Done \<Rightarrow> 0)"

definition consumer_weight :: "edge_reader \<Rightarrow> nat" where
  "consumer_weight s =
     (case er_consumer s of C_Lock \<Rightarrow> 3 | C_Wait \<Rightarrow> 2 | C_Asleep \<Rightarrow> if er_consumer_woken s then 3 else 0
      | C_Take \<Rightarrow> 1 | C_Notify c \<Rightarrow> 11 | C_Done \<Rightarrow> 0)"

text \<open>What is left to do: chunks to read, chunks to take, and where the threads are.\<close>

definition reading_left :: "edge_reader \<Rightarrow> nat" where
  "reading_left s = 24 * (if er_finished s then 0 else length (er_file s) + 1) + 12 * length (er_queue s) +
     reader_weight s + consumer_weight s"

lemmas left_defs = reading_left_def reader_weight_def consumer_weight_def

lemma reader_moves:
  assumes "queue_ok s" "reader_thread s = Some s'"
  shows "reading_left s' < reading_left s"
proof -
  have size: "0 < er_chunk_size s" and fin: "er_reader s = R_Fill \<Longrightarrow> \<not> er_finished s" using assms(1) by (auto simp: queue_ok_def)
  note more = fill_chunk_more [of s]
  show ?thesis using assms(2)
    by (elim reader_threadE; cases "er_consumer s") (use size fin more in \<open>auto simp: left_defs pushed_def\<close>)
qed

lemma consumer_moves: "get_next_chunk scan s = Some s' \<Longrightarrow> reading_left s' < reading_left s"
  by (elim get_next_chunkE; cases "er_reader s") (auto simp: left_defs)

lemma stuck_is_done:
  assumes "reader_inv scan lines s" "reader_thread s = None" "get_next_chunk scan s = None"
  shows "er_reader s = R_Done \<and> er_consumer s = C_Done \<and> er_edges s = map (edge_of_line scan) lines"
proof -
  have r: "er_reader s \<in> {R_Lock, R_Asleep, R_Done}" "er_reader s = R_Lock \<Longrightarrow> er_owner s \<noteq> None"
    "er_reader s = R_Asleep \<Longrightarrow> \<not> er_reader_woken s \<or> er_owner s \<noteq> None"
    using assms(2) by (auto simp: reader_thread.simps Let_def split: reader_pc.splits if_splits)
  have c: "er_consumer s \<in> {C_Lock, C_Asleep, C_Done}" "er_consumer s = C_Lock \<Longrightarrow> er_owner s \<noteq> None"
    "er_consumer s = C_Asleep \<Longrightarrow> \<not> er_consumer_woken s \<or> er_owner s \<noteq> None"
    using assms(3) by (auto simp: get_next_chunk.simps split: consumer_pc.splits if_splits list.splits)
  have "er_owner s = None"
  proof (cases "er_owner s")
    case (Some w)
    then show ?thesis using assms(1) r(1) c(1) by (cases w) (auto simp: reader_inv_def owner_ok_def)
  qed
  then have pcs: "er_reader s \<in> {R_Asleep, R_Done}" "er_consumer s \<in> {C_Asleep, C_Done}"
    "er_reader s = R_Asleep \<Longrightarrow> \<not> er_reader_woken s" "er_consumer s = C_Asleep \<Longrightarrow> \<not> er_consumer_woken s"
    using r c by auto
  have q: "queue_ok s" "sleep_ok s" "lines_ok scan lines s" using assms(1) by (auto simp: reader_inv_def)
  have ended: "er_reader s = R_Done" "er_consumer s = C_Done"
  proof -
    have f: "er_finished s = (er_reader s = R_Done)" "er_consumer s = C_Done \<Longrightarrow> er_finished s"
      using q(1) pcs(1) by (auto simp: queue_ok_def)
    show "er_reader s = R_Done"
    proof (rule ccontr)
      assume "er_reader s \<noteq> R_Done"
      then have "er_reader s = R_Asleep" "er_consumer s = C_Asleep" using pcs f by auto
      then show False using q(2) pcs(3,4) by (auto simp: sleep_ok_def MAX_BUFFER_SIZE_def)
    qed
    then show "er_consumer s = C_Done" using q(2) pcs(2,4) f by (auto simp: sleep_ok_def)
  qed
  then show ?thesis using q(1,3) by (simp add: queue_ok_def lines_ok_def taken_def)
qed

text \<open>
  C26: With chunks of at least one line, under every interleaving of the two threads and with wake-ups that
  nobody asked for: at most four chunks are queued; every step of a thread brings the end nearer; and
  no state is stuck before the end, where every line of the file has become an edge, in order. No
  notification is lost.
\<close>

theorem edge_reader_delivers_all_lines:
  assumes "0 < c_size" "reading_run scan (UpdateDataConcurrent_start c_size lines newline) s"
  shows "length (er_queue s) \<le> MAX_BUFFER_SIZE \<and> (\<forall>s'. reading_step scan s s' \<longrightarrow> reading_left s' < reading_left s) \<and>
    ((\<nexists>s'. reading_step scan s s') \<longrightarrow>
       er_reader s = R_Done \<and> er_consumer s = C_Done \<and> er_edges s = map (edge_of_line scan) lines)"
proof -
  have i: "reader_inv scan lines s" by (rule reading_run_inv [OF assms(2,1)])
  then have q: "queue_ok s" by (simp add: reader_inv_def)
  have "reading_left s' < reading_left s" if "reading_step scan s s'" for s'
    using that by (elim reading_stepE) (auto dest: reader_moves [OF q] consumer_moves)
  moreover have "er_reader s = R_Done \<and> er_consumer s = C_Done \<and> er_edges s = map (edge_of_line scan) lines" if n: "\<nexists>s'. reading_step scan s s'"
  proof (rule stuck_is_done [OF i])
    show "reader_thread s = None" using n by (meson not_Some_eq reading)
    show "get_next_chunk scan s = None" using n by (meson not_Some_eq consuming)
  qed
  ultimately show ?thesis using q by (simp add: queue_ok_def)
qed

fun run_schedule :: "(string \<Rightarrow> 64 word \<times> 64 word \<times> 64 word) \<Rightarrow> side list \<Rightarrow> edge_reader \<Rightarrow> edge_reader option" where
  "run_schedule scan [] s = Some s"
| "run_schedule scan (w # ws) s =
     Option.bind (case w of Reader \<Rightarrow> reader_thread s | Consumer \<Rightarrow> get_next_chunk scan s) (run_schedule scan ws)"

lemma run_schedule_run: "reading_run scan s0 s \<Longrightarrow> run_schedule scan ws s = Some s' \<Longrightarrow> reading_run scan s0 s'"
proof (induction ws arbitrary: s)
  case (Cons w ws)
  then obtain s1 where s1: "(case w of Reader \<Rightarrow> reader_thread s | Consumer \<Rightarrow> get_next_chunk scan s) = Some s1" "run_schedule scan ws s1 = Some s'"
    by (auto simp: bind_eq_Some_conv)
  then have "reading_step scan s s1" by (cases w) (auto intro: reading_step.intros)
  then show ?case using Cons.IH [OF run_step [OF Cons.prems(1)] s1(2)] by blast
qed simp

text \<open>The consumer first sleeps, is woken by the first chunk, and the reader ends before it.\<close>

definition sample_schedule :: "side list" where
  "sample_schedule = [Consumer, Consumer, Reader, Reader, Reader, Reader, Reader, Consumer, Consumer, Consumer, Consumer,
     Reader, Reader, Reader, Reader, Reader, Consumer, Consumer, Consumer, Consumer, Consumer, Consumer, Consumer]"

definition sample_scan :: "string \<Rightarrow> 64 word \<times> 64 word \<times> 64 word" where
  "sample_scan l = (of_nat (length l), 7, 9)"

theorem edge_reader_delivers_all_lines_witness:
  "\<exists>s. run_schedule sample_scan sample_schedule (UpdateDataConcurrent_start 2 [''1 7 9'', ''2 7 9'', ''10 7 9''] True) = Some s \<and>
     er_edges s = [(5, 7, 9), (5, 7, 9), (6, 7, 9)] \<and> er_reader s = R_Done"
proof -
  let ?lines = "[''1 7 9'', ''2 7 9'', ''10 7 9'']"
  let ?s0 = "UpdateDataConcurrent_start 2 ?lines True"
  have ex: "(case run_schedule sample_scan sample_schedule ?s0 of None \<Rightarrow> False
      | Some s \<Rightarrow> reader_thread s = None \<and> get_next_chunk sample_scan s = None)" by code_simp
  then obtain s where s: "run_schedule sample_scan sample_schedule ?s0 = Some s" "reader_thread s = None" "get_next_chunk sample_scan s = None"
    by (auto split: option.splits)
  have "\<nexists>s'. reading_step sample_scan s s'" using s(2,3) by (auto elim: reading_stepE)
  moreover have "reading_run sample_scan ?s0 s" by (rule run_schedule_run [OF run_start s(1)])
  ultimately have "er_reader s = R_Done" "er_edges s = map (edge_of_line sample_scan) ?lines"
    using edge_reader_delivers_all_lines [of 2 sample_scan ?lines True s] by auto
  then show ?thesis using s(1) by (simp add: edge_of_line_def sample_scan_def)
qed

end
