(* ===== verification/Hash_Map.thy ===== *)
theory Hash_Map
  imports Hash_Table
begin

text \<open>
  \<open>HashTable\<close> of \<open>data-structure/EdgeBlock/HashTable.h\<close>, the table with a value for each key. It differs from
  \<open>HashTable2\<close> in its slots, in growing only when more than half of the slots are taken, so that the
  first array can be full, and in a lookup that counts its probes. The probing and the facts on slot
  arrays are those of \<open>Hash_Table\<close>, applied to the keys of the slots.
\<close>

section \<open>The table and its operations\<close>

record hash_node =
  node_key :: "64 word"
  node_value :: "64 word"

definition free_node :: hash_node where
  "free_node = \<lparr>node_key = FLAG_EMPTY_SLOT, node_value = 0xFFFFFFFFFFFFFFFF\<rparr>"

record hashtable1 =
  hm_table :: "hash_node list"
  hm_entryCounter :: nat
  hm_hashBlockSize :: nat

definition HashTable_init :: hashtable1 where
  "HashTable_init = \<lparr>hm_table = replicate 2 free_node, hm_entryCounter = 0, hm_hashBlockSize = 2\<rparr>"

text \<open>The probing loop of the lookup; the inner option is the found value.\<close>

partial_function (option) get_loop :: "hash_node list \<Rightarrow> nat \<Rightarrow> 64 word \<Rightarrow> nat \<Rightarrow> nat \<Rightarrow> 64 word option option" where
  "get_loop tbl n dest_node index count =
     (if node_key (tbl ! index) = FLAG_EMPTY_SLOT then Some None
      else if node_key (tbl ! index) = dest_node then Some (Some (node_value (tbl ! index)))
      else if count + 1 = n then Some None
      else get_loop tbl n dest_node (cnext n index) (count + 1))"

declare get_loop.simps [code]

definition getDestHashTableVal :: "hashtable1 \<Rightarrow> 64 word \<Rightarrow> 64 word option option" where
  "getDestHashTableVal t dest_node =
     get_loop (hm_table t) (hm_hashBlockSize t) dest_node (ht_hash (hm_hashBlockSize t) dest_node) 0"

abbreviation free_slot :: "hash_node \<Rightarrow> bool" where
  "free_slot x \<equiv> node_key x = FLAG_EMPTY_SLOT"

fun rehash :: "hash_node list \<Rightarrow> nat \<Rightarrow> hash_node list \<Rightarrow> hash_node list option" where
  "rehash [] n new = Some new"
| "rehash (x # old) n new =
     (if \<not> free_slot x then
        (case probe free_slot new n (ht_hash n (node_key x)) of
           None \<Rightarrow> None
         | Some index \<Rightarrow> rehash old n (new[index := x]))
      else rehash old n new)"

definition resizeHashTable1 :: "hashtable1 \<Rightarrow> nat \<Rightarrow> hashtable1 option" where
  "resizeHashTable1 t requested_block =
     map_option (\<lambda>new. t\<lparr>hm_table := new, hm_hashBlockSize := requested_block\<rparr>)
       (rehash (hm_table t) requested_block (replicate requested_block free_node))"

definition setDestHashTableVal :: "hashtable1 \<Rightarrow> 64 word \<Rightarrow> 64 word \<Rightarrow> hashtable1 option" where
  "setDestHashTableVal t0 dest_node link =
     (case (if hm_entryCounter t0 > hm_hashBlockSize t0 div 2
            then resizeHashTable1 t0 (hm_hashBlockSize t0 * 2) else Some t0) of
        None \<Rightarrow> None
      | Some t \<Rightarrow>
          map_option (\<lambda>index. t\<lparr>hm_table := (hm_table t)[index := \<lparr>node_key = dest_node, node_value = link\<rparr>],
                               hm_entryCounter := hm_entryCounter t + 1\<rparr>)
            (probe free_slot (hm_table t) (hm_hashBlockSize t) (ht_hash (hm_hashBlockSize t) dest_node)))"

section \<open>Slots as a map\<close>

definition slot_pairs :: "hash_node list \<Rightarrow> (64 word \<times> 64 word) list" where
  "slot_pairs tbl = map (\<lambda>x. (node_key x, node_value x)) (filter (\<lambda>x. \<not> free_slot x) tbl)"

definition slot_map :: "hash_node list \<Rightarrow> 64 word \<rightharpoonup> 64 word" where
  "slot_map tbl = map_of (slot_pairs tbl)"

lemma dom_slot_map: "dom (slot_map tbl) = slot_keys (map node_key tbl)"
  by (force simp: slot_map_def slot_pairs_def slot_keys_def dom_map_of_conv_image_fst)

lemma slot_map_free [simp]: "slot_map (replicate n free_node) = Map.empty"
  by (simp add: slot_map_def slot_pairs_def free_node_def)

lemma slot_map_Cons: "slot_map (x # tbl) = (if free_slot x then slot_map tbl else (slot_map tbl)(node_key x \<mapsto> node_value x))"
  by (simp add: slot_map_def slot_pairs_def)

lemma slot_map_put:
  assumes "q < length tbl" "free_slot (tbl ! q)" "\<not> free_slot x" "node_key x \<notin> dom (slot_map tbl)"
  shows "slot_map (tbl[q := x]) = (slot_map tbl)(node_key x \<mapsto> node_value x)"
proof -
  let ?a = "slot_pairs (take q tbl)" and ?b = "slot_pairs (drop (Suc q) tbl)"
  have old: "slot_pairs tbl = ?a @ ?b"
    using assms(1,2) by (subst id_take_nth_drop [OF assms(1)]) (simp add: slot_pairs_def)
  have new: "slot_pairs (tbl[q := x]) = ?a @ (node_key x, node_value x) # ?b"
    using assms(1,3) by (simp add: slot_pairs_def upd_conv_take_nth_drop)
  have "node_key x \<notin> dom (map_of ?a)" using assms(4) old by (auto simp: slot_map_def map_of_append)
  then show ?thesis by (auto simp: slot_map_def old new fun_eq_iff map_add_def split: option.splits)
qed

lemma slot_map_nth:
  assumes "distinct (filter nonempty (map node_key tbl))" "p < length tbl" "\<not> free_slot (tbl ! p)"
  shows "slot_map tbl (node_key (tbl ! p)) = Some (node_value (tbl ! p))"
proof -
  have "map fst (slot_pairs tbl) = filter nonempty (map node_key tbl)"
    by (simp add: slot_pairs_def filter_map comp_def)
  then have "distinct (map fst (slot_pairs tbl))" using assms(1) by simp
  moreover have "(node_key (tbl ! p), node_value (tbl ! p)) \<in> set (slot_pairs tbl)"
    using assms(2,3) by (auto simp: slot_pairs_def)
  ultimately show ?thesis by (simp add: slot_map_def)
qed

section \<open>The operations are correct\<close>

lemma probe_keys:
  assumes "probe stop (map f tbl) n i = Some q" "stop (f (tbl ! q))" "length tbl = n" "i < n" "q < n"
  shows "probe (\<lambda>x. stop (f x)) tbl n i = Some q"
proof -
  obtain p where p: "p < n" "stop (f (tbl ! p))" "probe (\<lambda>x. stop (f x)) tbl n i = Some p"
    "\<And>s. s < n \<Longrightarrow> on_way n i p s \<Longrightarrow> \<not> stop (f (tbl ! s))"
    using probe_first [of i n q "\<lambda>x. stop (f x)" tbl] assms(2,4,5) by metis
  then have "probe stop (map f tbl) n i = Some p"
    using assms(3,4) by (intro probe_finds) auto
  then show ?thesis using p(3) assms(1) by simp
qed

text \<open>A node stored in the first free slot of its probe.\<close>

lemma store_node:
  assumes ok: "slots_ok n (map node_key tbl)" and room: "card (slot_keys (map node_key tbl)) < n"
    and new: "node_key x \<notin> dom (slot_map tbl)" "\<not> free_slot x"
  obtains q where "probe free_slot tbl n (ht_hash n (node_key x)) = Some q"
    "slots_ok n (map node_key (tbl[q := x]))" "slot_map (tbl[q := x]) = (slot_map tbl)(node_key x \<mapsto> node_value x)"
proof -
  have len: "length tbl = n" using slots_okD(1) [OF ok] by simp
  obtain q where q: "probe (\<lambda>k. k = FLAG_EMPTY_SLOT) (map node_key tbl) n (ht_hash n (node_key x)) = Some q" "q < n"
    "map node_key tbl ! q = FLAG_EMPTY_SLOT" "slots_ok n ((map node_key tbl)[q := node_key x])"
    using store_first_free [OF ok room, of "node_key x"] new by (auto simp: dom_slot_map)
  have "probe free_slot tbl n (ht_hash n (node_key x)) = Some q"
    using probe_keys [OF q(1) _ len ht_hash_less [OF ok] q(2)] q(2,3) len by simp
  moreover have "slot_map (tbl[q := x]) = (slot_map tbl)(node_key x \<mapsto> node_value x)"
    using slot_map_put [of q tbl x] q(2,3) len new by simp
  ultimately show ?thesis using that [of q] q(4) by (simp add: map_update)
qed

lemma rehash_correct:
  assumes "slots_ok n (map node_key new)" "distinct (filter nonempty (map node_key old))"
    "dom (slot_map new) \<inter> dom (slot_map old) = {}" "card (dom (slot_map new)) + length old < n"
  shows "\<exists>tbl. rehash old n new = Some tbl \<and> slots_ok n (map node_key tbl) \<and> slot_map tbl = slot_map new ++ slot_map old"
  using assms
proof (induction old arbitrary: new)
  case Nil
  then show ?case by (simp add: slot_map_def slot_pairs_def)
next
  case (Cons x old)
  show ?case
  proof (cases "free_slot x")
    case True
    then show ?thesis using Cons.prems Cons.IH [of new] by (simp add: slot_map_Cons)
  next
    case False
    have new: "node_key x \<notin> dom (slot_map new)" and old: "node_key x \<notin> dom (slot_map old)"
      using Cons.prems(2,3) False by (auto simp: slot_map_Cons dom_slot_map slot_keys_def)
    obtain q where q: "probe free_slot new n (ht_hash n (node_key x)) = Some q"
      "slots_ok n (map node_key (new[q := x]))" "slot_map (new[q := x]) = (slot_map new)(node_key x \<mapsto> node_value x)"
      using store_node [OF Cons.prems(1) _ new False] Cons.prems(4) by (auto simp: dom_slot_map)
    have "finite (dom (slot_map new))" by (simp add: slot_map_def finite_dom_map_of)
    then have card: "card (dom (slot_map (new[q := x]))) + length old < n"
      using Cons.prems(4) new q(3) by simp
    have "dom (slot_map (new[q := x])) \<inter> dom (slot_map old) = {}"
      using Cons.prems(3) old False q(3) by (auto simp: slot_map_Cons)
    from Cons.IH [OF q(2) _ this card] obtain tbl where "rehash old n (new[q := x]) = Some tbl"
      "slots_ok n (map node_key tbl)" "slot_map tbl = slot_map (new[q := x]) ++ slot_map old"
      using Cons.prems(2) False by auto
    moreover have "slot_map (new[q := x]) ++ slot_map old = slot_map new ++ slot_map (x # old)"
      using q(3) False old by (simp add: slot_map_Cons map_add_upd_left map_add_upd del: fun_upd_apply)
    ultimately show ?thesis using q(1) False by simp
  qed
qed

subsection \<open>Well-formed tables\<close>

text \<open>Up to one entry more than half of the slots: the two slots of a new table can both be taken.\<close>

definition hm_ok :: "hashtable1 \<Rightarrow> bool" where
  "hm_ok t \<longleftrightarrow> slots_ok (hm_hashBlockSize t) (map node_key (hm_table t)) \<and> 2 \<le> hm_hashBlockSize t \<and>
     hm_entryCounter t = card (dom (slot_map (hm_table t))) \<and> hm_entryCounter t \<le> hm_hashBlockSize t div 2 + 1"

definition hm_map :: "hashtable1 \<Rightarrow> 64 word \<rightharpoonup> 64 word" where
  "hm_map t = slot_map (hm_table t)"

lemma HashTable_init_ok: "hm_ok HashTable_init" "hm_map HashTable_init = Map.empty"
proof -
  have "map node_key (replicate 2 free_node) = replicate 2 FLAG_EMPTY_SLOT" by (simp add: free_node_def)
  then show "hm_ok HashTable_init" "hm_map HashTable_init = Map.empty"
    using replicate_slots_ok [of 1] by (simp_all add: hm_ok_def hm_map_def HashTable_init_def)
qed

lemma get_loop_absent:
  assumes "\<And>s. s < n \<Longrightarrow> free_slot (tbl ! s) \<or> node_key (tbl ! s) \<noteq> k" "index < n" "count < n"
  shows "get_loop tbl n k index count = Some None"
  using assms(2,3)
proof (induction "n - count" arbitrary: index count rule: less_induct)
  case less
  then have "get_loop tbl n k (cnext n index) (count + 1) = Some None" if "count + 1 \<noteq> n"
    using that by (intro less.hyps) (auto simp: cnext_def)
  then show ?case using assms(1) [OF less.prems(1)] by (subst get_loop.simps) auto
qed

lemma get_loop_present:
  assumes "p < n" "node_key (tbl ! p) = k" "nonempty k" "index < n" "count + cdist n index p < n"
    "\<And>s. s < n \<Longrightarrow> on_way n index p s \<Longrightarrow> \<not> free_slot (tbl ! s) \<and> node_key (tbl ! s) \<noteq> k"
  shows "get_loop tbl n k index count = Some (Some (node_value (tbl ! p)))"
  using assms(4-6)
proof (induction "cdist n index p" arbitrary: index count)
  case 0
  then have "index = p" using assms(1) by (simp add: cdist_eq_0_iff)
  then show ?case using assms(2,3) by (subst get_loop.simps) simp
next
  case (Suc d)
  then have ne: "index \<noteq> p" by auto
  have step: "cdist n (cnext n index) p = d"
    using Suc.hyps(2) Suc.prems(1) assms(1) ne by (simp add: cdist_cnext_left)
  have here: "\<not> free_slot (tbl ! index)" "node_key (tbl ! index) \<noteq> k"
    using Suc.prems(1,3) Suc.hyps(2) by (auto simp: on_way_def)
  have "get_loop tbl n k (cnext n index) (count + 1) = Some (Some (node_value (tbl ! p)))"
  proof (rule Suc.hyps(1) [OF step [symmetric]])
    show "cnext n index < n" using Suc.prems(1) by (auto simp: cnext_def)
    show "count + 1 + cdist n (cnext n index) p < n" using Suc.prems(2) Suc.hyps(2) step by simp
    fix s assume s: "s < n" "on_way n (cnext n index) p s"
    then have "on_way n index p s"
      using Suc.prems(1) assms(1) ne by (auto simp: on_way_def cdist_def cnext_def split: if_splits)
    then show "\<not> free_slot (tbl ! s) \<and> node_key (tbl ! s) \<noteq> k" by (rule Suc.prems(3) [OF s(1)])
  qed
  then show ?case using here Suc.prems(2) Suc.hyps(2) by (subst get_loop.simps) simp
qed

lemma getDest_correct:
  assumes ok: "hm_ok t" and k: "nonempty k"
  shows "getDestHashTableVal t k = Some (hm_map t k)"
proof -
  let ?n = "hm_hashBlockSize t" and ?T = "hm_table t"
  have sok: "slots_ok ?n (map node_key ?T)" and n: "0 < ?n" using ok by (auto simp: hm_ok_def)
  note len = slots_okD(1) [OF sok, simplified] and home = ht_hash_less [OF sok, of k]
  show ?thesis
  proof (cases "k \<in> dom (hm_map t)")
    case True
    then obtain p where p: "p < ?n" "node_key (?T ! p) = k"
      using len by (auto simp: hm_map_def dom_slot_map slot_keys_def in_set_conv_nth)
    have way: "\<not> free_slot (?T ! s) \<and> node_key (?T ! s) \<noteq> k" if s: "s < ?n" "on_way ?n (ht_hash ?n k) p s" for s
    proof
      show ne: "\<not> free_slot (?T ! s)"
        using chain_okD [OF slots_okD(2) [OF sok] p(1) _ s(1)] p s len k by simp
      have "s \<noteq> p" using s(2) by (auto simp: on_way_def)
      then show "node_key (?T ! s) \<noteq> k"
        using distinct_filter_nth [OF slots_okD(3) [OF sok], of s p] s(1) p len k by auto
    qed
    have "0 + cdist ?n (ht_hash ?n k) p < ?n" using home p(1) by (auto simp: cdist_def)
    from get_loop_present [OF p k home this way] show ?thesis
      using slot_map_nth [OF slots_okD(3) [OF sok], of p] p len k by (simp add: getDestHashTableVal_def hm_map_def)
  next
    case False
    have "free_slot (?T ! s) \<or> node_key (?T ! s) \<noteq> k" if "s < ?n" for s
    proof -
      have "node_key (?T ! s) \<in> set (map node_key ?T)" using that len by simp
      moreover have "k \<notin> set (map node_key ?T)" using False k by (simp add: hm_map_def dom_slot_map slot_keys_def)
      ultimately show ?thesis by metis
    qed
    from get_loop_absent [OF this home n] show ?thesis
      using False by (simp add: getDestHashTableVal_def domIff)
  qed
qed

lemma resize1_correct:
  assumes "hm_ok t"
  obtains t' where "resizeHashTable1 t (hm_hashBlockSize t * 2) = Some t'" "hm_ok t'" "hm_map t' = hm_map t"
    "hm_entryCounter t' \<le> hm_hashBlockSize t' div 2" "hm_hashBlockSize t' = hm_hashBlockSize t * 2"
proof -
  let ?n = "hm_hashBlockSize t" and ?T = "hm_table t"
  have sok: "slots_ok ?n (map node_key ?T)" and n: "2 \<le> ?n" using assms by (auto simp: hm_ok_def)
  obtain e where e: "?n = 2 ^ e" using sok by (auto simp: slots_ok_def)
  have "slots_ok (?n * 2) (map node_key (replicate (?n * 2) free_node))"
    using replicate_slots_ok [of "Suc e"] e by (simp add: free_node_def mult.commute)
  moreover have "length ?T < ?n * 2" using slots_okD(1) [OF sok] n by simp
  ultimately obtain tbl where tbl: "rehash ?T (?n * 2) (replicate (?n * 2) free_node) = Some tbl"
    "slots_ok (?n * 2) (map node_key tbl)" "slot_map tbl = slot_map ?T"
    using rehash_correct [of "?n * 2" "replicate (?n * 2) free_node" ?T] slots_okD(3) [OF sok] by auto
  let ?t = "t\<lparr>hm_table := tbl, hm_hashBlockSize := ?n * 2\<rparr>"
  have "hm_ok ?t" "hm_map ?t = hm_map t" "hm_entryCounter ?t \<le> hm_hashBlockSize ?t div 2"
    using assms tbl n by (auto simp: hm_ok_def hm_map_def)
  then show ?thesis using that [of ?t] tbl(1) by (simp add: resizeHashTable1_def)
qed

lemma setDest_correct:
  assumes ok: "hm_ok t" and k: "nonempty k" "k \<notin> dom (hm_map t)"
  shows "\<exists>t'. setDestHashTableVal t k v = Some t' \<and> hm_ok t' \<and> hm_map t' = (hm_map t)(k \<mapsto> v)"
proof -
  obtain t1 where t1: "(if hm_entryCounter t > hm_hashBlockSize t div 2 then resizeHashTable1 t (hm_hashBlockSize t * 2) else Some t) = Some t1"
    "hm_ok t1" "hm_map t1 = hm_map t" "hm_entryCounter t1 \<le> hm_hashBlockSize t1 div 2"
  proof (cases "hm_entryCounter t > hm_hashBlockSize t div 2")
    case True
    then show ?thesis using resize1_correct [OF ok] that by (metis (full_types))
  next
    case False
    then show ?thesis using that [of t] ok by simp
  qed
  let ?x = "\<lparr>node_key = k, node_value = v\<rparr>" and ?n = "hm_hashBlockSize t1"
  have room: "card (slot_keys (map node_key (hm_table t1))) < ?n" and sok: "slots_ok ?n (map node_key (hm_table t1))"
    using t1(2,4) by (auto simp: hm_ok_def dom_slot_map)
  obtain q where q: "probe free_slot (hm_table t1) ?n (ht_hash ?n k) = Some q"
    "slots_ok ?n (map node_key ((hm_table t1)[q := ?x]))" "slot_map ((hm_table t1)[q := ?x]) = (slot_map (hm_table t1))(k \<mapsto> v)"
    using store_node [OF sok room, of ?x] k t1(3) by (auto simp: hm_map_def)
  let ?t = "t1\<lparr>hm_table := (hm_table t1)[q := ?x], hm_entryCounter := hm_entryCounter t1 + 1\<rparr>"
  have "finite (dom (slot_map (hm_table t1)))" by (simp add: slot_map_def finite_dom_map_of)
  then have "hm_ok ?t" "hm_map ?t = (hm_map t)(k \<mapsto> v)"
    using t1(2-4) q(2,3) k(2) by (auto simp: hm_ok_def hm_map_def domIff insert_absorb)
  then show ?thesis using t1(1) q(1) by (simp add: setDestHashTableVal_def)
qed

section \<open>The interface\<close>

text \<open>
  A value index promises a finite map: lookup and the insertion of an absent key. Nothing is promised
  for a key that is stored twice.
\<close>

locale value_index =
  fixes ok :: "'t \<Rightarrow> bool" and contents :: "'t \<Rightarrow> 'k \<rightharpoonup> 'v" and storable :: "'k \<Rightarrow> bool"
    and get :: "'t \<Rightarrow> 'k \<Rightarrow> 'v option option" and put :: "'t \<Rightarrow> 'k \<Rightarrow> 'v \<Rightarrow> 't option"
  assumes get_law: "ok t \<Longrightarrow> storable k \<Longrightarrow> get t k = Some (contents t k)"
    and put_law: "ok t \<Longrightarrow> storable k \<Longrightarrow> k \<notin> dom (contents t) \<Longrightarrow>
      \<exists>t'. put t k v = Some t' \<and> ok t' \<and> contents t' = (contents t)(k \<mapsto> v)"
begin

lemma put_all:
  "ok t \<Longrightarrow> distinct (map fst kvs) \<Longrightarrow> fst ` set kvs \<inter> dom (contents t) = {} \<Longrightarrow> (\<And>k. k \<in> fst ` set kvs \<Longrightarrow> storable k) \<Longrightarrow>
   \<exists>t'. foldM (\<lambda>(k, v) t. put t k v) kvs t = Some t' \<and> ok t' \<and> contents t' = contents t ++ map_of kvs"
proof (induction kvs arbitrary: t)
  case (Cons kv kvs)
  obtain k v where kv: "kv = (k, v)" by fastforce
  obtain t1 where t1: "put t k v = Some t1" "ok t1" "contents t1 = (contents t)(k \<mapsto> v)"
    using put_law [of t k v] Cons.prems kv by auto
  have "\<exists>t'. foldM (\<lambda>(k, v) t. put t k v) kvs t1 = Some t' \<and> ok t' \<and> contents t' = contents t1 ++ map_of kvs"
  proof (rule Cons.IH [OF t1(2)])
    show "fst ` set kvs \<inter> dom (contents t1) = {}" using Cons.prems(2,3) t1(3) kv by (simp add: disjoint_iff)
  qed (use Cons.prems kv in auto)
  moreover have "contents t1 ++ map_of kvs = contents t ++ map_of (kv # kvs)"
  proof -
    have "k \<notin> dom (map_of kvs)" using Cons.prems(2) kv by (simp add: dom_map_of_conv_image_fst)
    then show ?thesis using t1(3) kv by (simp add: map_add_upd_left map_add_upd del: fun_upd_apply)
  qed
  ultimately show ?case using t1(1) kv by (simp del: map_of.simps)
qed simp

text \<open>Once stored, all is found.\<close>

lemma bulk_lookup:
  assumes "ok t" "contents t = Map.empty" "distinct (map fst kvs)" "\<And>k. k \<in> fst ` set kvs \<Longrightarrow> storable k" "storable k"
  shows "\<exists>t'. foldM (\<lambda>(k, v) t. put t k v) kvs t = Some t' \<and> ok t' \<and> get t' k = Some (map_of kvs k)"
  using put_all [of t kvs] assms get_law by auto

end

interpretation hm: value_index hm_ok hm_map nonempty getDestHashTableVal setDestHashTableVal
  by unfold_locales (auto simp: getDest_correct dest: setDest_correct)

text \<open>
  C13: A \<open>HashTable\<close> filled from the constructor with values for different keys finds exactly these: every
  probe loop returns, also the lookup of an absent key in a table without a free slot, and resizing
  keeps each value with its key.
\<close>

theorem HashTable_is_map:
  assumes "distinct (map fst kvs)" "\<forall>(k, v) \<in> set kvs. nonempty k" "nonempty k"
  shows "\<exists>t. foldM (\<lambda>(k, v) t. setDestHashTableVal t k v) kvs HashTable_init = Some t \<and>
    hm_entryCounter t = length kvs \<and> hm_entryCounter t \<le> hm_hashBlockSize t div 2 + 1 \<and>
    getDestHashTableVal t k = Some (map_of kvs k)"
proof -
  obtain t where t: "foldM (\<lambda>(k, v) t. setDestHashTableVal t k v) kvs HashTable_init = Some t" "hm_ok t" "hm_map t = map_of kvs"
  proof -
    have "nonempty x" if "x \<in> fst ` set kvs" for x using assms(2) that by auto
    from hm.put_all [OF HashTable_init_ok(1) assms(1) _ this] show ?thesis
      using that HashTable_init_ok(2) by auto
  qed
  have "card (dom (map_of kvs)) = length kvs"
    using distinct_card [OF assms(1)] by (simp add: dom_map_of_conv_image_fst)
  then show ?thesis using t assms(3) hm.get_law [of t k] by (auto simp: hm_ok_def hm_map_def)
qed

theorem HashTable_is_map_witness:
  "\<exists>t. foldM (\<lambda>(k, v) t. setDestHashTableVal t k v) [(3, 30), (7, 70)] HashTable_init = Some t \<and>
    getDestHashTableVal t 5 = Some None"
proof -
  let ?kvs = "[(3, 30), (7, 70)] :: (64 word \<times> 64 word) list"
  have "distinct (map fst ?kvs)" "\<forall>(k, v) \<in> set ?kvs. nonempty k" "nonempty 5" "map_of ?kvs 5 = None"
    by (simp_all add: FLAG_EMPTY_SLOT_def)
  with HashTable_is_map [of ?kvs 5] show ?thesis by metis
qed

text \<open>
  A second value for a stored key is hidden behind the first, until an insertion of another key resizes
  the table and brings it to the front.
\<close>

lemma duplicate_resurfaces:
  "\<exists>t t'. foldM (\<lambda>(k, v) t. setDestHashTableVal t k v) [(1, 10), (1, 11)] HashTable_init = Some t \<and>
     getDestHashTableVal t 1 = Some (Some 10) \<and>
     setDestHashTableVal t 5 50 = Some t' \<and> getDestHashTableVal t' 1 = Some (Some 11)"
proof -
  have "replicate 2 free_node = [free_node, free_node]" "replicate 4 free_node = [free_node, free_node, free_node, free_node]"
    by (simp_all add: eval_nat_numeral)
  then show ?thesis
    by (simp add: HashTable_init_def setDestHashTableVal_def getDestHashTableVal_def resizeHashTable1_def
        free_node_def FLAG_EMPTY_SLOT_def ht_hash_def probe.simps get_loop.simps cnext_def)
qed

end
