(* ===== verification/Pending_Reads.thy ===== *)
theory Pending_Reads
  imports Store_History
begin

text \<open>
  What readers of published epochs see while the next epoch is being written. The reading loops then also
  go through the temporary block: its entries are the versions that pending writes have displaced. The
  scan skips entries of deletions, and takes the entry of a first insertion, whose displaced version
  has the timestamp 0, for a version. So a pending deletion hides its edge at once and a pending
  first insertion shows at once; updates of existing edges do not disturb a snapshot. Publication settles
  all this (\<open>Store_History\<close>), but inside the block of the reader's own epoch a loop stops early.
\<close>

section \<open>Scanning the block of the open epoch\<close>

definition entry_scanned :: "epoch_t \<Rightarrow> version_entry \<Rightarrow> bool" where
  "entry_scanned q x \<longleftrightarrow> \<not> is_delete (ent_edge x) \<and> ent_last_epoch x \<le> q"

lemma scan_entries_earlier:
  assumes "q < E" "\<forall>x \<in> set xs. ent_old_intra_c x \<noteq> INTRA_MAX"
  shows "map (ew_e \<circ> fst) (scan_entries E (Composite q INTRA_MAX) xs) = map ent_edge (filter (entry_scanned q) xs)"
  using assms(2)
proof (induction xs)
  case (Cons x xs)
  have "Composite q INTRA_MAX \<le> Composite E (ent_new_intra_c x)" using assms(1) by (simp add: composite_le_iff)
  moreover have "Composite (ent_last_epoch x) (ent_old_intra_c x) < Composite q INTRA_MAX \<longleftrightarrow> ent_last_epoch x \<le> q"
    using Cons.prems by auto
  ultimately show ?case using Cons by (simp add: entry_scanned_def SetEdgeFG_def)
qed simp

lemma concat_single:
  assumes "distinct ks" "\<And>k. k \<in> set ks \<Longrightarrow> k \<noteq> i \<Longrightarrow> f k = []"
  shows "concat (map f ks) = (if i \<in> set ks then f i else [])"
  using assms by (induction ks) auto

lemma scan_pending_slot:
  assumes tv: "tvbs_ok E N v" and act: "active_ok E v"
  shows "scan_pending Fine r v = scan_tvb r (tvb_at v (ring_slot E))"
proof -
  let ?f = "\<lambda>k. scan_tvb r (tvb_at v k)"
  have others: "?f k = []" if "k \<in> set (active_tvbs v)" "k \<noteq> ring_slot E" for k
    using tv that by (simp add: active_tvbs_def tvbs_ok_def scan_tvb_def)
  have "distinct (active_tvbs v)" by (simp add: active_tvbs_def)
  then have all: "scan_pending Fine r v = (if ring_slot E \<in> set (active_tvbs v) then ?f (ring_slot E) else [])"
    using concat_single [of "active_tvbs v" "ring_slot E" ?f] others by (simp add: scan_pending_def)
  show ?thesis
  proof (cases "ring_slot E \<in> set (active_tvbs v)")
    case False
    then have "stamps v ! ring_slot E \<noteq> E" using act by (auto simp: active_ok_def active_tvbs_def)
    then have "tvb_timestamp (tvb_at v (ring_slot E)) \<noteq> E" using tv by (simp add: tvbs_ok_def stamps_def tvb_at_def)
    then have "tmp_entry (tvb_at v (ring_slot E)) = []" using tv by (auto simp: tvbs_ok_def Let_def)
    then show ?thesis using all False by (simp add: scan_tvb_def)
  qed (use all in simp)
qed

section \<open>The discrepancy\<close>

text \<open>First insertions, which every reader sees at once, and deletions of edges that a snapshot has.\<close>

definition early_inserts :: "tmp_version_block \<Rightarrow> dst_t multiset" where
  "early_inserts t = mset (map ent_edge (filter (\<lambda>x. ent_last_epoch x = 0) (tvb_live t)))"

definition hidden_deletes :: "epoch_t \<Rightarrow> tmp_version_block \<Rightarrow> dst_t multiset" where
  "hidden_deletes q t =
     mset (map (\<lambda>x. strip_del (ent_edge x)) (filter (\<lambda>x. is_delete (ent_edge x) \<and> ent_last_epoch x \<le> q) (tvb_live t)))"

lemma entries_balance:
  assumes "q < E" "\<forall>x \<in> set xs. entry_ok E n x"
  shows "mset (map ent_edge (filter (entry_scanned q) xs)) +
      mset (map (\<lambda>x. strip_del (ent_edge x)) (filter (\<lambda>x. is_delete (ent_edge x) \<and> ent_last_epoch x \<le> q) xs)) =
    mset (map fst (filter (alive_at q) (map (entry_iv E) (filter (\<lambda>x. ent_last_epoch x \<noteq> 0) xs)))) +
      mset (map ent_edge (filter (\<lambda>x. ent_last_epoch x = 0) xs))"
  using assms(2)
proof (induction xs)
  case (Cons x xs)
  have x: "ent_last_epoch x = 0 \<Longrightarrow> \<not> is_delete (ent_edge x)" using Cons.prems by (auto simp: entry_ok_def)
  have "alive_at q (entry_iv E x) \<longleftrightarrow> ent_last_epoch x \<le> q" using assms(1) by (simp add: alive_at_def entry_iv_def)
  then show ?case using Cons x
    by (cases "is_delete (ent_edge x)"; cases "ent_last_epoch x = 0") (auto simp: entry_scanned_def entry_iv_def strip_del_id)
qed simp

lemma pend_reads:
  assumes p: "pend_inv E N v" and act: "active_ok E v" and q: "q < E"
  shows "\<exists>xs. for_each_edge Fine (Composite q INTRA_MAX) v = Inr xs \<and>
    mset (map ew_e xs) + hidden_deletes q (tvb_at v (ring_slot E)) =
      image_mset fst (filter_mset (alive_at q) (intervals E v)) + early_inserts (tvb_at v (ring_slot E))"
proof -
  let ?r = "Composite q INTRA_MAX" and ?c = "vbm_end (VBM v)" and ?t = "tvb_at v (ring_slot E)"
  have tv: "tvbs_ok E N v" and cells: "\<forall>c \<in> set (tb_cells v @ pa_cells v). ew_index (fst c) \<noteq> INTRA_MAX"
    using p by (auto simp: pend_inv_def cell_ok_def all_cells_def)
  have vb: "chain_wf (vbm_end_epoch (VBM v)) ?c" "\<forall>vb \<in> set ?c. vb_ok vb"
    using p by (auto simp: pend_inv_def published_ok_def vbm_ok_def)
  have entries: "\<forall>x \<in> set (tvb_live ?t). entry_ok E (version_num ?t) x" using tv by (simp add: tvbs_ok_def Let_def)
  obtain ys where ys: "chain_reads Fine ?r (if needs_iterator Fine ?r v then Some ?c else None) = Inr ys"
    "map (ew_e \<circ> fst) ys = map fst (filter (alive_at q) (chain_ivs ?c))"
    using chain_part_alive [OF vb] by blast
  have pending: "mset (map (ew_e \<circ> fst) (scan_pending Fine ?r v)) + hidden_deletes q ?t =
      mset (map fst (filter (alive_at q) (tvb_ivs ?t))) + early_inserts ?t"
  proof (cases "tmp_entry ?t = []")
    case True
    then have "tvb_live ?t = []" by (simp add: tvb_live_def)
    then show ?thesis using True by (simp add: scan_pending_slot [OF tv act] scan_tvb_def hidden_deletes_def early_inserts_def tvb_ivs_def)
  next
    case False
    then have ts: "tvb_timestamp ?t = E" using tv by (simp add: tvbs_ok_def Let_def)
    have "map (ew_e \<circ> fst) (scan_tvb ?r ?t) = map ent_edge (filter (entry_scanned q) (rev (tvb_live ?t)))"
      using False ts entries scan_entries_earlier [OF q, of "rev (tvb_live ?t)"] by (simp add: scan_tvb_def entry_ok_def)
    then have "mset (map (ew_e \<circ> fst) (scan_tvb ?r ?t)) = mset (map ent_edge (filter (entry_scanned q) (tvb_live ?t)))"
      by (simp add: rev_filter [symmetric] rev_map [symmetric])
    then show ?thesis
      using entries_balance [OF q entries]
      by (simp add: scan_pending_slot [OF tv act] hidden_deletes_def early_inserts_def tvb_ivs_def ts)
  qed
  let ?live = "filter (live_at Fine ?r) (tb_cells v) @ filter (live_at Fine ?r) (pa_cells v)"
  have live: "map (ew_e \<circ> fst) ?live = map fst (filter (alive_at q) (live_ivs v))"
    using live_cells_alive [OF cells, of q] by (simp add: live_ivs_def)
  let ?xs = "map fst ?live @ map fst (scan_pending Fine ?r v) @ map fst ys"
  let ?a = "mset (map fst (filter (alive_at q) (live_ivs v)))" and ?s = "mset (map (ew_e \<circ> fst) (scan_pending Fine ?r v))"
    and ?c' = "mset (map fst (filter (alive_at q) (chain_ivs ?c)))"
  have "for_each_edge Fine ?r v = Inr ?xs" using ys(1) by (simp add: for_each_edge_def iterate_edges_def)
  moreover have "mset (map ew_e ?xs) + hidden_deletes q ?t = ?a + ?c' + (?s + hidden_deletes q ?t)"
    unfolding live [symmetric] ys(2) [symmetric] by (simp add: multiset.map_comp comp_def)
  moreover have "?a + ?c' + (mset (map fst (filter (alive_at q) (tvb_ivs ?t))) + early_inserts ?t) =
      image_mset fst (filter_mset (alive_at q) (intervals E v)) + early_inserts ?t"
    by (simp add: intervals_def)
  ultimately show ?thesis unfolding pending by (intro exI [of _ ?xs]) simp
qed

text \<open>Updates of existing edges do not disturb a snapshot.\<close>

lemma no_discrepancy:
  "early_inserts t = {#} \<longleftrightarrow> (\<forall>x \<in> set (tvb_live t). ent_last_epoch x \<noteq> 0)"
  "(\<forall>q. hidden_deletes q t = {#}) \<longleftrightarrow> (\<forall>x \<in> set (tvb_live t). \<not> is_delete (ent_edge x))"
  by (auto simp: early_inserts_def hidden_deletes_def filter_empty_conv)

section \<open>A store in the middle of an epoch\<close>

lemma txn_logs_later: "\<exists>zs. fold (txn_log E) txns L u = L u @ zs \<and> (\<forall>z \<in> set zs. fst z = E)"
proof -
  have writes: "\<exists>zs. fold (add_log E) ws L u = L u @ zs \<and> (\<forall>z \<in> set zs. fst z = E)" for ws L
  proof (induction ws arbitrary: L)
    case (Cons w ws)
    obtain zs where "fold (add_log E) ws (add_log E w L) u = add_log E w L u @ zs" "\<forall>z \<in> set zs. fst z = E"
      using Cons by blast
    moreover have "\<exists>ys. add_log E w L u = L u @ ys \<and> (\<forall>y \<in> set ys. fst y = E)" by (cases "u = fst w") (auto simp: add_log_def)
    then obtain ys where "add_log E w L u = L u @ ys" "\<forall>y \<in> set ys. fst y = E" by blast
    ultimately show ?case by (auto intro!: exI [of _ "ys @ zs"])
  qed simp
  show ?thesis
  proof (induction txns arbitrary: L)
    case (Cons t txns)
    obtain zs ys where "fold (txn_log E) txns (txn_log E t L) u = txn_log E t L u @ zs" "\<forall>z \<in> set zs. fst z = E"
      "txn_log E t L u = L u @ ys" "\<forall>z \<in> set ys. fst z = E"
      using Cons [of "txn_log E t L"] writes [of "snd t" L] unfolding txn_log_def by blast
    then show ?case by (auto intro!: exI [of _ "ys @ zs"])
  qed simp
qed

lemma edges_at_earlier: "q < E \<Longrightarrow> edges_at (fold (txn_log E) txns L u) q = edges_at (L u) q"
proof -
  assume "q < E"
  obtain zs where zs: "fold (txn_log E) txns L u = L u @ zs" "\<forall>z \<in> set zs. fst z = E" using txn_logs_later [of E txns L u] by blast
  then have "filter (\<lambda>e. fst e \<le> q) zs = []" using \<open>q < E\<close> by (auto simp: filter_empty_conv)
  then show ?thesis by (simp add: edges_at_def zs(1))
qed

text \<open>
  C3: After any published history of the store, the transactions of the next epoch E run and commit without
  a fault; and while E is not published, a reader of any earlier epoch q finds at every vertex the edges
  of its snapshot, plus the first insertions of E at that vertex, less the edges of its snapshot that E
  deletes there. At a vertex where E only updates edges it finds exactly its snapshot.
\<close>

theorem readers_during_an_epoch:
  assumes "\<forall>pool \<in> set pools. length pool = 2 * TMPNUM" "new_vertices pools (GraphStore_new c) = Inr (g0, ids)"
    and "\<And>t. transform_order t (order t)" "legal_store order 0 eps g0 (\<lambda>_. [])" "run_store order eps g0 = Inr g"
    and "last (0 # map fst eps) < E" "\<not> has_tmp E" "legal_txns E txns (g, VBData_new E) (store_logs eps)"
    and "2 * store_writes_num eps + 2 * txn_writes txns < 2 ^ 31"
  shows "\<exists>g' d'. foldR run_txn txns (g, VBData_new E) = Inr (g', d') \<and>
    (\<forall>u < length pools. \<forall>q < E. \<exists>v xs. locked_block g' u = Inr v \<and> for_each_edge Fine (Composite q INTRA_MAX) v = Inr xs \<and>
       mset (map ew_e xs) + hidden_deletes q (tvb_at v (ring_slot E)) =
         mset_set (edges_at (store_logs eps u) q) + early_inserts (tvb_at v (ring_slot E)))"
proof -
  have small: "2 * store_writes_num eps < 2 ^ 31" using assms(9) by simp
  have g: "gs_node_num g = length pools" "store_rest (last (0 # map fst eps)) (2 * store_writes_num eps) g (store_logs eps)"
    by (rule run_store_created [OF assms(1-4) small]; use assms(5) in simp)+
  obtain g' d' where r: "foldR run_txn txns (g, VBData_new E) = Inr (g', d')"
    "store_inv E (2 * store_writes_num eps + 2 * txn_writes txns) {} g' d' (fold (txn_log E) txns (store_logs eps))"
    "gs_node_num g' = gs_node_num g"
    using run_txns_step [OF rest_next_epoch [OF g(2) assms(6,7)] assms(8,9)] by blast
  have "\<exists>v xs. locked_block g' u = Inr v \<and> for_each_edge Fine (Composite q INTRA_MAX) v = Inr xs \<and>
       mset (map ew_e xs) + hidden_deletes q (tvb_at v (ring_slot E)) =
         mset_set (edges_at (store_logs eps u) q) + early_inserts (tvb_at v (ring_slot E))" if u: "u < length pools" and q: "q < E" for u q
  proof -
    have u': "u < gs_node_num g'" using u g(1) r(3) by simp
    obtain v where v: "GetBlockByIndex g' u = Inr v" using store_invD(6) [OF r(2) u'] by blast
    then have va: "vertex_at E (2 * store_writes_num eps + 2 * txn_writes txns) v (fold (txn_log E) txns (store_logs eps) u)" "\<not> ve_locked v"
      using store_invD(5) [OF r(2) u' v] by auto
    then obtain N where h: "hist_inv E N v (fold (txn_log E) txns (store_logs eps) u)" and act: "active_ok E v" by (auto simp: vertex_at_def)
    have "locked_block g' u = Inr v" using v va(2) by (simp add: locked_block_def getReadLock_def)
    moreover have "image_mset fst (filter_mset (alive_at q) (intervals E v)) = mset_set (edges_at (store_logs eps u) q)"
      using h edges_at_earlier [OF q] by (simp add: hist_inv_def snapshots_def)
    ultimately show ?thesis using pend_reads [OF _ act q, of N] h by (simp add: hist_inv_def)
  qed
  then show ?thesis using r(1) by blast
qed

text \<open>An epoch that updates one edge, deletes another and inserts a third.\<close>

definition open_stxns :: "stxn list" where
  "open_stxns = [sample_stxn 3 [sample_swrite 0 (VInsert 2 9)], sample_stxn 3 [sample_swrite 0 (VInsert 4 1), sample_swrite 1 (VDelete 0 0)]]"

definition sample_store_end :: graph_store where
  "sample_store_end = projr (run_store stable_order sample_store_history sample_store_start)"

lemma sample_open_facts:
  "isl (run_store stable_order sample_store_history sample_store_start) = False"
  "legal_txns 3 open_stxns (sample_store_end, VBData_new 3) (store_logs sample_store_history)"
  by code_simp+

theorem readers_during_an_epoch_witness:
  "\<exists>g' d' v xs. foldR run_txn open_stxns (sample_store_end, VBData_new 3) = Inr (g', d') \<and> locked_block g' 0 = Inr v \<and>
     for_each_edge Fine (Composite 1 INTRA_MAX) v = Inr xs \<and>
     mset (map ew_e xs) + hidden_deletes 1 (tvb_at v 3) = {#1, 2#} + early_inserts (tvb_at v 3)"
proof -
  have fits: "\<forall>pool \<in> set (replicate 3 sample_pool). length pool = 2 * TMPNUM" by (simp add: sample_pool_def TMPNUM_def)
  have num: "2 * store_writes_num sample_store_history + 2 * txn_writes open_stxns < 2 ^ 31"
    by (simp add: store_writes_num_def txn_writes_def sample_store_history_def sample_stxn_def open_stxns_def)
  have run: "run_store stable_order sample_store_history sample_store_start = Inr sample_store_end"
    using sample_open_facts(1) by (simp add: sample_store_end_def)
  have ep: "last (0 # map fst sample_store_history) < (3 :: epoch_t)" "\<not> has_tmp (3 :: epoch_t)" "ring_slot 3 = 3" by code_simp+
  have "store_logs sample_store_history 0 = [(1, VInsert 1 5), (1, VInsert 2 7), (2, VDelete 1 0)]"
    by (simp add: store_logs_def epoch_logs_def txn_log_def add_log_def sample_store_history_def sample_stxn_def sample_swrite_def)
  then have at: "edges_at (store_logs sample_store_history 0) 1 = {1, 2}" by (auto simp: edges_at_def word_le_nat_alt)
  have in_range: "0 < length (replicate 3 sample_pool)" "(1 :: epoch_t) < 3" by simp_all
  from readers_during_an_epoch [OF fits sample_store_created stable_order_ok sample_store_legal run ep(1,2) sample_open_facts(2) num]
  obtain g' d' v xs where "foldR run_txn open_stxns (sample_store_end, VBData_new 3) = Inr (g', d')" "locked_block g' 0 = Inr v"
    "for_each_edge Fine (Composite 1 INTRA_MAX) v = Inr xs"
    "mset (map ew_e xs) + hidden_deletes 1 (tvb_at v (ring_slot 3)) =
       mset_set (edges_at (store_logs sample_store_history 0) 1) + early_inserts (tvb_at v (ring_slot 3))"
    using in_range by blast
  then show ?thesis unfolding at ep(3) by auto
qed

section \<open>A run that loses a version\<close>

text \<open>The destinations a reader is called back with, before, between and after the writes of an epoch and its publication.\<close>

definition reads_around :: "vepoch list \<Rightarrow> epoch_t \<Rightarrow> vwrite list \<Rightarrow> composite \<Rightarrow> (dst_t list \<times> dst_t list \<times> dst_t list) res" where
  "reads_around eps E wrs r =
     bind_res (empty_vertex sample_pool) (\<lambda>v0.
     bind_res (run_epochs 0 eps (v0, [])) (\<lambda>(v1, lg).
     bind_res (run_writes 0 E wrs (v1, VBData_new E, lg)) (\<lambda>(v2, _, _).
     bind_res (transform_pending (stable_order (tvb_at v2 (ring_slot E))) (ring_slot E) v2) (\<lambda>v3.
     bind_res (for_each_edge Fine r v1) (\<lambda>xs1.
     bind_res (for_each_edge Fine r v2) (\<lambda>xs2.
     bind_res (for_each_edge Fine r v3) (\<lambda>xs3.
       Inr (map ew_e xs1, map ew_e xs2, map ew_e xs3))))))))"

text \<open>
  An evaluation: publication takes edges from a reader. The edges to 5 and 7 exist when two transactions of
  epoch 2 update first the one and then the other. A reader that registers now, with the timestamp (2, 2),
  finds both, the old version of 7 in the temporary block; once epoch 2 is published its loop over the
  version block stops at the record of 5, which the reader does not need, and the edge to 7 is gone.
\<close>

lemma publication_loses_old_versions:
  "reads_around [(1, [sample_write (VInsert 5 50), sample_write (VInsert 7 70)], stable_order)] 2
     [sample_write (VInsert 5 51), sample_write (VInsert 7 71)] (Composite 2 2) = Inr ([5, 7], [5, 7], [5])"
  by code_simp

end
