(* ===== verification/Serial_Reads.thy ===== *)
theory Serial_Reads
  imports Pending_Reads
begin

text \<open>
  What a reader finds that registers while an epoch is open and no write is under way. Its timestamp is
  the last position drawn in that epoch, and visibility is strict: it does not see the writes of the
  last transaction as such. But the scan of the temporary block shows that transaction's insertions and
  its deletions are hidden at once, so the destinations it finds are those that all committed
  transactions leave. \<open>tail_ok\<close> is the invariant behind this: the entries of the last position are the
  last ones of the block, and answer to the live cells of that position.
\<close>

section \<open>The entries of the last position\<close>

definition newest_keys :: "epoch_t \<Rightarrow> intra_t \<Rightarrow> ew_pair multiset \<Rightarrow> dst_t multiset" where
  "newest_keys E k cs = image_mset ckey
     {#c \<in># cs. GetCoarseC (fst c) = E \<and> ew_index (fst c) = k \<and> \<not> is_delete (ew_e (fst c))#}"

definition tail_ok :: "epoch_t \<Rightarrow> intra_t \<Rightarrow> vertex_edges \<Rightarrow> bool" where
  "tail_ok E k v \<longleftrightarrow>
     (\<forall>c \<in> set (all_cells v). GetCoarseC (fst c) = E \<longrightarrow> ew_index (fst c) \<le> k) \<and>
     (\<exists>ys zs. tvb_live (tvb_at v (ring_slot E)) = ys @ zs \<and> (\<forall>y \<in> set ys. ent_new_intra_c y < k) \<and>
        (\<forall>z \<in> set zs. ent_new_intra_c z = k \<and> Composite (ent_last_epoch z) (ent_old_intra_c z) < Composite E k) \<and>
        mset (map ent_edge (filter (\<lambda>z. \<not> is_delete (ent_edge z)) zs)) = newest_keys E k (mset (all_cells v)))"

lemma tail_okD:
  assumes "tail_ok E k v"
  shows "c \<in> set (all_cells v) \<Longrightarrow> GetCoarseC (fst c) = E \<Longrightarrow> ew_index (fst c) \<le> k"
    and "x \<in> set (tvb_live (tvb_at v (ring_slot E))) \<Longrightarrow> ent_new_intra_c x \<le> k"
proof -
  show "c \<in> set (all_cells v) \<Longrightarrow> GetCoarseC (fst c) = E \<Longrightarrow> ew_index (fst c) \<le> k" using assms by (simp add: tail_ok_def)
  obtain ys zs where "tvb_live (tvb_at v (ring_slot E)) = ys @ zs" "\<forall>y \<in> set ys. ent_new_intra_c y < k"
    "\<forall>z \<in> set zs. ent_new_intra_c z = k" using assms unfolding tail_ok_def by blast
  then show "x \<in> set (tvb_live (tvb_at v (ring_slot E))) \<Longrightarrow> ent_new_intra_c x \<le> k" by (auto simp: less_imp_le)
qed

lemma newest_keys_none:
  "(\<forall>c \<in># cs. GetCoarseC (fst c) = E \<longrightarrow> ew_index (fst c) < k) \<Longrightarrow> newest_keys E k cs = {#}"
  by (fastforce simp: newest_keys_def filter_mset_eq_conv)

lemma tail_ok_mono:
  assumes "tail_ok E k v" "k \<le> k'"
  shows "tail_ok E k' v"
proof (cases "k = k'")
  case False
  then have less: "k < k'" using assms(2) by simp
  have cells: "\<forall>c \<in> set (all_cells v). GetCoarseC (fst c) = E \<longrightarrow> ew_index (fst c) < k'"
    using tail_okD(1) [OF assms(1)] less by (blast intro: le_less_trans)
  moreover have "\<forall>y \<in> set (tvb_live (tvb_at v (ring_slot E))). ent_new_intra_c y < k'"
    using tail_okD(2) [OF assms(1)] less by (blast intro: le_less_trans)
  moreover have "newest_keys E k' (mset (all_cells v)) = {#}" using cells by (intro newest_keys_none) simp
  ultimately show ?thesis unfolding tail_ok_def
    by (intro conjI exI [of _ "tvb_live (tvb_at v (ring_slot E))"] exI [of _ "[]"]) auto
qed (use assms in simp)

text \<open>Before the first write of an epoch.\<close>

lemma tail_ok_start:
  assumes "\<forall>c \<in> set (all_cells v). GetCoarseC (fst c) \<noteq> E" "tvb_live (tvb_at v (ring_slot E)) = []"
  shows "tail_ok E k v"
proof -
  have "newest_keys E k (mset (all_cells v)) = {#}" using assms(1) by (intro newest_keys_none) simp
  then show ?thesis using assms by (simp add: tail_ok_def)
qed

section \<open>Reading at the last position\<close>

lemma scan_entries_skip: "\<forall>y \<in> set ys. ent_new_intra_c y < k \<Longrightarrow> scan_entries E (Composite E k) ys = []"
  by (induction ys) (auto simp: composite_le_iff not_le)

lemma scan_entries_tail:
  assumes "\<forall>y \<in> set ys. ent_new_intra_c y < k"
    and "\<forall>z \<in> set zs. ent_new_intra_c z = k \<and> Composite (ent_last_epoch z) (ent_old_intra_c z) < Composite E k"
  shows "map (ew_e \<circ> fst) (scan_entries E (Composite E k) (zs @ ys)) = map ent_edge (filter (\<lambda>z. \<not> is_delete (ent_edge z)) zs)"
  using assms(2)
  by (induction zs) (auto simp: scan_entries_skip [OF assms(1)] SetEdgeFG_def composite_le_iff)

lemma live_cells_split:
  assumes "\<forall>c \<in> set cs. GetCoarseC (fst c) \<le> E \<and> (GetCoarseC (fst c) = E \<longrightarrow> ew_index (fst c) \<le> k)"
  shows "mset (map (ew_e \<circ> fst) (filter (live_at Fine (Composite E k)) cs)) + newest_keys E k (mset cs) =
    mset (map ckey (filter (\<lambda>c. \<not> is_delete (ew_e (fst c))) cs))"
  using assms
proof (induction cs)
  case (Cons c cs)
  let ?n = "GetCoarseC (fst c) = E \<and> ew_index (fst c) = k"
  have "live_at Fine (Composite E k) c \<longleftrightarrow> \<not> is_delete (ew_e (fst c)) \<and> \<not> ?n"
    using Cons.prems by (auto simp: live_at_def edge_visible_at_def IsVisibleAtComposite_def GetIntraC_def)
  moreover have "\<not> is_delete (ew_e (fst c)) \<Longrightarrow> ckey c = ew_e (fst c)" by (simp add: ckey_def entry_key_def strip_del_id)
  moreover have "newest_keys E k (mset (c # cs)) = (if ?n \<and> \<not> is_delete (ew_e (fst c)) then {#ckey c#} else {#}) + newest_keys E k (mset cs)"
    by (simp add: newest_keys_def)
  ultimately show ?case using Cons by auto
qed (simp add: newest_keys_def)

text \<open>All committed writes are seen, those of the last transaction included.\<close>

lemma reads_after_commit:
  assumes h: "hist_inv E N v lg" and act: "active_ok E v" and tail: "tail_ok E k v"
  shows "\<exists>xs. for_each_edge Fine (Composite E k) v = Inr xs \<and> mset (map ew_e xs) = mset_set (edges_at lg E)"
proof -
  let ?r = "Composite E k" and ?t = "tvb_at v (ring_slot E)"
  have p: "pend_inv E N v" and snap: "snapshots (intervals E v) lg" using h by (auto simp: hist_inv_def)
  have tv: "tvbs_ok E N v" and coarse: "\<forall>c \<in> set (all_cells v). GetCoarseC (fst c) \<le> E"
    and ends: "vbm_end_epoch (VBM v) < E" "chain_wf (vbm_end_epoch (VBM v)) (vbm_end (VBM v))"
    using p by (auto simp: pend_inv_def cell_ok_def published_ok_def vbm_ok_def)
  obtain ys zs where es: "tvb_live ?t = ys @ zs" "\<forall>y \<in> set ys. ent_new_intra_c y < k"
    "\<forall>z \<in> set zs. ent_new_intra_c z = k \<and> Composite (ent_last_epoch z) (ent_old_intra_c z) < ?r"
    "mset (map ent_edge (filter (\<lambda>z. \<not> is_delete (ent_edge z)) zs)) = newest_keys E k (mset (all_cells v))"
    using tail unfolding tail_ok_def by blast
  have ts: "tvb_timestamp ?t = E" if "tmp_entry ?t \<noteq> []" using tv that by (simp add: tvbs_ok_def Let_def)
  have "map (ew_e \<circ> fst) (scan_pending Fine ?r v) = map ent_edge (filter (\<lambda>z. \<not> is_delete (ent_edge z)) (rev zs))"
  proof (cases "tmp_entry ?t = []")
    case True
    then show ?thesis using es(1) by (simp add: scan_pending_slot [OF tv act] scan_tvb_def tvb_live_def)
  next
    case False
    then show ?thesis
      using scan_entries_tail [of "rev ys" k "rev zs" E] es(1-3) ts by (simp add: scan_pending_slot [OF tv act] scan_tvb_def)
  qed
  then have pending: "mset (map (ew_e \<circ> fst) (scan_pending Fine ?r v)) = newest_keys E k (mset (all_cells v))"
    using es(4) by (simp add: rev_filter [symmetric] rev_map [symmetric])
  have no_chain: "\<not> needs_iterator Fine ?r v" using ends(1) by (simp add: needs_iterator_def not_le [symmetric])
  let ?live = "filter (live_at Fine ?r) (tb_cells v) @ filter (live_at Fine ?r) (pa_cells v)"
  let ?xs = "map fst ?live @ map fst (scan_pending Fine ?r v)"
  have run: "for_each_edge Fine ?r v = Inr ?xs" using no_chain by (simp add: for_each_edge_def iterate_edges_def chain_reads_def)
  have alive: "alive_at E iv" if "iv \<in> set (live_ivs v)" for iv
    using that coarse by (auto simp: live_ivs_def cell_iv_def alive_at_def all_cells_def)
  have dead: "filter (alive_at E) (chain_ivs (vbm_end (VBM v))) = []" "filter (alive_at E) (tvb_ivs ?t) = []"
  proof -
    show "filter (alive_at E) (chain_ivs (vbm_end (VBM v))) = []" using chain_after_end [OF ends(2), of E] ends(1) by simp
    have "\<not> alive_at E iv" if "iv \<in> set (tvb_ivs ?t)" for iv
      using that ts by (cases "tmp_entry ?t = []") (auto simp: tvb_ivs_def tvb_live_def entry_iv_def alive_at_def)
    then show "filter (alive_at E) (tvb_ivs ?t) = []" by (simp add: filter_empty_conv)
  qed
  have "mset (map ew_e ?xs) = mset (map (ew_e \<circ> fst) (filter (live_at Fine ?r) (all_cells v))) + newest_keys E k (mset (all_cells v))"
    using pending by (simp add: all_cells_def multiset.map_comp comp_def)
  also have "\<dots> = mset (map ckey (filter (\<lambda>c. \<not> is_delete (ew_e (fst c))) (all_cells v)))"
    using tail coarse by (intro live_cells_split) (auto simp: tail_ok_def)
  also have "\<dots> = mset (map fst (filter (alive_at E) (live_ivs v)))"
    using alive by (simp add: live_ivs_def all_cells_def cell_iv_def comp_def filter_True cong: map_cong)
  also have "\<dots> = image_mset fst (filter_mset (alive_at E) (intervals E v))"
    using arg_cong [OF dead(1), of mset] arg_cong [OF dead(2), of mset] by (simp add: intervals_def)
  also have "\<dots> = mset_set (edges_at lg E)" using snap by (simp only: snapshots_def)
  finally show ?thesis using run by blast
qed

section \<open>What a write does to cells and entries\<close>

text \<open>
  One cell is new, with the transaction's position, and one entry, the last; the other cells were there
  before and the other entries keep their fields. The entry has the version it displaces.
\<close>

definition displaced :: "epoch_t \<Rightarrow> intra_t \<Rightarrow> ew_pair set \<Rightarrow> bool" where
  "displaced le oi C \<longleftrightarrow> le = 0 \<and> oi = 0 \<or> (\<exists>c \<in> C. le = GetCoarseC (fst c) \<and> oi = ew_index (fst c))"

definition written :: "epoch_t \<Rightarrow> dst_t \<Rightarrow> intra_t \<Rightarrow> vertex_edges \<Rightarrow> vertex_edges \<Rightarrow> bool" where
  "written E e k v v' \<longleftrightarrow>
     (\<exists>c R j ys x. mset (all_cells v') = add_mset c R \<and> set_mset R \<subseteq> set (all_cells v) \<and>
        fst c = \<lparr>ew_e = e, ew_block = E OR TMPVB_MASK, ew_index = k\<rparr> \<and>
        tvb_live (tvb_at v' (ring_slot E)) = ys @ [x] \<and> relinked j (tvb_live (tvb_at v (ring_slot E))) ys \<and>
        ent_edge x = e \<and> ent_new_intra_c x = k \<and> displaced (ent_last_epoch x) (ent_old_intra_c x) (set (all_cells v)))"

lemma displaced_mono: "displaced le oi C \<Longrightarrow> C \<subseteq> C' \<Longrightarrow> displaced le oi C'"
  by (auto simp: displaced_def)

lemma record_written:
  assumes inva: "pend_inv E N v1" and N: "N + 1 < 2 ^ 31" and loc: "located v1 v2 s d R c0"
    and m: "touched E v2 m" "tvbs_ok E N (v2\<lparr>VBM := m\<rparr>)"
    and old: "le \<le> E" "is_tmp \<and> le \<noteq> 0 \<Longrightarrow> le = E \<and> unat li < length (tvb_live (tvb_at v1 (ring_slot E)))"
      "le = 0 \<Longrightarrow> \<not> is_delete (fst e)" "oi \<noteq> INTRA_MAX" "displaced le oi (set (all_cells v1))"
    and gi: "next_intra txn dd = k" "k \<noteq> INTRA_MAX"
    and rv: "record_version e E s is_tmp (le, li, oi) txn (v2\<lparr>VBM := m\<rparr>) dd = Inr (v4, idx, k', txn4, dd4)"
    and e': "strip_del (fst e) = d" "e' (ew_e (item_e v2 s)) = fst e"
  shows "written E (fst e) k v1 ((mark_pending s E k' (e' (ew_e (item_e v4 s))) pb v4)\<lparr>ve_locked := b\<rparr>)"
proof -
  let ?k = "ring_slot E" and ?v3 = "v2\<lparr>VBM := m\<rparr>"
  have E: "\<not> has_tmp E" using inva by (simp add: pend_inv_def published_ok_def)
  have VBM2: "VBM v2 = VBM v1" using loc by (simp add: located_def)
  then have live: "tvb_live (tvb_at ?v3 ?k) = tvb_live (tvb_at v1 ?k)" "tvb_timestamp (tvb_at ?v3 ?k) = E"
    using m(1) by (simp_all add: touched_def tvb_at_def)
  obtain txn' dd' where g: "get_intra_c txn dd = (k, txn', dd')" using get_intra_c_next [of txn dd] gi(1) by auto
  have N': "N < 2 ^ 31" using N by simp
  have old2: "is_tmp \<and> le \<noteq> 0 \<Longrightarrow> le = E \<and> unat li < length (tvb_live (tvb_at ?v3 ?k))" using old(2) live(1) by simp
  obtain t' ys x where r: "v4 = set_tvb ?k t' ?v3" "k' = k" "tvb_live t' = ys @ [x]"
    "relinked (if is_tmp \<and> le \<noteq> 0 then Some (unat li) else None) (tvb_live (tvb_at v1 ?k)) ys"
    "recorded_entry e s le oi k (merge_times ?v3) x"
    using record_version_spec [OF m(2) N' E live(2) old(1) old2 old(3,4) g gi(2), where is_tmp = is_tmp and s = s] rv live(1) by auto
  let ?c = "(\<lparr>ew_e = fst e, ew_block = E OR TMPVB_MASK, ew_index = k\<rparr>, (item_p v4 s)\<lparr>ew_block := pb, ew_index := 0\<rparr>)"
  have v2: "ve_wf v2" "slot_in v2 s" "mset (all_cells v2) = add_mset (cell v2 s) R" using loc by (auto simp: located_def)
  have v4: "all_cells v4 = all_cells v2" "cell v4 s = cell v2 s" "slot_in v4 s" "ve_shape v4" "item_e v4 s = item_e v2 s"
    "ring_slot E < length (vbm_tvb_array (VBM ?v3))"
    using v2 m(2) by (simp_all add: r(1) ve_wf_shape) (simp add: tvbs_ok_def)
  have v5: "mark_pending s E k' (e' (ew_e (item_e v4 s))) pb v4 = set_cell s ?c v4"
    using mark_pending_set_cell [OF v4(4,3)] e'(2) v4(5) r(2) by simp
  have "mset (all_cells (set_cell s ?c v4)) = add_mset ?c R" using set_cell_mset [OF v4(4,3)] v2(3) v4(1,2) by simp
  moreover have "set_mset R \<subseteq> set (all_cells v1)" using located_others(2) [OF loc] by blast
  moreover have "tvb_live (tvb_at (set_cell s ?c v4) ?k) = ys @ [x]" using r(1,3) v4(6) by (simp add: tvb_at_set_tvb)
  moreover have "all_cells (v\<lparr>ve_locked := b\<rparr>) = all_cells v" "tvb_at (v\<lparr>ve_locked := b\<rparr>) j = tvb_at v j" for v j
    by (simp_all add: all_cells_def tb_cells_def pa_cells_def tvb_at_def)
  ultimately show ?thesis
    using r(4,5) old(5) unfolding written_def v5 by (auto simp: recorded_entry_def)
qed

lemma written_from_merged:
  "written E e k v1 v' \<Longrightarrow> set (all_cells v1) \<subseteq> set (all_cells v) \<Longrightarrow> VBM v1 = VBM v \<Longrightarrow> written E e k v v'"
  unfolding written_def tvb_at_def by (metis displaced_mono subset_trans)

text \<open>A live cell and what a write reads from it.\<close>

lemma read_old_live:
  assumes inva: "pend_inv E N v" and s: "slot_in v s" "\<not> is_delete (ew_e (item_e v s))" and N: "N + 1 < 2 ^ 31"
    and old: "read_old v s = (le, li, oi)"
  shows "le \<le> E" "le \<noteq> 0" "oi \<noteq> INTRA_MAX" "displaced le oi (set (all_cells v))"
    "has_tmp (ew_block (item_e v s)) \<and> le \<noteq> 0 \<Longrightarrow> le = E \<and> unat li < length (tvb_live (tvb_at v (ring_slot E)))"
proof -
  have "cell_ok E (tvb_at v (ring_slot E)) (cell v s)" using inva cell_in_all [OF s(1)] by (simp add: pend_inv_def)
  then show "le \<le> E" "le \<noteq> 0" "oi \<noteq> INTRA_MAX" using old by (auto simp: cell_ok_def cell_def read_old_def)
  show "displaced le oi (set (all_cells v))"
    unfolding displaced_def by (rule disjI2, rule bexI [OF _ cell_in_all [OF s(1)]]) (use old in \<open>auto simp: read_old_def cell_def\<close>)
  show "has_tmp (ew_block (item_e v s)) \<and> le \<noteq> 0 \<Longrightarrow> le = E \<and> unat li < length (tvb_live (tvb_at v (ring_slot E)))"
    using pending_link [OF inva s(1) refl s(2) N] old by (auto simp: read_old_def)
qed

lemma insert_written:
  assumes inva: "pend_inv E N v" and N: "N + 2 < 2 ^ 31" and d: "\<not> is_delete d" and oldest: "\<not> has_tmp oldest"
    and safe: "lookup_safe junk oldest v d" and tid: "tx_threadid txn < length (vd_vb_vector dd)"
    and intra: "next_intra txn dd \<noteq> INTRA_MAX"
    and r: "insert_edge_block junk oldest self (d, w) E txn v dd = Inr (v', txn', dd', True)"
  shows "written E d (next_intra txn dd) v v'"
  using r
proof (rule insert_stages)
  fix v1 v2 s b v3 d3 v4 idx ic txn4
  assume st: "merge_if_full junk oldest v = Inr v1" "locate_or_add d w v1 = Inr (v2, s, b)" "touch_tvb self E txn v2 dd = Inr (v3, d3)"
    "record_version (d, w) E s (has_tmp (ew_block (item_e v3 s))) (if b then (0, 0, 0) else read_old v3 s) txn v3 d3 =
       Inr (v4, idx, ic, txn4, dd')"
    "v' = (mark_pending s E ic (ew_e (item_e v4 s)) (word_of_nat idx) v4)\<lparr>ve_locked := True\<rparr>"
  have v1: "pend_inv E (N + 1) v1" "tmp_ev v1 < TMPNUM" "set (all_cells v1) \<subseteq> set (all_cells v)"
    using merge_if_full_spec [OF inva oldest, of junk] st(1) N by auto
  have V: "VBM v1 = VBM v" "VBM v2 = VBM v1"
    using merge_if_full_counts [OF inva oldest _ st(1)] locate_or_add_VBM [OF st(2)] N by simp_all
  have wf: "ve_wf v1" and tv: "tvbs_ok E (N + 1) v2" using v1(1) tvbs_ok_VBM [OF V(2)] by (auto simp: pend_inv_def)
  obtain m where m: "v3 = v2\<lparr>VBM := m\<rparr>" "touched E v2 m" "tvbs_ok E (N + 1) (v2\<lparr>VBM := m\<rparr>)" "next_intra txn d3 = next_intra txn dd"
    using touch_tvb_spec [OF tv tid, of self] st(3) by (auto simp: next_intra_def)
  have N1: "N + 1 + 1 < 2 ^ 31" using N by simp
  note W = record_written [OF v1(1) N1 _ m(2,3) _ _ _ _ _ m(4) intra, where e = "(d, w)" and e' = "\<lambda>x. x"]
  have keyd: "strip_del d = d" using d by (rule strip_del_id)
  have "written E d (next_intra txn dd) v1 v'"
  proof (cases "d \<in> ve_keys v1")
    case True
    have "d \<in> ckey ` set (pa_cells v1) \<or> search_safe v1 d" using safe st(1) True by (auto simp: lookup_safe_def ve_keys_def)
    from locate_existing [OF wf True d this, of w] st(2) have s: "slot_in v1 s" "b = is_delete (ew_e (item_e v1 s))"
      "v2 = set_cell s ((item_e v1 s)\<lparr>ew_e := d\<rparr>, item_p v1 s) v1" "ckey (cell v1 s) = d"
      "located v1 v2 s d (mset (all_cells v1) - {#cell v1 s#}) (Some (cell v1 s))" by auto
    have cell2: "item_e v2 s = (item_e v1 s)\<lparr>ew_e := d\<rparr>" "item_p v2 s = item_p v1 s"
      using cell_set_cell [OF ve_wf_shape [OF wf] s(1)] by (auto simp: s(3) cell_def)
    show ?thesis
    proof (cases b)
      case True
      then show ?thesis
        using W [OF s(5), where le = 0 and oi = 0] st(4,5) keyd d cell2(1) by (simp add: m(1) displaced_def INTRA_MAX_def)
    next
      case False
      then have live: "\<not> is_delete (ew_e (item_e v1 s))" using s(2) by simp
      obtain le li oi where old: "read_old v1 s = (le, li, oi)" by (cases "read_old v1 s")
      have "read_old v3 s = read_old v1 s" using cell2 by (simp add: m(1) read_old_def GetCoarseC_def)
      moreover have "ew_block (item_e v2 s) = ew_block (item_e v1 s)" using cell2 by simp
      ultimately show ?thesis
        using W [OF s(5), where le = le and li = li and oi = oi and is_tmp = "has_tmp (ew_block (item_e v1 s))"] read_old_live [OF v1(1) s(1) live N1 old] st(4,5) keyd d cell2(1) False old
        by (simp add: m(1))
    qed
  next
    case False
    from add_new_located [OF wf False d v1(2), of w] st(2) have s: "\<not> b" "located v1 v2 s d (mset (all_cells v1)) None"
      "item_e v2 s = \<lparr>ew_e = d, ew_block = 0, ew_index = 0\<rparr>" by auto
    obtain li where "read_old v3 s = (0, li, 0)" using s(3) by (simp add: m(1) read_old_def GetCoarseC_def)
    then show ?thesis
      using W [OF s(2), where le = 0 and li = li and oi = 0] st(4,5) keyd d s(1,3) by (simp add: m(1) displaced_def INTRA_MAX_def)
  qed
  then show ?thesis using written_from_merged v1(3) V(1) by blast
qed

lemma delete_written:
  assumes inva: "pend_inv E N v" and N: "N + 2 < 2 ^ 31" and d: "\<not> is_delete d" and oldest: "\<not> has_tmp oldest"
    and safe: "lookup_safe junk oldest v d" and tid: "tx_threadid txn < length (vd_vb_vector dd)"
    and intra: "next_intra txn dd \<noteq> INTRA_MAX" and live: "deletable v d"
    and r: "delete_edge_block junk oldest self (d, w) E txn v dd = Inr (v', txn', dd', True)"
  shows "written E (d OR DELETION_MASK) (next_intra txn dd) v v'"
  using r
proof (rule delete_stages)
  fix v1 s y v3 d3 v4 idx ic txn4
  assume st: "merge_if_full junk oldest v = Inr v1" "getDestHashTableVal2 (ve_M v1) d = Some True" "get_edge_index v1 d = Inr (Some (s, y))"
    "touch_tvb self E txn v1 dd = Inr (v3, d3)"
    "record_version (d OR DELETION_MASK, w) E s (has_tmp (ew_block (item_e v3 s))) (read_old v3 s) txn v3 d3 = Inr (v4, idx, ic, txn4, dd')"
    "v' = (mark_pending s E ic (ew_e (item_e v4 s) OR DELETION_MASK) 0 v4)\<lparr>ve_locked := True\<rparr>"
  have v1: "pend_inv E (N + 1) v1" "set (all_cells v1) \<subseteq> set (all_cells v)"
    using merge_if_full_spec [OF inva oldest, of junk] st(1) N by auto
  have V: "VBM v1 = VBM v" using merge_if_full_counts [OF inva oldest _ st(1)] N by simp
  have wf: "ve_wf v1" and tv: "tvbs_ok E (N + 1) v1" using v1(1) by (auto simp: pend_inv_def)
  have "nonempty d" using d by (auto simp: is_delete_bit FLAG_EMPTY_SLOT_def)
  then have key: "d \<in> ve_keys v1" using ht2.get_law [of "ve_M v1" d] wf st(2) by (simp add: ve_wf_def)
  have "d \<in> ckey ` set (pa_cells v1) \<or> search_safe v1 d" using safe st(1) key by (auto simp: lookup_safe_def ve_keys_def)
  from get_edge_index_finds [OF wf key this] st(3) have s: "slot_in v1 s" "ckey (cell v1 s) = d" by auto
  have not_del: "\<not> is_delete (ew_e (item_e v1 s))"
    using live v1(2) cell_in_all [OF s(1)] s(2) by (auto simp: deletable_def cell_def)
  have ed: "ew_e (item_e v1 s) = d" using s(2) not_del by (simp add: cell_def ckey_def entry_key_def strip_del_id)
  obtain m where m: "v3 = v1\<lparr>VBM := m\<rparr>" "touched E v1 m" "tvbs_ok E (N + 1) (v1\<lparr>VBM := m\<rparr>)" "next_intra txn d3 = next_intra txn dd"
    using touch_tvb_spec [OF tv tid, of self] st(4) by (auto simp: next_intra_def)
  have N1: "N + 1 + 1 < 2 ^ 31" using N by simp
  have "set_cell s (cell v1 s) v1 = v1" by (simp add: cell_def set_cell_id)
  then have loc: "located v1 v1 s d (mset (all_cells v1) - {#cell v1 s#}) (Some (cell v1 s))"
    using located_set_cell [OF wf s, of "cell v1 s"] s(2) by simp
  obtain le li oi where old: "read_old v1 s = (le, li, oi)" by (cases "read_old v1 s")
  note L = read_old_live [OF v1(1) s(1) not_del N1 old]
  have "read_old v3 s = read_old v1 s" by (simp add: m(1) read_old_def)
  then have "written E (d OR DELETION_MASK) (next_intra txn dd) v1 v'"
    using record_written [OF v1(1) N1 loc m(2,3) L(1) L(5) _ L(3,4) m(4) intra, where e = "(d OR DELETION_MASK, w)"
        and e' = "\<lambda>x. x OR DELETION_MASK"] L(2) st(5,6) ed d old by (simp add: m(1) strip_del_id)
  then show ?thesis using written_from_merged v1(2) V by blast
qed

section \<open>Writes keep the tail\<close>

lemma written_tail:
  assumes tail: "tail_ok E k0 v" and w: "written E e k v v'" and less: "k0 < k" and E: "\<not> has_tmp E" "E \<noteq> 0"
    and coarse: "\<forall>c \<in> set (all_cells v). GetCoarseC (fst c) \<le> E"
  shows "tail_ok E k v'"
proof -
  obtain c R j ys x where W: "mset (all_cells v') = add_mset c R" "set_mset R \<subseteq> set (all_cells v)"
    "fst c = \<lparr>ew_e = e, ew_block = E OR TMPVB_MASK, ew_index = k\<rparr>" "tvb_live (tvb_at v' (ring_slot E)) = ys @ [x]"
    "relinked j (tvb_live (tvb_at v (ring_slot E))) ys" "ent_edge x = e" "ent_new_intra_c x = k"
    "displaced (ent_last_epoch x) (ent_old_intra_c x) (set (all_cells v))" using w unfolding written_def by blast
  have old_cells: "GetCoarseC (fst c') = E \<longrightarrow> ew_index (fst c') < k" if "c' \<in># R" for c'
    using tail_okD(1) [OF tail, of c'] that W(2) less by (blast intro: le_less_trans)
  have cE: "GetCoarseC (fst c) = E" using E(1) by (simp add: W(3) GetCoarseC_def strip_tmp_id)
  have set: "set (all_cells v') = insert c (set_mset R)" using arg_cong [OF W(1), of set_mset] by simp
  have "newest_keys E k R = {#}" using old_cells by (intro newest_keys_none) blast
  then have new: "newest_keys E k (mset (all_cells v')) = (if is_delete e then {#} else {#e#})"
    using cE by (simp add: W(1) newest_keys_def) (simp add: W(3) ckey_def entry_key_def strip_del_id)
  have "ent_new_intra_c y < k" if y: "y \<in> set ys" for y
  proof -
    obtain i where i: "i < length ys" "y = ys ! i" using y by (auto simp: in_set_conv_nth)
    have l: "i < length (tvb_live (tvb_at v (ring_slot E)))" using W(5) i(1) by (simp add: relinked_def)
    have "ent_new_intra_c y \<le> k0" using tail_okD(2) [OF tail nth_mem [OF l]] relinked_fields(4) [OF W(5) l] i(2) by simp
    then show ?thesis using less by (rule le_less_trans)
  qed
  moreover have "Composite (ent_last_epoch x) (ent_old_intra_c x) < Composite E k"
  proof -
    have "Composite (GetCoarseC (fst c')) (ew_index (fst c')) < Composite E k" if "c' \<in> set (all_cells v)" for c'
      using tail_okD(1) [OF tail that] coarse that less by (cases "GetCoarseC (fst c') = E") (auto intro: le_less_trans)
    then show ?thesis using W(8) E(2) by (auto simp: displaced_def word_neq_0_conv simp del: composite_less_iff) simp
  qed
  ultimately show ?thesis unfolding tail_ok_def
    using set old_cells W(3) new
    by (intro conjI exI [of _ ys] exI [of _ "[x]"]) (auto simp: W(4,6,7) less_imp_le)
qed

lemma apply_op_tail:
  assumes h: "hist_inv E N v lg" and legal: "legal_write (op, txn, oldest, junk) v d lg" and N: "N + 2 < 2 ^ 31"
    and r: "apply_op self E (op, txn, oldest, junk) v d = Inr (v', txn', d', True)"
    and tail: "tail_ok E k0 v" and less: "k0 < next_intra txn d"
  shows "tail_ok E (next_intra txn d) v'"
proof -
  have p: "pend_inv E N v" "\<not> is_delete (vop_dst op)" "\<not> has_tmp oldest" "lookup_safe junk oldest v (vop_dst op)"
    "tx_threadid txn < length (vd_vb_vector d)" "next_intra txn d \<noteq> INTRA_MAX"
    using h legal by (auto simp: hist_inv_def legal_write_def)
  have E: "\<not> has_tmp E" "E \<noteq> 0" "\<forall>c \<in> set (all_cells v). GetCoarseC (fst c) \<le> E"
    using p(1) by (auto simp: pend_inv_def published_ok_def cell_ok_def)
  have "\<exists>e. written E e (next_intra txn d) v v'"
  proof (cases op)
    case (VInsert dst w)
    then show ?thesis using insert_written [OF p(1) N _ p(3) _ p(5,6)] p(2,4) r by (fastforce simp: apply_op_def)
  next
    case (VDelete dst w)
    have "iv_bounded E (intervals E v)" "snapshots (intervals E v) lg" "dst \<in> edges_at lg E"
      using h legal edges_at_late [of E lg E] by (auto simp: hist_inv_def legal_write_def VDelete)
    then obtain c where "(dst, c, None) \<in># intervals E v" using open_iff_live [of E "intervals E v" lg E dst] by auto
    then have "deletable v dst" by (rule live_deletable [OF p(1)])
    then show ?thesis using delete_written [OF p(1) N _ p(3) _ p(5,6)] p(2,4) r VDelete by (fastforce simp: apply_op_def)
  qed
  then show ?thesis using written_tail [OF tail _ less E] by blast
qed

text \<open>The position of a transaction is the next one of the epoch, or already drawn and the last one.\<close>

definition drawing :: "epoch_t \<Rightarrow> intra_t \<Rightarrow> transaction \<Rightarrow> vb_data \<Rightarrow> bool" where
  "drawing E k txn d \<longleftrightarrow> vd_epoch d = E \<and> (if tx_intra_c txn = 0 then vd_intra_counter d + 1 = k else tx_intra_c txn = k \<and> vd_intra_counter d = k)"

lemma drawing_next: "drawing E k txn d \<Longrightarrow> next_intra txn d = k"
  by (simp add: drawing_def next_intra_def split: if_splits)

lemma get_intra_c_drawing:
  "get_intra_c txn d = (ic, txn', d') \<Longrightarrow> drawing E k txn d \<Longrightarrow> k \<noteq> 0 \<Longrightarrow> drawing E k txn' d' \<and> vd_intra_counter d' = k"
  by (auto simp: get_intra_c_def drawing_def fetch_add_intra_def split: if_splits)

lemma stages_drawing:
  assumes "touch_tvb self E txn v2 d = Inr (v3, d3)" "record_version e E s is_tmp old txn v3 d3 = Inr (v4, idx, ic, txn4, d')"
    "drawing E k txn d" "k \<noteq> 0"
  shows "drawing E k (AddEB txn4 self) d'"
proof -
  have "vd_intra_counter d3 = vd_intra_counter d" "vd_epoch d3 = vd_epoch d"
    using assms(1) by (auto simp: touch_tvb_def Let_def bind_res_def write_lock_pushback_def VB_pushback_def split: sum.splits if_splits)
  then have "drawing E k txn d3" using assms(3) by (simp add: drawing_def)
  moreover have "get_intra_c txn d3 = (ic, txn4, d')"
    using assms(2) by (auto simp: record_version_def Let_def bind_res_def split: prod.splits sum.splits if_splits)
  ultimately show ?thesis using get_intra_c_drawing assms(4) by (fastforce simp: drawing_def AddEB_def)
qed

lemma apply_op_drawing:
  assumes r: "apply_op self E (op, txn, oldest, junk) v d = Inr (v', txn', d', True)" and k: "drawing E k txn d" "k \<noteq> 0"
  shows "drawing E k txn' d'"
proof (cases op)
  case (VInsert dst w)
  then have "insert_edge_block junk oldest self (dst, w) E txn v d = Inr (v', txn', d', True)" using r by (simp add: apply_op_def)
  then show ?thesis by (rule insert_stages) (use stages_drawing k in blast)
next
  case (VDelete dst w)
  then have "delete_edge_block junk oldest self (dst, w) E txn v d = Inr (v', txn', d', True)" using r by (simp add: apply_op_def)
  then show ?thesis by (rule delete_stages) (use stages_drawing k in blast)
qed

section \<open>Transactions keep the tails of a store\<close>

text \<open>\<open>H\<close> are the vertices that the running transaction, with position \<open>k\<close>, has written.\<close>

definition tails_ok :: "epoch_t \<Rightarrow> intra_t \<Rightarrow> intra_t \<Rightarrow> nat set \<Rightarrow> graph_store \<Rightarrow> bool" where
  "tails_ok E k0 k H g \<longleftrightarrow>
     (\<forall>u < gs_node_num g. \<forall>v. GetBlockByIndex g u = Inr v \<longrightarrow> tail_ok E (if u \<in> H then k else k0) v)"

lemma tails_okD: "tails_ok E k0 k H g \<Longrightarrow> u < gs_node_num g \<Longrightarrow> GetBlockByIndex g u = Inr v \<Longrightarrow> tail_ok E (if u \<in> H then k else k0) v"
  by (simp add: tails_ok_def)

lemma store_write_tails:
  assumes inva: "store_inv E B H g d L" and legal: "legal_swrite w (g, txn, d) L" and free: "fst w \<notin> H" and B: "B + 2 < 2 ^ 31"
    and txn: "tx_write_only txn" "tx_epoch txn = E" and draw: "drawing E k txn d" "k0 < k" and tails: "tails_ok E k0 k H g"
    and r: "store_write w (g, txn, d) = Inr (g', txn', d')"
  shows "tails_ok E k0 k (insert (fst w) H) g' \<and> drawing E k txn' d'"
proof -
  obtain u op oldest junk where w: "w = (u, op, oldest, junk)" by (cases w) auto
  obtain v where u: "u < gs_node_num g" and v: "GetBlockByIndex g u = Inr v" and lw: "legal_write (op, txn, oldest, junk) v d (L u)"
    using legal by (auto simp: legal_swrite_def w split: sum.splits)
  note D = store_invD [OF inva]
  obtain N where N: "N \<le> B" "hist_inv E N v (L u)" using D(5) [OF u v] free by (auto simp: w vertex_at_def)
  have N2: "N + 2 < 2 ^ 31" using N(1) B by simp
  obtain v' where op: "apply_op u E (op, txn, oldest, junk) v d = Inr (v', txn', d', True)" "SetBlockByIndex u v' g = Inr g'"
    using apply_op_inv [OF N(2) lw N2, of u] r v txn by (auto simp: w store_write_apply blind_write_def bind_res_Inr_iff)
  note G = SetBlock_Get [OF op(2)]
  have "tail_ok E k0 v" using tails_okD [OF tails u v] free by (simp add: w)
  then have "tail_ok E k v'" using apply_op_tail [OF N(2) lw N2 op(1), of k0] draw(2) drawing_next [OF draw(1)] by simp
  moreover have "tail_ok E (if i \<in> insert u H then k else k0) x" if "tail_ok E k v'" "i < gs_node_num g'" "GetBlockByIndex g' i = Inr x" for i x
    using that tails_okD [OF tails, of i x] G by (cases "i = u") auto
  ultimately have "tails_ok E k0 k (insert u H) g'" by (simp add: tails_ok_def)
  moreover have "drawing E k txn' d'" using apply_op_drawing [OF op(1) draw(1)] draw(2) by (cases "k = 0") auto
  ultimately show ?thesis by (simp add: w)
qed

lemma store_writes_tails:
  assumes "store_inv E B H g d L" "legal_swrites E ws (g, txn, d) L" "distinct (map fst ws)" "fst ` set ws \<inter> H = {}"
    "B + 2 * length ws < 2 ^ 31" "tx_write_only txn" "tx_epoch txn = E" "tx_threadid txn < WRITE_THREAD"
    "drawing E k txn d" "k0 < k" "tails_ok E k0 k H g" "foldR store_write ws (g, txn, d) = Inr (g', txn', d')"
  shows "tails_ok E k0 k (fst ` set ws \<union> H) g' \<and> drawing E k txn' d'"
  using assms
proof (induction ws arbitrary: B H g txn d L)
  case (Cons w ws)
  obtain g1 txn1 d1 where r: "store_write w (g, txn, d) = Inr (g1, txn1, d1)" "store_inv E (B + 2) (insert (fst w) H) g1 d1 (add_log E w L)"
    "writer_kept txn txn1" using store_write_step [OF Cons.prems(1), of w txn] Cons.prems by auto
  have t: "tails_ok E k0 k (insert (fst w) H) g1 \<and> drawing E k txn1 d1"
    using store_write_tails [OF Cons.prems(1), of w txn k k0 g1 txn1 d1] Cons.prems r(1) by auto
  have "tails_ok E k0 k (fst ` set ws \<union> insert (fst w) H) g' \<and> drawing E k txn' d'"
    using Cons.prems r t by (intro Cons.IH [OF r(2)]) (auto simp: writer_kept_def)
  then show ?case by simp
qed simp

lemma tail_ok_unlock: "tail_ok E k (unleashReadLock v) = tail_ok E k v"
  by (simp add: unleashReadLock_def tail_ok_def all_cells_def tb_cells_def pa_cells_def tvb_at_def)

lemma unlock_tails:
  assumes "tails_ok E k k {} g" "foldR unlock_block us g = Inr g'"
  shows "tails_ok E k k {} g'"
  using assms
proof (induction us arbitrary: g)
  case (Cons u us)
  obtain g1 where step: "unlock_block u g = Inr g1" "foldR unlock_block us g1 = Inr g'"
    using Cons.prems(2) by (auto simp: bind_res_Inr_iff)
  then obtain v where g1: "GetBlockByIndex g u = Inr v" "SetBlockByIndex u (unleashReadLock v) g = Inr g1"
    by (auto simp: unlock_block_def bind_res_Inr_iff)
  note G = SetBlock_Get [OF g1(2)]
  have "tails_ok E k k {} g1" unfolding tails_ok_def
  proof (intro allI impI)
    fix i x assume i: "i < gs_node_num g1" "GetBlockByIndex g1 i = Inr x"
    show "tail_ok E (if i \<in> {} then k else k) x"
      using tails_okD [OF Cons.prems(1), of i] G i g1(1) by (cases "i = u") (auto simp: tail_ok_unlock)
  qed
  then show ?case using Cons.IH step(2) by blast
qed simp

text \<open>A transaction that starts with a fresh position and commits.\<close>

lemma run_txn_tails:
  assumes inva: "store_inv E B {} g d L" and legal: "legal_txn E t (g, d) L" and B: "B + 2 * length (snd t) < 2 ^ 31"
    and fresh: "vd_epoch d = E" "tx_intra_c (fst t) = 0" "vd_intra_counter d < vd_intra_counter d + 1"
    and tails: "tails_ok E (vd_intra_counter d) (vd_intra_counter d) {} g"
    and r: "run_txn t (g, d) = Inr (g', d')"
  shows "vd_epoch d' = E \<and> vd_intra_counter d' = vd_intra_counter d + 1 \<and> tails_ok E (vd_intra_counter d') (vd_intra_counter d') {} g'"
proof -
  obtain txn ws where t: "t = (txn, ws)" by (cases t)
  let ?c = "vd_intra_counter d" and ?k = "vd_intra_counter d + 1"
  have l: "tx_write_only txn" "tx_epoch txn = E" "tx_threadid txn < WRITE_THREAD" "distinct (map fst ws)"
    "legal_swrites E ws (g, txn, d) L" using legal by (auto simp: legal_txn_def t)
  obtain g1 txn1 d1 txn2 where w: "foldR store_write ws (g, txn, d) = Inr (g1, txn1, d1)"
    "commit_on_store (g1, txn1, d1) = Inr (g', txn2, d')"
    using r by (auto simp: t run_txn_def bind_res_Inr_iff)
  have "drawing E ?k txn d" using fresh(1,2) by (simp add: t drawing_def)
  moreover have "tails_ok E ?c ?k {} g" using tails by (simp add: tails_ok_def)
  ultimately have t1: "tails_ok E ?c ?k (fst ` set ws) g1" "drawing E ?k txn1 d1"
    using store_writes_tails [OF inva l(5,4) _ _ l(1-3) _ fresh(3) _ w(1)] B by (simp_all add: t)
  obtain d2 ebs where c: "Transaction_commit txn1 d1 = (txn2, d', ebs)" "foldR unlock_block ebs g1 = Inr g'"
    using w(2) by (auto simp: commit_on_store_def bind_res_Inr_iff split: prod.splits)
  have "?k \<noteq> 0" using fresh(3) by auto
  then have k: "vd_epoch d' = E" "vd_intra_counter d' = ?k"
    using c(1) get_intra_c_drawing [OF _ t1(2)] by (auto simp: Transaction_commit_def Let_def drawing_def split: prod.splits)
  have "tails_ok E ?k ?k {} g1"
    unfolding tails_ok_def
  proof (intro allI impI)
    fix u v assume "u < gs_node_num g1" "GetBlockByIndex g1 u = Inr v"
    from tails_okD [OF t1(1) this] show "tail_ok E (if u \<in> {} then ?k else ?k) v"
      using fresh(3) by (auto intro: tail_ok_mono split: if_splits)
  qed
  then show ?thesis using unlock_tails [OF _ c(2)] k by simp
qed

text \<open>A store at rest before the first write of an epoch.\<close>

lemma rest_tails:
  assumes rest: "store_rest E0 B g L" and E: "E0 < E"
  shows "tails_ok E k k {} g"
  unfolding tails_ok_def
proof (intro allI impI)
  fix u v assume u: "u < gs_node_num g" and v: "GetBlockByIndex g u = Inr v"
  obtain N where r: "rest_inv E0 N v (L u)" using rest u v unfolding store_rest_def by fastforce
  have "GetCoarseC (fst c) \<le> E0" if "c \<in> set (all_cells v)" for c
    using r that by (auto simp: rest_inv_def quiet_inv_def)
  then have cells: "\<forall>c \<in> set (all_cells v). GetCoarseC (fst c) \<noteq> E" using E leD by blast
  have "tmp_entry (tvb_at v (ring_slot E)) = []" using r by (simp add: rest_inv_def quiet_inv_def)
  then have "tvb_live (tvb_at v (ring_slot E)) = []" by (simp add: tvb_live_def)
  from tail_ok_start [OF cells this] show "tail_ok E (if u \<in> {} then k else k) v" by simp
qed

end
