(* ===== verification/Dirty_Reads.thy ===== *)
theory Dirty_Reads
  imports Serial_Reads
begin

text \<open>
  Readers of published epochs see the committed writes of an epoch that is not published. By
  \<open>Pending_Reads\<close> a first insertion shows and a deletion hides its edge at once; here the two add up: as
  long as an epoch E has written a destination of a vertex at most once, a reader of the last published
  epoch finds at that vertex the edges of E instead of those of its own epoch.
\<close>

section \<open>What one write adds to the block of its epoch\<close>

lemma relinked_maps:
  assumes "relinked j xs ys" "\<And>x l. f (x\<lparr>ent_link := l\<rparr>) = f x"
  shows "map f ys = map f xs"
proof (rule nth_equalityI)
  show "length (map f ys) = length (map f xs)" using assms(1) by (simp add: relinked_def)
  show "map f ys ! i = map f xs ! i" if "i < length (map f ys)" for i
  proof -
    have i: "i < length xs" "i < length ys" using that assms(1) by (auto simp: relinked_def)
    obtain l where "ys ! i = (xs ! i)\<lparr>ent_link := l\<rparr>" using assms(1) i(1) by (auto simp: relinked_def)
    then show ?thesis using i assms(2) by simp
  qed
qed

lemma filter_map_pair: "map fst (filter snd (map (\<lambda>x. (g x, p x)) xs)) = map g (filter p xs)"
  by (induction xs) auto

text \<open>Selections of the entries that do not depend on their links, with one entry more.\<close>

lemma relinked_select:
  assumes "relinked j xs ys" "\<And>x l. g (x\<lparr>ent_link := l\<rparr>) = g x" "\<And>x l. p (x\<lparr>ent_link := l\<rparr>) = p x"
  shows "mset (map g (filter p (ys @ [x]))) = mset (map g (filter p xs)) + (if p x then {#g x#} else {#})"
proof -
  have "map (\<lambda>x. (g x, p x)) ys = map (\<lambda>x. (g x, p x)) xs" by (rule relinked_maps [OF assms(1)]) (simp add: assms(2,3))
  then have "map g (filter p ys) = map g (filter p xs)" using filter_map_pair [of g p ys] filter_map_pair [of g p xs] by simp
  then show ?thesis by simp
qed

lemma tvb_ivs_stamp:
  assumes "tvbs_ok E N v"
  shows "mset (tvb_ivs (tvb_at v (ring_slot E))) =
    mset (map (entry_iv E) (filter (\<lambda>x. ent_last_epoch x \<noteq> 0) (tvb_live (tvb_at v (ring_slot E)))))"
  using assms by (cases "tmp_entry (tvb_at v (ring_slot E)) = []") (auto simp: tvbs_ok_def Let_def tvb_ivs_def tvb_live_def)

lemma written_adds:
  assumes w: "written E e k v v'" and ok: "tvbs_ok E N v" "tvbs_ok E N' v'"
  obtains le where
    "mset (tvb_ivs (tvb_at v' (ring_slot E))) =
       mset (tvb_ivs (tvb_at v (ring_slot E))) + (if le \<noteq> 0 then {#(strip_del e, le, Some E)#} else {#})"
    "early_inserts (tvb_at v' (ring_slot E)) = early_inserts (tvb_at v (ring_slot E)) + (if le = 0 then {#e#} else {#})"
    "\<And>q. hidden_deletes q (tvb_at v' (ring_slot E)) =
       hidden_deletes q (tvb_at v (ring_slot E)) + (if is_delete e \<and> le \<le> q then {#strip_del e#} else {#})"
proof -
  obtain j ys x where W: "tvb_live (tvb_at v' (ring_slot E)) = ys @ [x]" "relinked j (tvb_live (tvb_at v (ring_slot E))) ys" "ent_edge x = e"
    using w unfolding written_def by blast
  show thesis
  proof (rule that [of "ent_last_epoch x"])
    show "mset (tvb_ivs (tvb_at v' (ring_slot E))) =
       mset (tvb_ivs (tvb_at v (ring_slot E))) + (if ent_last_epoch x \<noteq> 0 then {#(strip_del e, ent_last_epoch x, Some E)#} else {#})"
      unfolding tvb_ivs_stamp [OF ok(1)] tvb_ivs_stamp [OF ok(2)] W(1)
      by (subst relinked_select [OF W(2)]) (simp_all add: entry_iv_def W(3))
    show "early_inserts (tvb_at v' (ring_slot E)) =
       early_inserts (tvb_at v (ring_slot E)) + (if ent_last_epoch x = 0 then {#e#} else {#})"
      unfolding early_inserts_def W(1) by (subst relinked_select [OF W(2)]) (simp_all add: W(3))
    show "hidden_deletes q (tvb_at v' (ring_slot E)) =
       hidden_deletes q (tvb_at v (ring_slot E)) + (if is_delete e \<and> ent_last_epoch x \<le> q then {#strip_del e#} else {#})" for q
      unfolding hidden_deletes_def W(1) by (subst relinked_select [OF W(2)]) (simp_all add: W(3))
  qed
qed

text \<open>The intervals that end in the open epoch are those of its entries.\<close>

definition ends_at :: "epoch_t \<Rightarrow> interval \<Rightarrow> bool" where
  "ends_at E iv \<longleftrightarrow> snd (snd iv) = Some E"

lemma ended_intervals:
  assumes "pend_inv E N v"
  shows "filter_mset (ends_at E) (intervals E v) = mset (tvb_ivs (tvb_at v (ring_slot E)))"
proof -
  have tv: "tvbs_ok E N v" and ends: "vbm_end_epoch (VBM v) < E" "chain_wf (vbm_end_epoch (VBM v)) (vbm_end (VBM v))"
    using assms by (auto simp: pend_inv_def published_ok_def vbm_ok_def)
  have "filter_mset (ends_at E) (mset (live_ivs v)) = {#}"
    by (auto simp flip: mset_filter simp: filter_empty_conv live_ivs_def cell_iv_def ends_at_def)
  moreover have "filter_mset (ends_at E) (mset (chain_ivs (vbm_end (VBM v)))) = {#}"
    using chain_wf_timestamps [OF ends(2)] ends(1) by (fastforce simp flip: mset_filter simp: filter_empty_conv chain_ivs_def vb_ivs_def ends_at_def)
  moreover have "filter_mset (ends_at E) (mset (tvb_ivs (tvb_at v (ring_slot E)))) = mset (tvb_ivs (tvb_at v (ring_slot E)))"
    unfolding tvb_ivs_stamp [OF tv] by (auto simp: filter_mset_eq_conv entry_iv_def ends_at_def)
  ultimately show ?thesis by (simp add: intervals_def)
qed

text \<open>An insertion displaces the version that is current, if there is one; a deletion always does.\<close>

lemma displaced_version:
  assumes inv: "pend_inv E N v" "pend_inv E N' v'"
    and add: "mset (tvb_ivs (tvb_at v' (ring_slot E))) =
       mset (tvb_ivs (tvb_at v (ring_slot E))) + (if le \<noteq> 0 then {#(d, le, Some E)#} else {#})"
  shows "ins_effect E d (intervals E v) (intervals E v') \<Longrightarrow> if le = 0 then \<forall>c. (d, c, None) \<notin># intervals E v else (d, le, None) \<in># intervals E v"
    and "del_effect E d (intervals E v) (intervals E v') \<Longrightarrow> le \<noteq> 0 \<and> (d, le, None) \<in># intervals E v"
proof -
  let ?new = "if le \<noteq> 0 then {#(d, le, Some E)#} else {#}"
  have F: "filter_mset (ends_at E) (intervals E v') = filter_mset (ends_at E) (intervals E v) + ?new"
    unfolding ended_intervals [OF inv(1)] ended_intervals [OF inv(2)] by (rule add)
  have closing: "le \<noteq> 0 \<and> (d, le, None) \<in># intervals E v"
    if "intervals E v = add_mset (d, c, None) J" "filter_mset (ends_at E) (intervals E v') = add_mset (d, c, Some E) (filter_mset (ends_at E) J)" for c J
    using F that by (auto simp: ends_at_def split: if_splits)
  show "if le = 0 then \<forall>c. (d, c, None) \<notin># intervals E v else (d, le, None) \<in># intervals E v"
    if "ins_effect E d (intervals E v) (intervals E v')"
    using that unfolding ins_effect_def
  proof (elim disjE exE conjE)
    fix c J assume "intervals E v = add_mset (d, c, None) J" "intervals E v' = add_mset (d, E, None) (add_mset (d, c, Some E) J)"
    then show ?thesis using closing [of c J] by (simp add: ends_at_def)
  next
    assume none: "\<forall>c. (d, c, None) \<notin># intervals E v" and new: "intervals E v' = add_mset (d, E, None) (intervals E v)"
    then have "?new = {#}" using F by (simp add: ends_at_def)
    then show ?thesis using none by (simp split: if_splits)
  qed
  show "le \<noteq> 0 \<and> (d, le, None) \<in># intervals E v" if "del_effect E d (intervals E v) (intervals E v')"
    using that unfolding del_effect_def
  proof (elim exE conjE)
    fix c J assume "intervals E v = add_mset (d, c, None) J" "intervals E v' = add_mset (d, c, Some E) J"
    then show ?thesis using closing [of c J] by (simp add: ends_at_def)
  qed
qed

section \<open>Reading the open epoch early\<close>

text \<open>
  The destinations written in epoch E, and the invariant: the versions that began after the published epoch
  E0 belong to them, and if none of them was written twice the discrepancies of \<open>Pending_Reads\<close> make up the
  difference between the snapshot of a reader and the edges of E.
\<close>

definition written_dsts :: "epoch_t \<Rightarrow> log \<Rightarrow> dst_t list" where
  "written_dsts E lg = map (vop_dst \<circ> snd) (filter (\<lambda>e. fst e = E) lg)"

definition shown_early :: "epoch_t \<Rightarrow> epoch_t \<Rightarrow> vertex_edges \<Rightarrow> log \<Rightarrow> bool" where
  "shown_early E0 E v lg \<longleftrightarrow>
     (\<forall>d c. (d, c, None) \<in># intervals E v \<longrightarrow> E0 < c \<longrightarrow> d \<in> set (written_dsts E lg)) \<and>
     (distinct (written_dsts E lg) \<longrightarrow> (\<forall>q. E0 \<le> q \<longrightarrow> q < E \<longrightarrow>
        mset_set (edges_at lg q) + early_inserts (tvb_at v (ring_slot E)) =
          mset_set (edges_at lg E) + hidden_deletes q (tvb_at v (ring_slot E))))"

lemma early_reads:
  assumes h: "hist_inv E N v lg" and act: "active_ok E v" and early: "shown_early E0 E v lg" "distinct (written_dsts E lg)"
    and q: "E0 \<le> q" "q < E"
  shows "\<exists>xs. for_each_edge Fine (Composite q INTRA_MAX) v = Inr xs \<and> mset (map ew_e xs) = mset_set (edges_at lg E)"
proof -
  have p: "pend_inv E N v" and snap: "image_mset fst (filter_mset (alive_at q) (intervals E v)) = mset_set (edges_at lg q)"
    using h by (auto simp: hist_inv_def snapshots_def)
  obtain xs where xs: "for_each_edge Fine (Composite q INTRA_MAX) v = Inr xs"
    "mset (map ew_e xs) + hidden_deletes q (tvb_at v (ring_slot E)) = mset_set (edges_at lg q) + early_inserts (tvb_at v (ring_slot E))"
    using pend_reads [OF p act q(2)] snap by auto
  then have "mset (map ew_e xs) + hidden_deletes q (tvb_at v (ring_slot E)) = mset_set (edges_at lg E) + hidden_deletes q (tvb_at v (ring_slot E))"
    using early q by (simp add: shown_early_def)
  then show ?thesis using xs(1) by simp
qed

text \<open>A write of a destination that the epoch has not written before.\<close>

lemma edges_at_before: "q < E \<Longrightarrow> edges_at (lg @ [(E, op)]) q = edges_at lg q"
  by (cases op) (auto simp: edges_at_snoc)

lemma shown_early_insert:
  assumes h: "hist_inv E N v lg" and inv: "pend_inv E N' v'" and early: "shown_early E0 E v lg" and d: "\<not> is_delete d"
    and w: "written E d k v v'" and eff: "ins_effect E d (intervals E v) (intervals E v')"
  shows "shown_early E0 E v' (lg @ [(E, VInsert d wt)])"
proof -
  let ?t = "tvb_at v (ring_slot E)" and ?t' = "tvb_at v' (ring_slot E)" and ?lg = "lg @ [(E, VInsert d wt)]"
  have p: "pend_inv E N v" "iv_bounded E (intervals E v)" "snapshots (intervals E v) lg" using h by (auto simp: hist_inv_def)
  have tv: "tvbs_ok E N v" "tvbs_ok E N' v'" using p(1) inv by (auto simp: pend_inv_def)
  obtain le where A: "mset (tvb_ivs ?t') = mset (tvb_ivs ?t) + (if le \<noteq> 0 then {#(strip_del d, le, Some E)#} else {#})"
    "early_inserts ?t' = early_inserts ?t + (if le = 0 then {#d#} else {#})"
    "\<And>q. hidden_deletes q ?t' = hidden_deletes q ?t + (if is_delete d \<and> le \<le> q then {#strip_del d#} else {#})"
    using written_adds [OF w tv] by metis
  have le: "if le = 0 then \<forall>c. (d, c, None) \<notin># intervals E v else (d, le, None) \<in># intervals E v"
    using displaced_version(1) [OF p(1) inv _ eff] A(1) by (simp add: strip_del_id [OF d])
  then have le0: "le = 0 \<longleftrightarrow> d \<notin> edges_at lg E" using open_iff_live [OF p(2,3), of E d] by (auto split: if_splits)
  have dsts: "written_dsts E ?lg = written_dsts E lg @ [d]" by (simp add: written_dsts_def)
  have "d' \<in> set (written_dsts E ?lg)" if "(d', c, None) \<in># intervals E v'" "E0 < c" for d' c
    using eff early that by (auto simp: ins_effect_def shown_early_def dsts)
  moreover have "mset_set (edges_at ?lg q) + early_inserts ?t' = mset_set (edges_at ?lg E) + hidden_deletes q ?t'"
    if dist: "distinct (written_dsts E ?lg)" and q: "E0 \<le> q" "q < E" for q
  proof -
    have "mset_set (edges_at lg q) + early_inserts ?t = mset_set (edges_at lg E) + hidden_deletes q ?t"
      using early dist q by (simp add: shown_early_def dsts)
    moreover have "mset_set (insert d (edges_at lg E)) = mset_set (edges_at lg E) + (if le = 0 then {#d#} else {#})"
      using le0 by (simp add: insert_absorb)
    moreover have "edges_at ?lg q = edges_at lg q" "edges_at ?lg E = insert d (edges_at lg E)"
      by (rule edges_at_before [OF q(2)]) (simp add: edges_at_snoc)
    ultimately show ?thesis using d unfolding A by simp
  qed
  ultimately show ?thesis by (simp add: shown_early_def)
qed

lemma shown_early_delete:
  assumes h: "hist_inv E N v lg" and inv: "pend_inv E N' v'" and early: "shown_early E0 E v lg" and d: "\<not> is_delete d"
    and w: "written E (d OR DELETION_MASK) k v v'" and eff: "del_effect E d (intervals E v) (intervals E v')"
  shows "shown_early E0 E v' (lg @ [(E, VDelete d wt)])"
proof -
  let ?t = "tvb_at v (ring_slot E)" and ?t' = "tvb_at v' (ring_slot E)" and ?lg = "lg @ [(E, VDelete d wt)]"
  have p: "pend_inv E N v" "iv_bounded E (intervals E v)" "snapshots (intervals E v) lg" using h by (auto simp: hist_inv_def)
  have tv: "tvbs_ok E N v" "tvbs_ok E N' v'" using p(1) inv by (auto simp: pend_inv_def)
  have e: "is_delete (d OR DELETION_MASK)" "strip_del (d OR DELETION_MASK) = d" by (simp_all add: strip_del_id [OF d])
  obtain le where A: "mset (tvb_ivs ?t') = mset (tvb_ivs ?t) + (if le \<noteq> 0 then {#(d, le, Some E)#} else {#})"
    "early_inserts ?t' = early_inserts ?t + (if le = 0 then {#d OR DELETION_MASK#} else {#})"
    "\<And>q. hidden_deletes q ?t' = hidden_deletes q ?t + (if le \<le> q then {#d#} else {#})"
  proof (rule written_adds [OF w tv])
    fix le
    assume "mset (tvb_ivs ?t') = mset (tvb_ivs ?t) + (if le \<noteq> 0 then {#(strip_del (d OR DELETION_MASK), le, Some E)#} else {#})"
      "early_inserts ?t' = early_inserts ?t + (if le = 0 then {#d OR DELETION_MASK#} else {#})"
      "\<And>q. hidden_deletes q ?t' =
         hidden_deletes q ?t + (if is_delete (d OR DELETION_MASK) \<and> le \<le> q then {#strip_del (d OR DELETION_MASK)#} else {#})"
    then show thesis by (intro that [of le]) (simp_all only: e simp_thms)
  qed
  have le: "le \<noteq> 0" "(d, le, None) \<in># intervals E v" using displaced_version(2) [OF p(1) inv A(1) eff] by blast+
  then have live: "d \<in> edges_at lg E" using open_iff_live [OF p(2,3), of E d] by auto
  have old: "le \<le> E0" if "d \<notin> set (written_dsts E lg)" using early le(2) that by (auto simp: shown_early_def not_less [symmetric])
  have dsts: "written_dsts E ?lg = written_dsts E lg @ [d]" by (simp add: written_dsts_def)
  have "d' \<in> set (written_dsts E ?lg)" if "(d', c, None) \<in># intervals E v'" "E0 < c" for d' c
    using eff early that by (auto simp: del_effect_def shown_early_def dsts)
  moreover have "mset_set (edges_at ?lg q) + early_inserts ?t' = mset_set (edges_at ?lg E) + hidden_deletes q ?t'"
    if dist: "distinct (written_dsts E ?lg)" and q: "E0 \<le> q" "q < E" for q
  proof -
    have "mset_set (edges_at lg q) + early_inserts ?t = mset_set (edges_at lg E) + hidden_deletes q ?t"
      using early dist q by (simp add: shown_early_def dsts)
    moreover have "le \<le> q" using old dist q(1) by (simp add: dsts)
    moreover have "mset_set (edges_at lg E) = add_mset d (mset_set (edges_at lg E - {d}))"
      using live by (simp add: mset_set.remove)
    moreover have "edges_at ?lg q = edges_at lg q" "edges_at ?lg E = edges_at lg E - {d}"
      by (rule edges_at_before [OF q(2)]) (simp add: edges_at_snoc)
    ultimately show ?thesis using le(1) unfolding A by simp
  qed
  ultimately show ?thesis by (simp add: shown_early_def)
qed

lemma apply_op_early:
  assumes h: "hist_inv E N v lg" and legal: "legal_write (op, txn, oldest, junk) v d lg" and N: "N + 2 < 2 ^ 31"
    and r: "apply_op self E (op, txn, oldest, junk) v d = Inr (v', txn', d', True)" and early: "shown_early E0 E v lg"
  shows "shown_early E0 E v' (lg @ [(E, op)])"
proof -
  have p: "pend_inv E N v" "\<not> ve_locked v" "\<not> is_delete (vop_dst op)" "\<not> has_tmp oldest" "lookup_safe junk oldest v (vop_dst op)"
    "tx_threadid txn < length (vd_vb_vector d)" "next_intra txn d \<noteq> INTRA_MAX"
    using h legal by (auto simp: hist_inv_def legal_write_def)
  show ?thesis
  proof (cases op)
    case (VInsert dst w)
    then have run: "insert_edge_block junk oldest self (dst, w) E txn v d = Inr (v', txn', d', True)" using r by (simp add: apply_op_def)
    have o: "insert_outcome E (N + 2) dst v v' True"
      using insert_correct [OF p(1,2) N _ p(4) _ p(6,7), of dst junk self w] p(3,5) run VInsert by auto
    have wr: "written E dst (next_intra txn d) v v'"
      using insert_written [OF p(1) N _ p(4) _ p(6,7) run] p(3,5) VInsert by simp
    have eff: "pend_inv E (N + 2) v'" "ins_effect E dst (intervals E v) (intervals E v')" using o by (simp_all add: insert_outcome_def)
    show ?thesis using shown_early_insert [OF h eff(1) early _ wr eff(2)] p(3) VInsert by simp
  next
    case (VDelete dst w)
    then have run: "delete_edge_block junk oldest self (dst, w) E txn v d = Inr (v', txn', d', True)" using r by (simp add: apply_op_def)
    have "iv_bounded E (intervals E v)" "snapshots (intervals E v) lg" "dst \<in> edges_at lg E"
      using h legal edges_at_late [of E lg E] by (auto simp: hist_inv_def legal_write_def VDelete)
    then obtain c where "(dst, c, None) \<in># intervals E v" using open_iff_live [of E "intervals E v" lg E dst] by auto
    then have dl: "deletable v dst" by (rule live_deletable [OF p(1)])
    obtain v1 txn1 d1 ok where "delete_edge_block junk oldest self (dst, w) E txn v d = Inr (v1, txn1, d1, ok)"
      "delete_outcome E (N + 2) dst v v1 ok"
      using delete_correct [OF p(1,2) N _ p(4) _ p(6,7) dl, of junk self w] p(3,5) VDelete by auto
    then have o: "delete_outcome E (N + 2) dst v v' True" using run by simp
    have wr: "written E (dst OR DELETION_MASK) (next_intra txn d) v v'"
      using delete_written [OF p(1) N _ p(4) _ p(6,7) dl run] p(3,5) VDelete by simp
    have eff: "pend_inv E (N + 2) v'" "del_effect E dst (intervals E v) (intervals E v')" using o by (simp_all add: delete_outcome_def)
    show ?thesis using shown_early_delete [OF h eff(1) early _ wr eff(2)] p(3) VDelete by simp
  qed
qed

section \<open>The store\<close>

definition all_early :: "epoch_t \<Rightarrow> epoch_t \<Rightarrow> graph_store \<Rightarrow> logs \<Rightarrow> bool" where
  "all_early E0 E g L \<longleftrightarrow> (\<forall>u < gs_node_num g. \<forall>v. GetBlockByIndex g u = Inr v \<longrightarrow> shown_early E0 E v (L u))"

lemma shown_early_unlock: "shown_early E0 E (unleashReadLock v) lg = shown_early E0 E v lg"
  by (simp add: unleashReadLock_def shown_early_def tvb_at_def)

lemma store_write_early:
  assumes inva: "store_inv E B H g d L" and legal: "legal_swrite w (g, txn, d) L" and free: "fst w \<notin> H" and B: "B + 2 < 2 ^ 31"
    and txn: "tx_write_only txn" "tx_epoch txn = E" and early: "all_early E0 E g L"
    and r: "store_write w (g, txn, d) = Inr (g', txn', d')"
  shows "all_early E0 E g' (add_log E w L)"
proof -
  obtain u op oldest junk where w: "w = (u, op, oldest, junk)" by (cases w) auto
  obtain v where u: "u < gs_node_num g" and v: "GetBlockByIndex g u = Inr v" and lw: "legal_write (op, txn, oldest, junk) v d (L u)"
    using legal by (auto simp: legal_swrite_def w split: sum.splits)
  obtain N where N: "N \<le> B" "hist_inv E N v (L u)" using store_invD(5) [OF inva u v] free by (auto simp: w vertex_at_def)
  have N2: "N + 2 < 2 ^ 31" using N(1) B by simp
  obtain v' where op: "apply_op u E (op, txn, oldest, junk) v d = Inr (v', txn', d', True)" "SetBlockByIndex u v' g = Inr g'"
    using apply_op_inv [OF N(2) lw N2, of u] r v txn by (auto simp: w store_write_apply blind_write_def bind_res_Inr_iff)
  note G = SetBlock_Get [OF op(2)]
  have new: "shown_early E0 E v' (L u @ [(E, op)])"
    using apply_op_early [OF N(2) lw N2 op(1)] early u v by (simp add: all_early_def)
  show ?thesis unfolding all_early_def
  proof (intro allI impI)
    fix i x assume "i < gs_node_num g'" "GetBlockByIndex g' i = Inr x"
    then show "shown_early E0 E x (add_log E w L i)"
      using new early G by (cases "i = u") (auto simp: all_early_def add_log_def w)
  qed
qed

lemma store_writes_early:
  assumes "store_inv E B H g d L" "legal_swrites E ws (g, txn, d) L" "distinct (map fst ws)" "fst ` set ws \<inter> H = {}"
    "B + 2 * length ws < 2 ^ 31" "tx_write_only txn" "tx_epoch txn = E" "tx_threadid txn < WRITE_THREAD"
    "all_early E0 E g L" "foldR store_write ws (g, txn, d) = Inr (g', txn', d')"
  shows "all_early E0 E g' (fold (add_log E) ws L)"
  using assms
proof (induction ws arbitrary: B H g txn d L)
  case (Cons w ws)
  obtain g1 txn1 d1 where r: "store_write w (g, txn, d) = Inr (g1, txn1, d1)" "store_inv E (B + 2) (insert (fst w) H) g1 d1 (add_log E w L)"
    "writer_kept txn txn1" using store_write_step [OF Cons.prems(1), of w txn] Cons.prems by auto
  have "all_early E0 E g1 (add_log E w L)"
    using store_write_early [OF Cons.prems(1), of w txn E0 g1 txn1 d1] Cons.prems r(1) by auto
  then have "all_early E0 E g' (fold (add_log E) ws (add_log E w L))"
    using Cons.prems r by (intro Cons.IH [OF r(2)]) (auto simp: writer_kept_def)
  then show ?case by simp
qed simp

lemma unlock_early:
  assumes "all_early E0 E g L" "foldR unlock_block us g = Inr g'"
  shows "all_early E0 E g' L"
  using assms
proof (induction us arbitrary: g)
  case (Cons u us)
  obtain g1 where step: "unlock_block u g = Inr g1" "foldR unlock_block us g1 = Inr g'"
    using Cons.prems(2) by (auto simp: bind_res_Inr_iff)
  then obtain v where g1: "GetBlockByIndex g u = Inr v" "SetBlockByIndex u (unleashReadLock v) g = Inr g1"
    by (auto simp: unlock_block_def bind_res_Inr_iff)
  note G = SetBlock_Get [OF g1(2)]
  have "all_early E0 E g1 L" unfolding all_early_def
  proof (intro allI impI)
    fix i x assume "i < gs_node_num g1" "GetBlockByIndex g1 i = Inr x"
    then show "shown_early E0 E x (L i)"
      using Cons.prems(1) G g1(1) by (cases "i = u") (auto simp: all_early_def shown_early_unlock)
  qed
  then show ?case using Cons.IH step(2) by blast
qed simp

lemma run_txn_early:
  assumes inva: "store_inv E B {} g d L" and legal: "legal_txn E t (g, d) L" and B: "B + 2 * length (snd t) < 2 ^ 31"
    and early: "all_early E0 E g L" and r: "run_txn t (g, d) = Inr (g', d')"
  shows "all_early E0 E g' (txn_log E t L)"
proof -
  obtain txn ws where t: "t = (txn, ws)" by (cases t)
  have l: "tx_write_only txn" "tx_epoch txn = E" "tx_threadid txn < WRITE_THREAD" "distinct (map fst ws)"
    "legal_swrites E ws (g, txn, d) L" using legal by (auto simp: legal_txn_def t)
  obtain g1 txn1 d1 txn2 where w: "foldR store_write ws (g, txn, d) = Inr (g1, txn1, d1)"
    "commit_on_store (g1, txn1, d1) = Inr (g', txn2, d')"
    using r by (auto simp: t run_txn_def bind_res_Inr_iff)
  have "all_early E0 E g1 (fold (add_log E) ws L)"
    using store_writes_early [OF inva l(5,4) _ _ l(1-3) early w(1)] B by (simp add: t)
  moreover obtain ebs where "foldR unlock_block ebs g1 = Inr g'"
    using w(2) by (auto simp: commit_on_store_def bind_res_Inr_iff split: prod.splits)
  ultimately show ?thesis using unlock_early by (simp add: t txn_log_def)
qed

lemma run_txns_early:
  assumes "store_inv E B {} g d L" "legal_txns E txns (g, d) L" "B + 2 * txn_writes txns < 2 ^ 31"
    "all_early E0 E g L" "foldR run_txn txns (g, d) = Inr (g', d')"
  shows "all_early E0 E g' (fold (txn_log E) txns L)"
  using assms
proof (induction txns arbitrary: B g d L)
  case (Cons t txns)
  obtain g1 d1 where r: "run_txn t (g, d) = Inr (g1, d1)" "store_inv E (B + 2 * length (snd t)) {} g1 d1 (txn_log E t L)"
    using run_txn_step [OF Cons.prems(1), of t] Cons.prems(2,3) by (auto simp: txn_writes_def)
  have "all_early E0 E g1 (txn_log E t L)"
    using run_txn_early [OF Cons.prems(1) _ _ Cons.prems(4) r(1)] Cons.prems(2,3) by (simp add: txn_writes_def)
  then have "all_early E0 E g' (fold (txn_log E) txns (txn_log E t L))"
    using Cons.prems r by (intro Cons.IH [OF r(2)]) (auto simp: txn_writes_def)
  then show ?case by simp
qed simp

text \<open>Before the first write of the epoch.\<close>

lemma rest_early:
  assumes rest: "store_rest E0 B g L" and E: "E0 < E" "\<not> has_tmp E"
  shows "all_early E0 E g L"
  unfolding all_early_def
proof (intro allI impI)
  fix u v assume u: "u < gs_node_num g" and v: "GetBlockByIndex g u = Inr v"
  obtain N where r: "rest_inv E0 N v (L u)" using rest u v unfolding store_rest_def by fastforce
  have ivs: "intervals E v = quiet_intervals v" "iv_bounded E0 (quiet_intervals v)" and lb: "log_bounded E0 (L u)"
    using r quiet_pend(2) [OF _ E] by (auto simp: rest_inv_def)
  have none: "filter (\<lambda>e. fst e = E) (L u) = []" using lb E(1) by (auto simp: filter_empty_conv log_bounded_def)
  have "tmp_entry (tvb_at v (ring_slot E)) = []" using r by (simp add: rest_inv_def quiet_inv_def)
  then have live: "tvb_live (tvb_at v (ring_slot E)) = []" by (simp add: tvb_live_def)
  have at: "edges_at (L u) q = replay (map snd (L u)) {}" if "E0 \<le> q" for q by (rule edges_at_late [OF lb that])
  moreover have "E0 \<le> E" using E(1) by (rule less_imp_le)
  moreover have "\<not> E0 < c" if "(d, c, None) \<in># intervals E v" for d c using ivs that by (auto simp: iv_bounded_def not_less)
  ultimately show "shown_early E0 E v (L u)"
    using none by (auto simp: shown_early_def early_inserts_def hidden_deletes_def live written_dsts_def)
qed

text \<open>
  C36: Epochs show before they are published. After any published history, let the transactions of the next epoch E run
  and commit, and let none of them write a destination of vertex u that another one of E has written.
  Although E is not published, a reader of the last published epoch, or of any epoch from there up to E,
  finds at u the edges that replaying the writes of E leaves: what E inserts is there, what it deletes is
  gone. The snapshot of a reader that is registered with its timestamp changes under it.
\<close>

theorem unpublished_epoch_shows_early:
  assumes "\<forall>pool \<in> set pools. length pool = 2 * TMPNUM" "new_vertices pools (GraphStore_new c) = Inr (g0, ids)"
    and "\<And>t. transform_order t (order t)" "legal_store order 0 eps g0 (\<lambda>_. [])" "run_store order eps g0 = Inr g"
    and "last (0 # map fst eps) < E" "\<not> has_tmp E" "legal_txns E txns (g, VBData_new E) (store_logs eps)"
    and "2 * store_writes_num eps + 2 * txn_writes txns < 2 ^ 31"
  shows "\<exists>g' d'. foldR run_txn txns (g, VBData_new E) = Inr (g', d') \<and>
    (\<forall>u < length pools. distinct (written_dsts E (fold (txn_log E) txns (store_logs eps) u)) \<longrightarrow>
       (\<forall>q. last (0 # map fst eps) \<le> q \<and> q < E \<longrightarrow>
          (\<exists>v xs. locked_block g' u = Inr v \<and> for_each_edge Fine (Composite q INTRA_MAX) v = Inr xs \<and>
             mset (map ew_e xs) = mset_set (edges_at (fold (txn_log E) txns (store_logs eps) u) E))))"
proof -
  let ?E0 = "last (0 # map fst eps)" and ?B = "2 * store_writes_num eps + 2 * txn_writes txns"
  let ?L = "fold (txn_log E) txns (store_logs eps)"
  have small: "2 * store_writes_num eps < 2 ^ 31" using assms(9) by simp
  have g: "gs_node_num g = length pools" "store_rest ?E0 (2 * store_writes_num eps) g (store_logs eps)"
    by (rule run_store_created [OF assms(1-4) small]; use assms(5) in simp)+
  note start = rest_next_epoch [OF g(2) assms(6,7)]
  obtain g' d' where r: "foldR run_txn txns (g, VBData_new E) = Inr (g', d')" "store_inv E ?B {} g' d' ?L" "gs_node_num g' = gs_node_num g"
    using run_txns_step [OF start assms(8,9)] by blast
  have early: "all_early ?E0 E g' ?L" by (rule run_txns_early [OF start assms(8,9) rest_early [OF g(2) assms(6,7)] r(1)])
  have "\<exists>v xs. locked_block g' u = Inr v \<and> for_each_edge Fine (Composite q INTRA_MAX) v = Inr xs \<and> mset (map ew_e xs) = mset_set (edges_at (?L u) E)"
    if u: "u < length pools" and dist: "distinct (written_dsts E (?L u))" and q: "?E0 \<le> q" "q < E" for u q
  proof -
    have u': "u < gs_node_num g'" using u g(1) r(3) by simp
    obtain v where v: "GetBlockByIndex g' u = Inr v" using store_invD(6) [OF r(2) u'] by blast
    then have va: "vertex_at E ?B v (?L u)" "\<not> ve_locked v" using store_invD(5) [OF r(2) u' v] by auto
    then obtain N where h: "hist_inv E N v (?L u)" and act: "active_ok E v" by (auto simp: vertex_at_def)
    have "shown_early ?E0 E v (?L u)" using early u' v by (simp add: all_early_def)
    from early_reads [OF h act this dist q] show ?thesis using v va(2) by (simp add: locked_block_def getReadLock_def)
  qed
  then show ?thesis by (intro exI [of _ g'] exI [of _ d'] conjI r(1) allI impI) (elim conjE, assumption)
qed

text \<open>
  The open epoch of \<open>Pending_Reads\<close> updates the edge from 0 to 2 and inserts the one to 4: a reader of epoch 2,
  whose snapshot has the edge to 2 only, finds both.
\<close>

theorem unpublished_epoch_shows_early_witness:
  "\<exists>g' d' v xs. foldR run_txn open_stxns (sample_store_end, VBData_new 3) = Inr (g', d') \<and> locked_block g' 0 = Inr v \<and>
     for_each_edge Fine (Composite 2 INTRA_MAX) v = Inr xs \<and> mset (map ew_e xs) = {#2, 4#}"
proof -
  have fits: "\<forall>pool \<in> set (replicate 3 sample_pool). length pool = 2 * TMPNUM" by (simp add: sample_pool_def TMPNUM_def)
  have num: "2 * store_writes_num sample_store_history + 2 * txn_writes open_stxns < 2 ^ 31"
    by (simp add: store_writes_num_def txn_writes_def sample_store_history_def sample_stxn_def open_stxns_def)
  have run: "run_store stable_order sample_store_history sample_store_start = Inr sample_store_end"
    using sample_open_facts(1) by (simp add: sample_store_end_def)
  have ep: "last (0 # map fst sample_store_history) < (3 :: epoch_t)" "\<not> has_tmp (3 :: epoch_t)"
    "last (0 # map fst sample_store_history) \<le> (2 :: epoch_t)" by code_simp+
  have lg: "fold (txn_log 3) open_stxns (store_logs sample_store_history) 0 =
      [(1, VInsert 1 5), (1, VInsert 2 7), (2, VDelete 1 0), (3, VInsert 2 9), (3, VInsert 4 1)]"
    by (simp add: store_logs_def epoch_logs_def txn_log_def add_log_def sample_store_history_def sample_stxn_def sample_swrite_def open_stxns_def)
  have dist: "distinct (written_dsts 3 (fold (txn_log 3) open_stxns (store_logs sample_store_history) 0))"
    unfolding lg by (simp add: written_dsts_def)
  have at: "edges_at (fold (txn_log 3) open_stxns (store_logs sample_store_history) 0) 3 = {2, 4}"
    unfolding lg by (auto simp: edges_at_def word_le_nat_alt)
  have u: "0 < length (replicate 3 sample_pool)" and q: "(2 :: epoch_t) < 3" by simp_all
  from unpublished_epoch_shows_early [OF fits sample_store_created stable_order_ok sample_store_legal run ep(1,2) sample_open_facts(2) num]
  obtain g' d' v xs where "foldR run_txn open_stxns (sample_store_end, VBData_new 3) = Inr (g', d')" "locked_block g' 0 = Inr v"
    "for_each_edge Fine (Composite 2 INTRA_MAX) v = Inr xs" "mset (map ew_e xs) = mset_set {2, 4}"
    using u dist conjI [OF ep(3) q] unfolding at [symmetric] by blast
  then show ?thesis by auto
qed

end
