(* ===== verification/Sorted_Scan.thy ===== *)
theory Sorted_Scan
  imports Vertex_Merge Vertex_Reads
begin

text \<open>
  \<open>for_each_edge_sorted\<close>, the reading loop of label propagation: which edges it visits. It merges the primary
  array with the visible part of the buffer, and tests the edges of the array only while that part is
  not exhausted.
\<close>

text \<open>What a reader of epoch \<open>q\<close> is meant to visit.\<close>

definition shown_at :: "epoch_t \<Rightarrow> edge_with_index \<Rightarrow> bool" where
  "shown_at q x \<longleftrightarrow> \<not> is_delete (ew_e x) \<and> IsVisibleAt x q"

section \<open>The merge loop\<close>

text \<open>The loop passes an edge of the array unseen when no edge of the buffer is left.\<close>

definition passes :: "epoch_t \<Rightarrow> edge_with_index list \<Rightarrow> edge_with_index list \<Rightarrow> edge_with_index \<Rightarrow> bool" where
  "passes q start buf x \<longleftrightarrow>
     shown_at q x \<or> (\<forall>b \<in> set buf. \<exists>a \<in> set start. shown_at q a \<and> ew_e b < ew_e a \<and> entry_key a < entry_key x)"

lemma shown_key: "shown_at q x \<Longrightarrow> entry_key x = ew_e x"
  by (simp add: shown_at_def entry_key_def strip_del_id)

lemma passes_dead:
  assumes "\<not> shown_at q a" "sorted_wrt (<) (map entry_key (a # as))" "x \<in> set as"
  shows "passes q (a # as) buf x \<longleftrightarrow> passes q as buf x"
  using assms by (auto simp: passes_def)

lemma passes_first:
  assumes "sorted_wrt (<) (map entry_key (a # as))"
  shows "passes q (a # as) buf a \<longleftrightarrow> shown_at q a \<or> buf = []"
proof -
  have "\<not> entry_key x < entry_key a" if "x \<in> set (a # as)" for x using assms that by auto
  then have "(\<exists>x \<in> set (a # as). shown_at q x \<and> ew_e b < ew_e x \<and> entry_key x < entry_key a) = False" for b by blast
  then show ?thesis unfolding passes_def by (cases buf) auto
qed

lemma passes_small:
  assumes "shown_at q a" "\<forall>b \<in> set buf. ew_e a < ew_e b"
  shows "passes q (a # as) buf x \<longleftrightarrow> passes q as buf x"
  using assms by (fastforce simp: passes_def)

lemma passes_large:
  assumes "shown_at q a" "ew_e b < ew_e a" "sorted_wrt (<) (map entry_key (a # as))" "x \<in> set (a # as)"
  shows "passes q (a # as) (b # bs) x \<longleftrightarrow> passes q (a # as) bs x"
  using assms by (auto simp: passes_def)

text \<open>The destinations in the way of the loop differ, so no edge is suppressed as a repetition.\<close>

lemma sorted_scan_set:
  assumes "sorted_wrt (<) (map entry_key start)" "sorted_wrt (<) (map ew_e buf)" "\<forall>b \<in> set buf. shown_at q b"
    and "distinct (map ew_e (start @ buf))" "prev \<notin> ew_e ` set (start @ buf)"
  shows "set (sorted_scan q start buf prev) = set buf \<union> {x \<in> set start. passes q start buf x} \<and>
    distinct (map ew_e (sorted_scan q start buf prev))"
  using assms
proof (induction q start buf prev rule: sorted_scan.induct)
  case (1 q start buf prev)
  note IH = "1.IH" [OF refl refl refl]
  consider (none) "start = []" "buf = []" | (buf) b bs where "start = []" "buf = b # bs" | (start) a as where "start = a # as" "buf = []"
    | (both) a as b bs where "start = a # as" "buf = b # bs" by (cases start; cases buf) auto
  then show ?case
  proof cases
    case none
    then show ?thesis by (simp add: sorted_scan.simps)
  next
    case buf
    have "sorted_scan q start buf prev = b # sorted_scan q [] bs (ew_e b)"
      using "1.prems"(5) buf by (subst sorted_scan.simps) auto
    then show ?thesis using IH(1) [OF buf(1,2)] "1.prems" buf by (auto simp: image_Un)
  next
    case start
    have "sorted_scan q start buf prev = a # sorted_scan q as [] (ew_e a)"
      using "1.prems"(5) start by (subst sorted_scan.simps) auto
    then show ?thesis using IH(2) [OF start(1,2)] "1.prems" start by (auto simp: passes_def image_Un)
  next
    case both
    show ?thesis
    proof (cases "shown_at q a")
      case dead: False
      then have "sorted_scan q start buf prev = sorted_scan q as buf prev"
        using both by (subst sorted_scan.simps) (auto simp: shown_at_def)
      moreover have "set (sorted_scan q as buf prev) = set buf \<union> {x \<in> set as. passes q as buf x} \<and> distinct (map ew_e (sorted_scan q as buf prev))"
        using IH(3) [OF both] dead "1.prems" both by (auto simp: shown_at_def image_Un)
      moreover have "{x \<in> set start. passes q start buf x} = {x \<in> set as. passes q as buf x}"
        using passes_dead [OF dead] passes_first [of a as q buf] dead "1.prems"(1) both by auto
      ultimately show ?thesis by simp
    next
      case live: True
      then have l: "\<not> (is_delete (ew_e a) \<or> \<not> IsVisibleAt a q)" by (simp add: shown_at_def)
      show ?thesis
      proof (cases "ew_e a < ew_e b")
        case less: True
        have "sorted_scan q start buf prev = a # sorted_scan q as buf (ew_e a)"
          using "1.prems"(5) both l less by (subst sorted_scan.simps) auto
        moreover have "set (sorted_scan q as buf (ew_e a)) = set buf \<union> {x \<in> set as. passes q as buf x} \<and>
            distinct (map ew_e (sorted_scan q as buf (ew_e a)))"
          using IH(4) [OF both l less] "1.prems" both by (auto simp: image_Un)
        moreover have "\<forall>b \<in> set buf. ew_e a < ew_e b" using "1.prems"(2) both less by auto
        then have "{x \<in> set start. passes q start buf x} = insert a {x \<in> set as. passes q as buf x}"
          using passes_small [OF live, of buf as] both live by (auto simp: passes_def)
        ultimately show ?thesis using "1.prems"(4) both by (auto simp: image_Un)
      next
        case False
        then have less: "ew_e b < ew_e a" using "1.prems"(4) both by (auto simp: image_Un)
        have "sorted_scan q start buf prev = b # sorted_scan q start bs (ew_e b)"
          using "1.prems"(5) both l False by (subst sorted_scan.simps) auto
        moreover have "set (sorted_scan q start bs (ew_e b)) = set bs \<union> {x \<in> set start. passes q start bs x} \<and>
            distinct (map ew_e (sorted_scan q start bs (ew_e b)))"
          using IH(5) [OF both l False] "1.prems" both by (auto simp: image_Un)
        moreover have "{x \<in> set start. passes q start buf x} = {x \<in> set start. passes q start bs x}"
          using passes_large [OF live less] "1.prems"(1) both by auto
        ultimately show ?thesis using "1.prems"(4) both by (auto simp: image_Un)
      qed
    qed
  qed
qed

section \<open>The reading loop\<close>

text \<open>
  C38: The edges \<open>for_each_edge_sorted\<close> visits for epoch q, each destination once: those of the buffer that
  are live and created by q; and those of the primary array that are, or that come after the buffer has
  run out, that is, have a live and visible edge of the array between them and every visible edge of the
  buffer. The latter may be deleted or later than q; with an empty buffer the whole array is visited.
  The destination \<open>2^63 - 1\<close> is left out: with the deletion bit it is the mark that the loop starts with.
\<close>

theorem sorted_scan_visits:
  assumes wf: "ve_wf v" and top: "2 ^ 63 - 1 \<notin> ve_keys v"
  shows "set (for_each_edge_sorted q v) =
      {b \<in> fst ` set (tb_cells v). shown_at q b} \<union>
      {x \<in> fst ` set (pa_cells v). shown_at q x \<or>
         (\<forall>b \<in> fst ` set (tb_cells v). shown_at q b \<longrightarrow>
            (\<exists>a \<in> fst ` set (pa_cells v). shown_at q a \<and> ew_e b < ew_e a \<and> entry_key a < entry_key x))} \<and>
    distinct (map ew_e (for_each_edge_sorted q v))"
proof -
  let ?start = "map fst (pa_cells v)" and ?bs = "filter (shown_at q) (map fst (tb_cells v))"
  have key: "ckey = entry_key \<circ> fst" by (auto simp: ckey_def)
  have start: "sorted_wrt (<) (map entry_key ?start)" and tb: "distinct (map entry_key (map fst (tb_cells v)))"
    and apart: "entry_key ` set ?start \<inter> entry_key ` set (map fst (tb_cells v)) = {}"
    using wf unfolding ve_wf_def key by (simp_all add: image_comp)
  have keys: "map ew_e ?bs = map entry_key ?bs" by (auto simp: shown_key)
  have bs: "distinct (map ew_e ?bs)" unfolding keys by (rule distinct_map_filter [OF tb])
  then have sorted: "sorted_wrt (<) (map ew_e (sort_key ew_e ?bs))"
    by (simp add: strict_sorted_iff distinct_map)
  have "distinct (map entry_key (?start @ ?bs))"
    using start apart distinct_map_filter [OF tb, of "shown_at q"] by (auto simp: strict_sorted_iff)
  then have "distinct (map strip_del (map ew_e (?start @ ?bs)))" by (simp add: entry_key_def [abs_def] comp_def)
  then have "distinct (map ew_e (?start @ ?bs))" using distinct_map by blast
  moreover have "mset (map ew_e (?start @ sort_key ew_e ?bs)) = mset (map ew_e (?start @ ?bs))" by simp
  ultimately have all: "distinct (map ew_e (?start @ sort_key ew_e ?bs))" using mset_eq_imp_distinct_iff by blast
  have fresh: "(- 1) \<notin> ew_e ` set (?start @ sort_key ew_e ?bs)"
  proof
    assume "(- 1) \<in> ew_e ` set (?start @ sort_key ew_e ?bs)"
    then obtain x where x: "x \<in> set (?start @ sort_key ew_e ?bs)" "ew_e x = - 1" by (metis imageE)
    then have "x \<in> fst ` (set (pa_cells v) \<union> set (tb_cells v))" by auto
    moreover have "strip_del (- 1) = 2 ^ 63 - 1" by code_simp
    ultimately have "2 ^ 63 - 1 \<in> ve_keys v" using x(2) by (force simp: ve_keys_def ckey_def entry_key_def image_iff)
    then show False using top by simp
  qed
  have shown: "\<forall>b \<in> set (sort_key ew_e ?bs). shown_at q b" by simp
  have run: "for_each_edge_sorted q v = sorted_scan q ?start (sort_key ew_e ?bs) (- 1)"
    by (simp add: for_each_edge_sorted_def shown_at_def [abs_def])
  note scan = sorted_scan_set [OF start sorted shown all fresh, folded run]
  have eq: "set (sort_key ew_e ?bs) = {b \<in> fst ` set (tb_cells v). shown_at q b}" "set ?start = fst ` set (pa_cells v)" by auto
  have ball: "(\<forall>b \<in> set (sort_key ew_e ?bs). P b) \<longleftrightarrow> (\<forall>b \<in> fst ` set (tb_cells v). shown_at q b \<longrightarrow> P b)" for P
    unfolding eq(1) by blast
  show ?thesis using scan unfolding passes_def ball eq(2) unfolding eq(1) .
qed

text \<open>A vertex whose 64 edges, all created at epoch 1, have moved to the primary array: a reader of epoch 0 is shown all of them.\<close>

theorem sorted_scan_visits_witness:
  "\<exists>M v'. merge_tmpev_with_eb \<lparr>ew_e = 0, ew_block = 0, ew_index = 0\<rparr> 5 (full_vertex M) = Inr v' \<and>
     (\<forall>x \<in> set (for_each_edge_sorted 0 v'). \<not> shown_at 0 x) \<and> length (for_each_edge_sorted 0 v') = 64"
proof -
  obtain M where M: "ve_wf (full_vertex M)" using full_vertex_wf by blast
  let ?tb = "tb_cells (full_vertex M)"
  have "tmp_ev (full_vertex M) = TMPNUM" by (simp add: full_vertex_def TMPNUM_def)
  from merge_correct [OF M this, of "\<lparr>ew_e = 0, ew_block = 0, ew_index = 0\<rparr>" 5] obtain v' where v':
    "merge_tmpev_with_eb \<lparr>ew_e = 0, ew_block = 0, ew_index = 0\<rparr> 5 (full_vertex M) = Inr v'" "ve_wf v'" "tmp_ev v' = 0"
    "mset (pa_cells v') = mset (kept 5 (pa_cells (full_vertex M))) + mset ?tb" by blast
  have "pa_cells (full_vertex M) = []" by (simp add: pa_cells_def full_vertex_def VertexEdges_new_def cells_def)
  then have pa: "mset (pa_cells v') = mset ?tb" using v'(4) by (simp add: kept_def)
  have tb: "tb_cells v' = []" using v'(3) by (simp add: tb_cells_def cells_def)
  let ?xs = "map (\<lambda>i. \<lparr>ew_e = of_nat (63 - i), ew_block = 1, ew_index = 0\<rparr>) [0..<64] :: edge_with_index list"
  have "map fst ?tb = map (\<lambda>i. full_buffer ! i) [0..<64]"
    by (simp add: tb_cells_def full_vertex_def cells_def comp_def del: upt_rec_numeral)
  also have "\<dots> = ?xs" by (rule map_cong [OF refl]) (simp add: full_buffer_def del: upt_rec_numeral)
  finally have xs: "map fst ?tb = ?xs" .
  have "list_all (\<lambda>x. ew_block x = 1 \<and> entry_key x < 64) ?xs" by code_simp
  then have "\<forall>x \<in> set (map fst ?tb). ew_block x = 1 \<and> entry_key x < 64" unfolding xs list_all_iff .
  then have "\<forall>c \<in> set ?tb. ew_block (fst c) = 1 \<and> ckey c < 64" by (simp add: ckey_def)
  then have cells: "\<forall>c \<in> set ?tb. ew_block (fst c) = 1 \<and> ckey c \<noteq> 2 ^ 63 - 1" by auto
  have one: "strip_tmp 1 \<noteq> 0" by code_simp
  have late: "\<not> shown_at 0 (fst c)" if "c \<in> set (pa_cells v')" for c
    using that cells mset_eq_setD [OF pa] one by (auto simp: shown_at_def IsVisibleAt_def GetLinkBlock_def)
  have "2 ^ 63 - 1 \<notin> ve_keys v'" using cells mset_eq_setD [OF pa] tb by (auto simp: ve_keys_def)
  from sorted_scan_visits [OF v'(2) this, of 0]
  have scan: "set (for_each_edge_sorted 0 v') = fst ` set (pa_cells v')" "distinct (map ew_e (for_each_edge_sorted 0 v'))"
    by (simp_all add: tb)
  have "distinct (map ckey (pa_cells v'))" using v'(2) by (simp add: ve_wf_def strict_sorted_iff)
  then have "distinct (map fst (pa_cells v'))" by (auto simp: distinct_map inj_on_def ckey_def)
  then have "card (fst ` set (pa_cells v')) = length (pa_cells v')" by (metis distinct_card length_map list.set_map)
  also have "\<dots> = 64" using arg_cong [OF pa, of size] by (simp add: tb_cells_def full_vertex_def)
  finally have "length (for_each_edge_sorted 0 v') = 64"
    using scan distinct_card [of "for_each_edge_sorted 0 v'"] by (auto simp: distinct_map)
  moreover have "\<forall>x \<in> set (for_each_edge_sorted 0 v'). \<not> shown_at 0 x" using late scan(1) by auto
  ultimately show ?thesis using v'(1) by blast
qed

end
