(* ===== verification/Utils.thy ===== *)
theory Utils
  imports Edge_Parsing "HOL-Library.Sublist"
begin

text \<open>
  The pure helper functions of \<open>utils/utils.h\<close> and \<open>utils/utils.cpp\<close>: rounding to a power of two on 32-bit
  integers, intersection of sorted edge arrays, file names and strings. What touches the file system or
  the environment (\<open>file_exists\<close>, \<open>get_home_dir\<close>) is left out.
\<close>

section \<open>round_up_power_of_two\<close>

unbundle bit_operations_syntax

definition smear :: "nat \<Rightarrow> 32 word \<Rightarrow> 32 word" where
  "smear n v = v OR drop_bit n v"

definition round_up_power_of_two :: "32 word \<Rightarrow> 32 word" where
  "round_up_power_of_two v = smear 16 (smear 8 (smear 4 (smear 2 (smear 1 (v - 1))))) + 1"

text \<open>After the steps up to \<open>n\<close> a bit is set if one of the \<open>2 n\<close> bits from it upwards was.\<close>

definition smeared :: "nat \<Rightarrow> 32 word \<Rightarrow> 32 word \<Rightarrow> bool" where
  "smeared n w x \<longleftrightarrow> (\<forall>i. bit x i \<longleftrightarrow> (\<exists>j < n. bit w (i + j)))"

lemma smear_step: "smeared n w x \<Longrightarrow> smeared (2 * n) w (smear n x)"
proof -
  assume s: "smeared n w x"
  have "(\<exists>j < n. bit w (i + j)) \<or> (\<exists>j < n. bit w (i + n + j)) \<longleftrightarrow> (\<exists>j < 2 * n. bit w (i + j))" for i
  proof
    assume "\<exists>j < 2 * n. bit w (i + j)"
    then obtain j where j: "j < 2 * n" "bit w (i + j)" by blast
    show "(\<exists>j < n. bit w (i + j)) \<or> (\<exists>j < n. bit w (i + n + j))"
    proof (cases "j < n")
      case False
      then have "j - n < n" "bit w (i + n + (j - n))" using j by (auto simp: algebra_simps)
      then show ?thesis by blast
    qed (use j in blast)
  next
    assume "(\<exists>j < n. bit w (i + j)) \<or> (\<exists>j < n. bit w (i + n + j))"
    then show "\<exists>j < 2 * n. bit w (i + j)"
    proof
      assume "\<exists>j < n. bit w (i + n + j)"
      then obtain j where "j < n" "bit w (i + n + j)" by blast
      then show ?thesis by (intro exI [of _ "n + j"]) (simp add: algebra_simps)
    next
      assume "\<exists>j < n. bit w (i + j)"
      then obtain j where "j < n" "bit w (i + j)" by blast
      then show ?thesis by (intro exI [of _ j]) simp
    qed
  qed
  then show ?thesis using s by (simp add: smeared_def smear_def bit_or_iff bit_drop_bit_eq add.commute)
qed

lemma smeared_all: "smeared 32 w (smear 16 (smear 8 (smear 4 (smear 2 (smear 1 w)))))"
proof -
  have "smeared 1 w w" by (simp add: smeared_def)
  from smear_step [OF smear_step [OF smear_step [OF smear_step [OF smear_step [OF this]]]]] show ?thesis by simp
qed

lemma smeared_mask:
  assumes "smeared 32 w x" "unat w < 2 ^ k" "k = 0 \<or> 2 ^ (k - 1) \<le> unat w" "k \<le> 32"
  shows "x = mask k"
proof -
  have high: "i < k" if "bit w i" for i
  proof (rule ccontr)
    assume "\<not> i < k"
    then have "(2 :: nat) ^ k \<le> 2 ^ i" by simp
    moreover have "2 ^ i \<le> unat w"
    proof -
      have "bit (unat w) i" using that by (simp add: bit_unsigned_iff)
      then have "odd (unat w div 2 ^ i)" by (simp add: bit_iff_odd)
      then have "unat w div 2 ^ i \<noteq> 0" by (metis even_zero)
      then show ?thesis by (simp add: div_eq_0_iff not_less)
    qed
    ultimately have "2 ^ k \<le> unat w" by (rule le_trans)
    then show False using assms(2) by simp
  qed
  have top: "bit w (k - 1)" if "k \<noteq> 0"
  proof -
    have "unat w div 2 ^ (k - 1) = 1"
    proof (rule div_nat_eqI)
      show "2 ^ (k - 1) * 1 \<le> unat w" using assms(3) that by simp
      have "(2 :: nat) ^ k = 2 ^ (k - 1) * Suc 1" using that by (cases k) simp_all
      then show "unat w < 2 ^ (k - 1) * Suc 1" using assms(2) by simp
    qed
    then have "bit (unat w) (k - 1)" by (simp add: bit_iff_odd)
    then show ?thesis by (simp add: bit_unsigned_iff)
  qed
  have "bit x i \<longleftrightarrow> i < k" for i
  proof
    assume "bit x i"
    then obtain j where "bit w (i + j)" using assms(1) by (auto simp: smeared_def)
    then show "i < k" using high by fastforce
  next
    assume i: "i < k"
    then have "bit w (i + (k - 1 - i))" "k - 1 - i < 32" using top assms(4) by auto
    then show "bit x i" using assms(1) unfolding smeared_def by blast
  qed
  then show ?thesis using assms(4) by (intro bit_word_eqI) (auto simp: bit_mask_iff)
qed

lemma power_bracket: "\<exists>k. n < 2 ^ k \<and> (k = 0 \<or> 2 ^ (k - 1) \<le> n)" for n :: nat
proof -
  let ?k = "LEAST k. n < 2 ^ k"
  have ex: "n < 2 ^ n" by (rule less_exp)
  then have "n < 2 ^ ?k" by (rule LeastI)
  moreover have "?k = 0 \<or> 2 ^ (?k - 1) \<le> n"
    using not_less_Least [of "?k - 1" "\<lambda>k. n < 2 ^ k"] by (cases "?k = 0") (auto simp: not_less)
  ultimately show ?thesis by blast
qed

text \<open>The least power of two that is not smaller, up to \<open>2^31\<close>; above it and for 0 the result wraps to 0.\<close>

lemma round_up_least:
  assumes "0 < v" "unat v \<le> 2 ^ 31"
  shows "\<exists>k \<le> 31. round_up_power_of_two v = 2 ^ k \<and> unat v \<le> 2 ^ k \<and> (\<forall>j. unat v \<le> 2 ^ j \<longrightarrow> k \<le> j)"
proof -
  have "v \<noteq> 0" using assms(1) by auto
  then have v: "unat (v - 1) = unat v - 1" "0 < unat v" using assms(1) by (simp_all add: unat_minus_one word_less_nat_alt)
  obtain k where k: "unat (v - 1) < 2 ^ k" "k = 0 \<or> 2 ^ (k - 1) \<le> unat (v - 1)" using power_bracket by blast
  have "k \<le> 31"
  proof (rule ccontr)
    assume "\<not> k \<le> 31"
    then have "(2 :: nat) ^ 31 \<le> 2 ^ (k - 1)" by (intro power_increasing) auto
    then show False using k(2) \<open>\<not> k \<le> 31\<close> v assms(2) by auto
  qed
  moreover from this have "round_up_power_of_two v = mask k + 1"
    using smeared_mask [OF smeared_all k] by (simp add: round_up_power_of_two_def)
  then have "round_up_power_of_two v = 2 ^ k" by (simp add: mask_eq_exp_minus_1)
  moreover have "k \<le> j" if "unat v \<le> 2 ^ j" for j
  proof (rule ccontr)
    assume "\<not> k \<le> j"
    then have "(2 :: nat) ^ j \<le> 2 ^ (k - 1)" by (intro power_increasing) auto
    moreover have "2 ^ (k - 1) \<le> unat (v - 1)" using k(2) \<open>\<not> k \<le> j\<close> by auto
    ultimately have "2 ^ j \<le> unat (v - 1)" by (rule le_trans)
    then show False using that v by simp
  qed
  ultimately show ?thesis using k(1) v by auto
qed

lemma round_up_wraps:
  assumes "v = 0 \<or> 2 ^ 31 < unat v"
  shows "round_up_power_of_two v = 0"
proof -
  have "2 ^ 31 \<le> unat (v - 1)"
  proof (cases "v = 0")
    case True
    then show ?thesis by (simp add: unsigned_minus_1_eq_mask mask_eq_exp_minus_1)
  next
    case False
    then show ?thesis using assms by (simp add: unat_minus_one)
  qed
  moreover have "unat (v - 1) < 2 ^ 32" using unsigned_less [of "v - 1"] by simp
  ultimately have "smear 16 (smear 8 (smear 4 (smear 2 (smear 1 (v - 1))))) = mask 32"
    using smeared_mask [OF smeared_all, of "v - 1" 32] by simp
  then show ?thesis by (simp add: round_up_power_of_two_def mask_eq_exp_minus_1)
qed

section \<open>intersect_edge_block\<close>

text \<open>\<open>std::set_intersection\<close> of two sorted ranges.\<close>

fun set_intersection :: "64 word list \<Rightarrow> 64 word list \<Rightarrow> 64 word list" where
  "set_intersection (a # as) (b # bs) =
     (if a < b then set_intersection as (b # bs)
      else if b < a then set_intersection (a # as) bs
      else a # set_intersection as bs)"
| "set_intersection _ _ = []"

definition intersect_edge_block :: "64 word list \<Rightarrow> 64 word list \<Rightarrow> 64 word list \<Rightarrow> 64 word list" where
  "intersect_edge_block as bs out = set_intersection as bs"

lemma intersect_edge_block_correct:
  "sorted_wrt (<) as \<Longrightarrow> sorted_wrt (<) bs \<Longrightarrow> intersect_edge_block as bs out = filter (\<lambda>x. x \<in> set bs) as"
  unfolding intersect_edge_block_def
proof (induction as bs rule: set_intersection.induct)
  case (1 a as b bs)
  consider "a < b" | "b < a" | "a = b" by (rule linorder_cases)
  then show ?case
  proof cases
    case 1
    then have "a \<notin> set (b # bs)" using "1.prems"(2) by auto
    then show ?thesis using 1 "1.IH"(1) "1.prems" by simp
  next
    case 2
    then have "b \<notin> set (a # as)" using "1.prems"(1) by auto
    then have "filter (\<lambda>x. x \<in> set (b # bs)) (a # as) = filter (\<lambda>x. x \<in> set bs) (a # as)"
      by (intro filter_cong) auto
    then show ?thesis using 2 "1.IH"(2) "1.prems" by auto
  next
    case 3
    then have "a \<notin> set as" using "1.prems"(1) by auto
    then have "filter (\<lambda>x. x \<in> set (b # bs)) as = filter (\<lambda>x. x \<in> set bs) as" using 3 by (intro filter_cong) auto
    then show ?thesis using 3 "1.IH"(3) "1.prems" by auto
  qed
qed auto

section \<open>Strings\<close>

definition endsWith :: "string \<Rightarrow> string \<Rightarrow> bool" where
  "endsWith fullString ending =
     (if length fullString \<ge> length ending then drop (length fullString - length ending) fullString = ending else False)"

lemma endsWith_suffix: "endsWith s e \<longleftrightarrow> suffix e s"
proof
  assume "suffix e s"
  then obtain p where "s = p @ e" by (auto simp: suffix_def)
  then show "endsWith s e" by (simp add: endsWith_def)
next
  assume "endsWith s e"
  then have "s = take (length s - length e) s @ e" by (metis append_take_drop_id endsWith_def)
  then show "suffix e s" unfolding suffix_def by blast
qed

definition get_filename :: "string \<Rightarrow> string" where
  "get_filename path =
     (if CHR ''/'' \<in> set path then rev (takeWhile (\<lambda>c. c \<noteq> CHR ''/'') (rev path)) else path)"

lemma get_filename_last:
  "CHR ''/'' \<notin> set name \<Longrightarrow> get_filename (dir @ CHR ''/'' # name) = name"
  "CHR ''/'' \<notin> set name \<Longrightarrow> get_filename name = name"
proof -
  assume n: "CHR ''/'' \<notin> set name"
  then have "takeWhile (\<lambda>c. c \<noteq> CHR ''/'') (rev name @ x # y) = (if x = CHR ''/'' then rev name else rev name @ x # takeWhile (\<lambda>c. c \<noteq> CHR ''/'') y)" for x y
    by (subst takeWhile_append2) auto
  then show "get_filename (dir @ CHR ''/'' # name) = name" by (simp add: get_filename_def)
qed (simp add: get_filename_def)

fun string_join :: "string \<Rightarrow> string list \<Rightarrow> string" where
  "string_join j [] = []"
| "string_join j (x # xs) = x @ concat (map (\<lambda>y. j @ y) xs)"

definition ltrim :: "string \<Rightarrow> string" where
  "ltrim s = dropWhile is_space s"

definition rtrim :: "string \<Rightarrow> string" where
  "rtrim s = rev (dropWhile is_space (rev s))"

definition trim :: "string \<Rightarrow> string" where
  "trim s = rtrim (ltrim s)"

lemma trim_ends:
  assumes "trim s \<noteq> []"
  shows "\<not> is_space (hd (trim s)) \<and> \<not> is_space (last (trim s)) \<and> sublist (trim s) s"
proof -
  let ?l = "dropWhile is_space s" and ?d = "dropWhile is_space (rev (dropWhile is_space s))"
  have t: "trim s = rev ?d" by (simp add: trim_def rtrim_def ltrim_def)
  then have d: "?d \<noteq> []" using assms by simp
  then have last: "\<not> is_space (last (trim s))" using hd_dropWhile [OF d] by (simp add: t last_rev)
  have split: "?l = rev ?d @ rev (takeWhile is_space (rev ?l))" by (metis rev_append rev_rev_ident takeWhile_dropWhile_id)
  then have "hd ?l = hd (trim s)" using d t by (metis hd_append rev_is_Nil_conv)
  moreover have "?l \<noteq> []" using d by (metis dropWhile.simps(1) rev.simps(1))
  then have "\<not> is_space (hd ?l)" by (rule hd_dropWhile)
  moreover have "sublist (trim s) s"
    using split t by (metis append.assoc sublist_def takeWhile_dropWhile_id)
  ultimately show ?thesis using last by simp
qed

end
