(* ===== verification/System_Run.thy ===== *)
theory System_Run
  imports Serial_Reads Epoch_Progress
begin

text \<open>
  The parts put together: clients register write transactions with the epoch manager, write through the
  graph store into the \<open>VBData\<close> the manager hands out, commit and deregister; the updater takes its turns;
  readers come and go. One operation follows the other, which is the finest order in which the whole of
  the code is modelled; the interleaving within the epoch manager is \<open>Epoch_Protocol\<close>. A reader that
  registers in any state that is reached finds at every vertex what the committed transactions leave,
  although their epoch is not published.
\<close>

section \<open>The operations\<close>

text \<open>The manager, the random generator of each thread and the graph.\<close>

type_synonym sys = "manager \<times> (nat \<Rightarrow> 64 word) \<times> graph_store"

text \<open>
  A write of a client: the source, the operation and what fresh memory holds. A client registers a
  transaction, writes, commits and deregisters, as \<open>test_version_block.cpp\<close> does at line 346.
\<close>

type_synonym cwrite = "nat \<times> vop \<times> edge_with_index"

datatype sys_op = Write_Txn nat "64 word" "cwrite list" | Updater_Turn | Begin_Read nat | End_Read nat

definition deref_VBData :: "nat option \<Rightarrow> manager \<Rightarrow> (nat \<times> vb_data) res" where
  "deref_VBData it m =
     (case it of
        None \<Rightarrow> Inl WildPointer
      | Some p \<Rightarrow>
          (case (if p < length (am_heap m) then am_heap m ! p else None) of
             None \<Rightarrow> Inl WildPointer
           | Some d \<Rightarrow> Inr (p, d)))"

text \<open>\<open>g_oldest_epoch\<close> is the watermark that a merge reads.\<close>

definition with_oldest :: "manager \<Rightarrow> cwrite \<Rightarrow> swrite" where
  "with_oldest m w = (case w of (u, op, junk) \<Rightarrow> (u, op, am_oldest m, junk))"

definition register_write :: "nat \<Rightarrow> 64 word \<Rightarrow> sys \<Rightarrow> (transaction \<times> 64 word \<times> manager \<times> nat \<times> vb_data) res" where
  "register_write tid addr s =
     (case s of (m, rng, g) \<Rightarrow>
        bind_res (registerTransaction tid (rng tid) (Transaction_new addr 0 False True tid) m) (\<lambda>(txn, it, r, m1).
        bind_res (deref_VBData it m1) (\<lambda>(p, d). Inr (txn, r, m1, p, d))))"

fun sys_step :: "(tmp_version_block \<Rightarrow> nat list) \<Rightarrow> sys_op \<Rightarrow> sys \<Rightarrow> sys res" where
  "sys_step order (Write_Txn tid addr ws) (m, rng, g) =
     bind_res (register_write tid addr (m, rng, g)) (\<lambda>(txn, r, m1, p, d).
     bind_res (run_txn (txn, map (with_oldest m1) ws) (g, d)) (\<lambda>(g', d').
     bind_res (deregisterTransaction tid (m1\<lparr>am_heap := (am_heap m1)[p := Some d']\<rparr>)) (\<lambda>m2.
       Inr (m2, rng(tid := r), g'))))"
| "sys_step order Updater_Turn (m, rng, g) =
     bind_res (updater_turn order (m, g)) (\<lambda>(m', g'). Inr (m', rng, g'))"
| "sys_step order (Begin_Read tid) (m, rng, g) =
     bind_res (registerROTransaction tid (Transaction_new 0 1 True False tid) m) (\<lambda>(_, m'). Inr (m', rng, g))"
| "sys_step order (End_Read tid) (m, rng, g) =
     bind_res (deregisterROTransaction tid m) (\<lambda>m'. Inr (m', rng, g))"

text \<open>What a reader finds at a vertex that registers now.\<close>

definition reader_finds :: "nat \<Rightarrow> nat \<Rightarrow> sys \<Rightarrow> dst_t list res" where
  "reader_finds tid u s =
     (case s of (m, _, g) \<Rightarrow>
        bind_res (registerROTransaction tid (Transaction_new 0 1 True False tid) m) (\<lambda>(txn, _).
        bind_res (locked_block g u) (\<lambda>v.
        bind_res (for_each_edge Fine (tx_read_ts txn) v) (\<lambda>xs. Inr (map ew_e xs)))))"

section \<open>The specification\<close>

fun op_writes :: "sys_op \<Rightarrow> (nat \<times> vop) list" where
  "op_writes (Write_Txn tid addr ws) = map (\<lambda>(u, op, junk). (u, op)) ws"
| "op_writes op = []"

text \<open>The writes at a vertex, in the order of the transactions.\<close>

definition committed :: "sys_op list \<Rightarrow> nat \<Rightarrow> vop list" where
  "committed ops u = map snd (filter (\<lambda>w. fst w = u) (concat (map op_writes ops)))"

definition sys_writes :: "sys_op list \<Rightarrow> nat" where
  "sys_writes ops = length (concat (map op_writes ops))"

text \<open>
  What the callers owe: a thread id below the number of threads and below 64, no two writes of a transaction
  at one source, each write as \<open>legal_write\<close> asks; and a write transaction registers only while no epoch
  waits to be published. \<open>L\<close> are the writes so far.
\<close>

definition op_log :: "sys_op \<Rightarrow> sys \<Rightarrow> logs \<Rightarrow> logs" where
  "op_log op s L =
     (case op of
        Write_Txn tid addr ws \<Rightarrow> fold (add_log (am_cur (fst s))) (map (with_oldest (fst s)) ws) L
      | _ \<Rightarrow> L)"

definition legal_op :: "sys_op \<Rightarrow> sys \<Rightarrow> logs \<Rightarrow> bool" where
  "legal_op op s L =
     (case op of
        Write_Txn tid addr ws \<Rightarrow>
          tid < length (am_active (fst s)) \<and> am_cur (fst s) = am_read_epoch (fst s) + 1 \<and>
          (case register_write tid addr s of
             Inl _ \<Rightarrow> True
           | Inr (txn, r, m1, p, d) \<Rightarrow> legal_txn (am_cur (fst s)) (txn, map (with_oldest m1) ws) (snd (snd s), d) L)
      | Updater_Turn \<Rightarrow> True
      | Begin_Read tid \<Rightarrow> tid < length (am_reads (fst s))
      | End_Read tid \<Rightarrow> tid < length (am_reads (fst s)))"

fun legal_ops :: "(tmp_version_block \<Rightarrow> nat list) \<Rightarrow> sys_op list \<Rightarrow> sys \<Rightarrow> logs \<Rightarrow> bool" where
  "legal_ops order [] s L = True"
| "legal_ops order (op # ops) s L =
     (legal_op op s L \<and>
      (case sys_step order op s of Inl _ \<Rightarrow> True | Inr s' \<Rightarrow> legal_ops order ops s' (op_log op s L)))"

section \<open>Evaluation\<close>

text \<open>Registration only asks whether the random number is 0; this is decided on words.\<close>

lemma rand_int_zero: "fst (rand_int BATCHTXNNUM st) = 0 \<longleftrightarrow> xorshift st mod 10000000 = 0"
proof -
  have "unat (xorshift st mod 10000000) = unat (xorshift st) mod 10000000" by (simp add: unat_mod_distrib)
  then show ?thesis by (simp add: rand_int_def BATCHTXNNUM_def unat_eq_0 [symmetric])
qed

lemma registerTransaction_code [code]:
  "registerTransaction tid rng txn m =
     bind_res (test1 m) (\<lambda>cur.
       if tid \<ge> length (am_active m) then Inl OutOfBounds
       else
         let m1 = m\<lparr>am_active := (am_active m)[tid := cur]\<rparr>;
             it = am_active_txns m1 ! ring_slot cur;
             m2 = maybe_open_epoch cur (if xorshift rng mod 10000000 = 0 then 0 else 1) m1
         in Inr (txn\<lparr>tx_read_epoch := am_read_epoch m2, tx_epoch := cur\<rparr>, it, xorshift rng, m2))"
proof -
  have "maybe_open_epoch cur (fst (rand_int BATCHTXNNUM rng)) m1 =
      maybe_open_epoch cur (if xorshift rng mod 10000000 = 0 then 0 else 1) m1" for cur m1
    by (simp add: maybe_open_epoch_def rand_int_zero)
  moreover have "snd (rand_int BATCHTXNNUM rng) = xorshift rng" by (simp add: rand_int_def)
  ultimately show ?thesis unfolding registerTransaction_def Let_def split_def by (simp only:)
qed

section \<open>The invariant\<close>

text \<open>
  Between the operations no writer runs; the epoch above the published ones has the \<open>VBData\<close> that the ring
  points to, with the store pending in it; an epoch above that is empty. \<open>B\<close> bounds the counters of the
  vertices, \<open>i\<close> the number of operations so far.
\<close>

definition quiet_manager :: "nat \<Rightarrow> nat \<Rightarrow> manager \<Rightarrow> bool" where
  "quiet_manager n i m \<longleftrightarrow>
     ring_ok m \<and> que_ok m \<and> \<not> am_no_more m \<and> \<not> am_is_create m \<and> set (am_active m) \<subseteq> {NO_TRANSACTION} \<and>
     length (am_active m) = n \<and> length (am_reads m) = n \<and> am_read_epoch m < am_cur m \<and>
     unat (am_cur m) \<le> unat (am_read_epoch m) + 2 \<and> unat (am_cur m) \<le> i + 1 \<and>
     am_min_read_epoch m \<le> am_read_epoch m \<and> am_oldest m \<le> am_read_epoch m \<and>
     (\<forall>e p d. am_read_epoch m + 1 < e \<and> e \<le> am_cur m \<and> in_slot m e p d \<longrightarrow> d = VBData_new e)"

definition open_store :: "nat \<Rightarrow> nat \<Rightarrow> epoch_t \<Rightarrow> graph_store \<Rightarrow> vb_data \<Rightarrow> logs \<Rightarrow> bool" where
  "open_store B i E g d L \<longleftrightarrow>
     store_inv E B {} g d L \<and> unat (vd_intra_counter d) \<le> i \<and> tails_ok E (vd_intra_counter d) (vd_intra_counter d) {} g"

definition sys_inv :: "nat \<Rightarrow> nat \<Rightarrow> nat \<Rightarrow> sys \<Rightarrow> logs \<Rightarrow> bool" where
  "sys_inv n B i s L \<longleftrightarrow>
     (case s of (m, _, g) \<Rightarrow> quiet_manager n i m \<and>
        (\<exists>p d. in_slot m (am_read_epoch m + 1) p d \<and> open_store B i (am_read_epoch m + 1) g d L))"

lemma quiet_epochs:
  assumes "quiet_manager n i m"
  shows "unat (am_read_epoch m + 1) = unat (am_read_epoch m) + 1" "am_read_epoch m + 1 \<le> am_cur m" "am_read_epoch m < am_read_epoch m + 1"
proof -
  have less: "am_read_epoch m < am_cur m" using assms by (simp add: quiet_manager_def)
  show r: "unat (am_read_epoch m + 1) = unat (am_read_epoch m) + 1" by (rule unat_plus_one_less [OF less])
  show "am_read_epoch m + 1 \<le> am_cur m" "am_read_epoch m < am_read_epoch m + 1"
    using r less by (simp_all add: word_less_nat_alt word_le_nat_alt)
qed

lemma in_slot_unique: "in_slot m e p d \<Longrightarrow> in_slot m e p' d' \<Longrightarrow> p' = p \<and> d' = d"
  by (simp add: in_slot_def alive_vbd_def)

lemma in_slot_other: "in_slot m e p d \<Longrightarrow> in_slot m e' p' d' \<Longrightarrow> e \<noteq> e' \<Longrightarrow> p \<noteq> p'"
  by (auto simp: in_slot_def alive_vbd_def)

lemma deref_in_slot: "in_slot m e p d \<Longrightarrow> deref_VBData (Some p) m = Inr (p, d)"
  by (simp add: deref_VBData_def in_slot_def alive_vbd_def)

text \<open>The open epoch's object is the one readers and the updater find.\<close>

lemma quiet_next_VBData:
  assumes "quiet_manager n i m" "in_slot m (am_read_epoch m + 1) p d"
  shows "next_VBData m = Inr (p, d)"
proof -
  have "ring_ok m" "am_read_epoch m < am_cur m" using assms(1) by (auto simp: quiet_manager_def)
  from next_VBData_ok [OF this] obtain p' d' where "next_VBData m = Inr (p', d')" "in_slot m (am_read_epoch m + 1) p' d'" by blast
  then show ?thesis using in_slot_unique [OF assms(2)] by metis
qed

text \<open>Replacing an object by one of the same epoch.\<close>

definition put_VBData :: "nat \<Rightarrow> vb_data \<Rightarrow> manager \<Rightarrow> manager" where
  "put_VBData p d m = m\<lparr>am_heap := (am_heap m)[p := Some d]\<rparr>"

lemma put_VBData_slots:
  assumes "alive_vbd m p d" "vd_epoch d' = vd_epoch d"
  shows "alive_vbd (put_VBData p d' m) q x \<longleftrightarrow> (if q = p then x = d' else alive_vbd m q x)"
    and "in_slot (put_VBData p d' m) e q x \<longleftrightarrow>
      (if q = p then am_active_txns m ! ring_slot e = Some p \<and> x = d' \<and> vd_epoch d = e else in_slot m e q x)"
  using assms by (auto simp: alive_vbd_def put_VBData_def in_slot_def nth_list_update)

lemma put_VBData_ok:
  assumes p: "alive_vbd m p d" "vd_epoch d' = vd_epoch d" and ok: "ring_ok m" "que_ok m"
  shows "ring_ok (put_VBData p d' m)" "que_ok (put_VBData p d' m)"
proof -
  have "\<exists>q x. in_slot (put_VBData p d' m) e q x" if "in_slot m e q y" for e q y
    using that put_VBData_slots(2) [OF p, of e q] p(1) by (cases "q = p") (auto simp: in_slot_def alive_vbd_def)
  then show "ring_ok (put_VBData p d' m)" using ok(1) unfolding ring_ok_def by (simp add: put_VBData_def) blast
  have "\<exists>x. alive_vbd (put_VBData p d' m) q x \<and> vd_epoch x = vd_epoch y" if "alive_vbd m q y" for q y
    using that put_VBData_slots(1) [OF p, of q] p by (cases "q = p") (auto simp: alive_vbd_def)
  then have alive: "\<exists>x. alive_vbd (put_VBData p d' m) q x \<and> unat (vd_epoch x) = k" if "alive_vbd m q y" "unat (vd_epoch y) = k" for q y k
    using that by metis
  have same: "am_que (put_VBData p d' m) = am_que m" "am_read_epoch (put_VBData p d' m) = am_read_epoch m"
    by (simp_all add: put_VBData_def)
  show "que_ok (put_VBData p d' m)" unfolding que_ok_def same
  proof (intro conjI allI impI)
    show "length (am_que m) \<le> unat (am_read_epoch m)" using ok(2) by (simp add: que_ok_def)
    fix i assume "i < length (am_que m)"
    then obtain y where "alive_vbd m (am_que m ! i) y" "unat (vd_epoch y) = unat (am_read_epoch m) - length (am_que m) + 1 + i"
      using ok(2) by (auto simp: que_ok_def)
    then show "\<exists>d. alive_vbd (put_VBData p d' m) (am_que m ! i) d \<and> unat (vd_epoch d) = unat (am_read_epoch m) - length (am_que m) + 1 + i"
      by (rule alive)
  qed
qed

text \<open>Members that the ring and the queue do not depend on.\<close>

lemma ring_frame [simp]:
  "in_slot (m\<lparr>am_active := a\<rparr>) e p d = in_slot m e p d" "in_slot (m\<lparr>am_is_create := b\<rparr>) e p d = in_slot m e p d"
  "in_slot (m\<lparr>am_reads := a\<rparr>) e p d = in_slot m e p d"
  "ring_ok (m\<lparr>am_active := a\<rparr>) = ring_ok m" "ring_ok (m\<lparr>am_is_create := b\<rparr>) = ring_ok m" "ring_ok (m\<lparr>am_reads := a\<rparr>) = ring_ok m"
  "que_ok (m\<lparr>am_active := a\<rparr>) = que_ok m" "que_ok (m\<lparr>am_is_create := b\<rparr>) = que_ok m" "que_ok (m\<lparr>am_reads := a\<rparr>) = que_ok m"
  by (simp_all add: in_slot_def alive_vbd_def ring_ok_def que_ok_def)

section \<open>Write transactions\<close>

definition opened :: "manager \<Rightarrow> manager \<Rightarrow> bool" where
  "opened m m1 \<longleftrightarrow> ring_ok m1 \<and> que_ok m1 \<and> am_read_epoch m1 = am_read_epoch m \<and> am_no_more m1 = am_no_more m \<and>
     am_is_create m1 = am_is_create m \<and> am_active m1 = am_active m \<and> am_reads m1 = am_reads m \<and> am_min_read_epoch m1 = am_min_read_epoch m \<and>
     am_oldest m1 = am_oldest m \<and> am_cur m \<le> am_cur m1 \<and> unat (am_cur m1) \<le> unat (am_cur m) + 1 \<and>
     (\<forall>e p d. e \<le> am_cur m \<and> am_read_epoch m < e \<and> in_slot m e p d \<longrightarrow> in_slot m1 e p d) \<and>
     (\<forall>e p d. am_cur m < e \<and> e \<le> am_cur m1 \<and> in_slot m1 e p d \<longrightarrow> d = VBData_new e)"

lemma maybe_open_opened:
  assumes ok: "ring_ok m" "que_ok m" "\<not> am_is_create m" and gap: "am_cur m - am_read_epoch m < 15" and wrap: "unat (am_cur m) + 1 < 2 ^ 31"
  shows "opened m (maybe_open_epoch (am_cur m) x m)"
proof (cases "x = 0")
  case False
  then show ?thesis using ok by (auto simp: maybe_open_epoch_def opened_def)
next
  case True
  let ?m = "m\<lparr>am_is_create := True\<rparr>" and ?c = "am_cur m"
  let ?m1 = "open_epoch ?c ?m"
  have gap16: "?c - am_read_epoch m < 16" using gap by (rule less_trans) simp
  have c1: "unat (?c + 1) = unat ?c + 1" using wrap by (simp add: unat_word_ariths)
  then have wrap': "?c + 1 \<noteq> 0" by auto
  have run: "maybe_open_epoch ?c x m = ?m1\<lparr>am_is_create := False\<rparr>"
    using True ok(3) gap16 by (simp add: maybe_open_epoch_def)
  have ok1: "ring_ok ?m1" "que_ok ?m1" using open_epoch_ok [of ?m] ok gap16 wrap' by simp_all
  have m1: "?m1 = ?m\<lparr>am_heap := am_heap m @ [Some (VBData_new (?c + 1))],
      am_active_txns := (am_active_txns m)[ring_slot (?c + 1) := Some (length (am_heap m))], am_cur := ?c + 1\<rparr>"
    by (simp add: open_epoch_def ring_slot_next)
  have le: "am_read_epoch m \<le> ?c" using ok(1) by (simp add: ring_ok_def)
  have slot: "ring_slot (?c + 1) < length (am_active_txns m)" using ok(1) less_SucI [OF ring_slot_less [of "?c + 1"]]
    by (simp add: ring_ok_def)
  have keep: "in_slot ?m1 e p d" if e: "e \<le> ?c" "am_read_epoch m < e" "in_slot m e p d" for e p d
  proof -
    have "unat ?c < unat (am_read_epoch m) + 15" using gap le by (simp add: word_less_nat_alt unat_sub word_le_nat_alt)
    then have "unat (?c + 1) < unat e + 16" "unat e < unat (?c + 1) + 16" using e(1,2) c1 by (simp_all add: word_less_nat_alt word_le_nat_alt)
    moreover have "e \<noteq> ?c + 1" using e(1) c1 by (auto simp: word_le_nat_alt)
    ultimately have "ring_slot e \<noteq> ring_slot (?c + 1)" using ring_slot_inj by blast
    then show ?thesis using e(3) by (simp add: m1 in_slot_def alive_vbd_def nth_append)
  qed
  have new: "d = VBData_new e" if e: "?c < e" "e \<le> ?c + 1" "in_slot ?m1 e p d" for e p d
  proof -
    have "e = ?c + 1" using e(1,2) c1 by (simp add: word_less_nat_alt word_le_nat_alt word_unat_eq_iff)
    then show ?thesis using e(3) slot by (clarsimp simp: m1 in_slot_def alive_vbd_def)
  qed
  have f: "am_read_epoch ?m1 = am_read_epoch m" "am_no_more ?m1 = am_no_more m" "am_active ?m1 = am_active m" "am_reads ?m1 = am_reads m"
    "am_min_read_epoch ?m1 = am_min_read_epoch m" "am_oldest ?m1 = am_oldest m" "am_cur ?m1 = ?c + 1" by (simp_all add: m1)
  have "?c \<le> ?c + 1" using c1 by (simp add: word_le_nat_alt)
  then show ?thesis
    unfolding run opened_def using ok(3) ok1 keep new c1 by (simp add: f) blast
qed

lemma register_quiet:
  assumes q: "quiet_manager n i m" and tid: "tid < n" and E: "am_cur m = am_read_epoch m + 1" and p: "in_slot m (am_cur m) p d"
    and i: "i + 2 < 2 ^ 31"
  obtains txn r m1 where "register_write tid addr (m, rng, g) = Inr (txn, r, m1, p, d)" "tx_intra_c txn = 0" "am_oldest m1 = am_oldest m"
    "\<And>d'. vd_epoch d' = vd_epoch d \<Longrightarrow> \<exists>m2. deregisterTransaction tid (put_VBData p d' m1) = Inr m2 \<and>
       quiet_manager n (i + 1) m2 \<and> am_read_epoch m2 = am_read_epoch m \<and> in_slot m2 (am_cur m) p d'"
proof -
  let ?c = "am_cur m"
  have qm: "ring_ok m" "que_ok m" "\<not> am_no_more m" "\<not> am_is_create m" "set (am_active m) \<subseteq> {NO_TRANSACTION}"
    "length (am_active m) = n" "length (am_reads m) = n" "unat ?c \<le> i + 1" "am_min_read_epoch m \<le> am_read_epoch m"
    "am_oldest m \<le> am_read_epoch m" using q by (auto simp: quiet_manager_def)
  note ep = quiet_epochs [OF q]
  have gap: "?c - am_read_epoch m < 15" "?c - am_read_epoch m < 16" by (simp_all add: E)
  have wrap: "unat ?c + 1 < 2 ^ 31" using qm(8) i by simp
  let ?m0 = "m\<lparr>am_active := (am_active m)[tid := ?c]\<rparr>"
  obtain x rng' where x: "rand_int BATCHTXNNUM (rng tid) = (x, rng')" by (cases "rand_int BATCHTXNNUM (rng tid)")
  define m1 where "m1 = maybe_open_epoch ?c x ?m0"
  define txn where "txn = (Transaction_new addr 0 False True tid)\<lparr>tx_read_epoch := am_read_epoch m1, tx_epoch := ?c\<rparr>"
  have op: "opened ?m0 m1" using maybe_open_opened [of ?m0 x] qm(1,2,4) gap(1) wrap by (simp add: m1_def)
  have p1: "in_slot m1 ?c p d" using op p ep(3) by (auto simp: opened_def E)
  have "registerTransaction tid (rng tid) (Transaction_new addr 0 False True tid) m = Inr (txn, Some p, rng', m1)"
    using tid qm(6) gap(2) p x by (simp add: registerTransaction_def test1_def Let_def m1_def txn_def in_slot_def not_le)
  then have run: "register_write tid addr (m, rng, g) = Inr (txn, rng', m1, p, d)"
    using deref_in_slot [OF p1] by (simp add: register_write_def)
  have "\<exists>m2. deregisterTransaction tid (put_VBData p d' m1) = Inr m2 \<and> quiet_manager n (i + 1) m2 \<and>
      am_read_epoch m2 = am_read_epoch m \<and> in_slot m2 ?c p d'" if d': "vd_epoch d' = vd_epoch d" for d'
  proof -
    have al: "alive_vbd m1 p d" "vd_epoch d = ?c" using p1 by (auto simp: in_slot_def)
    let ?m2 = "(put_VBData p d' m1)\<lparr>am_active := (am_active (put_VBData p d' m1))[tid := NO_TRANSACTION]\<rparr>"
    have slots: "in_slot ?m2 e q x \<longleftrightarrow> (if q = p then am_active_txns m1 ! ring_slot e = Some p \<and> x = d' \<and> vd_epoch d = e else in_slot m1 e q x)" for e q x
      using put_VBData_slots(2) [OF al(1) d'] by simp
    have "in_slot ?m2 ?c p d'" using slots p1 al(2) by (simp add: in_slot_def)
    moreover have "\<forall>e q x. ?c < e \<and> e \<le> am_cur m1 \<and> in_slot ?m2 e q x \<longrightarrow> x = VBData_new e"
    proof (intro allI impI)
      fix e q x assume "?c < e \<and> e \<le> am_cur m1 \<and> in_slot ?m2 e q x"
      then show "x = VBData_new e" using slots [of e q x] al(2) op by (auto simp: opened_def split: if_splits)
    qed
    moreover have "set ((am_active m)[tid := ?c, tid := NO_TRANSACTION]) \<subseteq> {NO_TRANSACTION}"
      using qm(5) set_update_subset_insert [of "am_active m" tid NO_TRANSACTION] by auto
    moreover have "?c < am_cur m1 \<or> ?c = am_cur m1" using op by (auto simp: opened_def)
    then have "am_read_epoch m < am_cur m1" using ep(2,3) E by auto
    moreover have "am_active m1 = (am_active m)[tid := ?c]" "am_reads m1 = am_reads m" "am_read_epoch m1 = am_read_epoch m" "\<not> am_is_create m1"
      "\<not> am_no_more m1" "am_min_read_epoch m1 = am_min_read_epoch m" "am_oldest m1 = am_oldest m" "unat (am_cur m1) \<le> unat ?c + 1"
      using op qm(3,4) by (auto simp: opened_def)
    moreover have "unat ?c = unat (am_read_epoch m) + 1" using ep(1) by (simp add: E)
    moreover have "ring_ok (put_VBData p d' m1)" "que_ok (put_VBData p d' m1)"
      using put_VBData_ok [OF al(1) d'] op by (auto simp: opened_def)
    moreover have "am_cur (put_VBData p d' m1) = am_cur m1" "am_active (put_VBData p d' m1) = am_active m1" "am_reads (put_VBData p d' m1) = am_reads m1"
      "am_read_epoch (put_VBData p d' m1) = am_read_epoch m1" "am_is_create (put_VBData p d' m1) = am_is_create m1"
      "am_no_more (put_VBData p d' m1) = am_no_more m1" "am_min_read_epoch (put_VBData p d' m1) = am_min_read_epoch m1"
      "am_oldest (put_VBData p d' m1) = am_oldest m1" by (simp_all add: put_VBData_def)
    ultimately have "quiet_manager n (i + 1) ?m2"
      using qm(6-10) unfolding quiet_manager_def by (simp add: E [symmetric])
    moreover have "deregisterTransaction tid (put_VBData p d' m1) = Inr ?m2"
      using tid qm(6) op by (simp add: deregisterTransaction_def put_VBData_def opened_def)
    ultimately show ?thesis using \<open>in_slot ?m2 ?c p d'\<close> op by (auto simp: opened_def put_VBData_def)
  qed
  then show thesis using that [OF run] op by (simp add: txn_def Transaction_new_def opened_def)
qed

lemma with_oldest_same: "am_oldest m' = am_oldest m \<Longrightarrow> with_oldest m' = with_oldest m"
  by (intro ext) (simp add: with_oldest_def)

text \<open>A write transaction leaves the invariant, with its writes in the histories.\<close>

lemma write_step:
  assumes inva: "sys_inv n B i (m, rng, g) L" and legal: "legal_op (Write_Txn tid addr ws) (m, rng, g) L"
    and i: "i + 2 < 2 ^ 31" and B: "B + 2 * length ws < 2 ^ 31"
  shows "\<exists>m' rng' g'. sys_step order (Write_Txn tid addr ws) (m, rng, g) = Inr (m', rng', g') \<and>
    sys_inv n (B + 2 * length ws) (i + 1) (m', rng', g') (op_log (Write_Txn tid addr ws) (m, rng, g) L) \<and> gs_node_num g' = gs_node_num g"
proof -
  let ?E = "am_read_epoch m + 1"
  obtain p d where q: "quiet_manager n i m" and p: "in_slot m ?E p d" and st: "open_store B i ?E g d L"
    using inva by (auto simp: sys_inv_def)
  have tid: "tid < n" and E: "am_cur m = ?E" using legal q by (auto simp: legal_op_def quiet_manager_def)
  have p': "in_slot m (am_cur m) p d" using p by (simp add: E)
  obtain txn r m1 where reg: "register_write tid addr (m, rng, g) = Inr (txn, r, m1, p, d)" "tx_intra_c txn = 0" "am_oldest m1 = am_oldest m"
    "\<And>d'. vd_epoch d' = vd_epoch d \<Longrightarrow> \<exists>m2. deregisterTransaction tid (put_VBData p d' m1) = Inr m2 \<and>
       quiet_manager n (i + 1) m2 \<and> am_read_epoch m2 = am_read_epoch m \<and> in_slot m2 (am_cur m) p d'"
    using register_quiet [OF q tid E p' i, of addr rng g] by metis
  let ?t = "(txn, map (with_oldest m1) ws)"
  have lt: "legal_txn ?E ?t (g, d) L" using legal reg(1) by (simp add: legal_op_def E)
  have s: "store_inv ?E B {} g d L" "unat (vd_intra_counter d) \<le> i" "tails_ok ?E (vd_intra_counter d) (vd_intra_counter d) {} g"
    using st by (auto simp: open_store_def)
  have B': "B + 2 * length (snd ?t) < 2 ^ 31" using B by simp
  obtain g' d' where run: "run_txn ?t (g, d) = Inr (g', d')" "store_inv ?E (B + 2 * length (snd ?t)) {} g' d' (txn_log ?E ?t L)"
    "gs_node_num g' = gs_node_num g" using run_txn_step [OF s(1) lt B'] by blast
  have c1: "unat (vd_intra_counter d + 1) = unat (vd_intra_counter d) + 1" using s(2) i by (simp add: unat_word_ariths)
  then have "vd_intra_counter d < vd_intra_counter d + 1" by (simp add: word_less_nat_alt)
  then have t: "vd_epoch d' = ?E" "vd_intra_counter d' = vd_intra_counter d + 1" "tails_ok ?E (vd_intra_counter d') (vd_intra_counter d') {} g'"
    using run_txn_tails [OF s(1) lt B' _ _ _ s(3) run(1)] p reg(2) by (auto simp: in_slot_def)
  have log: "txn_log ?E ?t L = op_log (Write_Txn tid addr ws) (m, rng, g) L"
    using with_oldest_same [OF reg(3)] by (simp add: op_log_def txn_log_def E)
  have "open_store (B + 2 * length ws) (i + 1) ?E g' d' (op_log (Write_Txn tid addr ws) (m, rng, g) L)"
    using run(2) t s(2) c1 log by (simp add: open_store_def)
  moreover obtain m2 where m2: "deregisterTransaction tid (put_VBData p d' m1) = Inr m2" "quiet_manager n (i + 1) m2"
    "am_read_epoch m2 = am_read_epoch m" "in_slot m2 (am_cur m) p d'"
    using reg(4) [of d'] t(1) p by (auto simp: in_slot_def)
  moreover have "sys_step order (Write_Txn tid addr ws) (m, rng, g) = Inr (m2, rng(tid := r), g')"
    using reg(1) run(1) m2(1) by (simp add: put_VBData_def)
  ultimately show ?thesis using run(3) by (auto simp: sys_inv_def E)
qed

section \<open>The updater and the readers\<close>

lemma sys_inv_mono: "sys_inv n B i s L \<Longrightarrow> i \<le> j \<Longrightarrow> sys_inv n B j s L"
  by (fastforce simp: sys_inv_def quiet_manager_def open_store_def split: prod.splits)

text \<open>Collecting leaves the epochs that are not published.\<close>

lemma quiet_collect:
  assumes q: "quiet_manager n i m"
  obtains m1 where "GC Fine (update_min_version m) = Inr m1" "quiet_manager n i m1" "am_read_epoch m1 = am_read_epoch m"
    "am_cur m1 = am_cur m" "am_min_epoch m1 = am_cur m" "\<And>e p d. am_read_epoch m < e \<Longrightarrow> e \<le> am_cur m \<Longrightarrow> in_slot m e p d \<Longrightarrow> in_slot m1 e p d"
proof -
  let ?u = "update_min_version m"
  have qm: "ring_ok m" "que_ok m" "\<not> am_no_more m" "set (am_active m) \<subseteq> {NO_TRANSACTION}" using q by (auto simp: quiet_manager_def)
  have u: "am_active ?u = am_active m" "am_reads ?u = am_reads m" "am_is_create ?u = am_is_create m" "am_min_read_epoch ?u \<le> am_read_epoch m"
    "am_active_txns ?u = am_active_txns m" "am_heap ?u = am_heap m"
    by (simp_all add: update_min_version_def Let_def)
  have ok: "ring_ok ?u" "que_ok ?u" using qm by (simp_all add: update_min_version_ok)
  obtain m1 where m1: "GC Fine ?u = Inr m1" "ring_ok m1" "que_ok m1" "am_oldest m1 = am_min_read_epoch ?u"
    "am_cur m1 = am_cur m" "am_read_epoch m1 = am_read_epoch m" "am_active m1 = am_active m" "am_reads m1 = am_reads m"
    "am_active_txns m1 = am_active_txns m" "am_is_create m1 = am_is_create m" "am_no_more m1 = am_no_more m"
    "am_min_epoch m1 = am_cur m" "am_min_read_epoch m1 = am_min_read_epoch ?u"
    "\<And>p d. alive_vbd m p d \<Longrightarrow> am_read_epoch m < vd_epoch d \<Longrightarrow> alive_vbd m1 p d"
    using GC_ok [OF ok] update_min_version_idle [OF qm(4,3)] u by (auto simp: alive_vbd_def)
  have keep: "in_slot m1 e p d" if "am_read_epoch m < e" "in_slot m e p d" for e p d
    using that m1(14) by (auto simp: in_slot_def m1(9))
  have origin: "in_slot m e p d" if e: "am_read_epoch m < e" "e \<le> am_cur m" "in_slot m1 e p d" for e p d
  proof -
    obtain p' d' where "in_slot m e p' d'" using qm(1) e(1,2) unfolding ring_ok_def by blast
    with in_slot_unique [OF keep [OF e(1) this] e(3)] show ?thesis by simp
  qed
  have "\<forall>e p d. am_read_epoch m + 1 < e \<and> e \<le> am_cur m \<and> in_slot m1 e p d \<longrightarrow> d = VBData_new e"
  proof (intro allI impI)
    fix e p d assume e: "am_read_epoch m + 1 < e \<and> e \<le> am_cur m \<and> in_slot m1 e p d"
    then have "am_read_epoch m < e" using quiet_epochs(3) [OF q] by auto
    then show "d = VBData_new e" using origin [of e p d] e q by (auto simp: quiet_manager_def)
  qed
  then have "quiet_manager n i m1" using q m1 u by (simp add: quiet_manager_def)
  then show thesis using that m1 keep by blast
qed

text \<open>The turn publishes the epoch that waits, if there is one; the epoch above is then the open one.\<close>

lemma publish_waiting:
  assumes q: "quiet_manager n i m" and p: "in_slot m (am_read_epoch m + 1) p d" and st: "open_store B i (am_read_epoch m + 1) g d L"
    and more: "am_read_epoch m + 1 < am_cur m" and i: "i + 2 < 2 ^ 31" and order: "\<And>t. transform_order t (order t)"
  shows "\<exists>m' g'. publish_one order (m, g) = Inr (m', g') \<and> am_read_epoch m' = am_read_epoch m + 1 \<and> am_cur m' = am_cur m \<and>
    am_cur m = am_read_epoch m + 2 \<and> sys_inv n B i (m', rng, g') L \<and> gs_node_num g' = gs_node_num g"
proof -
  let ?E = "am_read_epoch m + 1"
  note ep = quiet_epochs [OF q]
  have qm: "ring_ok m" "que_ok m" "am_read_epoch m < am_cur m" "unat (am_cur m) \<le> unat (am_read_epoch m) + 2" "unat (am_cur m) \<le> i + 1"
    using q by (auto simp: quiet_manager_def)
  have e2: "unat (?E + 1) = unat ?E + 1" by (rule unat_plus_one_less [OF more])
  have cur: "am_cur m = ?E + 1" using e2 ep(1) qm(4) more by (simp add: word_unat_eq_iff word_less_nat_alt)
  obtain d' g' where c: "VBData_commitVersionBlock order d g = Inr (d', g')" "store_rest ?E B g' L" "gs_node_num g' = gs_node_num g"
    using commit_epoch [OF _ order] st unfolding open_store_def by metis
  have d': "vd_epoch d' = vd_epoch d" using c(1) by (auto simp: VBData_commitVersionBlock_def Let_def bind_res_Inr_iff)
  let ?m = "mark_published p d' m"
  have run: "publish_one order (m, g) = Inr (?m, g')" using quiet_next_VBData [OF q p] c(1) by (simp add: publish_one_def)
  have fields: "am_read_epoch ?m = ?E" "am_cur ?m = am_cur m" "am_active ?m = am_active m" "am_reads ?m = am_reads m" "am_no_more ?m = am_no_more m"
    "am_is_create ?m = am_is_create m" "am_min_read_epoch ?m = am_min_read_epoch m" "am_oldest ?m = am_oldest m"
    by (simp_all add: mark_published_def)
  have ok: "ring_ok ?m" "que_ok ?m" by (rule mark_published_ok [OF qm(1-3) p d'])+
  have less: "?E < ?E + 1" using e2 by (simp add: word_less_nat_alt)
  have "\<exists>p2 d2. in_slot ?m (?E + 1) p2 d2" using ok(1) less unfolding ring_ok_def fields(1,2) cur by (metis order_refl)
  then obtain p2 d2 where p2: "in_slot ?m (?E + 1) p2 d2" by blast
  have "vd_epoch d = ?E" using p by (simp add: in_slot_def)
  then have "p2 \<noteq> p" using p2 d' p e2 by (auto simp: in_slot_def alive_vbd_def mark_published_def)
  then have "in_slot m (?E + 1) p2 d2" using p2 by (auto simp: in_slot_def alive_vbd_def mark_published_def nth_list_update)
  then have d2: "d2 = VBData_new (?E + 1)" using q less cur by (simp add: quiet_manager_def)
  have "\<not> has_tmp (?E + 1)" using qm(5) i by (simp add: has_tmp_threshold cur [symmetric])
  then have "store_inv (?E + 1) B {} g' (VBData_new (?E + 1)) L" by (rule rest_next_epoch [OF c(2) less])
  then have "open_store B i (?E + 1) g' d2 L"
    using rest_tails [OF c(2) less] by (simp add: open_store_def d2 VBData_new_def)
  moreover have "quiet_manager n i ?m"
    using q ok fields more ep(3) e2 cur by (auto simp: quiet_manager_def)
  ultimately have "sys_inv n B i (?m, rng, g') L" using p2 by (auto simp: sys_inv_def fields(1))
  then show ?thesis using run fields(1,2) cur c(3) by (auto simp: add.assoc)
qed

lemma updater_step:
  assumes inva: "sys_inv n B i (m, rng, g) L" and i: "i + 2 < 2 ^ 31" and order: "\<And>t. transform_order t (order t)"
  shows "\<exists>m' g'. sys_step order Updater_Turn (m, rng, g) = Inr (m', rng, g') \<and> sys_inv n B i (m', rng, g') L \<and>
    am_read_epoch m' + 1 = am_cur m \<and> am_cur m' = am_cur m \<and> gs_node_num g' = gs_node_num g"
proof -
  obtain p d where q: "quiet_manager n i m" and p: "in_slot m (am_read_epoch m + 1) p d" and st: "open_store B i (am_read_epoch m + 1) g d L"
    using inva by (auto simp: sys_inv_def)
  note ep = quiet_epochs [OF q]
  obtain m1 where m1: "GC Fine (update_min_version m) = Inr m1" "quiet_manager n i m1" "am_read_epoch m1 = am_read_epoch m"
    "am_cur m1 = am_cur m" "am_min_epoch m1 = am_cur m" "in_slot m1 (am_read_epoch m1 + 1) p d"
    using quiet_collect [OF q] ep(2,3) p by metis
  have st1: "open_store B i (am_read_epoch m1 + 1) g d L" using st by (simp add: m1(3))
  have go: "\<not> am_no_more m1" using m1(2) by (simp add: quiet_manager_def)
  show ?thesis
  proof (cases "am_read_epoch m1 + 1 < am_cur m1")
    case False
    then have "updater_turn order (m, g) = Inr (m1, g)" using go m1(1,4,5) by (simp add: updater_turn_def)
    moreover have "sys_inv n B i (m1, rng, g) L" using m1(2,6) st1 by (auto simp: sys_inv_def)
    moreover have "am_read_epoch m1 + 1 = am_cur m" using False quiet_epochs(2) [OF m1(2)] by (simp add: m1(4))
    ultimately show ?thesis by (simp add: m1(4))
  next
    case True
    obtain m' g' where pub: "publish_one order (m1, g) = Inr (m', g')" "am_read_epoch m' = am_read_epoch m1 + 1" "am_cur m' = am_cur m1"
      "am_cur m1 = am_read_epoch m1 + 2" "sys_inv n B i (m', rng, g') L" "gs_node_num g' = gs_node_num g"
      using publish_waiting [OF m1(2,6) st1 True i order] by blast
    have stop: "\<not> am_read_epoch m' + 1 < am_cur m" using pub(2,4) by (simp add: m1(4) add.assoc)
    have "am_cur m \<noteq> 0" using True by (auto simp: m1(4))
    then obtain k where "unat (am_cur m) = Suc k" by (metis unat_eq_0 not0_implies_Suc)
    moreover have "publish_times order k (am_cur m) (m', g') = Inr (m', g')" using stop by (cases k) simp_all
    ultimately have "commitVersionBlock order (am_cur m) (m1, g) = Inr (m', g')"
      using True pub(1) by (simp add: commitVersionBlock_def m1(4))
    then have "updater_turn order (m, g) = Inr (m', g')" using True go m1(1,4,5) by (simp add: updater_turn_def)
    then show ?thesis using pub by (auto simp: m1(4) add.assoc)
  qed
qed

lemma quiet_reads: "quiet_manager n i m \<Longrightarrow> quiet_manager n i (m\<lparr>am_reads := (am_reads m)[tid := x]\<rparr>)"
  by (auto simp: quiet_manager_def)

text \<open>A reader that registers reads at the last position of the open epoch.\<close>

lemma register_reader:
  assumes q: "quiet_manager n i m" and p: "in_slot m (am_read_epoch m + 1) p d" and tid: "tid < n"
  shows "registerROTransaction tid txn m =
    Inr (txn\<lparr>tx_read_epoch := am_read_epoch m, tx_read_ts := Composite (am_read_epoch m + 1) (vd_intra_counter d)\<rparr>,
         m\<lparr>am_reads := (am_reads m)[tid := am_read_epoch m]\<rparr>)"
proof -
  let ?m = "m\<lparr>am_reads := (am_reads m)[tid := am_read_epoch m]\<rparr>"
  have "next_VBData ?m = Inr (p, d)" using quiet_next_VBData [OF quiet_reads [OF q]] p by simp
  moreover have "vd_epoch d = am_read_epoch m + 1" using p by (simp add: in_slot_def)
  moreover have "tid < length (am_reads m)" "\<not> am_read_epoch m < am_min_read_epoch m" using q tid by (auto simp: quiet_manager_def)
  ultimately show ?thesis using quiet_epochs(2) [OF q] by (simp add: registerROTransaction_def choose_read_ts_def Let_def)
qed

lemma reader_steps:
  assumes inva: "sys_inv n B i (m, rng, g) L" and tid: "tid < n"
  shows "\<exists>m'. sys_step order (Begin_Read tid) (m, rng, g) = Inr (m', rng, g) \<and> sys_inv n B i (m', rng, g) L"
    and "\<exists>m'. sys_step order (End_Read tid) (m, rng, g) = Inr (m', rng, g) \<and> sys_inv n B i (m', rng, g) L"
proof -
  obtain p d where q: "quiet_manager n i m" and p: "in_slot m (am_read_epoch m + 1) p d" and st: "open_store B i (am_read_epoch m + 1) g d L"
    using inva by (auto simp: sys_inv_def)
  have kept: "sys_inv n B i (m\<lparr>am_reads := (am_reads m)[tid := x]\<rparr>, rng, g) L" for x
    using quiet_reads [OF q, of tid x] p st by (auto simp: sys_inv_def)
  show "\<exists>m'. sys_step order (Begin_Read tid) (m, rng, g) = Inr (m', rng, g) \<and> sys_inv n B i (m', rng, g) L"
    using register_reader [OF q p tid] kept by simp
  have "tid < length (am_reads m)" using q tid by (simp add: quiet_manager_def)
  then show "\<exists>m'. sys_step order (End_Read tid) (m, rng, g) = Inr (m', rng, g) \<and> sys_inv n B i (m', rng, g) L"
    using kept by (simp add: deregisterROTransaction_def)
qed

text \<open>What such a reader finds.\<close>

lemma reader_finds_history:
  assumes inva: "sys_inv n B i s L" and tid: "tid < n" and u: "u < gs_node_num (snd (snd s))"
  shows "\<exists>ds. reader_finds tid u s = Inr ds \<and> mset ds = mset_set (replay (map snd (L u)) {})"
proof -
  obtain m rng g where s: "s = (m, rng, g)" by (cases s)
  obtain p d where q: "quiet_manager n i m" and p: "in_slot m (am_read_epoch m + 1) p d" and st: "open_store B i (am_read_epoch m + 1) g d L"
    using inva by (auto simp: sys_inv_def s)
  let ?E = "am_read_epoch m + 1"
  have st': "store_inv ?E B {} g d L" "tails_ok ?E (vd_intra_counter d) (vd_intra_counter d) {} g" using st by (auto simp: open_store_def)
  note D = store_invD [OF st'(1)]
  obtain v where v: "GetBlockByIndex g u = Inr v" using D(6) u by (auto simp: s)
  have v': "vertex_at ?E B v (L u)" "\<not> ve_locked v" using D(5) [OF _ v] u by (auto simp: s)
  then obtain N where h: "hist_inv ?E N v (L u)" and act: "active_ok ?E v" by (auto simp: vertex_at_def)
  have "tail_ok ?E (vd_intra_counter d) v" using tails_okD [OF st'(2) _ v] u by (simp add: s)
  from reads_after_commit [OF h act this] obtain xs where xs: "for_each_edge Fine (Composite ?E (vd_intra_counter d)) v = Inr xs"
    "mset (map ew_e xs) = mset_set (edges_at (L u) ?E)" by blast
  have "log_bounded ?E (L u)" using h by (simp add: hist_inv_def)
  then have "edges_at (L u) ?E = replay (map snd (L u)) {}" by (rule edges_at_late) simp
  moreover have "locked_block g u = Inr v" using v v'(2) by (simp add: locked_block_def getReadLock_def)
  ultimately show ?thesis using register_reader [OF q p tid] xs by (simp add: reader_finds_def s)
qed

section \<open>Runs\<close>

lemma fold_logs:
  "map snd (fold (add_log E) (map (with_oldest m) ws) L u) =
    map snd (L u) @ map snd (filter (\<lambda>w. fst w = u) (map (\<lambda>(u, op, junk). (u, op)) ws))"
  by (induction ws arbitrary: L) (auto simp: add_log_def with_oldest_def)

lemma op_log_committed: "map snd (op_log op s L u) = map snd (L u) @ committed [op] u"
  by (cases op) (simp_all add: op_log_def committed_def fold_logs)

lemma committed_Cons: "committed (op # ops) u = committed [op] u @ committed ops u"
  by (simp add: committed_def)

lemma sys_step_kept:
  assumes inva: "sys_inv n B i s L" and legal: "legal_op op s L" and bounds: "i + 2 < 2 ^ 31" "B + 2 * length (op_writes op) < 2 ^ 31"
    and order: "\<And>t. transform_order t (order t)"
  shows "\<exists>s'. sys_step order op s = Inr s' \<and> sys_inv n (B + 2 * length (op_writes op)) (i + 1) s' (op_log op s L) \<and>
    gs_node_num (snd (snd s')) = gs_node_num (snd (snd s))"
proof -
  obtain m rng g where s: "s = (m, rng, g)" by (cases s)
  have n: "length (am_reads m) = n" using inva by (auto simp: s sys_inv_def quiet_manager_def)
  show ?thesis
  proof (cases op)
    case (Write_Txn tid addr ws)
    then show ?thesis using write_step [OF inva [unfolded s] _ bounds(1), of tid addr ws order] legal bounds(2) by (fastforce simp: s)
  next
    case Updater_Turn
    then show ?thesis using updater_step [OF inva [unfolded s] bounds(1) order] sys_inv_mono [of n B i _ L "i + 1"]
      by (fastforce simp: s op_log_def)
  next
    case (Begin_Read tid)
    then show ?thesis using reader_steps(1) [OF inva [unfolded s], of tid order] sys_inv_mono [of n B i _ L "i + 1"] legal n
      by (fastforce simp: s op_log_def legal_op_def)
  next
    case (End_Read tid)
    then show ?thesis using reader_steps(2) [OF inva [unfolded s], of tid order] sys_inv_mono [of n B i _ L "i + 1"] legal n
      by (fastforce simp: s op_log_def legal_op_def)
  qed
qed

lemma sys_run_kept:
  assumes "sys_inv n B i s L" "legal_ops order ops s L" "i + length ops + 2 < 2 ^ 31" "B + 2 * sys_writes ops < 2 ^ 31"
    and order: "\<And>t. transform_order t (order t)"
  shows "\<exists>s' L'. foldR (sys_step order) ops s = Inr s' \<and> sys_inv n (B + 2 * sys_writes ops) (i + length ops) s' L' \<and>
    gs_node_num (snd (snd s')) = gs_node_num (snd (snd s)) \<and> (\<forall>u. map snd (L' u) = map snd (L u) @ committed ops u)"
  using assms(1-4)
proof (induction ops arbitrary: B i s L)
  case (Cons op ops)
  have w: "sys_writes (op # ops) = length (op_writes op) + sys_writes ops" by (simp add: sys_writes_def)
  obtain s1 where s1: "sys_step order op s = Inr s1" "sys_inv n (B + 2 * length (op_writes op)) (i + 1) s1 (op_log op s L)"
    "gs_node_num (snd (snd s1)) = gs_node_num (snd (snd s))"
    using sys_step_kept [OF Cons.prems(1) _ _ _ order, of op] Cons.prems(2-4) w by auto
  have "legal_ops order ops s1 (op_log op s L)" using Cons.prems(2) s1(1) by simp
  moreover have i: "i + 1 + length ops = i + length (op # ops)"
    "B + 2 * length (op_writes op) + 2 * sys_writes ops = B + 2 * sys_writes (op # ops)" by (simp_all add: w)
  ultimately have "\<exists>s' L'. foldR (sys_step order) ops s1 = Inr s' \<and> sys_inv n (B + 2 * sys_writes (op # ops)) (i + length (op # ops)) s' L' \<and>
    gs_node_num (snd (snd s')) = gs_node_num (snd (snd s1)) \<and> (\<forall>u. map snd (L' u) = map snd (op_log op s L u) @ committed ops u)"
    using Cons.IH [OF s1(2), unfolded i] Cons.prems(3,4) by simp
  then show ?case using s1(1,3) by (simp add: op_log_committed committed_Cons [of op ops])
qed (auto simp: sys_writes_def committed_def)

text \<open>The constructed system.\<close>

lemma sys_start:
  assumes pools: "\<forall>pool \<in> set pools. length pool = 2 * TMPNUM" "new_vertices pools (GraphStore_new c) = Inr (g0, ids)"
    and m0: "AllVBManager_new False n = Inr m0"
  shows "sys_inv n 0 0 (m0, rng, g0) (\<lambda>_. [])" "gs_node_num g0 = length pools"
proof -
  have g0: "gs_ok g0" "gs_node_num g0 = length pools" "\<forall>u < length pools. fresh_block u g0"
    using new_vertices_spec [OF GraphStore_new_ok(1) pools(1), of c] pools(2) by (auto simp: GraphStore_new_ok(2))
  show "gs_node_num g0 = length pools" by (rule g0(2))
  have rest: "store_rest 0 0 g0 (\<lambda>_. [])" using g0 fresh_rests by (fastforce simp: store_rest_def)
  have one: "(0 :: epoch_t) < 1" "\<not> has_tmp 1" by (simp_all add: has_tmp_threshold)
  have "open_store 0 0 1 g0 (VBData_new 1) (\<lambda>_. [])"
    using rest_next_epoch [OF rest one] rest_tails [OF rest one(1)] by (simp add: open_store_def VBData_new_def)
  moreover have m: "m0 = ps_m (start_psys n)" using m0 by (simp add: start_psys_constructed)
  then have "ring_ok m0" "que_ok m0" using start_psys_ok [of n] by (simp_all add: psys_ok_def manager_ok_def)
  then have "quiet_manager n 0 m0" unfolding quiet_manager_def m by (auto simp: start_psys_def)
  moreover have "ring_slot (1 :: epoch_t) = 1" by (simp add: ring_slot_def MODPM_def)
  then have "in_slot m0 1 0 (VBData_new 1)"
    by (simp add: m start_psys_def in_slot_def alive_vbd_def VBData_new_def MAXSIMULBATCH_def)
  ultimately show "sys_inv n 0 0 (m0, rng, g0) (\<lambda>_. [])" by (auto simp: sys_inv_def m start_psys_def)
qed

lemma sys_reached:
  assumes "\<forall>pool \<in> set pools. length pool = 2 * TMPNUM" "new_vertices pools (GraphStore_new c) = Inr (g0, ids)"
    and "AllVBManager_new False n = Inr m0" and order: "\<And>t. transform_order t (order t)"
    and legal: "legal_ops order ops (m0, rng, g0) (\<lambda>_. [])" and bounds: "2 * sys_writes ops < 2 ^ 31" "length ops + 2 < 2 ^ 31"
  obtains m rng' g L where "foldR (sys_step order) ops (m0, rng, g0) = Inr (m, rng', g)"
    "sys_inv n (2 * sys_writes ops) (length ops) (m, rng', g) L" "gs_node_num g = length pools" "\<forall>u. map snd (L u) = committed ops u"
  using sys_run_kept [OF sys_start(1) [OF assms(1-3)] legal _ _ order] bounds sys_start(2) [OF assms(1-3)] by auto

text \<open>
  C4: Vertices are created and the manager is constructed; then, one after the other and in any order, write
  transactions register, write through the store, commit and deregister, the updater takes turns, and readers
  register and deregister. No operation faults or deadlocks. A reader that registers in the state that is
  reached, with whatever is published by then, finds at every vertex exactly the destinations that replaying
  the writes of all transactions so far leaves, each once.
\<close>

theorem readers_find_committed_writes:
  assumes pools: "\<forall>pool \<in> set pools. length pool = 2 * TMPNUM" "new_vertices pools (GraphStore_new c) = Inr (g0, ids)"
    and m0: "AllVBManager_new False n = Inr m0" and order: "\<And>t. transform_order t (order t)"
    and legal: "legal_ops order ops (m0, rng, g0) (\<lambda>_. [])" and bounds: "2 * sys_writes ops < 2 ^ 31" "length ops + 2 < 2 ^ 31"
  shows "\<exists>s. foldR (sys_step order) ops (m0, rng, g0) = Inr s \<and>
    (\<forall>u < length pools. \<forall>tid < n. \<exists>ds. reader_finds tid u s = Inr ds \<and> mset ds = mset_set (replay (committed ops u) {}))"
proof -
  obtain m rng' g L where "foldR (sys_step order) ops (m0, rng, g0) = Inr (m, rng', g)" "sys_inv n (2 * sys_writes ops) (length ops) (m, rng', g) L"
    "gs_node_num g = length pools" "\<forall>u. map snd (L u) = committed ops u"
    by (rule sys_reached [OF assms])
  then show ?thesis using reader_finds_history [of n "2 * sys_writes ops" "length ops" "(m, rng', g)" L] by simp
qed

text \<open>
  C14: In every state that such a run reaches one turn of the updater returns, without a fault, with every
  epoch below the current one published; and readers that register then find what they found before,
  the destinations that all committed writes leave.
\<close>

theorem updater_publishes_waiting_epochs:
  assumes pools: "\<forall>pool \<in> set pools. length pool = 2 * TMPNUM" "new_vertices pools (GraphStore_new c) = Inr (g0, ids)"
    and m0: "AllVBManager_new False n = Inr m0" and order: "\<And>t. transform_order t (order t)"
    and legal: "legal_ops order ops (m0, rng, g0) (\<lambda>_. [])" and bounds: "2 * sys_writes ops < 2 ^ 31" "length ops + 2 < 2 ^ 31"
  shows "\<exists>m rng' g m' g'. foldR (sys_step order) ops (m0, rng, g0) = Inr (m, rng', g) \<and> updater_turn order (m, g) = Inr (m', g') \<and>
    am_read_epoch m' + 1 = am_cur m \<and> am_cur m' = am_cur m \<and>
    (\<forall>u < length pools. \<forall>tid < n. \<exists>ds. reader_finds tid u (m', rng', g') = Inr ds \<and> mset ds = mset_set (replay (committed ops u) {}))"
proof -
  obtain m rng' g L where run: "foldR (sys_step order) ops (m0, rng, g0) = Inr (m, rng', g)" "sys_inv n (2 * sys_writes ops) (length ops) (m, rng', g) L"
    "gs_node_num g = length pools" "\<forall>u. map snd (L u) = committed ops u"
    by (rule sys_reached [OF assms])
  obtain m' g' where t: "sys_step order Updater_Turn (m, rng', g) = Inr (m', rng', g')" "sys_inv n (2 * sys_writes ops) (length ops) (m', rng', g') L"
    "am_read_epoch m' + 1 = am_cur m" "am_cur m' = am_cur m" "gs_node_num g' = gs_node_num g"
    using updater_step [OF run(2) bounds(2) order] by blast
  have "updater_turn order (m, g) = Inr (m', g')" using t(1) by (auto simp: bind_res_Inr_iff)
  moreover have "\<exists>ds. reader_finds tid u (m', rng', g') = Inr ds \<and> mset ds = mset_set (replay (committed ops u) {})"
    if "u < length pools" "tid < n" for u tid
    using reader_finds_history [OF t(2) that(2), of u] that(1) t(5) run(3,4) by simp
  ultimately show ?thesis using run(1) t(3,4) by blast
qed

section \<open>The end of a run\<close>

text \<open>\<open>FinalizeNoMoreTxn\<close> sets two flags that publishing does not read.\<close>

definition halted :: "manager \<Rightarrow> manager" where
  "halted m = m\<lparr>am_no_more := True, am_stopped := True\<rparr>"

lemma publish_one_halted:
  "publish_one order (m, g) = Inr (m', g') \<Longrightarrow> publish_one order (halted m, g) = Inr (halted m', g')"
proof -
  have "next_VBData (halted m) = next_VBData m" by (simp add: next_VBData_def halted_def cong: option.case_cong if_cong)
  moreover have "mark_published p d (halted m) = halted (mark_published p d m)" for p d by (simp add: mark_published_def halted_def)
  ultimately show "publish_one order (m, g) = Inr (m', g') \<Longrightarrow> publish_one order (halted m, g) = Inr (halted m', g')"
    by (auto simp: publish_one_def bind_res_Inr_iff)
qed

lemma publish_times_stop: "\<not> am_read_epoch (fst s) + 1 < c \<Longrightarrow> publish_times order k c s = Inr s"
  by (cases k) simp_all

lemma publish_open:
  assumes q: "quiet_manager n i m" and p: "in_slot m (am_read_epoch m + 1) p d" and st: "open_store B i (am_read_epoch m + 1) g d L"
    and order: "\<And>t. transform_order t (order t)"
  obtains m' g' where "publish_one order (m, g) = Inr (m', g')" "am_read_epoch m' = am_read_epoch m + 1" "am_cur m' = am_cur m"
    "am_reads m' = am_reads m" "am_min_read_epoch m' = am_min_read_epoch m" "store_rest (am_read_epoch m + 1) B g' L" "gs_node_num g' = gs_node_num g"
proof -
  obtain d' g' where c: "VBData_commitVersionBlock order d g = Inr (d', g')" "store_rest (am_read_epoch m + 1) B g' L" "gs_node_num g' = gs_node_num g"
    using commit_epoch [OF _ order] st unfolding open_store_def by metis
  have "publish_one order (m, g) = Inr (mark_published p d' m, g')" using quiet_next_VBData [OF q p] c(1) by (simp add: publish_one_def)
  then show thesis by (rule that) (simp_all add: c(2,3) mark_published_def)
qed

lemma finalize_step:
  assumes inva: "sys_inv n B i (m, rng, g) L" and i: "i + 2 < 2 ^ 31" and order: "\<And>t. transform_order t (order t)"
  obtains m' g' where "FinalizeNoMoreTxn order (m, g) = Inr (m', g')" "am_read_epoch m' = am_cur m" "am_cur m' = am_cur m"
    "length (am_reads m') = n" "am_min_read_epoch m' \<le> am_cur m" "store_rest (am_cur m) B g' L" "gs_node_num g' = gs_node_num g"
proof -
  obtain p d where q: "quiet_manager n i m" and p: "in_slot m (am_read_epoch m + 1) p d" and st: "open_store B i (am_read_epoch m + 1) g d L"
    using inva by (auto simp: sys_inv_def)
  let ?c = "am_cur m + 1"
  have "unat (am_cur m) + 1 < 2 ^ 31" using q i by (simp add: quiet_manager_def)
  then have c: "unat ?c = unat (am_cur m) + 1" by (simp add: unat_word_ariths)
  have fin: "FinalizeNoMoreTxn order (m, g) = publish_times order (Suc (unat (am_cur m))) ?c (halted m, g)"
    if "am_read_epoch m + 1 < ?c" using that c by (simp add: FinalizeNoMoreTxn_def commitVersionBlock_def Let_def halted_def)
  have last: "\<exists>m' g'. publish_times order (Suc k) ?c (halted m1, g1) = Inr (halted m', g') \<and> am_read_epoch m' = am_cur m \<and> am_cur m' = am_cur m \<and>
      length (am_reads m') = n \<and> am_min_read_epoch m' \<le> am_cur m \<and> store_rest (am_cur m) B g' L \<and> gs_node_num g' = gs_node_num g1"
    if inv1: "sys_inv n B i (m1, rng, g1) L" and cur: "am_cur m1 = am_cur m" "am_read_epoch m1 + 1 = am_cur m" for m1 g1 k
  proof -
    obtain p1 d1 where q1: "quiet_manager n i m1" "in_slot m1 (am_read_epoch m1 + 1) p1 d1" "open_store B i (am_read_epoch m1 + 1) g1 d1 L"
      using inv1 by (auto simp: sys_inv_def)
    obtain m' g' where pub: "publish_one order (m1, g1) = Inr (m', g')" "am_read_epoch m' = am_cur m" "am_cur m' = am_cur m"
      "am_reads m' = am_reads m1" "am_min_read_epoch m' = am_min_read_epoch m1" "store_rest (am_cur m) B g' L" "gs_node_num g' = gs_node_num g1"
      using publish_open [OF q1 order] cur by metis
    have "am_read_epoch (halted m1) + 1 < ?c" using cur(2) c by (simp add: halted_def word_less_nat_alt)
    moreover have "\<not> am_read_epoch (halted m') + 1 < ?c" using pub(2) by (simp add: halted_def)
    ultimately have "publish_times order (Suc k) ?c (halted m1, g1) = Inr (halted m', g')"
      using publish_one_halted [OF pub(1)] by (simp add: publish_times_stop)
    moreover have "am_min_read_epoch m1 \<le> am_cur m" using q1(1) cur(1) by (auto simp: quiet_manager_def)
    ultimately show ?thesis using pub q1(1) by (auto simp: quiet_manager_def)
  qed
  have "\<exists>m' g'. FinalizeNoMoreTxn order (m, g) = Inr (halted m', g') \<and> am_read_epoch m' = am_cur m \<and> am_cur m' = am_cur m \<and>
      length (am_reads m') = n \<and> am_min_read_epoch m' \<le> am_cur m \<and> store_rest (am_cur m) B g' L \<and> gs_node_num g' = gs_node_num g"
  proof (cases "am_read_epoch m + 1 < am_cur m")
    case False
    then have "am_read_epoch m + 1 = am_cur m" using quiet_epochs(2) [OF q] by simp
    moreover from this have "am_read_epoch m + 1 < ?c" using c by (simp add: word_less_nat_alt)
    ultimately show ?thesis using last [OF inva refl] fin by simp
  next
    case True
    obtain m1 g1 where m1: "publish_one order (m, g) = Inr (m1, g1)" "am_read_epoch m1 = am_read_epoch m + 1" "am_cur m1 = am_cur m"
      "am_cur m = am_read_epoch m + 2" "sys_inv n B i (m1, rng, g1) L" "gs_node_num g1 = gs_node_num g"
      using publish_waiting [OF q p st True i order] by blast
    have less: "am_read_epoch m + 1 < ?c" using True c by (simp add: word_less_nat_alt)
    have "am_cur m \<noteq> 0" using True by auto
    then obtain k where k: "unat (am_cur m) = Suc k" by (metis unat_eq_0 not0_implies_Suc)
    have "FinalizeNoMoreTxn order (m, g) = publish_times order (Suc k) ?c (halted m1, g1)"
      using fin [OF less] less publish_one_halted [OF m1(1)] by (simp add: k halted_def)
    moreover have "am_read_epoch m1 + 1 = am_cur m" using m1(2,4) by (simp add: add.assoc)
    ultimately show ?thesis using last [OF m1(5,3)] m1(6) by simp
  qed
  then show thesis using that by (auto simp: halted_def)
qed

text \<open>
  C15: After every such run \<open>FinalizeNoMoreTxn\<close> returns, without a fault, with every epoch published, the
  current one included; and a reader that registers then finds at every vertex exactly the destinations
  that replaying all committed writes leaves.
\<close>

theorem finalize_publishes_everything:
  assumes pools: "\<forall>pool \<in> set pools. length pool = 2 * TMPNUM" "new_vertices pools (GraphStore_new c) = Inr (g0, ids)"
    and m0: "AllVBManager_new False n = Inr m0" and order: "\<And>t. transform_order t (order t)"
    and legal: "legal_ops order ops (m0, rng, g0) (\<lambda>_. [])" and bounds: "2 * sys_writes ops < 2 ^ 31" "length ops + 2 < 2 ^ 31"
  shows "\<exists>m rng' g m' g'. foldR (sys_step order) ops (m0, rng, g0) = Inr (m, rng', g) \<and> FinalizeNoMoreTxn order (m, g) = Inr (m', g') \<and>
    am_read_epoch m' = am_cur m \<and> am_cur m' = am_cur m \<and>
    (\<forall>u < length pools. \<forall>tid < n. \<exists>ds. reader_finds tid u (m', rng', g') = Inr ds \<and> mset ds = mset_set (replay (committed ops u) {}))"
proof -
  obtain m rng' g L where run: "foldR (sys_step order) ops (m0, rng, g0) = Inr (m, rng', g)" "sys_inv n (2 * sys_writes ops) (length ops) (m, rng', g) L"
    "gs_node_num g = length pools" "\<forall>u. map snd (L u) = committed ops u"
    by (rule sys_reached [OF assms])
  obtain m' g' where fin: "FinalizeNoMoreTxn order (m, g) = Inr (m', g')" "am_read_epoch m' = am_cur m" "am_cur m' = am_cur m"
    "length (am_reads m') = n" "am_min_read_epoch m' \<le> am_cur m" "store_rest (am_cur m) (2 * sys_writes ops) g' L" "gs_node_num g' = gs_node_num g"
    using finalize_step [OF run(2) bounds(2) order] by blast
  have "unat (am_cur m) + 1 < 2 ^ 31" using run(2) bounds(2) by (auto simp: sys_inv_def quiet_manager_def)
  then have "\<not> am_cur m + 1 \<le> am_cur m" by (simp add: word_le_nat_alt unat_word_ariths)
  then have reg: "registerROTransaction tid txn m' = Inr (txn\<lparr>tx_read_epoch := am_cur m, tx_read_ts := Composite (am_cur m) INTRA_MAX\<rparr>,
      m'\<lparr>am_reads := (am_reads m')[tid := am_cur m]\<rparr>)" if "tid < n" for tid txn
    using that fin(2-5) by (simp add: registerROTransaction_def choose_read_ts_def not_less Let_def)
  have "\<exists>ds. reader_finds tid u (m', rng', g') = Inr ds \<and> mset ds = mset_set (replay (committed ops u) {})"
    if u: "u < length pools" and tid: "tid < n" for u tid
  proof -
    obtain v N where v: "GetBlockByIndex g' u = Inr v" "rest_inv (am_cur m) N v (L u)"
      using fin(6,7) u run(3) unfolding store_rest_def by metis
    have "locked_block g' u = Inr v" using v by (simp add: locked_block_def getReadLock_def rest_inv_def)
    moreover have "edges_at (L u) (am_cur m) = replay (committed ops u) {}"
      using v(2) edges_at_late [of "am_cur m" "L u" "am_cur m"] run(4) by (simp add: rest_inv_def)
    ultimately show ?thesis using rest_reads [OF v(2), of "am_cur m"] reg [OF tid] by (auto simp: reader_finds_def)
  qed
  then show ?thesis using run(1) fin(1-3) by blast
qed

text \<open>
  A run of two threads: the first transaction opens an epoch (its random number is 0), the updater publishes,
  and two more write while a reader runs.
\<close>

definition sample_cwrite :: "nat \<Rightarrow> vop \<Rightarrow> cwrite" where
  "sample_cwrite u op = (u, op, \<lparr>ew_e = 0, ew_block = 0, ew_index = 0\<rparr>)"

definition sample_ops :: "sys_op list" where
  "sample_ops =
     [Write_Txn 0 100 [sample_cwrite 0 (VInsert 1 5), sample_cwrite 1 (VInsert 0 5)],
      Updater_Turn, Begin_Read 1,
      Write_Txn 1 200 [sample_cwrite 0 (VInsert 2 7)],
      Write_Txn 0 300 [sample_cwrite 0 (VDelete 1 0), sample_cwrite 1 (VInsert 2 3)],
      End_Read 1]"

definition sample_rng :: "nat \<Rightarrow> 64 word" where
  "sample_rng t = (if t = 0 then 6295753664692896711 else 1)"

lemma sample_ops_legal: "legal_ops stable_order sample_ops (ps_m (start_psys 2), sample_rng, sample_store_start) (\<lambda>_. [])"
  by code_simp

lemma sample_run_fits:
  "\<forall>pool \<in> set (replicate 3 sample_pool). length pool = 2 * TMPNUM" "2 * sys_writes sample_ops < 2 ^ 31" "length sample_ops + 2 < 2 ^ 31"
  by (simp_all add: sample_pool_def TMPNUM_def sys_writes_def sample_ops_def)

theorem readers_find_committed_writes_witness:
  "\<exists>s ds. foldR (sys_step stable_order) sample_ops (ps_m (start_psys 2), sample_rng, sample_store_start) = Inr s \<and>
     reader_finds 1 0 s = Inr ds \<and> mset ds = {#2#}"
proof -
  have at: "replay (committed sample_ops 0) {} = {2}"
    by (auto simp: committed_def sample_ops_def sample_cwrite_def)
  from readers_find_committed_writes [OF sample_run_fits(1) sample_store_created start_psys_constructed stable_order_ok sample_ops_legal
      sample_run_fits(2,3)]
  obtain s ds where "foldR (sys_step stable_order) sample_ops (ps_m (start_psys 2), sample_rng, sample_store_start) = Inr s"
    "reader_finds 1 0 s = Inr ds" "mset ds = mset_set (replay (committed sample_ops 0) {})"
    by (metis length_replicate zero_less_numeral one_less_numeral_iff semiring_norm(76))
  then show ?thesis unfolding at by auto
qed

theorem updater_publishes_waiting_epochs_witness:
  "\<exists>m rng g m' g'. foldR (sys_step stable_order) sample_ops (ps_m (start_psys 2), sample_rng, sample_store_start) = Inr (m, rng, g) \<and>
     updater_turn stable_order (m, g) = Inr (m', g') \<and> am_read_epoch m' + 1 = am_cur m"
  using updater_publishes_waiting_epochs [OF sample_run_fits(1) sample_store_created start_psys_constructed stable_order_ok sample_ops_legal
      sample_run_fits(2,3)] by blast

theorem finalize_publishes_everything_witness:
  "\<exists>m rng g m' g'. foldR (sys_step stable_order) sample_ops (ps_m (start_psys 2), sample_rng, sample_store_start) = Inr (m, rng, g) \<and>
     FinalizeNoMoreTxn stable_order (m, g) = Inr (m', g') \<and> am_read_epoch m' = am_cur m"
  using finalize_publishes_everything [OF sample_run_fits(1) sample_store_created start_psys_constructed stable_order_ok sample_ops_legal
      sample_run_fits(2,3)] by blast

end
