(* ===== verification/Spec2Isabelle.thy ===== *)
theory Spec2Isabelle
  imports AVB_Types Hash_Table Version_Chain Transactions Vertex_History Graph_Store Epoch_Progress Pool_Safety
    Algo_LCC Algo_CDLP Algo_WCC Algo_BFS Algo_PageRank Shortest_Paths Store_History Edge_Parsing Edge_Reader
    Hash_Map Pending_Reads Dirty_Reads Sorted_Scan Utils System_Run
begin

text \<open>
  Verification library for AVBGraph, an in-memory dynamic graph store with multi-version reads (C++).

  The program. A graph is a vector of vertices (\<open>GraphStore\<close>). Each vertex (\<open>VertexEdges\<close>) keeps a sorted
  primary array of edges, a buffer of 64 recent ones, a hash set of its destinations, sixteen
  temporary version blocks for the epochs in flight and a chain of published version blocks with the
  overwritten versions. Write transactions register in an epoch with \<open>AllVBManager\<close>, whose updater thread
  publishes an epoch once no writer of it is left: it runs \<open>Transform\<close> on every temporary block of that
  epoch. Readers register at the last published epoch; the watermark of the oldest reader says what
  may be collected. Memory comes from the HAL memory pool, and the graph algorithms read snapshots.

  The theories, in the order they build on each other:

  \<^item> \<open>AVB_Prelude\<close>: results that may be a fault (\<open>fault + 'a\<close>: reads out of bounds, null or wild pointers,
    self-deadlock, endless loops), ring distances, lists written by index, folds that may fault.
  \<^item> \<open>AVB_Types\<close>: \<open>data_types.h\<close>, \<open>data_types.cpp\<close>: flag bits, composite timestamps, edge structs. \<open>Edge_Parsing\<close>:
    \<open>parse_edge\<close> of the three edge structs and their binary writers; parsing reads back what printing gives, and
    densified identifiers are dense (\<open>densified_ids_are_dense\<close>). What \<open>std::stod\<close> returns is a parameter.
  \<^item> \<open>Hash_Table\<close>: \<open>HashTable2\<close> of \<open>EdgeBlock/HashTable.h\<close> refines a set (\<open>HashTable2_refines_set\<close>).
    \<open>Hash_Map\<close>: the table with values \<open>HashTable\<close> of the same file, which refines a map as long as no key is inserted
    twice; the store does not use it.
  \<^item> \<open>Version_Block\<close>, \<open>Version_Chain\<close>: \<open>VersionBlock\<close>, \<open>TmpVersionBlock\<close>, \<open>VersionBlockManager\<close>, \<open>VBIterator\<close>. The
    chain of blocks is a list, newest first, and a pointer to a block is a suffix of it.
  \<^item> \<open>Transactions\<close>: \<open>Transaction\<close> and the per-epoch \<open>VBData\<close>: positions within an epoch, queued insertions.
  \<^item> \<open>Vertex_Edges\<close> (state, lookups, merge), \<open>Vertex_Writes\<close> (\<open>build\<close>, insert, delete, \<open>Transform\<close>), \<open>Vertex_Reads\<close>
    (the reading loops): the definitions for \<open>VertexEdges.h\<close> and \<open>VertexEdges.cpp\<close>.
  \<^item> \<open>Vertex_Merge\<close>: the merge of the buffer is a sorted union. \<open>Vertex_Snapshot\<close>: a vertex as a multiset of
    version intervals, and the reading loops against it. \<open>Vertex_Slots\<close>, \<open>Vertex_Pending\<close>, \<open>Vertex_Ops\<close>: the
    invariant while an epoch is written, insert and delete against the intervals. \<open>Vertex_Transform\<close>:
    publishing settles the pending cells, for every order \<open>std::sort\<close> may give to equal entries.
    \<open>Vertex_History\<close>: the end-to-end theorem \<open>readers_see_committed_history\<close>, by which the readers of an epoch
    see what replaying the successful writes up to that epoch leaves. \<open>Vertex_Degree\<close>: the versioned degree.
  \<^item> \<open>Graph_Store\<close>: \<open>GraphStore\<close>, \<open>Transaction::execute\<close> and \<open>commit\<close> on it. \<open>Store_History\<close>: the same end-to-end
    statement for the whole store, \<open>store_readers_see_committed_history\<close>: transactions with many edges lock
    the vertices they write, register them with the epoch and release them at commit, and
    \<open>VBData::commitVersionBlock\<close> publishes what is registered. \<open>Pending_Reads\<close>: what readers find while the next
    epoch is open and half written (\<open>readers_during_an_epoch\<close>): their snapshot, plus the pending first insertions,
    less the edges with pending deletions. \<open>Serial_Reads\<close>: what a reader finds that registers while an epoch is
    open and no write is under way. \<open>Dirty_Reads\<close>: readers of the last published epoch see what an open epoch
    has written so far, so their snapshots change under them (\<open>unpublished_epoch_shows_early\<close>).
  \<^item> \<open>Epoch_Manager\<close> (all operations of \<open>AllVBManager\<close> as one thread runs them), \<open>Epoch_Ring\<close> (the ring of
    \<open>VBData\<close> and the queue of published epochs), \<open>Epoch_Protocol\<close> (the same code cut into the atomic accesses
    of writers, readers and the updater), \<open>Epoch_Safety\<close> (an invariant of every interleaving, and what
    follows from it), \<open>Epoch_Traces\<close> (runs, among them the race of a late reader), \<open>Epoch_Progress\<close> (the minimal
    epochs, the random generator and smaller facts).
  \<^item> \<open>System_Run\<close>: the manager and the store together, driven as \<open>test_version_block.cpp\<close> drives them. Whole
    transactions, turns of the updater and registrations of readers follow each other in any order; nothing
    faults, and a reader that registers finds the destinations that all committed transactions leave
    (\<open>readers_find_committed_writes\<close>). From every state of such a run a turn of the updater publishes all epochs
    below the current one (\<open>updater_publishes_waiting_epochs\<close>), and \<open>FinalizeNoMoreTxn\<close> publishes the rest
    (\<open>finalize_publishes_everything\<close>). Its \<open>legal_ops\<close> says what the callers owe.
  \<^item> \<open>Pool_Vector\<close>, \<open>Pool_Index\<close>, \<open>Pool_Allocator\<close>, \<open>Pool_Safety\<close>: \<open>HALMemoryPool\<close>, from the carving of a mapping up to
    \<open>MemoryAllocator::Allocate\<close>. The locale \<open>block_source\<close> is the contract of a source of blocks; the
    per-thread pool and the allocator over all threads are its interpretations.
  \<^item> \<open>Algo_Snapshot\<close>, \<open>Algo_LCC\<close>, \<open>Algo_CDLP\<close>, \<open>Algo_WCC\<close>, \<open>Algo_BFS\<close>, \<open>Algo_PageRank\<close>, \<open>Algo_SSSP\<close>: the algorithms on a
    snapshot. A snapshot is a graph through \<open>reads_as\<close>: the reading loop of every vertex gives the neighbours
    \<open>adj\<close> lists. \<open>Sorted_Scan\<close>: exactly which edges the sorted reading loop visits, some deleted or later ones
    among them; \<open>Algo_CDLP\<close> shows when label propagation, which uses it, reads out of bounds
    (\<open>cdlp_fails_at_ghosts\<close>). \<open>Gap_Containers\<close>: the bitmap and the queue of \<open>gapbs.h\<close> that \<open>BFS\<close> works on. \<open>Shortest_Paths\<close>:
    delta-stepping ends and finds least distances (\<open>sssp_finds_shortest_paths\<close>); \<open>Algo_SSSP\<close> shows that its
    frontier array can overflow.
  \<^item> \<open>Edge_Reader\<close>: \<open>utils/EdgeReader.cpp\<close>, the reading thread and its consumer with their mutex and condition
    variables, step by step; every interleaving delivers every line and ends (\<open>edge_reader_delivers_all_lines\<close>).
    What \<open>sscanf\<close> stores is a parameter. \<open>Utils\<close>: the string and number helpers of \<open>utils.cpp\<close> and \<open>utils.h\<close>.

  Conventions. Machine integers keep their width as words where they wrap or carry flags: identifiers,
  epochs, positions and flag words do. Indexes, sizes and counters that the code bounds by memory are
  natural numbers, so their wrap-around at \<open>2 ^ 31\<close> or \<open>2 ^ 32\<close> is not modelled; the theorems on epochs
  assume fewer than \<open>2 ^ 31\<close> of them. \<open>FINEGRAIN\<close>, the default of the build files, is the build of the write
  path; the reading loops and the iterator are modelled in both builds. Pointers to version blocks,
  \<open>VBData\<close> and vertices are indexes or list suffixes; a deleted object leaves a hole, so following a
  dangling pointer is a fault. Addresses of the memory pool are integers and \<open>mmap\<close> is a parameter, assumed
  to return disjoint mappings (\<open>maps_ok\<close>). What fresh memory holds is a parameter too (\<open>junk\<close>, pools).

  Loops. A loop over an array is recursion on its indexes. Probing loops that need not end are
  \<open>partial_function\<close>s, and the theorems show that they return. Fuel appears where the code itself has a
  bound (rounds of \<open>compute_cdlp\<close> and \<open>compute_wcc\<close>) or where more turns change nothing: \<open>publish_times\<close> has one
  unit for each epoch up to its target; \<open>wcc_root\<close> has one read for each label, after which a walk
  repeats itself; the recursion of \<open>pt_free\<close> says how far it was followed. The main loops of \<open>bfs\<close> and
  \<open>compute_sssp\<close> are \<open>partial_function\<close>s whose \<open>None\<close> is an endless run, and their theorems show that they end.

  Concurrency. \<open>Epoch_Protocol\<close> interleaves the threads of the epoch manager access by access, under
  sequential consistency and before \<open>NoMoreTxn\<close>; it updates \<open>read_epoch\<close> together with the ring index
  \<open>read_epoch_cur\<close> that only the updater reads. Elsewhere a vertex is worked on under its lock, and a second
  acquisition by its holder is the fault \<open>Deadlock\<close>. The OpenMP loops of the algorithms run in index order, the
  parallel region of \<open>compute_sssp\<close> as one thread.

  Idealised numbers. Scores and distances of type \<open>double\<close> are rational numbers without rounding, so the total
  of the PageRank scores is exact where the program's is not; a stored weight whose exponent bits are all set
  (infinity, NaN) is read as a finite number; the bin index of \<open>compute_sssp\<close>, a \<open>double\<close> converted to \<open>size_t\<close>, is an
  unbounded natural number, and its marker for no bin does not collide with an index. The offset \<open>old_size\<close> of
  \<open>EdgeReader\<close>, an \<open>int\<close>, and the counters and sizes of the hash tables, 32-bit in the code, do not wrap.

  Not modelled. Rounding of doubles; \<open>Parse\<close> (command-line options), the file system helpers, clocks, map printers and
  counters of \<open>utils\<close>; \<open>my_print_block\<close>, \<open>getSum\<close> and other debugging aids; the coarse build's write path; destructors
  and the return of memory to the system; the statistics counters of \<open>BFS\<close> and \<open>PageRank\<close>; third-party code
  (\<open>CLI11\<close>, the rest of \<open>gapbs\<close>, \<open>RWSpinLock\<close>, TBB). The end-to-end theorems publish an epoch before the next one
  is written; several written epochs at one vertex are covered by the definitions only. Transactions on the store
  follow one another there; their interleaving is modelled within the epoch manager only.
\<close>


end
